(* ===== verification/FOS_Prelude.thy ===== *)
theory FOS_Prelude
  imports Main "HOL-Library.Word"
begin

text \<open>
  Shared vocabulary of the development: the machine integers of \<^verbatim>\<open>inc/types.h\<close>, the
  ways a kernel routine can stop instead of returning, the collections of rewrite
  rules, and the facts about lists and 32-bit words that several components use.
\<close>

unbundle bit_operations_syntax

section \<open>Machine integers\<close>

type_synonym u8 = "8 word"
type_synonym u16 = "16 word"
type_synonym u32 = "32 word"
type_synonym u64 = "64 word"

section \<open>Abnormal ends\<close>

text \<open>
  A routine that does not return to its caller ends in a value of this type: a call of
  \<^verbatim>\<open>panic\<close> (which never returns to the caller), a failed \<^verbatim>\<open>assert\<close> (with the number of
  the source line), a read or write through a null pointer, a loop that does not end, or an exception for which the
  processor finds no gate, so that it shuts down.
\<close>

datatype stop =
    Panic string
  | Assert_failed nat
  | Null_deref
  | Endless
  | Shutdown

type_synonym 'a res = "stop + 'a"

definition bind_res :: "'e + 'a \<Rightarrow> ('a \<Rightarrow> 'e + 'b) \<Rightarrow> 'e + 'b" where
  "bind_res m k = (case m of Inl e \<Rightarrow> Inl e | Inr x \<Rightarrow> k x)"

lemma bind_res_simps [simp]:
  "bind_res (Inl e) k = Inl e"
  "bind_res (Inr x) k = k x"
  by (simp_all add: bind_res_def)

lemma bind_res_Inr_iff:
  "bind_res m k = Inr y \<longleftrightarrow> (\<exists>x. m = Inr x \<and> k x = Inr y)"
  by (cases m) auto

lemma bind_res_Inr_E:
  assumes "bind_res m k = Inr y"
  obtains x where "m = Inr x" "k x = Inr y"
  using assms by (auto simp: bind_res_Inr_iff)

text \<open>A loop that may not end, as a routine: \<open>None\<close> is the loop that does not end.\<close>

definition loop_res :: "'a option \<Rightarrow> 'a res" where
  "loop_res m = (case m of None \<Rightarrow> Inl Endless | Some x \<Rightarrow> Inr x)"

lemma loop_res_simps [simp]: "loop_res (Some x) = Inr x" "loop_res None = Inl Endless"
  by (simp_all add: loop_res_def)

text \<open>The same operation on each element of a list, stopping at the first that does not return.\<close>

fun for_each :: "('a \<Rightarrow> 's \<Rightarrow> 's res) \<Rightarrow> 'a list \<Rightarrow> 's \<Rightarrow> 's res" where
  "for_each f [] s = Inr s"
| "for_each f (x # xs) s = bind_res (f x s) (for_each f xs)"

definition check :: "nat \<Rightarrow> bool \<Rightarrow> 'a res \<Rightarrow> 'a res" where
  "check line b k = (if b then k else Inl (Assert_failed line))"

lemma check_simps [simp]:
  "check line True k = k"
  "check line False k = Inl (Assert_failed line)"
  by (simp_all add: check_def)

lemma check_Inr_iff: "check line b k = Inr y \<longleftrightarrow> b \<and> k = Inr y"
  by (simp add: check_def)

section \<open>Collections of facts\<close>

named_theorems addr_simps \<open>rewriting of page-table indices and page-aligned addresses\<close>
named_theorems view_simps \<open>reading one field or one memory word of an updated state\<close>

section \<open>Words\<close>

text \<open>
  Bit operations on words read as natural numbers: shifts are multiplication and division
  by powers of two, masks are remainders, and a disjoint bitwise or is a sum.
\<close>

lemma unat_push_bit: "unat (push_bit n (w :: 'a::len word)) = unat w * 2 ^ n mod 2 ^ LENGTH('a)"
  by (simp only: unsigned_push_bit_eq) (simp only: push_bit_eq_mult take_bit_eq_mod)

lemma unat_drop_bit: "unat (drop_bit n (w :: 'a::len word)) = unat w div 2 ^ n"
  by (simp only: unat_drop_bit_eq) (simp only: drop_bit_eq_div)

lemma unat_and_mask: "unat (w AND mask n) = unat (w :: 'a::len word) mod 2 ^ n"
proof -
  have "unat (w AND mask n) = unat (take_bit n w)" by (simp only: take_bit_eq_mask)
  also have "\<dots> = take_bit n (unat w)" by (simp only: unsigned_take_bit_eq)
  finally show ?thesis by (simp only: take_bit_eq_mod)
qed

lemma and_not_mask: "x AND NOT (mask n) = x - (x AND mask n)" for x :: "'a::len word"
proof -
  have "x - (x AND mask n) = x AND NOT (x AND mask n)"
    by (rule disjunctive_diff) (simp add: bit_simps)
  also have "\<dots> = x AND NOT (mask n)"
    by (rule bit_word_eqI) (auto simp: bit_simps)
  finally show ?thesis by simp
qed

lemma unat_and_not_mask: "unat (x AND NOT (mask n)) = unat x - unat x mod 2 ^ n"
  for x :: "'a::len word"
proof -
  have "x AND mask n \<le> x" by (rule word_and_le2)
  then show ?thesis by (simp add: and_not_mask unat_sub unat_and_mask)
qed

lemma unat_or_disjoint: "a AND b = 0 \<Longrightarrow> unat (a OR b) = unat a + unat b" for a b :: "'a::len word"
proof -
  assume "a AND b = 0"
  then have "unat a AND unat b = 0" by (metis unsigned_0 unsigned_and_eq)
  then show ?thesis by (simp add: unsigned_or_eq disjunctive_add_eq_or)
qed

lemma bit_less_exp: "unat (w :: 'a::len word) < 2 ^ n \<Longrightarrow> bit w k \<Longrightarrow> k < n"
proof (rule ccontr)
  assume w: "unat w < 2 ^ n" and b: "bit w k" and "\<not> k < n"
  then have "unat w < 2 ^ k"
    by (meson le_less_trans less_le_trans nat_le_linear not_le one_le_numeral power_increasing)
  then have "\<not> bit (unat w) k" by (simp add: bit_iff_odd)
  with b show False by (simp add: bit_unsigned_iff)
qed

lemma push_bit_and_low:
  "unat (b :: 'a::len word) < 2 ^ n \<Longrightarrow> push_bit n a AND b = 0"
  by (rule bit_word_eqI) (auto simp: bit_simps dest: bit_less_exp)

lemma unat_u32_less: "unat (x :: u32) < 4294967296"
proof -
  have "unat x < 2 ^ LENGTH(32)" by (rule unsigned_less)
  then show ?thesis by simp
qed

lemma count_down: "0 < (n :: 'a::len word) \<Longrightarrow> unat (n - 1) < unat n"
  by (rule measure_unat) auto

lemma unat_u16_less: "unat (x :: u16) < 65536"
proof -
  have "unat x < 2 ^ LENGTH(16)" by (rule unsigned_less)
  then show ?thesis by simp
qed

lemma unat_u8_less: "unat (x :: u8) < 256"
proof -
  have "unat x < 2 ^ LENGTH(8)" by (rule unsigned_less)
  then show ?thesis by simp
qed

text \<open>The sign of a C \<^verbatim>\<open>int\<close> read off its bit pattern.\<close>

lemma sint_nonneg_iff: "0 \<le> sint x \<longleftrightarrow> unat x < 2 ^ 31" for x :: u32
proof -
  have r: "0 \<le> uint x" "uint x < 4294967296" using uint_lt2p [of x] by simp_all
  have d: "uint x div 2147483648 = (if uint x < 2147483648 then 0 else 1)" using r by auto
  have p: "(2 :: int) ^ 31 = 2147483648" by simp
  have "bit (uint x) 31 \<longleftrightarrow> odd (uint x div 2 ^ 31)" by (rule bit_iff_odd)
  then have b: "bit (uint x) 31 \<longleftrightarrow> \<not> uint x < 2147483648" unfolding p d by (cases "uint x < 2147483648") simp_all
  have "0 \<le> sint x \<longleftrightarrow> \<not> bit (uint x) 31"
    by (simp add: sint_uint signed_take_bit_nonnegative_iff)
  also have "\<dots> \<longleftrightarrow> uint x < 2147483648" using b by blast
  also have "\<dots> \<longleftrightarrow> unat x < 2 ^ 31" by (subst of_nat_less_iff [symmetric, where 'a = int]) simp
  finally show ?thesis .
qed
lemma sint_pos: "0 < sint x \<longleftrightarrow> 0 < unat x \<and> unat x < 2 ^ 31" for x :: u32
proof -
  have "sint x = 0 \<longleftrightarrow> x = 0" by (metis signed_0 signed_word_eqI)
  then show ?thesis using sint_nonneg_iff [of x] by (auto simp: word_unat_eq_iff order_le_less)
qed
text \<open>A loop counter that runs up to a bound: the distance to the bound shrinks.\<close>

lemma loop_measure: "i < n \<Longrightarrow> unat (n - (i + 1)) < unat (n - i)" for i n :: "'a::len word"
  using measure_unat [of "n - i"] by (simp add: diff_diff_eq)

lemma loop_step: "i < n \<Longrightarrow> unat (i + 1) = Suc (unat i)" for i n :: "'a::len word"
proof -
  assume "i < n"
  then have "unat i < unat n" by (simp add: word_less_nat_alt)
  moreover have "unat n < 2 ^ LENGTH('a)" by (rule unsigned_less)
  ultimately have "Suc (unat i) < 2 ^ LENGTH('a)" by linarith
  then show ?thesis by (simp add: unat_word_ariths(1))
qed

text \<open>The words from \<open>a\<close> up to but not including \<open>b\<close>, in increasing order.\<close>

definition word_range :: "u32 \<Rightarrow> u32 \<Rightarrow> u32 list" where
  "word_range a b = map of_nat [unat a ..< unat b]"

lemma word_range_Cons: "a < b \<Longrightarrow> word_range a b = a # word_range (a + 1) b"
  by (simp add: word_range_def word_less_nat_alt upt_conv_Cons loop_step [of a b])

lemma word_range_Nil: "\<not> a < b \<Longrightarrow> word_range a b = []"
  by (simp add: word_range_def word_less_nat_alt)

lemma set_word_range [simp]: "set (word_range a b) = {x. a \<le> x \<and> x < b}"
proof (intro equalityI subsetI)
  fix x assume "x \<in> set (word_range a b)"
  then obtain n where n: "x = of_nat n" "unat a \<le> n" "n < unat b" by (auto simp: word_range_def)
  moreover from n(3) have "n < 4294967296" using unat_u32_less [of b] by simp
  ultimately show "x \<in> {x. a \<le> x \<and> x < b}"
    by (simp add: word_le_nat_alt word_less_nat_alt unat_of_nat)
next
  fix x assume "x \<in> {x. a \<le> x \<and> x < b}"
  then have "unat x \<in> {unat a ..< unat b}" by (simp add: word_le_nat_alt word_less_nat_alt)
  then show "x \<in> set (word_range a b)" by (auto simp: word_range_def intro: rev_image_eqI)
qed

lemma distinct_word_range [simp]: "distinct (word_range a b)"
proof -
  have "inj_on (of_nat :: nat \<Rightarrow> u32) {unat a ..< unat b}"
    using unat_u32_less [of b]
    by (intro inj_onI) (auto dest: arg_cong [where f = unat] simp: unat_of_nat)
  then show ?thesis by (simp add: word_range_def distinct_map)
qed

lemma length_word_range [simp]: "length (word_range a b) = unat b - unat a"
  by (simp add: word_range_def)

lemma masks:
  "(0x3FF :: u32) = mask 10" "(0xFFF :: u32) = mask 12" "(0xFF :: u32) = mask 8"
  "(0xFFFF :: u32) = mask 16"
  by (simp_all add: mask_eq_exp_minus_1)

end
