(* ===== verification/FOS_Mmu.thy ===== *)
theory FOS_Mmu
  imports FOS_Prelude
begin

text \<open>
  The x86 address arithmetic of \<^verbatim>\<open>inc/mmu.h\<close>, the rounding macros of \<^verbatim>\<open>inc/types.h\<close>,
  the address map of \<^verbatim>\<open>inc/memlayout.h\<close> and the segment and gate descriptors. Every
  macro is a function on 32-bit words with the shifts and masks of the source.
\<close>

section \<open>Paging constants and macros\<close>

definition PAGE_SIZE :: u32 where [simp]: "PAGE_SIZE = 4096"
definition NPTENTRIES :: u32 where [simp]: "NPTENTRIES = 1024"
definition PTSIZE :: u32 where [simp]: "PTSIZE = PAGE_SIZE * NPTENTRIES"

definition PPN :: "u32 \<Rightarrow> u32" where
  "PPN la = drop_bit 12 la"

definition PDX :: "u32 \<Rightarrow> u32" where
  "PDX la = drop_bit 22 la AND 0x3FF"

definition PTX :: "u32 \<Rightarrow> u32" where
  "PTX la = drop_bit 12 la AND 0x3FF"

definition PGOFF :: "u32 \<Rightarrow> u32" where
  "PGOFF la = la AND 0xFFF"

definition PGADDR :: "u32 \<Rightarrow> u32 \<Rightarrow> u32 \<Rightarrow> u32" where
  "PGADDR d t off = push_bit 22 d OR push_bit 12 t OR off"

definition EXTRACT_ADDRESS :: "u32 \<Rightarrow> u32" where
  "EXTRACT_ADDRESS entry = entry AND NOT 0xFFF"

definition CONSTRUCT_ENTRY :: "u32 \<Rightarrow> u32 \<Rightarrow> u32" where
  "CONSTRUCT_ENTRY phys_frame_address permissions = phys_frame_address OR permissions"

text \<open>Entry flags, \<^verbatim>\<open>inc/mmu.h\<close> lines 60 to 72.\<close>

definition PERM_PRESENT :: u32 where [simp]: "PERM_PRESENT = 0x001"
definition PERM_WRITEABLE :: u32 where [simp]: "PERM_WRITEABLE = 0x002"
definition PERM_USER :: u32 where [simp]: "PERM_USER = 0x004"
definition PERM_AVAILABLE :: u32 where [simp]: "PERM_AVAILABLE = 0xE00"

section \<open>Rounding\<close>

definition ROUNDDOWN :: "u32 \<Rightarrow> u32 \<Rightarrow> u32" where
  "ROUNDDOWN a n = a - a mod n"

definition ROUNDUP :: "u32 \<Rightarrow> u32 \<Rightarrow> u32" where
  "ROUNDUP a n = ROUNDDOWN (a + n - 1) n"

section \<open>Address map\<close>

definition KERNEL_BASE :: u32 where [simp]: "KERNEL_BASE = 0xF0000000"
definition PHYS_IO_MEM :: u32 where [simp]: "PHYS_IO_MEM = 0x0A0000"
definition PHYS_EXTENDED_MEM :: u32 where [simp]: "PHYS_EXTENDED_MEM = 0x100000"
definition VPT :: u32 where [simp]: "VPT = KERNEL_BASE - PTSIZE"
definition KERNEL_STACK_TOP :: u32 where [simp]: "KERNEL_STACK_TOP = VPT"
definition KERNEL_STACK_SIZE :: u32 where [simp]: "KERNEL_STACK_SIZE = 8 * PAGE_SIZE"
definition USER_LIMIT :: u32 where [simp]: "USER_LIMIT = KERNEL_STACK_TOP - PTSIZE"
definition UVPT :: u32 where [simp]: "UVPT = USER_LIMIT - PTSIZE"
definition READ_ONLY_FRAMES_INFO :: u32 where [simp]: "READ_ONLY_FRAMES_INFO = UVPT - PTSIZE"
definition UENVS :: u32 where [simp]: "UENVS = READ_ONLY_FRAMES_INFO - PTSIZE"
definition USER_TOP :: u32 where [simp]: "USER_TOP = UENVS"
definition USTACKTOP :: u32 where [simp]: "USTACKTOP = USER_TOP - 2 * PAGE_SIZE"

definition GD_KT :: u16 where [simp]: "GD_KT = 0x08"
definition GD_KD :: u16 where [simp]: "GD_KD = 0x10"
definition GD_UT :: u16 where [simp]: "GD_UT = 0x18"
definition GD_UD :: u16 where [simp]: "GD_UD = 0x20"
definition GD_TSS :: u16 where [simp]: "GD_TSS = 0x28"

section \<open>Facts about indices\<close>

lemma unat_PPN: "unat (PPN la) = unat la div 4096"
  by (simp add: PPN_def unat_drop_bit)

lemma unat_PDX: "unat (PDX la) = unat la div 4194304"
proof -
  have "unat la div 4194304 < 1024"
    using unat_u32_less [of la] by (simp add: less_mult_imp_div_less)
  then show ?thesis
    by (simp add: PDX_def masks unat_and_mask unat_drop_bit)
qed

lemma unat_PTX: "unat (PTX la) = unat la div 4096 mod 1024"
  by (simp add: PTX_def masks unat_and_mask unat_drop_bit)

lemma unat_PGOFF: "unat (PGOFF la) = unat la mod 4096"
  by (simp add: PGOFF_def masks unat_and_mask)

lemma PDX_less [simp]: "PDX la < 1024"
  using unat_u32_less [of la] by (simp add: word_less_nat_alt unat_PDX less_mult_imp_div_less)

lemma PTX_less [simp]: "PTX la < 1024"
  by (simp add: word_less_nat_alt unat_PTX)

lemma PGOFF_less [simp]: "PGOFF la < 4096"
  by (simp add: word_less_nat_alt unat_PGOFF)

lemma PDX_user: "PDX va < 955 \<longleftrightarrow> va < USER_TOP"
  by (simp add: word_less_nat_alt unat_PDX) linarith

lemma unat_PGADDR:
  assumes "d < 1024" "t < 1024" "off < 4096"
  shows "unat (PGADDR d t off) = unat d * 4194304 + unat t * 4096 + unat off"
proof -
  from assms have d: "unat d < 1024" and t: "unat t < 1024" and off: "unat off < 4096"
    by (simp_all add: word_less_nat_alt)
  have 1: "unat (push_bit 22 d) = unat d * 4194304"
    using d by (simp add: unat_push_bit)
  have 2: "unat (push_bit 12 t) = unat t * 4096"
    using t by (simp add: unat_push_bit)
  have a: "push_bit 12 t AND off = 0"
    using off by (intro push_bit_and_low) simp
  have 3: "unat (push_bit 12 t OR off) = unat t * 4096 + unat off"
    using unat_or_disjoint [OF a] 2 by simp
  have b: "push_bit 22 d AND (push_bit 12 t OR off) = 0"
    using 3 t off by (intro push_bit_and_low) simp
  show ?thesis
    using unat_or_disjoint [OF b] 1 3 by (simp add: PGADDR_def)
qed

lemma split_address: "x div 4194304 * 4194304 + x div 4096 mod 1024 * 4096 + x mod 4096 = (x :: nat)"
proof -
  have "x div 4194304 = x div 4096 div 1024" by (simp add: div_mult2_eq [symmetric])
  then have "x div 4194304 * 1024 + x div 4096 mod 1024 = x div 4096" by simp
  then have "(x div 4194304 * 1024 + x div 4096 mod 1024) * 4096 + x mod 4096 = x"
    using div_mult_mod_eq [of x 4096] by simp
  then show ?thesis by (simp only: distrib_right mult.assoc mult_numeral_left_semiring_numeral
      mult_num_simps add_num_simps)
qed

lemma join_address:
  assumes "t < 1024" "off < (4096 :: nat)"
  shows "(d * 4194304 + t * 4096 + off) div 4194304 = d"
    and "(d * 4194304 + t * 4096 + off) div 4096 mod 1024 = t"
    and "(d * 4194304 + t * 4096 + off) mod 4096 = off"
proof -
  have eq: "d * 4194304 + t * 4096 + off = (d * 1024 + t) * 4096 + off" by simp
  have page: "(d * 4194304 + t * 4096 + off) div 4096 = d * 1024 + t"
    unfolding eq using assms by simp
  then show "(d * 4194304 + t * 4096 + off) div 4096 mod 1024 = t" using assms by simp
  have "(d * 4194304 + t * 4096 + off) div 4194304 = (d * 4194304 + t * 4096 + off) div 4096 div 1024"
    by (simp add: div_mult2_eq [symmetric])
  then show "(d * 4194304 + t * 4096 + off) div 4194304 = d" using page assms by simp
  show "(d * 4194304 + t * 4096 + off) mod 4096 = off"
    unfolding eq using assms by (simp only: mod_mult_self3 mod_less)
qed

text \<open>
  The three index macros cut a linear address into parts that rebuild it, and they
  read back the parts of an address built by \<^verbatim>\<open>PGADDR\<close> (\<^verbatim>\<open>inc/mmu.h\<close> lines 25 to 44).
\<close>

theorem linear_address_roundtrip:
  "PGADDR (PDX la) (PTX la) (PGOFF la) = la \<and>
   (d < 1024 \<longrightarrow> t < 1024 \<longrightarrow> off < 4096 \<longrightarrow>
     PDX (PGADDR d t off) = d \<and> PTX (PGADDR d t off) = t \<and> PGOFF (PGADDR d t off) = off)"
proof (intro conjI impI)
  have "unat (PGADDR (PDX la) (PTX la) (PGOFF la)) = unat la"
    by (simp only: unat_PGADDR [OF PDX_less PTX_less PGOFF_less] unat_PDX unat_PTX unat_PGOFF
        split_address)
  then show "PGADDR (PDX la) (PTX la) (PGOFF la) = la"
    by (simp add: word_unat_eq_iff)
next
  assume "d < 1024" "t < 1024" "off < 4096"
  moreover from this have "unat d < 1024" "unat t < 1024" "unat off < 4096"
    by (simp_all add: word_less_nat_alt)
  ultimately show "PDX (PGADDR d t off) = d" "PTX (PGADDR d t off) = t"
    "PGOFF (PGADDR d t off) = off"
    by (simp_all add: word_unat_eq_iff unat_PDX unat_PTX unat_PGOFF unat_PGADDR join_address)
qed

theorem linear_address_roundtrip_witness:
  "PGADDR (PDX 0xEEBFD123) (PTX 0xEEBFD123) (PGOFF 0xEEBFD123) = 0xEEBFD123 \<and>
   PTX (PGADDR 954 1021 5) = 1021"
proof -
  have "(954 :: u32) < 1024" "(1021 :: u32) < 1024" "(5 :: u32) < 4096" by simp_all
  then show ?thesis using linear_address_roundtrip by blast
qed

section \<open>Page-table entries\<close>

lemma EXTRACT_ADDRESS_PPN: "EXTRACT_ADDRESS e = push_bit 12 (PPN e)"
  by (rule bit_word_eqI) (auto simp: EXTRACT_ADDRESS_def PPN_def masks bit_simps)

lemma PPN_push_bit: "f < 0x100000 \<Longrightarrow> PPN (push_bit 12 f) = f"
  by (simp add: word_unat_eq_iff unat_PPN unat_push_bit word_less_nat_alt)

lemma entry_fields:
  assumes "f < 0x100000" "p < 0x1000"
  shows "PPN (CONSTRUCT_ENTRY (push_bit 12 f) p) = f"
    and "CONSTRUCT_ENTRY (push_bit 12 f) p AND 0xFFF = p"
proof -
  have p: "unat p < 2 ^ 12" using assms by (simp add: word_less_nat_alt)
  have u: "unat (CONSTRUCT_ENTRY (push_bit 12 f) p) = unat f * 4096 + unat p"
    using unat_or_disjoint [OF push_bit_and_low [OF p, of f]] assms
    by (simp add: CONSTRUCT_ENTRY_def unat_push_bit word_less_nat_alt)
  show "PPN (CONSTRUCT_ENTRY (push_bit 12 f) p) = f"
    using p by (simp add: word_unat_eq_iff unat_PPN u)
  show "CONSTRUCT_ENTRY (push_bit 12 f) p AND 0xFFF = p"
    using p by (simp add: word_unat_eq_iff masks unat_and_mask u)
qed

lemma entry_flag:
  assumes "f < 0x100000" "p < 0x1000" "b AND 0xFFF = b"
  shows "CONSTRUCT_ENTRY (push_bit 12 f) p AND b = p AND b"
proof -
  have "CONSTRUCT_ENTRY (push_bit 12 f) p AND (b AND 0xFFF) =
      (CONSTRUCT_ENTRY (push_bit 12 f) p AND 0xFFF) AND b"
    by (simp only: and.assoc and.commute [of b])
  then show ?thesis by (simp only: assms(3) entry_fields(2) [OF assms(1,2)])
qed

lemma low_or: "p < 0x1000 \<Longrightarrow> q < 0x1000 \<Longrightarrow> p OR q < (0x1000 :: u32)"
proof -
  assume a: "p < 0x1000" "q < 0x1000"
  have "k < 12" if "bit p k \<or> bit q k" for k
    using that a bit_less_exp [of p 12 k] bit_less_exp [of q 12 k]
    by (auto simp: word_less_nat_alt)
  then have "take_bit 12 (p OR q) = p OR q"
    by (intro bit_word_eqI) (auto simp: bit_simps)
  then have "unat (p OR q) mod 2 ^ 12 = unat (p OR q)"
    by (metis take_bit_eq_mask unat_and_mask)
  then show ?thesis by (simp add: word_less_nat_alt)
qed

lemma present_or [simp]: "(p OR 1) AND 1 = (1 :: u32)" "p OR 1 \<noteq> (0 :: u32)"
proof -
  show "(p OR 1) AND 1 = (1 :: u32)" by (rule bit_word_eqI) (auto simp: bit_simps)
  then show "p OR 1 \<noteq> (0 :: u32)" by (metis zero_and_eq zero_neq_one)
qed

lemma entry_zero: "PPN 0 = 0" "EXTRACT_ADDRESS 0 = 0"
  by (simp_all add: PPN_def EXTRACT_ADDRESS_def)

text \<open>
  A page-table entry built from a page-aligned frame address and permission bits gives
  back both, and the flag test of the code sees exactly the permission's flags
  (\<^verbatim>\<open>CONSTRUCT_ENTRY\<close> in \<^verbatim>\<open>kern/helpers.h\<close>, \<^verbatim>\<open>EXTRACT_ADDRESS\<close> in \<^verbatim>\<open>inc/mmu.h\<close>).
\<close>

theorem page_table_entry_roundtrip:
  assumes "PGOFF pa = 0" "perm < 0x1000"
  shows "EXTRACT_ADDRESS (CONSTRUCT_ENTRY pa perm) = pa \<and>
         CONSTRUCT_ENTRY pa perm AND 0xFFF = perm \<and>
         (flag < 0x1000 \<longrightarrow> CONSTRUCT_ENTRY pa perm AND flag = perm AND flag)"
proof -
  have pa: "push_bit 12 (PPN pa) = pa"
  proof -
    have "unat pa mod 4096 = 0" using assms(1) unat_PGOFF [of pa] by simp
    then have "unat pa div 4096 * 4096 = unat pa" by auto
    then show ?thesis
      using unat_u32_less [of pa] by (simp add: word_unat_eq_iff unat_push_bit unat_PPN)
  qed
  have f: "PPN pa < 0x100000"
    using unat_u32_less [of pa] by (simp add: word_less_nat_alt unat_PPN less_mult_imp_div_less)
  have "flag AND 0xFFF = flag" if "flag < 0x1000"
    using that by (simp add: word_unat_eq_iff masks unat_and_mask word_less_nat_alt)
  with entry_fields [OF f assms(2)] entry_flag [OF f assms(2)] pa show ?thesis
    by (simp add: EXTRACT_ADDRESS_PPN)
qed

theorem page_table_entry_roundtrip_witness:
  "EXTRACT_ADDRESS (CONSTRUCT_ENTRY 0x5000 7) = 0x5000 \<and> CONSTRUCT_ENTRY 0x5000 7 AND 0xFFF = 7"
proof -
  have "PGOFF 0x5000 = 0" "(7 :: u32) < 0x1000" by (simp_all add: PGOFF_def)
  from page_table_entry_roundtrip [OF this, of 1] show ?thesis by blast
qed

section \<open>Kernel addresses of frames\<close>

text \<open>
  The kernel reaches frame \<open>f\<close> at the virtual address \<open>kva f\<close>; word \<open>j\<close> of the frame is
  at \<open>kva f + 4 * j\<close>. With at most 256 MB of physical memory (65536 frames) these
  addresses do not wrap and do not overlap.
\<close>

definition kva :: "u32 \<Rightarrow> u32" where
  "kva f = push_bit 12 f + KERNEL_BASE"

lemma unat_kva: "f < 0x10000 \<Longrightarrow> unat (kva f) = 4026531840 + 4096 * unat f"
  by (simp add: kva_def unat_push_bit unat_word_ariths word_less_nat_alt)

lemma unat_slot:
  "f < 0x10000 \<Longrightarrow> j < 1024 \<Longrightarrow> unat (kva f + 4 * j) = 4026531840 + 4096 * unat f + 4 * unat j"
  by (simp add: unat_kva unat_word_ariths word_less_nat_alt)

lemma slot_eq_iff [addr_simps]:
  assumes "f < 0x10000" "g < 0x10000" "i < 1024" "j < 1024"
  shows "kva f + 4 * i = kva g + 4 * j \<longleftrightarrow> f = g \<and> i = j"
proof -
  from assms(3,4) have "unat i < 1024" "unat j < 1024" by (simp_all add: word_less_nat_alt)
  then have "4096 * unat f + 4 * unat i = 4096 * unat g + 4 * unat j \<longleftrightarrow>
      unat f = unat g \<and> unat i = unat j"
    by (cases "unat f" "unat g" rule: linorder_cases) auto
  then show ?thesis
    using assms by (simp add: word_unat_eq_iff [of "kva f + 4 * i"] unat_slot word_unat_eq_iff [of f]
        word_unat_eq_iff [of i])
qed

lemma slot_in_page [addr_simps]:
  assumes "f < 0x10000" "g < 0x10000" "j < 1024"
  shows "kva g + 4 * j - kva f < 0x1000 \<longleftrightarrow> f = g"
proof -
  from assms(3) have j: "unat j < 1024" by (simp add: word_less_nat_alt)
  have f: "unat f < 65536" and g: "unat g < 65536" using assms by (simp_all add: word_less_nat_alt)
  show ?thesis
  proof (cases "unat f \<le> unat g")
    case True
    then have "kva f \<le> kva g + 4 * j"
      using assms by (simp add: word_le_nat_alt unat_kva unat_slot)
    then have "unat (kva g + 4 * j - kva f) = 4096 * (unat g - unat f) + 4 * unat j"
      using assms True by (simp add: unat_sub unat_kva unat_slot diff_mult_distrib2)
    then show ?thesis
      using True j by (auto simp: word_less_nat_alt word_unat_eq_iff [of f])
  next
    case False
    have "unat (kva g + 4 * j - kva f) =
        (if unat (kva f) \<le> unat (kva g + 4 * j) then unat (kva g + 4 * j) - unat (kva f)
         else unat (kva g + 4 * j) + 4294967296 - unat (kva f))"
      using unat_sub_if' [of "kva g + 4 * j" "kva f"] by simp
    then have "unat (kva g + 4 * j - kva f) = 4096 * unat g + 4 * unat j + 4294967296 - 4096 * unat f"
      using assms False j by (simp add: unat_kva unat_slot)
    then show ?thesis
      using False f by (auto simp: word_less_nat_alt word_unat_eq_iff [of f])
  qed
qed

lemma kva_nonzero [addr_simps]: "f < 0x10000 \<Longrightarrow> kva f \<noteq> 0"
  using unat_kva [of f] by force

lemma kva_inject [addr_simps]: "f < 0x10000 \<Longrightarrow> g < 0x10000 \<Longrightarrow> kva f = kva g \<longleftrightarrow> f = g"
  using slot_eq_iff [of f g 0 0] by simp

section \<open>Rounding to a multiple\<close>

lemma unat_ROUNDDOWN: "unat (ROUNDDOWN a n) = unat a - unat a mod unat n"
proof -
  have "a mod n \<le> a" by (simp add: word_le_nat_alt unat_mod_distrib)
  then show ?thesis by (simp add: ROUNDDOWN_def unat_sub unat_mod_distrib)
qed

lemma unat_ROUNDUP:
  assumes "0 < n" "unat a + unat n \<le> 2 ^ 32"
  shows "unat (ROUNDUP a n) = (unat a + unat n - 1) div unat n * unat n"
proof -
  have n: "0 < unat n" using assms(1) by (simp add: unat_gt_0 word_neq_0_conv)
  have "unat (n - 1) = unat n - 1"
    using assms(1) by (simp add: unat_minus_one word_neq_0_conv)
  then have "unat (a + (n - 1)) = unat a + unat n - 1"
    using assms(2) n by (simp add: unat_word_ariths(1))
  then have "unat (a + n - 1) = unat a + unat n - 1"
    by (simp only: add_diff_eq)
  then show ?thesis
    by (simp add: ROUNDUP_def unat_ROUNDDOWN minus_mod_eq_div_mult)
qed

text \<open>
  \<^verbatim>\<open>ROUNDUP\<close> (\<^verbatim>\<open>inc/types.h\<close> lines 63 to 67) gives the least multiple of \<open>n\<close> that is not
  below its argument, for every \<open>n\<close> and not only powers of two, as long as the sum does not
  leave the 32-bit range; \<^verbatim>\<open>ROUNDDOWN\<close> gives the greatest multiple not above.
\<close>

theorem rounding_correct:
  assumes "0 < n" "unat a + unat n \<le> 2 ^ 32"
  shows "unat n dvd unat (ROUNDUP a n) \<and> a \<le> ROUNDUP a n \<and>
         unat (ROUNDUP a n) < unat a + unat n \<and>
         unat n dvd unat (ROUNDDOWN a n) \<and> ROUNDDOWN a n \<le> a \<and>
         unat a < unat (ROUNDDOWN a n) + unat n"
proof -
  have n: "0 < unat n" using assms(1) by (simp add: unat_gt_0 word_neq_0_conv)
  define q where "q = (unat a + unat n - 1) div unat n"
  have 1: "q * unat n \<le> unat a + unat n - 1"
    by (simp add: q_def)
  have 2: "unat a + unat n - 1 < q * unat n + unat n"
    using n by (simp add: q_def) (metis add.commute dividend_less_div_times)
  have 3: "unat a < unat a - unat a mod unat n + unat n"
    using n mod_less_divisor [OF n, of "unat a"] mod_less_eq_dividend [of "unat a" "unat n"] by linarith
  show ?thesis
    using 1 2 3 n unfolding word_le_nat_alt unat_ROUNDUP [OF assms] unat_ROUNDDOWN q_def [symmetric]
    by (auto intro: dvd_minus_mod)
qed

theorem rounding_correct_witness:
  "0x1001 \<le> ROUNDUP 0x1001 0x1000 \<and> unat (ROUNDUP 0x1001 0x1000) < 0x2001"
proof -
  have "(0 :: u32) < 0x1000" "unat (0x1001 :: u32) + unat (0x1000 :: u32) \<le> 2 ^ 32" by simp_all
  from rounding_correct [OF this] show ?thesis by simp
qed

section \<open>Segment and gate descriptors\<close>

text \<open>Bit fields are words of the declared width.\<close>

record Segdesc =
  sd_lim_15_0 :: "16 word"
  sd_base_15_0 :: "16 word"
  sd_base_23_16 :: "8 word"
  sd_type :: "4 word"
  sd_s :: "1 word"
  sd_dpl :: "2 word"
  sd_p :: "1 word"
  sd_lim_19_16 :: "4 word"
  sd_avl :: "1 word"
  sd_rsv1 :: "1 word"
  sd_db :: "1 word"
  sd_g :: "1 word"
  sd_base_31_24 :: "8 word"

definition SEG_NULL :: Segdesc where
  "SEG_NULL = \<lparr>sd_lim_15_0 = 0, sd_base_15_0 = 0, sd_base_23_16 = 0, sd_type = 0, sd_s = 0,
     sd_dpl = 0, sd_p = 0, sd_lim_19_16 = 0, sd_avl = 0, sd_rsv1 = 0, sd_db = 0, sd_g = 0,
     sd_base_31_24 = 0\<rparr>"

definition SEG :: "4 word \<Rightarrow> u32 \<Rightarrow> u32 \<Rightarrow> 2 word \<Rightarrow> Segdesc" where
  "SEG type base lim dpl =
    \<lparr>sd_lim_15_0 = ucast (drop_bit 12 lim AND 0xffff), sd_base_15_0 = ucast (base AND 0xffff),
     sd_base_23_16 = ucast (drop_bit 16 base AND 0xff), sd_type = type, sd_s = 1, sd_dpl = dpl,
     sd_p = 1, sd_lim_19_16 = ucast (drop_bit 28 lim), sd_avl = 0, sd_rsv1 = 0, sd_db = 1,
     sd_g = 1, sd_base_31_24 = ucast (drop_bit 24 base)\<rparr>"

definition SEG16 :: "4 word \<Rightarrow> u32 \<Rightarrow> u32 \<Rightarrow> 2 word \<Rightarrow> Segdesc" where
  "SEG16 type base lim dpl =
    \<lparr>sd_lim_15_0 = ucast (lim AND 0xffff), sd_base_15_0 = ucast (base AND 0xffff),
     sd_base_23_16 = ucast (drop_bit 16 base AND 0xff), sd_type = type, sd_s = 1, sd_dpl = dpl,
     sd_p = 1, sd_lim_19_16 = ucast (drop_bit 16 lim), sd_avl = 0, sd_rsv1 = 0, sd_db = 1,
     sd_g = 0, sd_base_31_24 = ucast (drop_bit 24 base)\<rparr>"

record Gatedesc =
  gd_off_15_0 :: "16 word"
  gd_ss :: "16 word"
  gd_args :: "5 word"
  gd_rsv1 :: "3 word"
  gd_type :: "4 word"
  gd_s :: "1 word"
  gd_dpl :: "2 word"
  gd_p :: "1 word"
  gd_off_31_16 :: "16 word"

definition STS_IG32 :: "4 word" where [simp]: "STS_IG32 = 0xE"
definition STS_TG32 :: "4 word" where [simp]: "STS_TG32 = 0xF"
definition STS_CG32 :: "4 word" where [simp]: "STS_CG32 = 0xC"
definition STS_T32A :: "4 word" where [simp]: "STS_T32A = 0x9"

definition SETGATE :: "bool \<Rightarrow> u16 \<Rightarrow> u32 \<Rightarrow> 2 word \<Rightarrow> Gatedesc" where
  "SETGATE istrap sel off dpl =
    \<lparr>gd_off_15_0 = ucast (off AND 0xffff), gd_ss = sel, gd_args = 0, gd_rsv1 = 0,
     gd_type = (if istrap then STS_TG32 else STS_IG32), gd_s = 0, gd_dpl = dpl, gd_p = 1,
     gd_off_31_16 = ucast (drop_bit 16 off)\<rparr>"

definition SETCALLGATE :: "u16 \<Rightarrow> u32 \<Rightarrow> 2 word \<Rightarrow> Gatedesc" where
  "SETCALLGATE ss off dpl =
    \<lparr>gd_off_15_0 = ucast (off AND 0xffff), gd_ss = ss, gd_args = 0, gd_rsv1 = 0,
     gd_type = STS_CG32, gd_s = 0, gd_dpl = dpl, gd_p = 1,
     gd_off_31_16 = ucast (drop_bit 16 off)\<rparr>"

text \<open>What the processor reads out of a descriptor.\<close>

definition gate_offset :: "Gatedesc \<Rightarrow> u32" where
  "gate_offset g = push_bit 16 (ucast (gd_off_31_16 g)) OR ucast (gd_off_15_0 g)"

definition segment_base :: "Segdesc \<Rightarrow> u32" where
  "segment_base d = push_bit 24 (ucast (sd_base_31_24 d)) OR push_bit 16 (ucast (sd_base_23_16 d))
     OR ucast (sd_base_15_0 d)"

definition segment_limit :: "Segdesc \<Rightarrow> u32" where
  "segment_limit d =
     (let raw = push_bit 16 (ucast (sd_lim_19_16 d)) OR ucast (sd_lim_15_0 d)
      in if sd_g d = 1 then push_bit 12 raw OR 0xFFF else raw)"

lemma split_halves: "push_bit 16 (ucast (ucast (drop_bit 16 x) :: u16)) OR
    ucast (ucast (x AND 0xffff) :: u16) = (x :: u32)"
  by (rule bit_word_eqI) (auto simp: masks bit_simps)

lemma split_three: "push_bit 24 (ucast (ucast (drop_bit 24 x) :: u8)) OR
    push_bit 16 (ucast (ucast (drop_bit 16 x AND 0xff) :: u8)) OR
    ucast (ucast (x AND 0xffff) :: u16) = (x :: u32)" (is "?l = x")
proof (rule bit_word_eqI)
  fix n assume n: "n < LENGTH(32)"
  then consider "n < 16" | "16 \<le> n" "n < 24" | "24 \<le> n" "n < 32" by force
  then show "bit ?l n = bit x n"
    by cases (auto simp: masks bit_simps)
qed

text \<open>
  The processor reads out of the descriptors what the kernel put in: the handler address
  of a gate, the base of a segment, and the limit, scaled by 4 KB for \<^verbatim>\<open>SEG\<close> (whose limits
  end in twelve one bits) and exact below 1 MB for \<^verbatim>\<open>SEG16\<close> (\<^verbatim>\<open>inc/mmu.h\<close> lines 174 to 288).
\<close>

theorem descriptor_roundtrip:
  "gate_offset (SETGATE istrap sel off dpl) = off \<and>
   gate_offset (SETCALLGATE sel off dpl) = off \<and>
   segment_base (SEG ty base lim dpl) = base \<and>
   segment_base (SEG16 ty base lim dpl) = base \<and>
   (lim AND 0xFFF = 0xFFF \<longrightarrow> segment_limit (SEG ty base lim dpl) = lim) \<and>
   (lim < 0x100000 \<longrightarrow> segment_limit (SEG16 ty base lim dpl) = lim)"
proof (intro conjI impI)
  show "gate_offset (SETGATE istrap sel off dpl) = off"
    "gate_offset (SETCALLGATE sel off dpl) = off"
    by (simp_all add: gate_offset_def SETGATE_def SETCALLGATE_def split_halves)
  show "segment_base (SEG ty base lim dpl) = base" "segment_base (SEG16 ty base lim dpl) = base"
    by (simp_all add: segment_base_def SEG_def SEG16_def split_three)
  show "segment_limit (SEG ty base lim dpl) = lim" if "lim AND 0xFFF = 0xFFF"
  proof (rule bit_word_eqI)
    fix n assume n: "n < LENGTH(32)"
    have low: "bit lim n" if "n < 12"
      using \<open>lim AND 0xFFF = 0xFFF\<close> that n bit_and_iff [of lim "0xFFF" n] by (simp add: masks bit_simps)
    from n consider "n < 12" | "12 \<le> n" "n < 28" | "28 \<le> n" "n < 32" by force
    then show "bit (segment_limit (SEG ty base lim dpl)) n = bit lim n"
      using low by cases (auto simp: segment_limit_def SEG_def masks bit_simps)
  qed
  show "segment_limit (SEG16 ty base lim dpl) = lim" if "lim < 0x100000"
  proof (rule bit_word_eqI)
    fix n assume n: "n < LENGTH(32)"
    have "n < 20" if "bit lim n"
      using bit_less_exp [of lim 20 n] that \<open>lim < 0x100000\<close> by (simp add: word_less_nat_alt)
    then show "bit (segment_limit (SEG16 ty base lim dpl)) n = bit lim n"
      using n by (auto simp: segment_limit_def SEG16_def masks bit_simps)
  qed
qed

theorem descriptor_roundtrip_witness:
  "gate_offset (SETGATE False GD_KT 0xF0101234 3) = 0xF0101234 \<and>
   segment_limit (SEG 0xA 0 0xffffffff 3) = 0xffffffff \<and>
   segment_limit (SEG16 STS_T32A 0xF0120000 104 0) = 104"
proof -
  have "(0xffffffff :: u32) AND 0xFFF = 0xFFF" "(104 :: u32) < 0x100000" by simp_all
  then show ?thesis using descriptor_roundtrip by blast
qed

end
