(* ===== verification/FOS_Cpu.thy ===== *)
theory FOS_Cpu
  imports FOS_Mmu
begin

text \<open>
  Segmentation: the descriptor tables of \<^verbatim>\<open>kern/helpers.c\<close> and \<^verbatim>\<open>kern/entry.S\<close>, the segment registers, and the
  instructions of \<^verbatim>\<open>turn_on_paging\<close> and \<^verbatim>\<open>env_pop_tf\<close> that load them. A segment register holds its selector and
  the descriptor that the processor read when the selector was loaded, so a new table has no effect before the next load.
  The accessed bit that a load sets in the descriptor is left out; nothing reads it.
\<close>

section \<open>Descriptor tables\<close>

definition STA_X :: "4 word" where [simp]: "STA_X = 0x8"
definition STA_E :: "4 word" where [simp]: "STA_E = 0x4"
definition STA_C :: "4 word" where [simp]: "STA_C = 0x4"
definition STA_W :: "4 word" where [simp]: "STA_W = 0x2"
definition STA_R :: "4 word" where [simp]: "STA_R = 0x2"
definition STA_A :: "4 word" where [simp]: "STA_A = 0x1"

definition SEG_FAULT :: Segdesc where
  "SEG_FAULT = SEG_NULL\<lparr>sd_s := 1, sd_p := 1, sd_db := 1\<rparr>"

text \<open>The array \<^verbatim>\<open>gdt\<close> before \<^verbatim>\<open>idt_init\<close> fills the descriptor of the task segment.\<close>

definition gdt_entries :: "Segdesc list" where
  "gdt_entries = [SEG_NULL, SEG (STA_X OR STA_R) 0x0 0xffffffff 0, SEG STA_W 0x0 0xffffffff 0,
     SEG (STA_X OR STA_R) 0x0 0xffffffff 3, SEG STA_W 0x0 0xffffffff 3, SEG_NULL]"

text \<open>\<^verbatim>\<open>mygdt\<close> of \<^verbatim>\<open>kern/entry.S\<close>, which subtracts \<^verbatim>\<open>KERNEL_BASE\<close> from every address.\<close>

definition mygdt :: "Segdesc list" where
  "mygdt = [SEG_NULL, SEG (STA_X OR STA_R) (- KERNEL_BASE) 0xffffffff 0, SEG STA_W (- KERNEL_BASE) 0xffffffff 0]"

section \<open>Segment registers\<close>

record segreg =
  selector :: u16
  cached :: Segdesc

record segments =
  gdtr :: "Segdesc list"
  seg_cs :: segreg
  seg_ds :: segreg
  seg_es :: segreg
  seg_fs :: segreg
  seg_gs :: segreg
  seg_ss :: segreg
  ldtr :: u16

text \<open>The level of privilege is the one of the code segment.\<close>

definition cpl :: "segments \<Rightarrow> u16" where
  "cpl s = selector (seg_cs s) AND 3"

definition descriptor :: "u16 \<Rightarrow> segments \<Rightarrow> Segdesc" where
  "descriptor sel s = gdtr s ! unat (drop_bit 3 sel)"

definition load_selector :: "u16 \<Rightarrow> segments \<Rightarrow> segreg" where
  "load_selector sel s = \<lparr>selector = sel, cached = descriptor sel s\<rparr>"

definition linear_address :: "segreg \<Rightarrow> u32 \<Rightarrow> u32" where
  "linear_address r off = segment_base (cached r) + off"

section \<open>Instructions\<close>

datatype seg_instr =
    Lgdt "Segdesc list"
  | Mov_ds u16 | Mov_es u16 | Mov_fs u16 | Mov_gs u16 | Mov_ss u16
  | Ljmp u16
  | Lldt u16

fun seg_exec :: "seg_instr \<Rightarrow> segments \<Rightarrow> segments" where
  "seg_exec (Lgdt t) s = s\<lparr>gdtr := t\<rparr>"
| "seg_exec (Mov_ds sel) s = s\<lparr>seg_ds := load_selector sel s\<rparr>"
| "seg_exec (Mov_es sel) s = s\<lparr>seg_es := load_selector sel s\<rparr>"
| "seg_exec (Mov_fs sel) s = s\<lparr>seg_fs := load_selector sel s\<rparr>"
| "seg_exec (Mov_gs sel) s = s\<lparr>seg_gs := load_selector sel s\<rparr>"
| "seg_exec (Mov_ss sel) s = s\<lparr>seg_ss := load_selector sel s\<rparr>"
| "seg_exec (Ljmp sel) s = s\<lparr>seg_cs := load_selector sel s\<rparr>"
| "seg_exec (Lldt sel) s = s\<lparr>ldtr := sel\<rparr>"

text \<open>
  When the processor carries a load out instead of raising general protection, stack fault or segment not
  present: the selector lies in the table and is not null, the descriptor is a present segment of the right kind, and its
  level fits the selector and the running code.
\<close>

definition usable :: "u16 \<Rightarrow> segments \<Rightarrow> bool" where
  "usable sel s \<longleftrightarrow> sel AND 4 = 0 \<and> 0 < drop_bit 3 sel \<and> unat (drop_bit 3 sel) < length (gdtr s) \<and>
     sd_s (descriptor sel s) = 1 \<and> sd_p (descriptor sel s) = 1"

definition is_code :: "Segdesc \<Rightarrow> bool" where
  "is_code d \<longleftrightarrow> sd_type d AND STA_X \<noteq> 0"

definition data_loadable :: "u16 \<Rightarrow> segments \<Rightarrow> bool" where
  "data_loadable sel s \<longleftrightarrow> usable sel s \<and>
     (\<not> is_code (descriptor sel s) \<or> sd_type (descriptor sel s) AND STA_R \<noteq> 0) \<and>
     sel AND 3 \<le> ucast (sd_dpl (descriptor sel s)) \<and> cpl s \<le> ucast (sd_dpl (descriptor sel s))"

definition stack_loadable :: "u16 \<Rightarrow> u16 \<Rightarrow> segments \<Rightarrow> bool" where
  "stack_loadable level sel s \<longleftrightarrow> usable sel s \<and> \<not> is_code (descriptor sel s) \<and>
     sd_type (descriptor sel s) AND STA_W \<noteq> 0 \<and> sel AND 3 = level \<and> ucast (sd_dpl (descriptor sel s)) = level"

definition code_loadable :: "u16 \<Rightarrow> u16 \<Rightarrow> segments \<Rightarrow> bool" where
  "code_loadable level sel s \<longleftrightarrow> usable sel s \<and> is_code (descriptor sel s) \<and>
     sd_type (descriptor sel s) AND STA_C = 0 \<and> sel AND 3 \<le> level \<and> ucast (sd_dpl (descriptor sel s)) = level"

fun seg_allowed :: "seg_instr \<Rightarrow> segments \<Rightarrow> bool" where
  "seg_allowed (Lgdt t) s \<longleftrightarrow> cpl s = 0"
| "seg_allowed (Lldt sel) s \<longleftrightarrow> cpl s = 0 \<and> drop_bit 2 sel = 0"
| "seg_allowed (Ljmp sel) s \<longleftrightarrow> code_loadable (cpl s) sel s"
| "seg_allowed (Mov_ss sel) s \<longleftrightarrow> stack_loadable (cpl s) sel s"
| "seg_allowed (Mov_ds sel) s \<longleftrightarrow> data_loadable sel s"
| "seg_allowed (Mov_es sel) s \<longleftrightarrow> data_loadable sel s"
| "seg_allowed (Mov_fs sel) s \<longleftrightarrow> data_loadable sel s"
| "seg_allowed (Mov_gs sel) s \<longleftrightarrow> data_loadable sel s"

section \<open>The segments of the kernel\<close>

text \<open>What \<^verbatim>\<open>start_of_kernel\<close> loads (\<^verbatim>\<open>kern/entry.S\<close>); \<open>fs\<close> and \<open>gs\<close> are as the boot loader left them.\<close>

definition entry_segments :: "segreg \<Rightarrow> segreg \<Rightarrow> u16 \<Rightarrow> segments" where
  "entry_segments f g l =
    \<lparr>gdtr = mygdt, seg_cs = \<lparr>selector = 0x8, cached = mygdt ! 1\<rparr>, seg_ds = \<lparr>selector = 0x10, cached = mygdt ! 2\<rparr>,
     seg_es = \<lparr>selector = 0x10, cached = mygdt ! 2\<rparr>, seg_fs = f, seg_gs = g,
     seg_ss = \<lparr>selector = 0x10, cached = mygdt ! 2\<rparr>, ldtr = l\<rparr>"

text \<open>What \<^verbatim>\<open>turn_on_paging\<close> loads.\<close>

definition kernel_segments :: segments where
  "kernel_segments =
    \<lparr>gdtr = gdt_entries, seg_cs = \<lparr>selector = GD_KT, cached = gdt_entries ! 1\<rparr>,
     seg_ds = \<lparr>selector = GD_KD, cached = gdt_entries ! 2\<rparr>, seg_es = \<lparr>selector = GD_KD, cached = gdt_entries ! 2\<rparr>,
     seg_fs = \<lparr>selector = GD_UD OR 3, cached = gdt_entries ! 4\<rparr>, seg_gs = \<lparr>selector = GD_UD OR 3, cached = gdt_entries ! 4\<rparr>,
     seg_ss = \<lparr>selector = GD_KD, cached = gdt_entries ! 2\<rparr>, ldtr = 0\<rparr>"

lemma segment_base_SEG [simp]: "segment_base (SEG ty base lim dpl) = base"
  by (simp add: segment_base_def SEG_def split_three)

lemma gdt_flat [simp]:
  "segment_base (gdt_entries ! Suc 0) = 0" "segment_base (gdt_entries ! 2) = 0" "segment_base (gdt_entries ! 4) = 0"
  "segment_base (mygdt ! Suc 0) = - KERNEL_BASE" "segment_base (mygdt ! 2) = - KERNEL_BASE"
  by (simp_all add: gdt_entries_def mygdt_def del: KERNEL_BASE_def)

text \<open>
  What \<^verbatim>\<open>lgdt\<close> and \<^verbatim>\<open>lidt\<close> load: the offset of the last byte of a table, and its address. A descriptor or gate has
  eight bytes.
\<close>

record Pseudodesc =
  pd_lim :: u16
  pd_base :: u32

definition gdt_pd :: "u32 \<Rightarrow> Pseudodesc" where
  "gdt_pd gdt = \<lparr>pd_lim = of_nat (8 * length gdt_entries) - 1, pd_base = gdt\<rparr>"

definition idt_pd :: "u32 \<Rightarrow> Pseudodesc" where
  "idt_pd idt = \<lparr>pd_lim = 8 * 256 - 1, pd_base = idt\<rparr>"

definition in_table :: "nat \<Rightarrow> Pseudodesc \<Rightarrow> bool" where
  "in_table i pd \<longleftrightarrow> 8 * i + 7 \<le> unat (pd_lim pd)"

lemma tables_in_full: "in_table i (gdt_pd a) \<longleftrightarrow> i < length gdt_entries" "in_table i (idt_pd b) \<longleftrightarrow> i < 256"
  by (auto simp: in_table_def gdt_pd_def idt_pd_def gdt_entries_def)

section \<open>The task state segment\<close>

text \<open>
  \<^verbatim>\<open>struct Taskstate\<close>. FOS uses it only for the stack of the kernel (\<^verbatim>\<open>ts_esp0\<close>, \<^verbatim>\<open>ts_ss0\<close>), but the processor also finds the
  permissions of the ports in it, at the offset \<^verbatim>\<open>ts_iomb\<close>.
\<close>

record Taskstate =
  ts_link :: u32
  ts_esp0 :: u32
  ts_ss0 :: u16
  ts_padding1 :: u16
  ts_esp1 :: u32
  ts_ss1 :: u16
  ts_padding2 :: u16
  ts_esp2 :: u32
  ts_ss2 :: u16
  ts_padding3 :: u16
  ts_cr3 :: u32
  ts_eip :: u32
  ts_eflags :: u32
  ts_eax :: u32
  ts_ecx :: u32
  ts_edx :: u32
  ts_ebx :: u32
  ts_esp :: u32
  ts_ebp :: u32
  ts_esi :: u32
  ts_edi :: u32
  ts_es :: u16
  ts_padding4 :: u16
  ts_cs :: u16
  ts_padding5 :: u16
  ts_ss :: u16
  ts_padding6 :: u16
  ts_ds :: u16
  ts_padding7 :: u16
  ts_fs :: u16
  ts_padding8 :: u16
  ts_gs :: u16
  ts_padding9 :: u16
  ts_ldt :: u16
  ts_padding10 :: u16
  ts_t :: u16
  ts_iomb :: u16

text \<open>A static structure without an initialiser is zero.\<close>

definition zero_taskstate :: Taskstate where
  "zero_taskstate = \<lparr>ts_link = 0, ts_esp0 = 0, ts_ss0 = 0, ts_padding1 = 0, ts_esp1 = 0, ts_ss1 = 0, ts_padding2 = 0,
     ts_esp2 = 0, ts_ss2 = 0, ts_padding3 = 0, ts_cr3 = 0, ts_eip = 0, ts_eflags = 0, ts_eax = 0, ts_ecx = 0, ts_edx = 0,
     ts_ebx = 0, ts_esp = 0, ts_ebp = 0, ts_esi = 0, ts_edi = 0, ts_es = 0, ts_padding4 = 0, ts_cs = 0, ts_padding5 = 0,
     ts_ss = 0, ts_padding6 = 0, ts_ds = 0, ts_padding7 = 0, ts_fs = 0, ts_padding8 = 0, ts_gs = 0, ts_padding9 = 0,
     ts_ldt = 0, ts_padding10 = 0, ts_t = 0, ts_iomb = 0\<rparr>"

text \<open>The bytes of the structure in memory, lowest first.\<close>

definition bytes16 :: "u16 \<Rightarrow> u8 list" where
  "bytes16 w = [ucast w, ucast (drop_bit 8 w)]"

definition bytes32 :: "u32 \<Rightarrow> u8 list" where
  "bytes32 w = [ucast w, ucast (drop_bit 8 w), ucast (drop_bit 16 w), ucast (drop_bit 24 w)]"

definition taskstate_bytes :: "Taskstate \<Rightarrow> u8 list" where
  "taskstate_bytes t =
    bytes32 (ts_link t) @ bytes32 (ts_esp0 t) @ bytes16 (ts_ss0 t) @ bytes16 (ts_padding1 t) @
    bytes32 (ts_esp1 t) @ bytes16 (ts_ss1 t) @ bytes16 (ts_padding2 t) @
    bytes32 (ts_esp2 t) @ bytes16 (ts_ss2 t) @ bytes16 (ts_padding3 t) @
    bytes32 (ts_cr3 t) @ bytes32 (ts_eip t) @ bytes32 (ts_eflags t) @
    bytes32 (ts_eax t) @ bytes32 (ts_ecx t) @ bytes32 (ts_edx t) @ bytes32 (ts_ebx t) @
    bytes32 (ts_esp t) @ bytes32 (ts_ebp t) @ bytes32 (ts_esi t) @ bytes32 (ts_edi t) @
    bytes16 (ts_es t) @ bytes16 (ts_padding4 t) @ bytes16 (ts_cs t) @ bytes16 (ts_padding5 t) @
    bytes16 (ts_ss t) @ bytes16 (ts_padding6 t) @ bytes16 (ts_ds t) @ bytes16 (ts_padding7 t) @
    bytes16 (ts_fs t) @ bytes16 (ts_padding8 t) @ bytes16 (ts_gs t) @ bytes16 (ts_padding9 t) @
    bytes16 (ts_ldt t) @ bytes16 (ts_padding10 t) @ bytes16 (ts_t t) @ bytes16 (ts_iomb t)"

lemma length_taskstate_bytes [simp]: "length (taskstate_bytes t) = 104"
  by (simp add: taskstate_bytes_def bytes16_def bytes32_def)

text \<open>The level at which port instructions need no permission, and the flag for interrupts.\<close>

definition FL_IF :: u32 where [simp]: "FL_IF = 0x00000200"
definition FL_IOPL_MASK :: u32 where [simp]: "FL_IOPL_MASK = 0x00003000"

definition iopl :: "u32 \<Rightarrow> u16" where
  "iopl eflags = ucast (drop_bit 12 (eflags AND FL_IOPL_MASK))"

text \<open>
  When the processor carries out a port instruction on one byte: at a level up to the one in the flags, or when the bit
  of the port in the map of the task segment is clear. It reads two bytes of the map and
  both have to lie in the segment, whose last byte is at \<open>lim\<close>. A byte behind the structure is not known.
\<close>

definition port_permitted :: "u16 \<Rightarrow> u32 \<Rightarrow> u16 \<Rightarrow> u32 \<Rightarrow> Taskstate \<Rightarrow> bool" where
  "port_permitted level eflags port lim t \<longleftrightarrow> level \<le> iopl eflags \<or>
    (let k = unat (ts_iomb t) + unat port div 8 in
       k + 1 \<le> unat lim \<and> k < length (taskstate_bytes t) \<and> \<not> bit (taskstate_bytes t ! k) (unat port mod 8))"

end
