(* ===== verification/FOS_Queue.thy ===== *)
theory FOS_Queue
  imports FOS_Prelude
begin

text \<open>
  The intrusive doubly linked lists of \<^verbatim>\<open>inc/queue.h\<close>. An element is a value of type
  \<open>'a\<close> (an index into \<^verbatim>\<open>frames_info\<close> or \<^verbatim>\<open>envs\<close>); its two links live in the element, so
  the links of every element, listed or not, are part of the state. \<^verbatim>\<open>le_prev\<close> is a pointer
  to the pointer that points at the element: the head's \<^verbatim>\<open>lh_first\<close>, the \<^verbatim>\<open>le_next\<close> of
  another element, or null.
\<close>

section \<open>The macros\<close>

datatype 'a cell = Null_cell | Head_cell | Next_cell 'a

record 'a Linked_List =
  lh_first :: "'a option"
  le_next :: "'a \<Rightarrow> 'a option"
  le_prev :: "'a \<Rightarrow> 'a cell"

definition LIST_EMPTY :: "'a Linked_List \<Rightarrow> bool" where
  "LIST_EMPTY l \<longleftrightarrow> lh_first l = None"

definition LIST_INIT :: "'a Linked_List \<Rightarrow> 'a Linked_List" where
  "LIST_INIT l = l\<lparr>lh_first := None\<rparr>"

definition set_next :: "'a \<Rightarrow> 'a option \<Rightarrow> 'a Linked_List \<Rightarrow> 'a Linked_List" where
  "set_next x v l = l\<lparr>le_next := (le_next l)(x := v)\<rparr>"

definition set_prev :: "'a \<Rightarrow> 'a cell \<Rightarrow> 'a Linked_List \<Rightarrow> 'a Linked_List" where
  "set_prev x c l = l\<lparr>le_prev := (le_prev l)(x := c)\<rparr>"

text \<open>The assignment \<open>*le_prev = v\<close>; through a null pointer it fails.\<close>

fun store_cell :: "'a cell \<Rightarrow> 'a option \<Rightarrow> 'a Linked_List \<Rightarrow> 'a Linked_List option" where
  "store_cell Null_cell v l = None"
| "store_cell Head_cell v l = Some (l\<lparr>lh_first := v\<rparr>)"
| "store_cell (Next_cell y) v l = Some (set_next y v l)"

definition LIST_INSERT_HEAD :: "'a \<Rightarrow> 'a Linked_List \<Rightarrow> 'a Linked_List" where
  "LIST_INSERT_HEAD elm l =
    (let l1 = set_next elm (lh_first l) l;
         l2 = (case le_next l1 elm of
                 None \<Rightarrow> l1
               | Some _ \<Rightarrow> (case lh_first l1 of
                   None \<Rightarrow> l1
                 | Some f \<Rightarrow> set_prev f (Next_cell elm) l1));
         l3 = l2\<lparr>lh_first := Some elm\<rparr>
     in set_prev elm Head_cell l3)"

definition LIST_INSERT_AFTER :: "'a \<Rightarrow> 'a \<Rightarrow> 'a Linked_List \<Rightarrow> 'a Linked_List" where
  "LIST_INSERT_AFTER listelm elm l =
    (let l1 = set_next elm (le_next l listelm) l;
         l2 = (case le_next l1 elm of
                 None \<Rightarrow> l1
               | Some _ \<Rightarrow> (case le_next l1 listelm of
                   None \<Rightarrow> l1
                 | Some n \<Rightarrow> set_prev n (Next_cell elm) l1));
         l3 = set_next listelm (Some elm) l2
     in set_prev elm (Next_cell listelm) l3)"

definition LIST_INSERT_BEFORE :: "'a \<Rightarrow> 'a \<Rightarrow> 'a Linked_List \<Rightarrow> 'a Linked_List option" where
  "LIST_INSERT_BEFORE listelm elm l =
    (let l1 = set_prev elm (le_prev l listelm) l;
         l2 = set_next elm (Some listelm) l1
     in case store_cell (le_prev l2 listelm) (Some elm) l2 of
          None \<Rightarrow> None
        | Some l3 \<Rightarrow> Some (set_prev listelm (Next_cell elm) l3))"

definition LIST_REMOVE :: "'a \<Rightarrow> 'a Linked_List \<Rightarrow> 'a Linked_List option" where
  "LIST_REMOVE elm l =
    (let l1 = (case le_next l elm of
                 None \<Rightarrow> l
               | Some n \<Rightarrow> set_prev n (le_prev l elm) l)
     in store_cell (le_prev l1 elm) (le_next l1 elm) l1)"

text \<open>
  \<^verbatim>\<open>LIST_FOREACH\<close> with a counter as its body, as \<^verbatim>\<open>calculate_free_frames\<close> uses it. On links
  that form a cycle the loop does not end: the value is then \<open>None\<close>.
\<close>

partial_function (option) list_foreach_count ::
    "'a Linked_List \<Rightarrow> 'a option \<Rightarrow> u32 \<Rightarrow> u32 option" where
  "list_foreach_count l var cnt =
    (case var of None \<Rightarrow> Some cnt | Some x \<Rightarrow> list_foreach_count l (le_next l x) (cnt + 1))"

section \<open>The sequence a list holds\<close>

text \<open>
  \<open>chain l c p xs\<close>: starting at \<open>p\<close>, which was read from the cell \<open>c\<close>, the \<^verbatim>\<open>le_next\<close> links
  visit exactly \<open>xs\<close> and end in null, and every \<^verbatim>\<open>le_prev\<close> link points at the cell the element
  was reached through.
\<close>

fun chain :: "'a Linked_List \<Rightarrow> 'a cell \<Rightarrow> 'a option \<Rightarrow> 'a list \<Rightarrow> bool" where
  "chain l c p [] \<longleftrightarrow> p = None"
| "chain l c p (x # xs) \<longleftrightarrow> p = Some x \<and> le_prev l x = c \<and> chain l (Next_cell x) (le_next l x) xs"

definition dlist :: "'a Linked_List \<Rightarrow> 'a list \<Rightarrow> bool" where
  "dlist l xs \<longleftrightarrow> chain l Head_cell (lh_first l) xs"

text \<open>Reading back one link of an updated list.\<close>

lemma link_simps [simp]:
  "lh_first (set_next x v l) = lh_first l" "le_prev (set_next x v l) = le_prev l"
  "le_next (set_next x v l) = (le_next l)(x := v)"
  "lh_first (set_prev x c l) = lh_first l" "le_next (set_prev x c l) = le_next l"
  "le_prev (set_prev x c l) = (le_prev l)(x := c)"
  by (simp_all add: set_next_def set_prev_def)

lemma chain_lh_first [simp]: "chain (l\<lparr>lh_first := v\<rparr>) c p xs = chain l c p xs"
  by (induction xs arbitrary: c p) auto

lemma chain_cong:
  "(\<And>x. x \<in> set xs \<Longrightarrow> le_next l x = le_next l' x \<and> le_prev l x = le_prev l' x) \<Longrightarrow>
    chain l c p xs = chain l' c p xs"
  by (induction xs arbitrary: c p) auto

lemma chain_set_next [simp]: "x \<notin> set xs \<Longrightarrow> chain (set_next x v l) c p xs = chain l c p xs"
  by (rule chain_cong) auto

lemma chain_set_prev [simp]: "x \<notin> set xs \<Longrightarrow> chain (set_prev x d l) c p xs = chain l c p xs"
  by (rule chain_cong) auto

lemma chain_unique: "chain l c p xs \<Longrightarrow> chain l d p ys \<Longrightarrow> xs = ys"
proof (induction xs arbitrary: c d p ys)
  case Nil
  then show ?case by (cases ys) auto
next
  case (Cons x xs)
  then show ?case by (cases ys) auto
qed

text \<open>
  A stretch of a list: from the cell \<open>c\<close> with content \<open>p\<close> over \<open>xs\<close> to the cell \<open>d\<close> with
  content \<open>q\<close>.
\<close>

fun stretch :: "'a Linked_List \<Rightarrow> 'a cell \<Rightarrow> 'a option \<Rightarrow> 'a list \<Rightarrow> 'a cell \<Rightarrow> 'a option \<Rightarrow> bool" where
  "stretch l c p [] d q \<longleftrightarrow> c = d \<and> p = q"
| "stretch l c p (x # xs) d q \<longleftrightarrow>
     p = Some x \<and> le_prev l x = c \<and> stretch l (Next_cell x) (le_next l x) xs d q"

lemma chain_append: "chain l c p (xs @ ys) \<longleftrightarrow> (\<exists>d q. stretch l c p xs d q \<and> chain l d q ys)"
  by (induction xs arbitrary: c p) auto

lemma stretch_append:
  "stretch l c p (xs @ ys) e r \<longleftrightarrow> (\<exists>d q. stretch l c p xs d q \<and> stretch l d q ys e r)"
  by (induction xs arbitrary: c p) auto

lemma stretch_lh_first [simp]: "stretch (l\<lparr>lh_first := v\<rparr>) c p xs d q = stretch l c p xs d q"
  by (induction xs arbitrary: c p) auto

lemma stretch_set_next [simp]: "x \<notin> set xs \<Longrightarrow> stretch (set_next x v l) c p xs d q = stretch l c p xs d q"
  by (induction xs arbitrary: c p) auto

lemma stretch_set_prev [simp]: "x \<notin> set xs \<Longrightarrow> stretch (set_prev x e l) c p xs d q = stretch l c p xs d q"
  by (induction xs arbitrary: c p) auto

lemma chain_head_fresh: "chain l (Next_cell x) (le_next l x) xs \<Longrightarrow> x \<notin> set xs"
proof
  assume c: "chain l (Next_cell x) (le_next l x) xs" and "x \<in> set xs"
  then obtain ys zs where xs: "xs = ys @ x # zs" by (auto simp: in_set_conv_decomp)
  with c have "chain l (Next_cell x) (le_next l x) zs" by (auto simp: chain_append)
  with c have "xs = zs" by (rule chain_unique)
  with xs show False by simp
qed

lemma chain_distinct: "chain l c p xs \<Longrightarrow> distinct xs"
  by (induction xs arbitrary: c p) (auto dest: chain_head_fresh)

lemma dlist_distinct: "dlist l xs \<Longrightarrow> distinct xs"
  by (auto simp: dlist_def dest: chain_distinct)

lemma dlist_unique: "dlist l xs \<Longrightarrow> dlist l ys \<Longrightarrow> xs = ys"
  by (auto simp: dlist_def dest: chain_unique)

lemma dlist_first: "dlist l xs \<Longrightarrow> lh_first l = (case xs of [] \<Rightarrow> None | x # _ \<Rightarrow> Some x)"
  by (cases xs) (auto simp: dlist_def)

lemma dlist_init: "dlist (LIST_INIT l) []"
  by (simp add: dlist_def LIST_INIT_def)

section \<open>The macros on the sequence\<close>

lemma dlist_insert_head:
  assumes "dlist l xs" "x \<notin> set xs"
  shows "dlist (LIST_INSERT_HEAD x l) (x # xs)"
proof (cases xs)
  case Nil
  with assms show ?thesis by (simp add: dlist_def LIST_INSERT_HEAD_def Let_def)
next
  case (Cons y ys)
  then have p: "lh_first l = Some y" and y: "x \<noteq> y" "x \<notin> set ys"
    and c: "chain l (Next_cell y) (le_next l y) ys" "y \<notin> set ys"
    using assms by (auto simp: dlist_def dest: chain_head_fresh)
  then show ?thesis
    using p Cons by (simp add: dlist_def LIST_INSERT_HEAD_def Let_def)
qed

lemma dlist_remove:
  assumes "dlist l (xs @ x # ys)"
  obtains l' where "LIST_REMOVE x l = Some l'" "dlist l' (xs @ ys)"
proof -
  from assms obtain d where s: "stretch l Head_cell (lh_first l) xs d (Some x)"
    and d: "le_prev l x = d" and c: "chain l (Next_cell x) (le_next l x) ys"
    by (auto simp: dlist_def chain_append)
  have dist: "distinct (xs @ x # ys)" using assms by (rule dlist_distinct)
  define l1 where "l1 = (case le_next l x of None \<Rightarrow> l | Some n \<Rightarrow> set_prev n (le_prev l x) l)"
  have c1: "chain l1 d (le_next l x) ys" and x1: "le_prev l1 x = d" "le_next l1 x = le_next l x"
    and s1: "stretch l1 Head_cell (lh_first l) xs d (Some x)" and f1: "lh_first l1 = lh_first l"
    using c s d dist by (cases ys; auto simp: l1_def dest: chain_head_fresh)+
  have r: "LIST_REMOVE x l = store_cell d (le_next l x) l1"
    using x1 by (simp add: LIST_REMOVE_def l1_def [symmetric])
  show thesis
  proof (cases xs rule: rev_cases)
    case Nil
    then show thesis using that r c1 s by (simp add: dlist_def)
  next
    case (snoc zs w)
    then have "d = Next_cell w" and sz: "\<exists>e. stretch l1 Head_cell (lh_first l) zs e (Some w) \<and> le_prev l1 w = e"
      using s1 by (auto simp: stretch_append)
    moreover have "chain (set_next w (le_next l x) l1) d (le_next l x) ys"
      using c1 dist snoc by simp
    moreover have "w \<notin> set zs" using dist snoc by simp
    ultimately show thesis
      using that r snoc f1 by (auto simp: dlist_def chain_append)
  qed
qed

lemma dlist_insert_after:
  assumes "dlist l (xs @ x # ys)" "e \<notin> set (xs @ x # ys)"
  shows "dlist (LIST_INSERT_AFTER x e l) (xs @ x # e # ys)"
proof -
  from assms(1) obtain d where s: "stretch l Head_cell (lh_first l) xs d (Some x)"
    and d: "le_prev l x = d" and c: "chain l (Next_cell x) (le_next l x) ys"
    by (auto simp: dlist_def chain_append)
  have dist: "distinct (xs @ x # ys)" using assms(1) by (rule dlist_distinct)
  show ?thesis
    using s d c dist assms(2)
    by (cases ys) (auto simp: LIST_INSERT_AFTER_def Let_def dlist_def chain_append dest: chain_head_fresh)
qed

lemma dlist_insert_before:
  assumes "dlist l (xs @ x # ys)" "e \<notin> set (xs @ x # ys)"
  obtains l' where "LIST_INSERT_BEFORE x e l = Some l'" "dlist l' (xs @ e # x # ys)"
proof -
  from assms(1) obtain d where s: "stretch l Head_cell (lh_first l) xs d (Some x)"
    and d: "le_prev l x = d" and c: "chain l (Next_cell x) (le_next l x) ys"
    by (auto simp: dlist_def chain_append)
  have dist: "distinct (xs @ x # ys)" using assms(1) by (rule dlist_distinct)
  show thesis
  proof (cases xs rule: rev_cases)
    case Nil
    then show thesis
      using that s d c dist assms(2) by (auto simp: LIST_INSERT_BEFORE_def Let_def dlist_def)
  next
    case (snoc zs w)
    then have "le_prev l x = Next_cell w" using s d by (simp add: stretch_append)
    then show thesis
      using that s d c dist assms(2) snoc
      by (auto simp: LIST_INSERT_BEFORE_def Let_def dlist_def chain_append stretch_append)
  qed
qed

lemma list_foreach_count_chain:
  "chain l c p xs \<Longrightarrow> list_foreach_count l p cnt = Some (cnt + of_nat (length xs))"
proof (induction xs arbitrary: c p cnt)
  case Nil
  then show ?case by (simp add: list_foreach_count.simps)
next
  case (Cons x xs)
  then show ?case by (subst list_foreach_count.simps) (auto simp: algebra_simps)
qed

text \<open>Zeroing an element's own links, as a \<^verbatim>\<open>memset\<close> over the whole structure does.\<close>

definition clear_links :: "'a \<Rightarrow> 'a Linked_List \<Rightarrow> 'a Linked_List" where
  "clear_links x l = set_prev x Null_cell (set_next x None l)"

lemma dlist_clear_links: "dlist l xs \<Longrightarrow> x \<notin> set xs \<Longrightarrow> dlist (clear_links x l) xs"
  by (simp add: dlist_def clear_links_def)

text \<open>
  Lists with the same links outside a set of elements. A saved head leads again to the old sequence as long as
  the links of its elements are untouched.
\<close>

definition agree_links :: "'a set \<Rightarrow> 'a Linked_List \<Rightarrow> 'a Linked_List \<Rightarrow> bool" where
  "agree_links A l l' \<longleftrightarrow> (\<forall>x. x \<notin> A \<longrightarrow> le_next l' x = le_next l x \<and> le_prev l' x = le_prev l x)"

lemma agree_links_refl [simp]: "agree_links A l l"
  by (simp add: agree_links_def)

lemma agree_links_trans: "agree_links A l l' \<Longrightarrow> agree_links B l' l'' \<Longrightarrow> A \<union> B \<subseteq> C \<Longrightarrow> agree_links C l l''"
  unfolding agree_links_def by (metis Un_iff subsetD)

lemma agree_links_mono: "agree_links A l l' \<Longrightarrow> A \<subseteq> B \<Longrightarrow> agree_links B l l'"
  by (auto simp: agree_links_def)

lemma agree_links_clear [simp]: "x \<in> A \<Longrightarrow> agree_links A l (clear_links x l') \<longleftrightarrow> agree_links A l l'"
  by (auto simp: agree_links_def clear_links_def)

lemma agree_links_remove:
  assumes "dlist l (x # xs)" "LIST_REMOVE x l = Some l'"
  shows "agree_links (set (x # xs)) l l'"
  using assms dlist_distinct [OF assms(1)]
  by (cases xs) (auto simp: agree_links_def dlist_def LIST_REMOVE_def Let_def)

lemma agree_links_insert:
  assumes "dlist l xs"
  shows "agree_links (insert x (set xs)) l (LIST_INSERT_HEAD x l)"
  using assms by (cases xs) (auto simp: agree_links_def dlist_def LIST_INSERT_HEAD_def Let_def)

lemma dlist_restore:
  assumes "dlist l xs" "agree_links A l l'" "A \<inter> set xs = {}"
  shows "dlist (l'\<lparr>lh_first := lh_first l\<rparr>) xs"
proof -
  have "chain l' Head_cell (lh_first l) xs = chain l Head_cell (lh_first l) xs"
    by (rule chain_cong) (use assms(2,3) in \<open>auto simp: agree_links_def\<close>)
  then show ?thesis using assms(1) by (simp add: dlist_def)
qed

section \<open>The interface of a free list\<close>

text \<open>
  What the frame allocator and the environment table rely on: a last-in first-out pool. The
  operations are parameters; \<open>holds l xs\<close> says that the pool \<open>l\<close> offers the elements
  \<open>xs\<close>, the next one first.
\<close>

locale free_list =
  fixes first :: "'l \<Rightarrow> 'a option"
    and insert_head :: "'a \<Rightarrow> 'l \<Rightarrow> 'l"
    and remove :: "'a \<Rightarrow> 'l \<Rightarrow> 'l option"
    and clear :: "'a \<Rightarrow> 'l \<Rightarrow> 'l"
    and holds :: "'l \<Rightarrow> 'a list \<Rightarrow> bool"
  assumes holds_distinct: "holds l xs \<Longrightarrow> distinct xs"
    and holds_unique: "holds l xs \<Longrightarrow> holds l ys \<Longrightarrow> xs = ys"
    and first_holds: "holds l xs \<Longrightarrow> first l = (case xs of [] \<Rightarrow> None | x # _ \<Rightarrow> Some x)"
    and insert_holds: "holds l xs \<Longrightarrow> x \<notin> set xs \<Longrightarrow> holds (insert_head x l) (x # xs)"
    and remove_holds: "holds l (xs @ x # ys) \<Longrightarrow> \<exists>l'. remove x l = Some l' \<and> holds l' (xs @ ys)"
    and clear_holds: "holds l xs \<Longrightarrow> x \<notin> set xs \<Longrightarrow> holds (clear x l) xs"
begin

lemma take_first:
  assumes "holds l (x # xs)"
  obtains l' where "first l = Some x" "remove x l = Some l'" "holds l' xs" "holds (clear x l') xs"
proof -
  from remove_holds [of l "[]"] assms obtain l' where l': "remove x l = Some l'" "holds l' xs"
    by auto
  moreover have "x \<notin> set xs" using holds_distinct [OF assms] by simp
  ultimately show thesis using that first_holds [OF assms] clear_holds by auto
qed

lemma first_None_iff: "holds l xs \<Longrightarrow> first l = None \<longleftrightarrow> xs = []"
  by (auto dest: first_holds split: list.splits)

lemma insert_all:
  "holds l xs \<Longrightarrow> distinct ys \<Longrightarrow> set ys \<inter> set xs = {} \<Longrightarrow>
    holds (fold insert_head ys l) (rev ys @ xs)"
proof (induction ys arbitrary: l xs)
  case Nil
  then show ?case by simp
next
  case (Cons y ys)
  then have "holds (insert_head y l) (y # xs)" by (simp add: insert_holds)
  moreover have "set ys \<inter> set (y # xs) = {}" using Cons.prems by auto
  ultimately have "holds (fold insert_head ys (insert_head y l)) (rev ys @ y # xs)"
    using Cons.IH Cons.prems by simp
  then show ?case by simp
qed

lemma insert_then_take:
  assumes "holds l xs" "x \<notin> set xs"
  obtains l' where "first (insert_head x l) = Some x" "remove x (insert_head x l) = Some l'"
    "holds l' xs" "holds (clear x l') xs"
  using take_first [OF insert_holds [OF assms]] by blast

end

interpretation ll: free_list lh_first LIST_INSERT_HEAD LIST_REMOVE clear_links dlist
proof unfold_locales
  show "distinct xs" if "dlist l xs" for l :: "'a Linked_List" and xs
    using that by (rule dlist_distinct)
  show "xs = ys" if "dlist l xs" "dlist l ys" for l :: "'a Linked_List" and xs ys
    using that by (rule dlist_unique)
  show "\<exists>l'. LIST_REMOVE x l = Some l' \<and> dlist l' (xs @ ys)"
    if "dlist l (xs @ x # ys)" for l :: "'a Linked_List" and xs x ys
    using dlist_remove [OF that] by blast
qed (auto intro: dlist_first dlist_insert_head dlist_clear_links)

section \<open>Correctness\<close>

text \<open>
  C24: on a list that holds a sequence, the four macros that change it hold the sequence an
  abstract list would: insertion at the head, after and before a listed element, and removal
  from any place. Neither link is left dangling, and removal never writes through null.
\<close>

theorem linked_list_refines_sequence:
  assumes "dlist l (xs @ x # ys)" "e \<notin> set (xs @ x # ys)"
  shows "dlist (LIST_INSERT_HEAD e l) (e # xs @ x # ys) \<and>
         dlist (LIST_INSERT_AFTER x e l) (xs @ x # e # ys) \<and>
         (\<exists>l'. LIST_INSERT_BEFORE x e l = Some l' \<and> dlist l' (xs @ e # x # ys)) \<and>
         (\<exists>l'. LIST_REMOVE x l = Some l' \<and> dlist l' (xs @ ys))"
  using dlist_insert_head [OF assms] dlist_insert_after [OF assms] dlist_insert_before [OF assms]
    dlist_remove [OF assms(1)] by metis

definition empty_list :: "'a Linked_List" where
  "empty_list = \<lparr>lh_first = None, le_next = (\<lambda>_. None), le_prev = (\<lambda>_. Null_cell)\<rparr>"

lemma dlist_empty_list [simp]: "dlist empty_list []"
  by (simp add: dlist_def empty_list_def)

lemma dlist_fold_empty: "distinct xs \<Longrightarrow> dlist (fold LIST_INSERT_HEAD xs empty_list) (rev xs)"
  using ll.insert_all [OF dlist_empty_list, of xs] by simp

theorem linked_list_refines_sequence_witness:
  "\<exists>l'. LIST_REMOVE 5 (fold LIST_INSERT_HEAD [7, 5, 3 :: nat] empty_list) = Some l' \<and>
        dlist l' [3, 7]"
proof -
  have "dlist (fold LIST_INSERT_HEAD [7, 5, 3 :: nat] empty_list) ([3] @ 5 # [7])"
    using dlist_fold_empty [of "[7, 5, 3 :: nat]"] by simp
  from linked_list_refines_sequence [OF this, of 9] show ?thesis by simp
qed

end
