(* ===== verification/FOS_Frames.thy ===== *)
theory FOS_Frames
  imports FOS_Mmu FOS_Queue
begin

text \<open>
  Physical frames: the state of \<^verbatim>\<open>kern/memory_manager.c\<close>, the address conversions of
  \<^verbatim>\<open>kern/helpers.h\<close> and \<^verbatim>\<open>kern/memory_manager.h\<close>, the frame allocator and the
  initialisation of the free list. A \<^verbatim>\<open>struct Frame_Info *\<close> is the index of the structure
  in \<^verbatim>\<open>frames_info\<close>; null is \<open>None\<close>.
\<close>

section \<open>State\<close>

text \<open>
  \<open>kmem\<close> is the memory behind the kernel's window, word by word at kernel virtual addresses
  (page directories and page tables); \<open>references\<close> and the links are the fields of
  \<^verbatim>\<open>struct Frame_Info\<close>; \<open>invlpgs\<close> records the addresses given to \<^verbatim>\<open>invlpg\<close>, last first.
\<close>

record mm_state =
  kmem :: "u32 \<Rightarrow> u32"
  number_of_frames :: u32
  references :: "u32 \<Rightarrow> u16"
  free_frame_list :: "u32 Linked_List"
  ptr_free_mem :: u32
  invlpgs :: "u32 list"

text \<open>Error codes of \<^verbatim>\<open>inc/error.h\<close>: the macros are negative numbers.\<close>

definition E_UNSPECIFIED :: int where [simp]: "E_UNSPECIFIED = -1"
definition E_BAD_ENV :: int where [simp]: "E_BAD_ENV = -2"
definition E_INVAL :: int where [simp]: "E_INVAL = -3"
definition E_NO_MEM :: int where [simp]: "E_NO_MEM = -4"
definition E_NO_FREE_ENV :: int where [simp]: "E_NO_FREE_ENV = -5"
definition E_FAULT :: int where [simp]: "E_FAULT = -6"
definition E_EOF :: int where [simp]: "E_EOF = -7"

section \<open>Address conversions\<close>

definition K_PHYSICAL_ADDRESS :: "u32 \<Rightarrow> u32 res" where
  "K_PHYSICAL_ADDRESS va =
    (if va < KERNEL_BASE then Inl (Panic ''K_PHYSICAL_ADDRESS called with invalid kva'')
     else Inr (va - KERNEL_BASE))"

definition K_VIRTUAL_ADDRESS :: "mm_state \<Rightarrow> u32 \<Rightarrow> u32 res" where
  "K_VIRTUAL_ADDRESS s pa =
    (if PPN pa \<ge> number_of_frames s then Inl (Panic ''K_VIRTUAL_ADDRESS called with invalid pa'')
     else Inr (pa + KERNEL_BASE))"

definition to_frame_number :: "u32 \<Rightarrow> u32" where
  "to_frame_number ptr_frame_info = ptr_frame_info"

definition to_physical_address :: "u32 \<Rightarrow> u32" where
  "to_physical_address ptr_frame_info = push_bit 12 (to_frame_number ptr_frame_info)"

definition to_frame_info :: "mm_state \<Rightarrow> u32 \<Rightarrow> u32 res" where
  "to_frame_info s physical_address =
    (if PPN physical_address \<ge> number_of_frames s
     then Inl (Panic ''to_frame_info called with invalid pa'')
     else Inr (PPN physical_address))"

section \<open>The allocator\<close>

text \<open>The \<^verbatim>\<open>memset\<close> clears the links and the reference count.\<close>

definition initialize_frame_info :: "u32 \<Rightarrow> mm_state \<Rightarrow> mm_state" where
  "initialize_frame_info f s =
    s\<lparr>free_frame_list := clear_links f (free_frame_list s),
      references := (references s)(f := 0)\<rparr>"

definition allocate_frame :: "mm_state \<Rightarrow> ((int \<times> u32 option) \<times> mm_state) res" where
  "allocate_frame s =
    (case lh_first (free_frame_list s) of
       None \<Rightarrow> Inr ((E_NO_MEM, None), s)
     | Some f \<Rightarrow>
         (case LIST_REMOVE f (free_frame_list s) of
            None \<Rightarrow> Inl Null_deref
          | Some l \<Rightarrow> Inr ((0, Some f), initialize_frame_info f (s\<lparr>free_frame_list := l\<rparr>))))"

definition free_frame :: "u32 \<Rightarrow> mm_state \<Rightarrow> mm_state" where
  "free_frame f s = s\<lparr>free_frame_list := LIST_INSERT_HEAD f (free_frame_list s)\<rparr>"

definition decrement_references :: "u32 \<Rightarrow> mm_state \<Rightarrow> mm_state" where
  "decrement_references f s =
    (let s1 = s\<lparr>references := (references s)(f := references s f - 1)\<rparr>
     in if references s1 f = 0 then free_frame f s1 else s1)"

definition calculate_free_frames :: "mm_state \<Rightarrow> u32 option" where
  "calculate_free_frames s =
    list_foreach_count (free_frame_list s) (lh_first (free_frame_list s)) 0"

section \<open>Building the free list\<close>

text \<open>The two kinds of loops of \<^verbatim>\<open>initialize_paging\<close>: \<open>for (; i < n; i++)\<close>.\<close>

function mark_free_range :: "u32 \<Rightarrow> u32 \<Rightarrow> mm_state \<Rightarrow> mm_state" where
  "mark_free_range i n s =
    (if i < n then mark_free_range (i + 1) n
       (s\<lparr>references := (references s)(i := 0),
          free_frame_list := LIST_INSERT_HEAD i (free_frame_list s)\<rparr>)
     else s)"
  by pat_completeness auto
termination
  by (relation "measure (\<lambda>(i, n, s). unat (n - i))")
    (auto simp: loop_measure)

function mark_used_range :: "u32 \<Rightarrow> u32 \<Rightarrow> mm_state \<Rightarrow> mm_state" where
  "mark_used_range i n s =
    (if i < n then mark_used_range (i + 1) n (s\<lparr>references := (references s)(i := 1)\<rparr>) else s)"
  by pat_completeness auto
termination
  by (relation "measure (\<lambda>(i, n, s). unat (n - i))")
    (auto simp: loop_measure)

declare mark_free_range.simps [simp del] mark_used_range.simps [simp del]

definition initialize_paging :: "mm_state \<Rightarrow> mm_state res" where
  "initialize_paging s =
    (let s1 = s\<lparr>free_frame_list := LIST_INIT (free_frame_list s)\<rparr>;
         s2 = s1\<lparr>references := (references s1)(0 := 1)\<rparr>;
         range_end = ROUNDUP PHYS_IO_MEM PAGE_SIZE;
         s3 = mark_free_range 1 (range_end div PAGE_SIZE) s2;
         s4 = mark_used_range (PHYS_IO_MEM div PAGE_SIZE) (PHYS_EXTENDED_MEM div PAGE_SIZE) s3
     in bind_res (K_PHYSICAL_ADDRESS (ptr_free_mem s4)) (\<lambda>pa.
        let range_end = ROUNDUP pa PAGE_SIZE;
            s5 = mark_used_range (PHYS_EXTENDED_MEM div PAGE_SIZE) (range_end div PAGE_SIZE) s4
        in Inr (mark_free_range (range_end div PAGE_SIZE) (number_of_frames s5) s5)))"

section \<open>What the operations do\<close>

lemma K_VIRTUAL_ADDRESS_frame:
  "f < number_of_frames s \<Longrightarrow> number_of_frames s \<le> 0x10000 \<Longrightarrow>
    K_VIRTUAL_ADDRESS s (push_bit 12 f) = Inr (kva f)"
proof -
  assume a: "f < number_of_frames s" "number_of_frames s \<le> 0x10000"
  then have "f < 0x100000" by (simp add: word_less_nat_alt word_le_nat_alt)
  with a show ?thesis by (simp add: K_VIRTUAL_ADDRESS_def PPN_push_bit kva_def not_le)
qed

lemma K_PHYSICAL_ADDRESS_kva:
  "f < 0x10000 \<Longrightarrow> K_PHYSICAL_ADDRESS (kva f) = Inr (push_bit 12 f)"
  using unat_kva [of f] by (simp add: K_PHYSICAL_ADDRESS_def word_less_nat_alt kva_def)

lemma allocate_frame_empty:
  "dlist (free_frame_list s) [] \<Longrightarrow> allocate_frame s = Inr ((E_NO_MEM, None), s)"
  by (simp add: allocate_frame_def ll.first_holds)

lemma allocate_frame_cons:
  assumes "dlist (free_frame_list s) (f # fs)"
  obtains l where "dlist l fs"
    "allocate_frame s =
      Inr ((0, Some f), s\<lparr>free_frame_list := l, references := (references s)(f := 0)\<rparr>)"
proof -
  from ll.take_first [OF assms] obtain l' where
    "lh_first (free_frame_list s) = Some f" "LIST_REMOVE f (free_frame_list s) = Some l'"
    "dlist (clear_links f l') fs" by blast
  then show thesis
    using that by (simp add: allocate_frame_def initialize_frame_info_def)
qed

lemma allocate_frame_links:
  assumes "dlist (free_frame_list s) fs" "allocate_frame s = Inr (r, t)"
  shows "agree_links (set fs) (free_frame_list s) (free_frame_list t)"
  using assms agree_links_remove [of "free_frame_list s"] ll.first_holds [OF assms(1)]
  by (cases fs) (auto simp: allocate_frame_def initialize_frame_info_def split: option.splits)

lemma decrement_references_links:
  "dlist (free_frame_list s) fs \<Longrightarrow>
    agree_links (insert g (set fs)) (free_frame_list s) (free_frame_list (decrement_references g s))"
  by (simp add: decrement_references_def free_frame_def Let_def agree_links_insert)

lemma free_frame_holds:
  "dlist (free_frame_list s) fs \<Longrightarrow> f \<notin> set fs \<Longrightarrow> dlist (free_frame_list (free_frame f s)) (f # fs)"
  by (simp add: free_frame_def ll.insert_holds)

lemma calculate_free_frames_holds:
  "dlist (free_frame_list s) fs \<Longrightarrow> calculate_free_frames s = Some (of_nat (length fs))"
  by (simp add: calculate_free_frames_def dlist_def list_foreach_count_chain)


section \<open>The initial free list\<close>

lemma mark_free_range_eq:
  "mark_free_range i n s =
    s\<lparr>references := (\<lambda>f. if i \<le> f \<and> f < n then 0 else references s f),
      free_frame_list := fold LIST_INSERT_HEAD (word_range i n) (free_frame_list s)\<rparr>"
proof (induction i n s rule: mark_free_range.induct)
  case (1 i n s)
  show ?case
  proof (cases "i < n")
    case True
    have "i + 1 \<le> f \<longleftrightarrow> i < f" for f
      using loop_step [OF True] by (simp add: word_le_nat_alt word_less_nat_alt Suc_le_eq)
    then have "(\<lambda>f. if i + 1 \<le> f \<and> f < n then 0 else ((references s)(i := 0)) f) =
        (\<lambda>f. if i \<le> f \<and> f < n then 0 else references s f)"
      using True by (auto simp: fun_eq_iff le_less)
    with True "1.IH" show ?thesis
      by (subst mark_free_range.simps) (simp add: word_range_Cons cong: if_cong)
  next
    case False
    then have "(\<lambda>f. if i \<le> f \<and> f < n then 0 else references s f) = references s"
      by (auto simp: fun_eq_iff dest: le_less_trans)
    with False show ?thesis
      by (subst mark_free_range.simps) (simp add: word_range_Nil)
  qed
qed

lemma mark_used_range_eq:
  "mark_used_range i n s = s\<lparr>references := (\<lambda>f. if i \<le> f \<and> f < n then 1 else references s f)\<rparr>"
proof (induction i n s rule: mark_used_range.induct)
  case (1 i n s)
  show ?case
  proof (cases "i < n")
    case True
    have "i + 1 \<le> f \<longleftrightarrow> i < f" for f
      using loop_step [OF True] by (simp add: word_le_nat_alt word_less_nat_alt Suc_le_eq)
    then have "(\<lambda>f. if i + 1 \<le> f \<and> f < n then 1 else ((references s)(i := 1)) f) =
        (\<lambda>f. if i \<le> f \<and> f < n then 1 else references s f)"
      using True by (auto simp: fun_eq_iff le_less)
    with True "1.IH" show ?thesis by (subst mark_used_range.simps) (simp cong: if_cong)
  next
    case False
    then have "(\<lambda>f. if i \<le> f \<and> f < n then 1 else references s f) = references s"
      by (auto simp: fun_eq_iff dest: le_less_trans)
    with False show ?thesis by (subst mark_used_range.simps) simp
  qed
qed

lemma ROUNDUP_div_le:
  assumes "unat a \<le> 0x10000000"
  shows "ROUNDUP a PAGE_SIZE div PAGE_SIZE \<le> f \<longleftrightarrow> unat a \<le> 4096 * unat f"
proof -
  have "unat (ROUNDUP a 4096) = (unat a + 4095) div 4096 * 4096"
    using unat_ROUNDUP [of 4096 a] assms by simp
  then have "unat (ROUNDUP a 4096 div 4096) = (unat a + 4095) div 4096"
    by (simp add: unat_div_distrib)
  moreover have "(unat a + 4095) div 4096 \<le> unat f \<longleftrightarrow> unat a \<le> 4096 * unat f" by linarith
  ultimately show ?thesis by (simp add: word_le_nat_alt)
qed

lemma initialize_paging_list:
  assumes "0xF0100000 \<le> ptr_free_mem s" and "256 \<le> number_of_frames s"
  shows "\<exists>s' fs. initialize_paging s = Inr s' \<and> dlist (free_frame_list s') fs \<and> distinct fs \<and>
    (\<forall>f. f \<in> set fs \<longleftrightarrow> f < number_of_frames s \<and>
       (0 < f \<and> f < 160 \<or> unat (ptr_free_mem s - KERNEL_BASE) \<le> 4096 * unat f)) \<and>
    (\<forall>f < number_of_frames s. references s' f = (if f \<in> set fs then 0 else 1)) \<and>
    kmem s' = kmem s \<and> number_of_frames s' = number_of_frames s"
proof -
  define pa where "pa = ptr_free_mem s - KERNEL_BASE"
  define e where "e = ROUNDUP pa PAGE_SIZE div PAGE_SIZE"
  have kb: "KERNEL_BASE \<le> ptr_free_mem s" using assms(1) by (simp add: word_le_nat_alt)
  have pa: "unat pa = unat (ptr_free_mem s) - 0xF0000000"
    using kb by (simp add: pa_def unat_sub)
  have pa_lo: "0x100000 \<le> unat pa" and pa_hi: "unat pa \<le> 0x10000000"
    using assms(1) pa unat_u32_less [of "ptr_free_mem s"] by (simp_all add: word_le_nat_alt)
  have e_iff: "e \<le> f \<longleftrightarrow> unat pa \<le> 4096 * unat f" for f
    unfolding e_def by (rule ROUNDUP_div_le [OF pa_hi])
  have e256: "e \<le> f \<Longrightarrow> 256 \<le> f" for f
    using e_iff [of f] pa_lo by (simp add: word_le_nat_alt)
  have K: "K_PHYSICAL_ADDRESS (ptr_free_mem s) = Inr pa"
    using kb by (simp add: K_PHYSICAL_ADDRESS_def pa_def)
  have io: "ROUNDUP 0xA0000 0x1000 = 0xA0000" by (simp add: ROUNDUP_def ROUNDDOWN_def)
  define n where "n = number_of_frames s"
  define l where "l = fold LIST_INSERT_HEAD (word_range e n)
     (fold LIST_INSERT_HEAD (word_range 1 160) (LIST_INIT (free_frame_list s)))"
  define r :: "u32 \<Rightarrow> u16" where "r = (\<lambda>f. if e \<le> f \<and> f < n then 0 else
     if 256 \<le> f \<and> f < e then 1 else if 160 \<le> f \<and> f < 256 then 1 else
     if 1 \<le> f \<and> f < 160 then 0 else if f = 0 then 1 else references s f)"
  have run: "initialize_paging s = Inr (s\<lparr>references := r, free_frame_list := l\<rparr>)"
    by (simp add: initialize_paging_def Let_def mark_free_range_eq mark_used_range_eq K io
        r_def l_def e_def [symmetric, simplified] n_def fun_upd_def cong: if_cong)
  let ?fs = "rev (word_range e n) @ rev (word_range 1 160)"
  have dis: "{x. e \<le> x \<and> x < n} \<inter> {x. 1 \<le> x \<and> x < 160} = {}"
    using e256 by (fastforce simp: word_le_nat_alt word_less_nat_alt)
  have "dlist (fold LIST_INSERT_HEAD (word_range 1 160) (LIST_INIT (free_frame_list s)))
      (rev (word_range 1 160) @ [])"
    by (rule ll.insert_all [OF dlist_init]) simp_all
  then have fl: "dlist l ?fs"
    unfolding l_def by (intro ll.insert_all) (use dis in auto)
  have fs: "f \<in> set ?fs \<longleftrightarrow> f < n \<and> (0 < f \<and> f < 160 \<or> unat pa \<le> 4096 * unat f)" for f
    using assms(2) e_iff [of f] by (auto simp: n_def word_le_nat_alt word_less_nat_alt)
  have refs: "r f = (if f \<in> set ?fs then 0 else 1)" if "f < n" for f
    using that e256 [of f] unfolding r_def
    by (auto simp: word_le_nat_alt word_less_nat_alt word_unat_eq_iff [of f 0])
  show ?thesis
    using run fl fs refs ll.holds_distinct [OF fl]
    by (intro exI [of _ "s\<lparr>references := r, free_frame_list := l\<rparr>"] exI [of _ ?fs])
      (simp add: n_def pa_def)
qed

text \<open>
  C11: after \<^verbatim>\<open>initialize_paging\<close> the free list holds, without repetition, exactly the frames
  of base memory other than frame 0 and the frames at or above the boot allocator's mark
  \<^verbatim>\<open>ptr_free_mem\<close>; these and only these have reference count 0, so frame 0, the I/O hole,
  the kernel image and everything \<^verbatim>\<open>boot_allocate_space\<close> handed out are never allocated.
\<close>

theorem initialize_paging_correct:
  assumes "0xF0100000 \<le> ptr_free_mem s" and "256 \<le> number_of_frames s"
  shows "\<exists>s' fs. initialize_paging s = Inr s' \<and> dlist (free_frame_list s') fs \<and> distinct fs \<and>
    (\<forall>f. f \<in> set fs \<longleftrightarrow> f < number_of_frames s \<and>
       (0 < f \<and> f < 160 \<or> unat (ptr_free_mem s - KERNEL_BASE) \<le> 4096 * unat f)) \<and>
    (\<forall>f < number_of_frames s. references s' f = (if f \<in> set fs then 0 else 1)) \<and>
    kmem s' = kmem s \<and> number_of_frames s' = number_of_frames s"
  by (rule initialize_paging_list [OF assms])

text \<open>A machine with 1024 frames whose boot allocator stopped at 2 MB.\<close>

definition boot_state :: mm_state where
  "boot_state = \<lparr>kmem = (\<lambda>_. 0), number_of_frames = 1024, references = (\<lambda>_. 0),
     free_frame_list = empty_list, ptr_free_mem = 0xF0200000, invlpgs = []\<rparr>"

theorem initialize_paging_correct_witness:
  "\<exists>s' fs. initialize_paging boot_state = Inr s' \<and> dlist (free_frame_list s') fs \<and>
     512 \<in> set fs \<and> 0 \<notin> set fs \<and> 200 \<notin> set fs \<and> references s' 200 = 1"
proof -
  have "0xF0100000 \<le> ptr_free_mem boot_state" "256 \<le> number_of_frames boot_state"
    by (simp_all add: boot_state_def)
  from initialize_paging_correct [OF this] obtain s' fs where
    run: "initialize_paging boot_state = Inr s'" "dlist (free_frame_list s') fs"
    and mem: "\<forall>f. f \<in> set fs \<longleftrightarrow> f < number_of_frames boot_state \<and>
       (0 < f \<and> f < 160 \<or> unat (ptr_free_mem boot_state - KERNEL_BASE) \<le> 4096 * unat f)"
    and refs: "\<forall>f < number_of_frames boot_state. references s' f = (if f \<in> set fs then 0 else 1)"
    by blast
  have "512 \<in> set fs" "0 \<notin> set fs" and no: "200 \<notin> set fs"
    by (subst mem [rule_format], simp add: boot_state_def)+
  moreover have "references s' 200 = 1"
    using refs no by (simp add: boot_state_def)
  ultimately show ?thesis using run by blast
qed


end
