(* ===== verification/FOS_Paging.thy ===== *)
theory FOS_Paging
  imports FOS_Frames
begin

text \<open>
  Two-level page tables: \<^verbatim>\<open>get_page_table\<close>, \<^verbatim>\<open>get_frame_info\<close>, \<^verbatim>\<open>map_frame\<close> and
  \<^verbatim>\<open>unmap_frame\<close> of \<^verbatim>\<open>kern/memory_manager.c\<close>, with the software translation
  \<^verbatim>\<open>check_va2pa\<close> and \<^verbatim>\<open>tlb_invalidate\<close> of \<^verbatim>\<open>kern/helpers.c\<close>. A \<^verbatim>\<open>uint32 *\<close> that points to a
  directory or a table is its kernel virtual address; entry \<open>i\<close> is the word at
  \<open>p + 4 * i\<close>; null is 0.
\<close>

section \<open>The operations\<close>

definition store_word :: "u32 \<Rightarrow> u32 \<Rightarrow> mm_state \<Rightarrow> mm_state" where
  "store_word a v s = s\<lparr>kmem := (kmem s)(a := v)\<rparr>"

text \<open>\<^verbatim>\<open>memset(p, 0, PAGE_SIZE)\<close>.\<close>

definition memset_page :: "u32 \<Rightarrow> mm_state \<Rightarrow> mm_state" where
  "memset_page p s = s\<lparr>kmem := (\<lambda>a. if a - p < PAGE_SIZE then 0 else kmem s a)\<rparr>"

definition invlpg :: "u32 \<Rightarrow> mm_state \<Rightarrow> mm_state" where [simp]:
  "invlpg addr s = s\<lparr>invlpgs := addr # invlpgs s\<rparr>"

definition tlb_invalidate :: "u32 \<Rightarrow> u32 \<Rightarrow> mm_state \<Rightarrow> mm_state" where
  "tlb_invalidate ptr_page_directory virtual_address s =
    invlpg virtual_address s"

definition get_page_table ::
    "u32 \<Rightarrow> u32 \<Rightarrow> bool \<Rightarrow> mm_state \<Rightarrow> ((int \<times> u32) \<times> mm_state) res" where
  "get_page_table ptr_page_directory virtual_address create s =
    (let page_directory_entry = kmem s (ptr_page_directory + 4 * PDX virtual_address)
     in bind_res (K_VIRTUAL_ADDRESS s (EXTRACT_ADDRESS page_directory_entry)) (\<lambda>ptr_page_table.
        if page_directory_entry = 0 then
          (if create then
             bind_res (allocate_frame s) (\<lambda>((err, ptr_frame_info), s1).
               if err = E_NO_MEM then Inr ((E_NO_MEM, 0), s1)
               else (case ptr_frame_info of
                   None \<Rightarrow> Inl Null_deref
                 | Some f \<Rightarrow>
                     let phys_page_table = to_physical_address f
                     in bind_res (K_VIRTUAL_ADDRESS s1 phys_page_table) (\<lambda>ptr_page_table.
                        let s2 = memset_page ptr_page_table s1;
                            s3 = s2\<lparr>references := (references s2)(f := 1)\<rparr>;
                            s4 = store_word (ptr_page_directory + 4 * PDX virtual_address)
                                   (CONSTRUCT_ENTRY phys_page_table
                                     (PERM_PRESENT OR PERM_USER OR PERM_WRITEABLE)) s3
                        in Inr ((0, ptr_page_table), s4))))
           else Inr ((0, 0), s))
        else Inr ((0, ptr_page_table), s)))"

definition get_frame_info :: "u32 \<Rightarrow> u32 \<Rightarrow> mm_state \<Rightarrow> ((u32 option \<times> u32) \<times> mm_state) res" where
  "get_frame_info ptr_page_directory virtual_address s =
    bind_res (get_page_table ptr_page_directory virtual_address False s)
      (\<lambda>((ret, ptr_page_table), s1).
        if ptr_page_table \<noteq> 0 then
          (let index_page_table = PTX virtual_address;
               page_table_entry = kmem s1 (ptr_page_table + 4 * index_page_table)
           in if page_table_entry \<noteq> 0 then
                bind_res (to_frame_info s1 (EXTRACT_ADDRESS page_table_entry)) (\<lambda>f.
                  Inr ((Some f, ptr_page_table), s1))
              else Inr ((None, ptr_page_table), s1))
        else Inr ((None, ptr_page_table), s1))"

definition unmap_frame :: "u32 \<Rightarrow> u32 \<Rightarrow> mm_state \<Rightarrow> mm_state res" where
  "unmap_frame ptr_page_directory virtual_address s =
    bind_res (get_frame_info ptr_page_directory virtual_address s)
      (\<lambda>((ptr_frame_info, ptr_page_table), s1).
        case ptr_frame_info of
          None \<Rightarrow> Inr s1
        | Some f \<Rightarrow>
            let s2 = decrement_references f s1;
                s3 = store_word (ptr_page_table + 4 * PTX virtual_address) 0 s2
            in Inr (tlb_invalidate ptr_page_directory virtual_address s3))"

definition map_frame ::
    "u32 \<Rightarrow> u32 \<Rightarrow> u32 \<Rightarrow> u32 \<Rightarrow> mm_state \<Rightarrow> (int \<times> mm_state) res" where
  "map_frame ptr_page_directory ptr_frame_info virtual_address perm s =
    (let physical_address = to_physical_address ptr_frame_info
     in bind_res (get_page_table ptr_page_directory virtual_address True s)
      (\<lambda>((err, ptr_page_table), s1).
        if err = 0 then
          (let page_table_entry = kmem s1 (ptr_page_table + 4 * PTX virtual_address);
               insert = (\<lambda>s2.
                 let s3 = s2\<lparr>references :=
                       (references s2)(ptr_frame_info := references s2 ptr_frame_info + 1)\<rparr>;
                     s4 = store_word (ptr_page_table + 4 * PTX virtual_address)
                       (CONSTRUCT_ENTRY physical_address (perm OR PERM_PRESENT)) s3
                 in Inr (0, s4))
           in if page_table_entry AND PERM_PRESENT = PERM_PRESENT then
                (if EXTRACT_ADDRESS page_table_entry = physical_address then Inr (0, s1)
                 else bind_res (unmap_frame ptr_page_directory virtual_address s1) insert)
              else insert s1)
        else Inr (E_NO_MEM, s1)))"

text \<open>\<^verbatim>\<open>check_va2pa\<close> returns \<open>~0\<close> where nothing is mapped.\<close>

definition check_va2pa :: "u32 \<Rightarrow> u32 \<Rightarrow> mm_state \<Rightarrow> u32 res" where
  "check_va2pa ptr_page_directory va s =
    (let pde = kmem s (ptr_page_directory + 4 * PDX va)
     in if pde AND PERM_PRESENT = 0 then Inr (NOT 0)
        else bind_res (K_VIRTUAL_ADDRESS s (EXTRACT_ADDRESS pde)) (\<lambda>p.
          if kmem s (p + 4 * PTX va) AND PERM_PRESENT = 0 then Inr (NOT 0)
          else Inr (EXTRACT_ADDRESS (kmem s (p + 4 * PTX va)))))"

text \<open>\<^verbatim>\<open>assert(check_va2pa(pgdir, va) == pa)\<close> in the given source line.\<close>

definition assert_va2pa :: "nat \<Rightarrow> u32 \<Rightarrow> u32 \<Rightarrow> u32 \<Rightarrow> mm_state \<Rightarrow> mm_state res" where
  "assert_va2pa line pgdir va pa s =
    bind_res (check_va2pa pgdir va s) (\<lambda>p. check line (p = pa) (Inr s))"

section \<open>Directories and tables as arrays of entries\<close>

text \<open>
  Word \<open>j\<close> of frame \<open>f\<close>; the directory entry \<open>i\<close> of the directory in frame \<open>F\<close>; the table
  entry \<open>(i, j)\<close>, which is 0 where there is no table.
\<close>

definition word_at :: "mm_state \<Rightarrow> u32 \<Rightarrow> u32 \<Rightarrow> u32" where
  "word_at s f j = kmem s (kva f + 4 * j)"

definition pde :: "mm_state \<Rightarrow> u32 \<Rightarrow> u32 \<Rightarrow> u32" where
  "pde s F i = word_at s F i"

definition pte :: "mm_state \<Rightarrow> u32 \<Rightarrow> u32 \<Rightarrow> u32 \<Rightarrow> u32" where
  "pte s F i j = (if pde s F i = 0 then 0 else word_at s (PPN (pde s F i)) j)"

lemma word_at_store [view_simps]:
  "f < 0x10000 \<Longrightarrow> g < 0x10000 \<Longrightarrow> i < 1024 \<Longrightarrow> j < 1024 \<Longrightarrow>
    word_at (store_word (kva f + 4 * i) v s) g j = (if f = g \<and> i = j then v else word_at s g j)"
  by (simp add: word_at_def store_word_def slot_eq_iff eq_commute [of f] eq_commute [of i])

lemma word_at_memset [view_simps]:
  "f < 0x10000 \<Longrightarrow> g < 0x10000 \<Longrightarrow> j < 1024 \<Longrightarrow>
    word_at (memset_page (kva f) s) g j = (if f = g then 0 else word_at s g j)"
  by (simp add: word_at_def memset_page_def slot_in_page)

lemma word_at_cong [view_simps]:
  "word_at (s\<lparr>references := r\<rparr>) = word_at s"
  "word_at (s\<lparr>free_frame_list := l\<rparr>) = word_at s"
  "word_at (s\<lparr>invlpgs := t\<rparr>) = word_at s"
  "word_at (free_frame f s) = word_at s"
  "word_at (decrement_references f s) = word_at s"
  "word_at (tlb_invalidate p va s) = word_at s"
  by (simp_all add: fun_eq_iff word_at_def free_frame_def decrement_references_def Let_def
      tlb_invalidate_def)

lemma field_simps_mm [view_simps]:
  "number_of_frames (store_word a v s) = number_of_frames s"
  "references (store_word a v s) = references s"
  "free_frame_list (store_word a v s) = free_frame_list s"
  "invlpgs (store_word a v s) = invlpgs s"
  "number_of_frames (memset_page p s) = number_of_frames s"
  "references (memset_page p s) = references s"
  "free_frame_list (memset_page p s) = free_frame_list s"
  "number_of_frames (tlb_invalidate p va s) = number_of_frames s"
  "references (tlb_invalidate p va s) = references s"
  "free_frame_list (tlb_invalidate p va s) = free_frame_list s"
  "number_of_frames (free_frame f s) = number_of_frames s"
  "references (free_frame f s) = references s"
  "number_of_frames (decrement_references f s) = number_of_frames s"
  "references (decrement_references f s) = (references s)(f := references s f - 1)"
  by (simp_all add: store_word_def memset_page_def tlb_invalidate_def free_frame_def
      decrement_references_def Let_def)

section \<open>The invariant of an address space\<close>

text \<open>
  \<open>tabs\<close> and \<open>maps\<close>: the user entries of a directory and of its tables that refer to a frame.
  Entries below index 955 are the user part (below \<^verbatim>\<open>USER_TOP\<close>).
\<close>

definition tabs :: "(u32 \<Rightarrow> u32) \<Rightarrow> u32 \<Rightarrow> u32 set" where
  "tabs d g = {i. i < 955 \<and> d i \<noteq> 0 \<and> PPN (d i) = g}"

definition maps :: "(u32 \<Rightarrow> u32 \<Rightarrow> u32) \<Rightarrow> u32 \<Rightarrow> (u32 \<times> u32) set" where
  "maps t g = {(i, j). i < 955 \<and> j < 1024 \<and> t i j \<noteq> 0 \<and> PPN (t i j) = g}"

text \<open>
  The invariant, for the address space rooted in frame \<open>F\<close> with the free frames \<open>fs\<close>.
  \<open>pin f\<close> counts the references to frame \<open>f\<close> held outside the user part (frames in use
  since boot). Free frames have count 0; every user directory entry that is not zero is
  present and leads to an unpinned table frame of its own; every table entry that is not
  zero is present and leads to a frame of the machine; and the reference count of each frame is
  its pins plus the number of entries that refer to it.
\<close>

definition vm_inv :: "(u32 \<Rightarrow> nat) \<Rightarrow> u32 \<Rightarrow> u32 list \<Rightarrow> mm_state \<Rightarrow> bool" where
  "vm_inv pin F fs s \<longleftrightarrow>
    number_of_frames s \<le> 0x10000 \<and> F < number_of_frames s \<and> 0 < pin F \<and>
    dlist (free_frame_list s) fs \<and>
    (\<forall>f \<in> set fs. f < number_of_frames s \<and> references s f = 0) \<and>
    (\<forall>i < 955. pde s F i \<noteq> 0 \<longrightarrow> pde s F i AND 1 = 1 \<and>
      PPN (pde s F i) < number_of_frames s \<and> pin (PPN (pde s F i)) = 0) \<and>
    (\<forall>i < 955. \<forall>k < 955. pde s F i \<noteq> 0 \<longrightarrow> pde s F k \<noteq> 0 \<longrightarrow>
      PPN (pde s F i) = PPN (pde s F k) \<longrightarrow> i = k) \<and>
    (\<forall>i < 955. \<forall>j < 1024. pte s F i j \<noteq> 0 \<longrightarrow> pte s F i j AND 1 = 1 \<and>
      PPN (pte s F i j) < number_of_frames s) \<and>
    (\<forall>g < number_of_frames s.
      unat (references s g) = pin g + card (tabs (pde s F) g) + card (maps (pte s F) g))"

subsection \<open>Counting entries\<close>

lemma tabs_cong: "(\<And>i. i < 955 \<Longrightarrow> d i = d' i) \<Longrightarrow> tabs d g = tabs d' g"
  by (auto simp: tabs_def)

lemma maps_cong: "(\<And>i j. i < 955 \<Longrightarrow> j < 1024 \<Longrightarrow> t i j = t' i j) \<Longrightarrow> maps t g = maps t' g"
  by (auto simp: maps_def)

lemma card_tabs_new:
  assumes "i < 955" "d i = 0" "v \<noteq> 0" "\<And>k. k < 955 \<Longrightarrow> d' k = (if k = i then v else d k)"
  shows "card (tabs d' g) = card (tabs d g) + of_bool (PPN v = g)"
proof -
  have "tabs d' g = (if PPN v = g then insert i (tabs d g) else tabs d g)"
    using assms by (auto simp: tabs_def split: if_splits)
  moreover have "i \<notin> tabs d g" using assms by (simp add: tabs_def)
  ultimately show ?thesis by simp
qed

lemma maps_write:
  assumes "i < 955" "j < 1024"
    and "\<And>k l. k < 955 \<Longrightarrow> l < 1024 \<Longrightarrow> t' k l = (if k = i \<and> l = j then v else t k l)"
  shows "maps t' g = (if v \<noteq> 0 \<and> PPN v = g then insert (i, j) (maps t g) else maps t g - {(i, j)})"
proof (rule set_eqI)
  fix x :: "u32 \<times> u32"
  obtain k l where x: "x = (k, l)" by (cases x)
  show "x \<in> maps t' g \<longleftrightarrow>
      x \<in> (if v \<noteq> 0 \<and> PPN v = g then insert (i, j) (maps t g) else maps t g - {(i, j)})"
  proof (cases "k = i \<and> l = j")
    case True
    then show ?thesis using assms(1,2) assms(3) [of i j] x by (simp add: maps_def)
  next
    case False
    then have "x \<in> maps t' g \<longleftrightarrow> x \<in> maps t g"
      using assms(3) [of k l] x by (auto simp: maps_def)
    then show ?thesis using False x by auto
  qed
qed

lemma card_maps_new:
  assumes "i < 955" "j < 1024" "t i j = 0" "v \<noteq> 0"
    and "\<And>k l. k < 955 \<Longrightarrow> l < 1024 \<Longrightarrow> t' k l = (if k = i \<and> l = j then v else t k l)"
  shows "card (maps t' g) = card (maps t g) + of_bool (PPN v = g)"
proof -
  have no: "(i, j) \<notin> maps t g" using assms(3) by (simp add: maps_def)
  have eq: "maps t' g = (if PPN v = g then insert (i, j) (maps t g) else maps t g)"
    using maps_write [OF assms(1,2,5), of g] assms(4) no by (auto split: if_splits)
  have "finite (maps t g)" by (rule finite)
  with no show ?thesis unfolding eq by (cases "PPN v = g") (simp_all only: card_insert_disjoint
      if_True if_False of_bool_eq refl simp_thms add_0_right Suc_eq_plus1)
qed

lemma card_maps_clear:
  assumes "i < 955" "j < 1024" "t i j \<noteq> 0"
    and "\<And>k l. k < 955 \<Longrightarrow> l < 1024 \<Longrightarrow> t' k l = (if k = i \<and> l = j then 0 else t k l)"
  shows "card (maps t g) = card (maps t' g) + of_bool (PPN (t i j) = g)"
proof -
  have "(i, j) \<in> maps t g \<longleftrightarrow> PPN (t i j) = g" using assms by (simp add: maps_def)
  moreover have "maps t' g = maps t g - {(i, j)}"
    using maps_write [OF assms(1,2,4), of g] by simp
  moreover have "Suc (card (maps t g - {(i, j)})) = card (maps t g)" if "(i, j) \<in> maps t g"
    using that by (rule card_Suc_Diff1 [OF finite])
  ultimately show ?thesis
    by (cases "PPN (t i j) = g") (simp_all del: card_Diff_singleton card_Diff_insert)
qed

subsection \<open>Consequences of the invariant\<close>

lemma vm_inv_frames:
  assumes "vm_inv pin F fs s"
  shows "number_of_frames s \<le> 0x10000" "F < number_of_frames s" "F < 0x10000"
    "dlist (free_frame_list s) fs" "F \<notin> set fs"
    "f \<in> set fs \<Longrightarrow> f < number_of_frames s" "f \<in> set fs \<Longrightarrow> references s f = 0"
    "f < number_of_frames s \<Longrightarrow> f < 0x10000"
proof -
  show n: "number_of_frames s \<le> 0x10000" and F: "F < number_of_frames s"
    and "dlist (free_frame_list s) fs"
    and fs: "f \<in> set fs \<Longrightarrow> f < number_of_frames s" "f \<in> set fs \<Longrightarrow> references s f = 0" for f
    using assms by (auto simp: vm_inv_def)
  show "F < 0x10000" "f < number_of_frames s \<Longrightarrow> f < 0x10000"
    using n F by (auto intro: less_le_trans)
  have "unat (references s F) = pin F + card (tabs (pde s F) F) + card (maps (pte s F) F)" "0 < pin F"
    using assms F by (auto simp: vm_inv_def)
  then show "F \<notin> set fs" using fs(2) [of F] by auto
qed

lemma vm_inv_free:
  assumes "vm_inv pin F fs s" "f \<in> set fs"
  shows "pin f = 0" "tabs (pde s F) f = {}" "maps (pte s F) f = {}"
proof -
  have "unat (references s f) = pin f + card (tabs (pde s F) f) + card (maps (pte s F) f)"
    "references s f = 0"
    using assms by (auto simp: vm_inv_def)
  then show "pin f = 0" "tabs (pde s F) f = {}" "maps (pte s F) f = {}" by auto
qed

lemma vm_inv_table:
  assumes "vm_inv pin F fs s" "i < 955" "pde s F i \<noteq> 0"
  shows "pde s F i AND 1 = 1" "PPN (pde s F i) < number_of_frames s" "PPN (pde s F i) \<noteq> F"
    "PPN (pde s F i) \<notin> set fs" "PPN (pde s F i) < 0x10000"
    "k < 955 \<Longrightarrow> pde s F k \<noteq> 0 \<Longrightarrow> PPN (pde s F k) = PPN (pde s F i) \<longleftrightarrow> k = i"
proof -
  show "pde s F i AND 1 = 1" and n: "PPN (pde s F i) < number_of_frames s"
    and "PPN (pde s F i) \<noteq> F"
    and "k < 955 \<Longrightarrow> pde s F k \<noteq> 0 \<Longrightarrow> PPN (pde s F k) = PPN (pde s F i) \<longleftrightarrow> k = i"
    using assms by (auto simp: vm_inv_def)
  show "PPN (pde s F i) < 0x10000" using vm_inv_frames(8) [OF assms(1)] n by blast
  show "PPN (pde s F i) \<notin> set fs"
    using vm_inv_free(2) [OF assms(1)] assms(2,3) by (auto simp: tabs_def)
qed

lemma vm_inv_entry:
  assumes "vm_inv pin F fs s" "i < 955" "j < 1024" "pte s F i j \<noteq> 0"
  shows "pte s F i j AND 1 = 1" "PPN (pte s F i j) < number_of_frames s"
    "PPN (pte s F i j) \<notin> set fs" "PPN (pte s F i j) < 0x10000" "pde s F i \<noteq> 0"
proof -
  show "pte s F i j AND 1 = 1" and n: "PPN (pte s F i j) < number_of_frames s"
    using assms by (auto simp: vm_inv_def)
  show "PPN (pte s F i j) < 0x10000" using vm_inv_frames(8) [OF assms(1)] n by blast
  show "PPN (pte s F i j) \<notin> set fs"
    using vm_inv_free(3) [OF assms(1)] assms(2-4) by (auto simp: maps_def)
  show "pde s F i \<noteq> 0" using assms(4) by (auto simp: pte_def)
qed

lemma vm_inv_refs:
  "vm_inv pin F fs s \<Longrightarrow> g < number_of_frames s \<Longrightarrow>
    unat (references s g) = pin g + card (tabs (pde s F) g) + card (maps (pte s F) g)"
  by (simp add: vm_inv_def)

lemma pde_read: "kmem s (kva F + 4 * i) = pde s F i"
  by (simp add: pde_def word_at_def)

lemma pte_read: "pde s F i \<noteq> 0 \<Longrightarrow> kmem s (kva (PPN (pde s F i)) + 4 * j) = pte s F i j"
  by (simp add: pte_def word_at_def)

text \<open>Writing one entry of a table changes that entry only.\<close>

lemma pte_store:
  assumes inv: "vm_inv pin F fs s" and i: "i < 955" "pde s F i \<noteq> 0" and j: "j < 1024"
  shows "k < 955 \<Longrightarrow> pde (store_word (kva (PPN (pde s F i)) + 4 * j) v s) F k = pde s F k"
    and "k < 955 \<Longrightarrow> l < 1024 \<Longrightarrow>
      pte (store_word (kva (PPN (pde s F i)) + 4 * j) v s) F k l =
      (if k = i \<and> l = j then v else pte s F k l)"
proof -
  note T = vm_inv_table [OF inv i]
  have lt: "k < 1024" if "k < 955" for k :: u32 using that by (simp add: word_less_nat_alt)
  show d: "pde (store_word (kva (PPN (pde s F i)) + 4 * j) v s) F k = pde s F k" if "k < 955" for k
    using T(3,5) vm_inv_frames(3) [OF inv] j lt [OF that] by (simp add: pde_def view_simps)
  show "pte (store_word (kva (PPN (pde s F i)) + 4 * j) v s) F k l =
      (if k = i \<and> l = j then v else pte s F k l)" if "k < 955" "l < 1024"
  proof (cases "pde s F k = 0")
    case True
    then have "k \<noteq> i" using i(2) by auto
    with True show ?thesis using d [OF that(1)] by (simp add: pte_def)
  next
    case False
    have eq: "PPN (pde s F i) = PPN (pde s F k) \<longleftrightarrow> k = i"
      using T(6) [OF that(1) False] by auto
    show ?thesis
      using False d [OF that(1)] eq
        word_at_store [OF T(5) vm_inv_table(5) [OF inv that(1) False] j that(2), of v s]
      by (auto simp: pte_def)
  qed
qed

lemma unat_incr16: "x \<noteq> 0xFFFF \<Longrightarrow> unat (x + 1) = unat (x :: u16) + 1"
proof -
  assume x: "x \<noteq> 0xFFFF"
  then have "unat x \<noteq> unat (0xFFFF :: u16)" by (metis word_unat_eq_iff)
  then have "unat x \<noteq> 65535" by simp
  moreover have "unat x < 65536" by (rule unat_u16_less)
  ultimately show ?thesis by (simp add: unat_word_ariths)
qed

section \<open>What each operation does under the invariant\<close>

lemma index_lt: "i < 955 \<Longrightarrow> i < (1024 :: u32)"
  by (simp add: word_less_nat_alt)

lemma get_page_table_hit:
  assumes inv: "vm_inv pin F fs s" and "PDX va < 955" "pde s F (PDX va) \<noteq> 0"
  shows "get_page_table (kva F) va c s = Inr ((0, kva (PPN (pde s F (PDX va)))), s)"
  using assms vm_inv_table [OF assms] vm_inv_frames [OF inv]
  by (simp add: get_page_table_def pde_read EXTRACT_ADDRESS_PPN K_VIRTUAL_ADDRESS_frame)

lemma K_VIRTUAL_ADDRESS_zero:
  "vm_inv pin F fs s \<Longrightarrow> K_VIRTUAL_ADDRESS s 0 = Inr KERNEL_BASE"
  using vm_inv_frames(2) [of pin F fs s] by (auto simp: K_VIRTUAL_ADDRESS_def entry_zero)

lemma get_page_table_miss:
  assumes inv: "vm_inv pin F fs s" and "pde s F (PDX va) = 0"
  shows "get_page_table (kva F) va False s = Inr ((0, 0), s)"
  using assms by (simp add: get_page_table_def pde_read entry_zero K_VIRTUAL_ADDRESS_zero)

lemma get_page_table_no_mem:
  assumes inv: "vm_inv pin F [] s" and "pde s F (PDX va) = 0"
  shows "get_page_table (kva F) va True s = Inr ((E_NO_MEM, 0), s)"
  using assms vm_inv_frames(4) [OF inv]
  by (simp add: get_page_table_def pde_read entry_zero K_VIRTUAL_ADDRESS_zero allocate_frame_empty)

definition table_entry :: "u32 \<Rightarrow> u32" where
  "table_entry f = CONSTRUCT_ENTRY (push_bit 12 f) 7"

lemma table_entry: "f < 0x10000 \<Longrightarrow> PPN (table_entry f) = f" "table_entry f AND 1 = 1"
  "table_entry f \<noteq> 0"
proof -
  show "f < 0x10000 \<Longrightarrow> PPN (table_entry f) = f"
    unfolding table_entry_def by (rule entry_fields(1)) (auto simp: word_less_nat_alt)
  show 1: "table_entry f AND 1 = 1"
    unfolding table_entry_def CONSTRUCT_ENTRY_def by (rule bit_word_eqI) (auto simp: bit_simps bit_1_iff)
  then show "table_entry f \<noteq> 0" by (metis zero_and_eq zero_neq_one)
qed

text \<open>A free frame becomes the table of an entry that had none: every count stays the number of uses.\<close>

lemma vm_inv_add_table:
  assumes inv: "vm_inv pin F (f # fs) s" and i: "I < 955" and z: "pde s F I = 0"
    and nf: "number_of_frames s' = number_of_frames s" and rf: "references s' = (references s)(f := 1)"
    and l: "dlist (free_frame_list s') fs"
    and d: "\<And>k. k < 955 \<Longrightarrow> pde s' F k = (if k = I then table_entry f else pde s F k)"
    and t: "\<And>k j. k < 955 \<Longrightarrow> j < 1024 \<Longrightarrow> pte s' F k j = pte s F k j"
  shows "vm_inv pin F fs s'"
proof -
  note fr = vm_inv_frames [OF inv]
  have f: "f < number_of_frames s" "f < 0x10000" "references s f = 0" "f \<noteq> F"
    using fr(5,6,7,8) by auto
  have tabs': "card (tabs (pde s' F) g) = card (tabs (pde s F) g) + of_bool (f = g)" for g
    using card_tabs_new [OF i z table_entry(3) d] table_entry(1) [OF f(2)] by simp
  have maps': "maps (pte s' F) g = maps (pte s F) g" for g
    by (rule maps_cong) (rule t)
  show ?thesis
    unfolding vm_inv_def nf rf
  proof (intro conjI allI impI ballI)
    show "number_of_frames s \<le> 0x10000" "F < number_of_frames s" "dlist (free_frame_list s') fs"
      using fr(1,2) l by simp_all
    show "0 < pin F" using inv by (simp add: vm_inv_def)
    fix x assume x: "x \<in> set fs"
    then show "x < number_of_frames s" using inv by (simp add: vm_inv_def)
    have "f \<notin> set fs" using ll.holds_distinct [OF fr(4)] by simp
    then show "((references s)(f := 1)) x = 0" using fr(7) [of x] x by auto
  next
    fix k :: u32 assume k: "k < 955" and nz: "pde s' F k \<noteq> 0"
    show "pde s' F k AND 1 = 1" "PPN (pde s' F k) < number_of_frames s"
      using nz d [OF k] vm_inv_table(1,2) [OF inv k] table_entry [of f] f by (auto split: if_splits)
    show "pin (PPN (pde s' F k)) = 0"
      using nz d [OF k] table_entry(1) [OF f(2)] vm_inv_free(1) [OF inv, of f] inv k
      by (auto simp: vm_inv_def split: if_splits)
  next
    fix i k :: u32
    assume lt: "i < 955" "k < 955" and nz: "pde s' F i \<noteq> 0" "pde s' F k \<noteq> 0"
      and eq: "PPN (pde s' F i) = PPN (pde s' F k)"
    have other: "PPN (pde s F l) \<noteq> f" if "l < 955" "pde s F l \<noteq> 0" for l
      using vm_inv_table(4) [OF inv that] by simp
    show "i = k"
    proof (cases "i = I \<or> k = I")
      case True
      then show ?thesis
        using d [OF lt(1)] d [OF lt(2)] other [OF lt(1)] other [OF lt(2)] nz eq
          table_entry(1) [OF f(2)] by metis
    next
      case False
      then show ?thesis
        using d [OF lt(1)] d [OF lt(2)] nz eq vm_inv_table(6) [OF inv lt(1) _ lt(2)] by simp
    qed
  next
    fix k j :: u32 assume "k < 955" "j < 1024" "pte s' F k j \<noteq> 0"
    then show "pte s' F k j AND 1 = 1" "PPN (pte s' F k j) < number_of_frames s"
      using t vm_inv_entry(1,2) [OF inv] by simp_all
  next
    fix g assume g: "g < number_of_frames s"
    show "unat (((references s)(f := 1)) g) =
        pin g + card (tabs (pde s' F) g) + card (maps (pte s' F) g)"
      using vm_inv_refs [OF inv g] vm_inv_free [OF inv, of f] f(3) by (auto simp: tabs' maps')
  qed
qed

lemma get_page_table_new:
  assumes inv: "vm_inv pin F (f # fs) s" and i: "PDX va < 955" and z: "pde s F (PDX va) = 0"
  obtains s' where "get_page_table (kva F) va True s = Inr ((0, kva f), s')"
    "vm_inv pin F fs s'" "number_of_frames s' = number_of_frames s"
    "references s' = (references s)(f := 1)"
    "\<And>k. k < 955 \<Longrightarrow> pde s' F k = (if k = PDX va then table_entry f else pde s F k)"
    "\<And>k j. k < 955 \<Longrightarrow> j < 1024 \<Longrightarrow> pte s' F k j = pte s F k j"
    "agree_links (set (f # fs)) (free_frame_list s) (free_frame_list s')"
proof -
  note fr = vm_inv_frames [OF inv]
  have f: "f < number_of_frames s" "f < 0x10000" "references s f = 0" "f \<noteq> F"
    using fr(5,6,7,8) by auto
  from allocate_frame_cons [OF fr(4)] obtain l where l: "dlist l fs" and a: "allocate_frame s =
      Inr ((0, Some f), s\<lparr>free_frame_list := l, references := (references s)(f := 0)\<rparr>)" .
  define s1 where "s1 = s\<lparr>free_frame_list := l, references := (references s)(f := 0)\<rparr>"
  define s2 where "s2 = memset_page (kva f) s1"
  define s' where "s' = store_word (kva F + 4 * PDX va) (table_entry f)
      (s2\<lparr>references := (references s2)(f := 1)\<rparr>)"
  have K: "K_VIRTUAL_ADDRESS s1 (push_bit 12 f) = Inr (kva f)"
    using K_VIRTUAL_ADDRESS_frame [of f s1] f(1) fr(1) by (simp add: s1_def)
  have run: "get_page_table (kva F) va True s = Inr ((0, kva f), s')"
    using z by (simp add: get_page_table_def pde_read entry_zero K_VIRTUAL_ADDRESS_zero [OF inv] a
        s1_def [symmetric] K s'_def s2_def table_entry_def to_physical_address_def to_frame_number_def
        Let_def)
  have w: "word_at s' g j = (if g = F \<and> j = PDX va then table_entry f
      else if g = f then 0 else word_at s g j)" if "g < 0x10000" "j < 1024" for g j
    using that f fr(3) by (auto simp: s'_def s2_def s1_def view_simps)
  have d: "pde s' F k = (if k = PDX va then table_entry f else pde s F k)" if "k < 955" for k
    using w [OF fr(3) index_lt [OF that]] f(4) by (auto simp: pde_def)
  have t: "pte s' F k j = pte s F k j" if k: "k < 955" and j: "j < 1024" for k j
  proof (cases "k = PDX va")
    case True
    then show ?thesis
      using d [OF k] z w [OF f(2) j] f(2,4) by (simp add: pte_def table_entry)
  next
    case False
    show ?thesis
    proof (cases "pde s F k = 0")
      case True
      with False show ?thesis using d [OF k] by (simp add: pte_def)
    next
      case nz: False
      note T = vm_inv_table [OF inv k nz]
      from T(4) have "PPN (pde s F k) \<noteq> f" by auto
      then show ?thesis using False nz d [OF k] w [OF T(5) j] T(3) by (simp add: pte_def)
    qed
  qed
  have nf: "number_of_frames s' = number_of_frames s"
    and rf: "references s' = (references s)(f := 1)" and fl: "free_frame_list s' = l"
    by (simp_all add: s'_def s2_def s1_def view_simps)
  have inv': "vm_inv pin F fs s'"
    by (rule vm_inv_add_table [OF inv i z nf rf _ d t]) (simp add: fl l)
  have "agree_links (set (f # fs)) (free_frame_list s) (free_frame_list s')"
    using allocate_frame_links [OF fr(4) a] by (simp add: fl)
  from this show thesis by (rule that [OF run inv' nf rf, rotated 2]) (erule d, erule (1) t)
qed

lemma get_frame_info_eq:
  assumes inv: "vm_inv pin F fs s" and i: "PDX va < 955"
  shows "get_frame_info (kva F) va s =
    Inr ((if pte s F (PDX va) (PTX va) = 0 then None else Some (PPN (pte s F (PDX va) (PTX va))),
          if pde s F (PDX va) = 0 then 0 else kva (PPN (pde s F (PDX va)))), s)"
proof (cases "pde s F (PDX va) = 0")
  case True
  then show ?thesis
    using get_page_table_miss [OF inv True] by (simp add: get_frame_info_def pte_def)
next
  case False
  note T = vm_inv_table [OF inv i False]
  show ?thesis
  proof (cases "pte s F (PDX va) (PTX va) = 0")
    case True
    then show ?thesis
      using get_page_table_hit [OF inv i False] kva_nonzero [OF T(5)] False
      by (simp add: get_frame_info_def pte_read [OF False] Let_def)
  next
    case nz: False
    note E = vm_inv_entry [OF inv i PTX_less nz]
    have "PPN (push_bit 12 (PPN (pte s F (PDX va) (PTX va)))) = PPN (pte s F (PDX va) (PTX va))"
      using E(4) by (intro PPN_push_bit) (auto simp: word_less_nat_alt)
    then have "to_frame_info s (EXTRACT_ADDRESS (pte s F (PDX va) (PTX va))) =
        Inr (PPN (pte s F (PDX va) (PTX va)))"
      using E(2) by (simp add: to_frame_info_def EXTRACT_ADDRESS_PPN not_le)
    then show ?thesis
      using get_page_table_hit [OF inv i False] kva_nonzero [OF T(5)] False nz
      by (simp add: get_frame_info_def pte_read [OF False] Let_def)
  qed
qed

text \<open>Writing a table entry: the three ways \<^verbatim>\<open>map_frame\<close> and \<^verbatim>\<open>unmap_frame\<close> do it.\<close>

text \<open>The invariant after a change of one entry: the directory is the same, so the tables are.\<close>

lemma vm_inv_entries:
  assumes inv: "vm_inv pin F fs s" and nf: "number_of_frames s' = number_of_frames s"
    and d: "\<And>k. k < 955 \<Longrightarrow> pde s' F k = pde s F k"
    and l: "dlist (free_frame_list s') gs" "\<And>x. x \<in> set gs \<Longrightarrow> x < number_of_frames s \<and> references s' x = 0"
    and t: "\<And>k l. k < 955 \<Longrightarrow> l < 1024 \<Longrightarrow> pte s' F k l \<noteq> 0 \<Longrightarrow>
      pte s' F k l AND 1 = 1 \<and> PPN (pte s' F k l) < number_of_frames s"
    and refs: "\<And>g. g < number_of_frames s \<Longrightarrow>
      unat (references s' g) = pin g + card (tabs (pde s F) g) + card (maps (pte s' F) g)"
  shows "vm_inv pin F gs s'"
proof -
  have tabs': "tabs (pde s' F) g = tabs (pde s F) g" for g
    by (rule tabs_cong) (rule d)
  show ?thesis
    unfolding vm_inv_def nf
  proof (intro conjI allI impI ballI)
    show "number_of_frames s \<le> 0x10000" "F < number_of_frames s" "0 < pin F" "dlist (free_frame_list s') gs"
      using inv l(1) by (simp_all add: vm_inv_def)
  next
    fix k :: u32 assume "k < 955" "pde s' F k \<noteq> 0"
    then show "pde s' F k AND 1 = 1" "PPN (pde s' F k) < number_of_frames s"
      "pin (PPN (pde s' F k)) = 0"
      using d inv by (auto simp: vm_inv_def)
  next
    fix i k :: u32
    assume "i < 955" "k < 955" "pde s' F i \<noteq> 0" "pde s' F k \<noteq> 0"
      "PPN (pde s' F i) = PPN (pde s' F k)"
    then show "i = k" using d vm_inv_table(6) [OF inv, of i k] by auto
  qed (use l(2) t refs tabs' in auto)
qed

lemma vm_inv_clear:
  assumes inv: "vm_inv pin F fs s" and i: "i < 955" and j: "j < 1024"
    and e: "pte s F i j \<noteq> 0"
    and s': "s' = store_word (kva (PPN (pde s F i)) + 4 * j) 0
      (decrement_references (PPN (pte s F i j)) s)"
  shows "vm_inv pin F (if references s (PPN (pte s F i j)) = 1 then PPN (pte s F i j) # fs else fs) s'"
    and "\<And>k. k < 955 \<Longrightarrow> pde s' F k = pde s F k"
    and "\<And>k l. k < 955 \<Longrightarrow> l < 1024 \<Longrightarrow>
      pte s' F k l = (if k = i \<and> l = j then 0 else pte s F k l)"
    and "references s' = (references s)(PPN (pte s F i j) := references s (PPN (pte s F i j)) - 1)"
    and "number_of_frames s' = number_of_frames s"
    and "agree_links (insert (PPN (pte s F i j)) (set fs)) (free_frame_list s) (free_frame_list s')"
proof -
  note fr = vm_inv_frames [OF inv]
  note E = vm_inv_entry [OF inv i j e]
  let ?g = "PPN (pte s F i j)"
  have wd: "word_at s' = word_at (store_word (kva (PPN (pde s F i)) + 4 * j) 0 s)"
    unfolding s' by (simp add: fun_eq_iff word_at_def store_word_def decrement_references_def
        free_frame_def Let_def)
  have pd: "pde s' F k = pde (store_word (kva (PPN (pde s F i)) + 4 * j) 0 s) F k"
    and pt: "pte s' F k l = pte (store_word (kva (PPN (pde s F i)) + 4 * j) 0 s) F k l" for k l
    by (simp_all add: pde_def pte_def wd)
  show d: "pde s' F k = pde s F k" if "k < 955" for k
    using pd pte_store(1) [OF inv i E(5) j that] by simp
  show t: "pte s' F k l = (if k = i \<and> l = j then 0 else pte s F k l)"
    if "k < 955" "l < 1024" for k l
    using pt pte_store(2) [OF inv i E(5) j that] by simp
  show rf: "references s' = (references s)(?g := references s ?g - 1)"
    and nf: "number_of_frames s' = number_of_frames s"
    by (simp_all add: s' view_simps)
  show "agree_links (insert ?g (set fs)) (free_frame_list s) (free_frame_list s')"
    using decrement_references_links [OF fr(4)] by (simp add: s' store_word_def)
  have pos: "0 < unat (references s ?g)"
  proof -
    have "(i, j) \<in> maps (pte s F) ?g" using i j e by (simp add: maps_def)
    then have "card (maps (pte s F) ?g) \<noteq> 0" by (auto simp: card_eq_0_iff)
    then show ?thesis using vm_inv_refs [OF inv E(2)] by linarith
  qed
  then have dec: "unat (references s ?g - 1) = unat (references s ?g) - 1"
    by (subst unat_minus_one) (auto simp: unat_gt_0)
  have fl: "dlist (free_frame_list s') (if references s ?g = 1 then ?g # fs else fs)"
  proof -
    have "references s ?g - 1 = 0 \<longleftrightarrow> references s ?g = 1" by auto
    then show ?thesis
      using ll.insert_holds [OF fr(4) E(3)] fr(4)
      by (simp add: s' store_word_def decrement_references_def free_frame_def Let_def)
  qed
  have maps': "card (maps (pte s F) g) = card (maps (pte s' F) g) + of_bool (?g = g)" for g
    by (rule card_maps_clear [of i j]) (use i j e t in auto)
  show "vm_inv pin F (if references s ?g = 1 then ?g # fs else fs) s'"
  proof (rule vm_inv_entries [OF inv nf d fl])
    fix x assume "x \<in> set (if references s ?g = 1 then ?g # fs else fs)"
    then have x: "x \<in> set fs \<or> x = ?g \<and> references s ?g = 1" by (auto split: if_splits)
    then show "x < number_of_frames s \<and> references s' x = 0" using fr(6,7) E(2,3) by (auto simp: rf)
  next
    fix k l :: u32 assume "k < 955" "l < 1024" "pte s' F k l \<noteq> 0"
    then show "pte s' F k l AND 1 = 1 \<and> PPN (pte s' F k l) < number_of_frames s"
      using t [of k l] vm_inv_entry(1,2) [OF inv, of k l] by (auto split: if_splits)
  next
    fix g assume "g < number_of_frames s"
    then show "unat (references s' g) = pin g + card (tabs (pde s F) g) + card (maps (pte s' F) g)"
      using vm_inv_refs [OF inv, of g] maps' [of g] dec pos by (auto simp: rf)
  qed
qed

lemma unmap_frame_none:
  assumes "vm_inv pin F fs s" "PDX va < 955" "pte s F (PDX va) (PTX va) = 0"
  shows "unmap_frame (kva F) va s = Inr s"
  using get_frame_info_eq [OF assms(1,2)] assms(3) by (simp add: unmap_frame_def)

lemma vm_inv_invlpgs [simp]:
  "vm_inv pin F fs (s\<lparr>invlpgs := t\<rparr>) = vm_inv pin F fs s"
  "pde (s\<lparr>invlpgs := t\<rparr>) = pde s" "pte (s\<lparr>invlpgs := t\<rparr>) = pte s"
proof -
  show p: "pde (s\<lparr>invlpgs := t\<rparr>) = pde s" by (simp add: fun_eq_iff pde_def view_simps)
  then show q: "pte (s\<lparr>invlpgs := t\<rparr>) = pte s" by (simp add: fun_eq_iff pte_def view_simps)
  show "vm_inv pin F fs (s\<lparr>invlpgs := t\<rparr>) = vm_inv pin F fs s"
    by (simp add: vm_inv_def p q)
qed

lemma unmap_frame_some:
  assumes inv: "vm_inv pin F fs s" and i: "PDX va < 955"
    and e: "pte s F (PDX va) (PTX va) \<noteq> 0" and g: "g = PPN (pte s F (PDX va) (PTX va))"
  obtains s' where "unmap_frame (kva F) va s = Inr s'"
    "vm_inv pin F (if references s g = 1 then g # fs else fs) s'"
    "\<And>k. k < 955 \<Longrightarrow> pde s' F k = pde s F k"
    "\<And>k l. k < 955 \<Longrightarrow> l < 1024 \<Longrightarrow>
      pte s' F k l = (if k = PDX va \<and> l = PTX va then 0 else pte s F k l)"
    "references s' = (references s)(g := references s g - 1)"
    "number_of_frames s' = number_of_frames s" "invlpgs s' = va # invlpgs s"
    "agree_links (insert g (set fs)) (free_frame_list s) (free_frame_list s')"
proof -
  let ?s1 = "store_word (kva (PPN (pde s F (PDX va))) + 4 * PTX va) 0 (decrement_references g s)"
  note E = vm_inv_entry [OF inv i PTX_less e]
  note C = vm_inv_clear [OF inv i PTX_less e refl, folded g]
  have run: "unmap_frame (kva F) va s = Inr (tlb_invalidate (kva F) va ?s1)"
    using get_frame_info_eq [OF inv i] e E(5) g by (simp add: unmap_frame_def Let_def)
  have "invlpgs ?s1 = invlpgs s"
    by (simp add: store_word_def decrement_references_def free_frame_def Let_def)
  then show thesis
    using that [OF run] C by (simp add: tlb_invalidate_def)
qed

lemma vm_inv_insert:
  assumes inv: "vm_inv pin F fs s" and i: "i < 955" "pde s F i \<noteq> 0" and j: "j < 1024"
    and e: "pte s F i j = 0"
    and g: "g < number_of_frames s" "g \<notin> set fs" "references s g \<noteq> 0xFFFF"
    and v: "v AND 1 = 1" "PPN v = g"
    and s': "s' = store_word (kva (PPN (pde s F i)) + 4 * j) v
      (s\<lparr>references := (references s)(g := references s g + 1)\<rparr>)"
  shows "vm_inv pin F fs s'"
    and "\<And>k. k < 955 \<Longrightarrow> pde s' F k = pde s F k"
    and "\<And>k l. k < 955 \<Longrightarrow> l < 1024 \<Longrightarrow>
      pte s' F k l = (if k = i \<and> l = j then v else pte s F k l)"
    and "references s' = (references s)(g := references s g + 1)"
    and "number_of_frames s' = number_of_frames s"
proof -
  note fr = vm_inv_frames [OF inv]
  have wd: "word_at s' = word_at (store_word (kva (PPN (pde s F i)) + 4 * j) v s)"
    unfolding s' by (simp add: fun_eq_iff word_at_def store_word_def)
  have pd: "pde s' F k = pde (store_word (kva (PPN (pde s F i)) + 4 * j) v s) F k"
    and pt: "pte s' F k l = pte (store_word (kva (PPN (pde s F i)) + 4 * j) v s) F k l" for k l
    by (simp_all add: pde_def pte_def wd)
  show d: "pde s' F k = pde s F k" if "k < 955" for k
    using pd pte_store(1) [OF inv i j that] by simp
  show t: "pte s' F k l = (if k = i \<and> l = j then v else pte s F k l)"
    if "k < 955" "l < 1024" for k l
    using pt pte_store(2) [OF inv i j that] by simp
  show rf: "references s' = (references s)(g := references s g + 1)"
    and nf: "number_of_frames s' = number_of_frames s"
    by (simp_all add: s' view_simps)
  have fl: "free_frame_list s' = free_frame_list s" by (simp add: s' view_simps)
  have v0: "v \<noteq> 0" using v(1) by (metis zero_and_eq zero_neq_one)
  have inc: "unat (references s g + 1) = unat (references s g) + 1"
    using g(3) by (intro unat_incr16)
  have maps': "card (maps (pte s' F) h) = card (maps (pte s F) h) + of_bool (g = h)" for h
    using card_maps_new [where t = "pte s F" and t' = "pte s' F", OF i(1) j e v0 t] v(2) by simp
  show "vm_inv pin F fs s'"
  proof (rule vm_inv_entries [OF inv nf d])
    show "dlist (free_frame_list s') fs" unfolding fl by (rule fr(4))
    show "x < number_of_frames s \<and> references s' x = 0" if "x \<in> set fs" for x
      using that fr(6,7) g(2) by (auto simp: rf)
  next
    fix k l :: u32 assume "k < 955" "l < 1024" "pte s' F k l \<noteq> 0"
    then show "pte s' F k l AND 1 = 1 \<and> PPN (pte s' F k l) < number_of_frames s"
      using t [of k l] vm_inv_entry(1,2) [OF inv, of k l] v g(1) by (auto split: if_splits)
  next
    fix h assume "h < number_of_frames s"
    then show "unat (references s' h) = pin h + card (tabs (pde s F) h) + card (maps (pte s' F) h)"
      using vm_inv_refs [OF inv, of h] maps' [of h] inc by (auto simp: rf)
  qed
qed

section \<open>Mapping\<close>

text \<open>
  What \<^verbatim>\<open>map_frame\<close> leaves: the address space after a successful call. Every other page
  keeps its entry, and the page of \<open>va\<close> leads to \<open>g\<close>; its entry is left as it was when it
  already led to \<open>g\<close>.
\<close>

definition mapped_entry :: "u32 \<Rightarrow> u32 \<Rightarrow> u32" where
  "mapped_entry g perm = CONSTRUCT_ENTRY (push_bit 12 g) (perm OR PERM_PRESENT)"

lemma mapped_entry:
  assumes "g < 0x10000" "perm < 0x1000"
  shows "PPN (mapped_entry g perm) = g" "mapped_entry g perm AND 1 = 1" "mapped_entry g perm \<noteq> 0"
proof -
  have p: "perm OR 1 < 0x1000" using assms(2) by (rule low_or) simp
  show "PPN (mapped_entry g perm) = g"
    unfolding mapped_entry_def PERM_PRESENT_def
    by (rule entry_fields(1)) (use assms p in \<open>auto simp: word_less_nat_alt\<close>)
  show 1: "mapped_entry g perm AND 1 = 1"
    unfolding mapped_entry_def CONSTRUCT_ENTRY_def PERM_PRESENT_def
    by (rule bit_word_eqI) (auto simp: bit_simps bit_1_iff)
  then show "mapped_entry g perm \<noteq> 0" by (metis zero_and_eq zero_neq_one)
qed

text \<open>The free list, the directory and the counts once a page table is there.\<close>

definition table_frames :: "mm_state \<Rightarrow> u32 \<Rightarrow> u32 \<Rightarrow> u32 list \<Rightarrow> u32 list" where
  "table_frames s F i fs = (if pde s F i = 0 then tl fs else fs)"

definition table_refs :: "mm_state \<Rightarrow> u32 \<Rightarrow> u32 \<Rightarrow> u32 list \<Rightarrow> u32 \<Rightarrow> u16" where
  "table_refs s F i fs = (if pde s F i = 0 then (references s)(hd fs := 1) else references s)"

lemma map_table:
  assumes inv: "vm_inv pin F fs s" and i: "PDX va < 955"
    and mem: "pde s F (PDX va) \<noteq> 0 \<or> fs \<noteq> []"
  obtains s1 where
    "get_page_table (kva F) va True s = Inr ((0, kva (PPN (pde s1 F (PDX va)))), s1)"
    "vm_inv pin F (table_frames s F (PDX va) fs) s1" "pde s1 F (PDX va) \<noteq> 0"
    "number_of_frames s1 = number_of_frames s" "references s1 = table_refs s F (PDX va) fs"
    "\<And>k. k < 955 \<Longrightarrow> pde s1 F k = (if k = PDX va \<and> pde s F k = 0 then table_entry (hd fs) else pde s F k)"
    "\<And>k l. k < 955 \<Longrightarrow> l < 1024 \<Longrightarrow> pte s1 F k l = pte s F k l"
    "agree_links (set fs) (free_frame_list s) (free_frame_list s1)"
proof (cases "pde s F (PDX va) = 0")
  case False
  show thesis
    by (rule that [OF get_page_table_hit [OF inv i False]])
      (use inv False in \<open>auto simp: table_frames_def table_refs_def\<close>)
next
  case True
  with mem obtain f fs1 where fs: "fs = f # fs1" by (cases fs) auto
  obtain s1 where
    s1: "get_page_table (kva F) va True s = Inr ((0, kva f), s1)" "vm_inv pin F fs1 s1"
      "number_of_frames s1 = number_of_frames s" "references s1 = (references s)(f := 1)"
      "agree_links (set (f # fs1)) (free_frame_list s) (free_frame_list s1)"
    and d1: "\<And>k. k < 955 \<Longrightarrow> pde s1 F k = (if k = PDX va then table_entry f else pde s F k)"
    and t1: "\<And>k j. k < 955 \<Longrightarrow> j < 1024 \<Longrightarrow> pte s1 F k j = pte s F k j"
    by (rule get_page_table_new [OF inv [unfolded fs] i True]) blast
  have "f < 0x10000" using vm_inv_frames(6,8) [OF inv, of f] fs by simp
  then have "PPN (pde s1 F (PDX va)) = f" "pde s1 F (PDX va) \<noteq> 0"
    using d1 [OF i] table_entry by simp_all
  then show thesis
  proof (intro that [of s1])
    show "vm_inv pin F (table_frames s F (PDX va) fs) s1" "references s1 = table_refs s F (PDX va) fs"
      using s1(2,4) True fs by (simp_all add: table_frames_def table_refs_def)
    show "pde s1 F k = (if k = PDX va \<and> pde s F k = 0 then table_entry (hd fs) else pde s F k)" if "k < 955" for k
      using d1 [OF that] True fs by simp
    show "agree_links (set fs) (free_frame_list s) (free_frame_list s1)" using s1(5) fs by simp
  qed (use s1(1,3) t1 in simp_all)
qed

lemma table_frames_other:
  assumes "vm_inv pin F fs s" "g \<notin> set fs" "pde s F i \<noteq> 0 \<or> fs \<noteq> []"
  shows "g \<notin> set (table_frames s F i fs)" "table_refs s F i fs g = references s g"
  using assms(2,3) by (cases fs; simp add: table_frames_def table_refs_def)+

text \<open>
  The free list and the counts after \<^verbatim>\<open>map_frame\<close>: the frame that was mapped at the page gives up one reference
  and the new one gains one, unless they are the same.
\<close>

definition given_up :: "u32 \<Rightarrow> u32 \<Rightarrow> bool" where
  "given_up e g \<longleftrightarrow> e \<noteq> 0 \<and> PPN e \<noteq> g"

definition map_frames :: "u32 \<Rightarrow> u32 \<Rightarrow> (u32 \<Rightarrow> u16) \<Rightarrow> u32 list \<Rightarrow> u32 list" where
  "map_frames e g r fs = (if given_up e g \<and> r (PPN e) = 1 then PPN e # fs else fs)"

definition map_refs :: "u32 \<Rightarrow> u32 \<Rightarrow> (u32 \<Rightarrow> u16) \<Rightarrow> u32 \<Rightarrow> u16" where
  "map_refs e g r =
    (if e \<noteq> 0 \<and> PPN e = g then r
     else let r = (if given_up e g then r(PPN e := r (PPN e) - 1) else r) in r(g := r g + 1))"

text \<open>The entry of a page in use is replaced: the old frame is given up, the new one is counted.\<close>

lemma replace_mapping:
  assumes inv: "vm_inv pin F fs s" and i: "PDX va < 955" and p: "pde s F (PDX va) \<noteq> 0"
    and e: "pte s F (PDX va) (PTX va) = e" "e \<noteq> 0" "PPN e \<noteq> g"
    and g: "g < number_of_frames s" "g \<notin> set fs" "references s g \<noteq> 0xFFFF" and perm: "perm < 0x1000"
  defines "hs \<equiv> if references s (PPN e) = 1 then PPN e # fs else fs"
  obtains s2 s3 where "unmap_frame (kva F) va s = Inr s2"
    "s3 = store_word (kva (PPN (pde s F (PDX va))) + 4 * PTX va) (mapped_entry g perm)
      (s2\<lparr>references := (references s2)(g := references s2 g + 1)\<rparr>)"
    "vm_inv pin F hs s3" "number_of_frames s3 = number_of_frames s" "g \<notin> set hs"
    "references s3 = (references s)(PPN e := references s (PPN e) - 1, g := references s g + 1)"
    "\<And>k. k < 955 \<Longrightarrow> pde s3 F k = pde s F k"
    "\<And>k l. k < 955 \<Longrightarrow> l < 1024 \<Longrightarrow>
      pte s3 F k l = (if k = PDX va \<and> l = PTX va then mapped_entry g perm else pte s F k l)"
    "agree_links (insert (PPN e) (set fs)) (free_frame_list s) (free_frame_list s3)"
proof -
  have g16: "g < 0x10000" using vm_inv_frames(8) [OF inv g(1)] .
  note M = mapped_entry [OF g16 perm]
  have nz: "pte s F (PDX va) (PTX va) \<noteq> 0" using e by simp
  obtain s2 where s2: "unmap_frame (kva F) va s = Inr s2" "vm_inv pin F hs s2"
      "references s2 = (references s)(PPN e := references s (PPN e) - 1)"
      "number_of_frames s2 = number_of_frames s"
      "agree_links (insert (PPN e) (set fs)) (free_frame_list s) (free_frame_list s2)"
    and d2: "\<And>k. k < 955 \<Longrightarrow> pde s2 F k = pde s F k"
    and t2: "\<And>k l. k < 955 \<Longrightarrow> l < 1024 \<Longrightarrow>
      pte s2 F k l = (if k = PDX va \<and> l = PTX va then 0 else pte s F k l)"
    unfolding hs_def by (rule unmap_frame_some [OF inv i nz arg_cong [OF e(1) [symmetric], of PPN]]) blast
  have g2: "g < number_of_frames s2" "g \<notin> set hs" "references s2 g \<noteq> 0xFFFF"
    using g s2(3,4) e(3) by (auto simp: hs_def)
  have p2: "pde s2 F (PDX va) \<noteq> 0" "pte s2 F (PDX va) (PTX va) = 0"
    using d2 [OF i] p t2 [OF i PTX_less] by simp_all
  note I = vm_inv_insert [OF s2(2) i p2(1) PTX_less p2(2) g2 M(2,1) refl]
  show thesis
    by (rule that [OF s2(1) refl])
      (use I s2(3-5) g2(2) d2 t2 e(3) i in \<open>simp_all add: store_word_def\<close>)
qed

text \<open>What \<^verbatim>\<open>map_frame\<close> does once there is a page table; \<open>e\<close> is the entry of the page.\<close>

lemma map_entry_step:
  assumes inv: "vm_inv pin F fs s" and i: "PDX va < 955" and p: "pde s F (PDX va) \<noteq> 0" and e: "pte s F (PDX va) (PTX va) = e"
    and g: "g < number_of_frames s" "g \<notin> set fs" "references s g \<noteq> 0xFFFF" and perm: "perm < 0x1000"
  defines "write \<equiv> \<lambda>t. store_word (kva (PPN (pde s F (PDX va))) + 4 * PTX va) (mapped_entry g perm)
      (t\<lparr>references := (references t)(g := references t g + 1)\<rparr>)"
  obtains s' where "(if e AND 1 = 1 then
         if EXTRACT_ADDRESS e = push_bit 12 g then Inr (0, s)
         else bind_res (unmap_frame (kva F) va s) (\<lambda>t. Inr (0, write t))
       else Inr (0, write s)) = Inr (0 :: int, s')"
    "vm_inv pin F (map_frames e g (references s) fs) s'" "number_of_frames s' = number_of_frames s"
    "g \<notin> set (map_frames e g (references s) fs)" "references s' = map_refs e g (references s)"
    "\<And>k. k < 955 \<Longrightarrow> pde s' F k = pde s F k"
    "\<And>k l. k < 955 \<Longrightarrow> l < 1024 \<Longrightarrow> pte s' F k l =
      (if k = PDX va \<and> l = PTX va then (if e \<noteq> 0 \<and> PPN e = g then e else mapped_entry g perm) else pte s F k l)"
    "agree_links (if e = 0 then set fs else insert (PPN e) (set fs)) (free_frame_list s) (free_frame_list s')"
proof -
  have g16: "g < 0x10000" using vm_inv_frames(8) [OF inv g(1)] .
  note M = mapped_entry [OF g16 perm]
  note defs = map_frames_def map_refs_def given_up_def
  show thesis
  proof (cases "e = 0")
    case True
    note I = vm_inv_insert [OF inv i p PTX_less e [unfolded True] g M(2,1) refl]
    show thesis
      by (rule that [of "write s"]) (use I g(2) True in \<open>simp_all add: defs write_def store_word_def Let_def\<close>)
  next
    case nz: False
    then have "pte s F (PDX va) (PTX va) \<noteq> 0" by (simp add: e)
    note E = vm_inv_entry [OF inv i PTX_less this, unfolded e]
    have same: "EXTRACT_ADDRESS e = push_bit 12 g \<longleftrightarrow> PPN e = g"
    proof -
      have "PPN (push_bit 12 x) = x" if "x < 0x10000" for x
        using that by (intro PPN_push_bit) (auto simp: word_less_nat_alt)
      then show ?thesis using E(4) g16 unfolding EXTRACT_ADDRESS_PPN by metis
    qed
    show thesis
    proof (cases "PPN e = g")
      case True
      show thesis
        by (rule that [of s]) (use E(1) same True inv g(2) nz e in \<open>auto simp: defs agree_links_refl\<close>)
    next
      case False
      obtain s2 s3 where s3: "unmap_frame (kva F) va s = Inr s2" "s3 = write s2"
          "vm_inv pin F (if references s (PPN e) = 1 then PPN e # fs else fs) s3" "number_of_frames s3 = number_of_frames s"
          "g \<notin> set (if references s (PPN e) = 1 then PPN e # fs else fs)"
          "references s3 = (references s)(PPN e := references s (PPN e) - 1, g := references s g + 1)"
          "agree_links (insert (PPN e) (set fs)) (free_frame_list s) (free_frame_list s3)"
        and d3: "\<And>k. k < 955 \<Longrightarrow> pde s3 F k = pde s F k"
        and t3: "\<And>k l. k < 955 \<Longrightarrow> l < 1024 \<Longrightarrow>
          pte s3 F k l = (if k = PDX va \<and> l = PTX va then mapped_entry g perm else pte s F k l)"
        unfolding write_def by (rule replace_mapping [OF inv i p e nz False g perm]) blast
      have z: "map_frames e g (references s) fs = (if references s (PPN e) = 1 then PPN e # fs else fs)"
        "map_refs e g (references s) = references s3"
        using False nz s3(6) by (simp_all add: defs Let_def fun_eq_iff)
      show thesis by (rule that [of s3]) (use E(1) same s3 d3 t3 False nz in \<open>simp_all add: z\<close>)
    qed
  qed
qed

lemma map_frame_step:
  assumes inv: "vm_inv pin F fs s" and i: "PDX va < 955"
    and g: "g < number_of_frames s" "g \<notin> set fs" "references s g \<noteq> 0xFFFF" and perm: "perm < 0x1000"
    and mem: "pde s F (PDX va) \<noteq> 0 \<or> fs \<noteq> []"
  defines "e \<equiv> pte s F (PDX va) (PTX va)" and "r \<equiv> table_refs s F (PDX va) fs"
    and "fs' \<equiv> map_frames (pte s F (PDX va) (PTX va)) g (table_refs s F (PDX va) fs) (table_frames s F (PDX va) fs)"
  obtains s' where "map_frame (kva F) g va perm s = Inr (0, s')" "vm_inv pin F fs' s'"
    "number_of_frames s' = number_of_frames s" "g \<notin> set fs'" "references s' = map_refs e g r"
    "\<And>k. k < 955 \<Longrightarrow> pde s' F k = (if k = PDX va \<and> pde s F k = 0 then table_entry (hd fs) else pde s F k)"
    "\<And>k l. k < 955 \<Longrightarrow> l < 1024 \<Longrightarrow> pte s' F k l =
      (if k = PDX va \<and> l = PTX va then
         (if pte s F k l \<noteq> 0 \<and> PPN (pte s F k l) = g then pte s F k l else mapped_entry g perm)
       else pte s F k l)"
    "agree_links (if e = 0 then set fs else insert (PPN e) (set fs)) (free_frame_list s) (free_frame_list s')"
proof -
  define fs1 where "fs1 = table_frames s F (PDX va) fs"
  obtain s1 where s1: "get_page_table (kva F) va True s = Inr ((0, kva (PPN (pde s1 F (PDX va)))), s1)"
      "vm_inv pin F fs1 s1" "pde s1 F (PDX va) \<noteq> 0"
      "number_of_frames s1 = number_of_frames s" "references s1 = r"
    and d1: "\<And>k. k < 955 \<Longrightarrow> pde s1 F k = (if k = PDX va \<and> pde s F k = 0 then table_entry (hd fs) else pde s F k)"
    and t1: "\<And>k l. k < 955 \<Longrightarrow> l < 1024 \<Longrightarrow> pte s1 F k l = pte s F k l"
    and a1: "agree_links (set fs) (free_frame_list s) (free_frame_list s1)"
    unfolding fs1_def r_def by (rule map_table [OF inv i mem]) blast
  have sub: "set fs1 \<subseteq> set fs" by (cases fs) (auto simp: fs1_def table_frames_def)
  have fs': "fs' = map_frames e g (references s1) fs1" by (simp add: fs'_def e_def s1(5) r_def fs1_def)
  have e: "pte s1 F (PDX va) (PTX va) = e" unfolding e_def by (rule t1 [OF i PTX_less])
  have g1: "g < number_of_frames s1" "g \<notin> set fs1" "references s1 g \<noteq> 0xFFFF"
    using g s1(4) table_frames_other [OF inv g(2) mem] by (simp_all add: fs1_def s1(5) r_def)
  have run: "map_frame (kva F) g va perm s =
      (if e AND 1 = 1 then
         if EXTRACT_ADDRESS e = push_bit 12 g then Inr (0, s1)
         else bind_res (unmap_frame (kva F) va s1) (\<lambda>s2. Inr (0,
           store_word (kva (PPN (pde s1 F (PDX va))) + 4 * PTX va) (mapped_entry g perm)
             (s2\<lparr>references := (references s2)(g := references s2 g + 1)\<rparr>)))
       else Inr (0, store_word (kva (PPN (pde s1 F (PDX va))) + 4 * PTX va) (mapped_entry g perm)
             (s1\<lparr>references := (references s1)(g := references s1 g + 1)\<rparr>)))"
    by (simp add: map_frame_def s1(1) pte_read [OF s1(3)] e Let_def to_physical_address_def
        to_frame_number_def mapped_entry_def)
  show thesis
  proof (rule map_entry_step [OF s1(2) i s1(3) e g1 perm, folded run fs'])
    fix s' assume "map_frame (kva F) g va perm s = Inr (0, s')" "vm_inv pin F fs' s'" "number_of_frames s' = number_of_frames s1"
      "g \<notin> set fs'" "references s' = map_refs e g (references s1)"
      and d: "\<And>k. k < 955 \<Longrightarrow> pde s' F k = pde s1 F k"
      and t: "\<And>k l. k < 955 \<Longrightarrow> l < 1024 \<Longrightarrow> pte s' F k l =
        (if k = PDX va \<and> l = PTX va then (if e \<noteq> 0 \<and> PPN e = g then e else mapped_entry g perm) else pte s1 F k l)"
      and a: "agree_links (if e = 0 then set fs1 else insert (PPN e) (set fs1)) (free_frame_list s1) (free_frame_list s')"
    moreover have "agree_links (if e = 0 then set fs else insert (PPN e) (set fs)) (free_frame_list s) (free_frame_list s')"
      by (rule agree_links_trans [OF a1 a]) (use sub in auto)
    ultimately show thesis by (intro that [of s']) (simp_all add: d d1 t t1 s1(4,5) e_def [symmetric])
  qed
qed

lemma map_frame_no_mem:
  assumes inv: "vm_inv pin F [] s" and "pde s F (PDX va) = 0"
  shows "map_frame (kva F) g va perm s = Inr (E_NO_MEM, s)"
  by (simp add: map_frame_def get_page_table_no_mem [OF assms] E_NO_MEM_def)

text \<open>Taking a frame off the free list keeps the invariant, and so does clearing a frame without entries.\<close>

lemma vm_inv_cong:
  assumes "vm_inv pin F fs s" "number_of_frames t = number_of_frames s" "references t = references s"
    "dlist (free_frame_list t) gs" "set gs \<subseteq> set fs"
    "\<And>i. i < 955 \<Longrightarrow> pde t F i = pde s F i" "\<And>i j. i < 955 \<Longrightarrow> j < 1024 \<Longrightarrow> pte t F i j = pte s F i j"
  shows "vm_inv pin F gs t"
proof -
  have "tabs (pde t F) g = tabs (pde s F) g" "maps (pte t F) g = maps (pte s F) g" for g
    by (rule tabs_cong, erule assms(6)) (rule maps_cong, erule (1) assms(7))
  then show ?thesis using assms by (auto simp: vm_inv_def)
qed

lemma allocate_page_frame:
  assumes inv: "vm_inv pin F (f # fs) s"
  obtains s1 where "allocate_frame s = Inr ((0, Some f), s1)" "vm_inv pin F fs s1"
    "K_VIRTUAL_ADDRESS s1 (push_bit 12 f) = Inr (kva f)" "references s1 f = 0" "f < number_of_frames s1"
    "vm_inv pin F fs (memset_page (kva f) s1)" "f \<notin> set fs" "number_of_frames s1 = number_of_frames s" "kmem s1 = kmem s"
    "\<forall>i < 955. pde (memset_page (kva f) s1) F i = pde s F i"
    "\<forall>i < 955. \<forall>j < 1024. pte (memset_page (kva f) s1) F i j = pte s F i j"
proof -
  note fr = vm_inv_frames [OF inv]
  have f: "f < number_of_frames s" "f < 0x10000" "references s f = 0" "f \<noteq> F"
    using fr(5,6,7,8) by auto
  from allocate_frame_cons [OF fr(4)] obtain l where l: "dlist l fs" and a: "allocate_frame s =
      Inr ((0, Some f), s\<lparr>free_frame_list := l, references := (references s)(f := 0)\<rparr>)" .
  define s1 where "s1 = s\<lparr>free_frame_list := l, references := (references s)(f := 0)\<rparr>"
  have s1: "number_of_frames s1 = number_of_frames s" "references s1 = references s" "free_frame_list s1 = l"
    "kmem s1 = kmem s"
    using f(3) by (auto simp: s1_def)
  have same: "pde s1 F i = pde s F i" "pte s1 F i j = pte s F i j" for i j
    using s1(4) by (simp_all add: pde_def pte_def word_at_def)
  have inv1: "vm_inv pin F fs s1"
    by (rule vm_inv_cong [OF inv]) (use s1 l same in auto)
  let ?t = "memset_page (kva f) s1"
  have w: "word_at ?t g j = (if g = f then 0 else word_at s1 g j)" if "g < 0x10000" "j < 1024" for g j
    using that f by (auto simp: view_simps)
  have d: "pde ?t F i = pde s F i" if "i < 955" for i
    using w [OF fr(3) index_lt [OF that]] f(4) same(1) by (simp add: pde_def)
  have t: "pte ?t F i j = pte s F i j" if i: "i < 955" and j: "j < 1024" for i j
  proof (cases "pde s F i = 0")
    case True
    then show ?thesis using d [OF i] by (simp add: pte_def)
  next
    case False
    note T = vm_inv_table [OF inv i False]
    have "PPN (pde s F i) \<noteq> f" using T(4) by auto
    then show ?thesis using d [OF i] w [OF T(5) j] s1(4) by (simp add: pte_def word_at_def)
  qed
  have "vm_inv pin F fs ?t"
    by (rule vm_inv_cong [OF inv]) (use s1 l d t in \<open>auto simp: view_simps\<close>)
  moreover have "K_VIRTUAL_ADDRESS s1 (push_bit 12 f) = Inr (kva f)"
    using K_VIRTUAL_ADDRESS_frame [of f s1] f(1) fr(1) s1(1) by simp
  moreover have "f \<notin> set fs" using ll.holds_distinct [OF fr(4)] by simp
  ultimately show thesis
    using that [of s1] a inv1 f s1 d t by (simp add: s1_def)
qed

section \<open>What a change of the user pages leaves alone\<close>

text \<open>
  The words that mapping a user page leaves alone: those of a frame that is neither free nor a page table, and the
  directory entries of the kernel.
\<close>

definition untouched :: "u32 \<Rightarrow> u32 list \<Rightarrow> mm_state \<Rightarrow> u32 \<Rightarrow> u32 \<Rightarrow> bool" where
  "untouched F fs s g j \<longleftrightarrow> g < 0x10000 \<and> j < 1024 \<and> g \<notin> set fs \<and> (if g = F then 955 \<le> j else tabs (pde s F) g = {})"

lemma get_page_table_words:
  assumes inv: "vm_inv pin F fs s" and i: "PDX va < 955" and g: "untouched F fs s f j"
    and run: "get_page_table (kva F) va True s = Inr (x, t)"
  shows "word_at t f j = word_at s f j"
proof (cases "pde s F (PDX va) = 0")
  case False
  then show ?thesis using run get_page_table_hit [OF inv i False] by simp
next
  case z: True
  show ?thesis
  proof (cases fs)
    case Nil
    then show ?thesis using run get_page_table_no_mem [of pin F s va] inv z by simp
  next
    case (Cons g gs)
    note inv' = inv [unfolded Cons]
    note F = vm_inv_frames(3) [OF inv]
    have f: "f < 0x10000" "f \<notin> set fs" "j < 1024" "f = F \<Longrightarrow> j \<noteq> PDX va"
      using assms(3) i by (auto simp: untouched_def)
    obtain s1 where a: "allocate_frame s = Inr ((0, Some g), s1)" "K_VIRTUAL_ADDRESS s1 (push_bit 12 g) = Inr (kva g)"
      and s1: "kmem s1 = kmem s"
      by (rule allocate_page_frame [OF inv'])
    have g: "g < 0x10000" "g \<noteq> f" using vm_inv_frames(6,8) [OF inv'] f(2) Cons by auto
    have "t = store_word (kva F + 4 * PDX va) (table_entry g)
        ((memset_page (kva g) s1)\<lparr>references := (references (memset_page (kva g) s1))(g := 1)\<rparr>)"
      using run z by (simp add: get_page_table_def pde_read entry_zero K_VIRTUAL_ADDRESS_zero [OF inv'] a
        table_entry_def to_physical_address_def to_frame_number_def Let_def)
    then show ?thesis using s1 f g F i by (auto simp: view_simps index_lt) (simp_all add: word_at_def)
  qed
qed

lemma unmap_frame_words:
  assumes inv: "vm_inv pin F fs s" and i: "PDX va < 955" and f: "f < 0x10000" "PPN (pde s F (PDX va)) \<noteq> f" and j: "j < 1024"
    and run: "unmap_frame (kva F) va s = Inr t"
  shows "word_at t f j = word_at s f j"
proof (cases "pte s F (PDX va) (PTX va) = 0")
  case True
  then show ?thesis using run get_frame_info_eq [OF inv i] by (simp add: unmap_frame_def)
next
  case False
  note E = vm_inv_entry [OF inv i PTX_less False]
  note T = vm_inv_table [OF inv i E(5)]
  have "kmem t = kmem (store_word (kva (PPN (pde s F (PDX va))) + 4 * PTX va) 0 s)"
    using run False E(5) get_frame_info_eq [OF inv i]
    by (auto simp: unmap_frame_def Let_def tlb_invalidate_def store_word_def decrement_references_def free_frame_def)
  then have "word_at t f j = word_at (store_word (kva (PPN (pde s F (PDX va))) + 4 * PTX va) 0 s) f j"
    by (simp add: word_at_def)
  then show ?thesis using T(5) f j by (simp add: view_simps)
qed

lemma map_frame_words:
  assumes inv: "vm_inv pin F fs s" and i: "PDX va < 955" and g: "untouched F fs s g j"
    and mem: "pde s F (PDX va) \<noteq> 0 \<or> fs \<noteq> []" and run: "map_frame (kva F) f va perm s = Inr (0, t)"
  shows "word_at t g j = word_at s g j"
proof -
  obtain s1 where s1: "get_page_table (kva F) va True s = Inr ((0, kva (PPN (pde s1 F (PDX va)))), s1)"
      "vm_inv pin F (table_frames s F (PDX va) fs) s1" "pde s1 F (PDX va) \<noteq> 0"
      "\<And>k. k < 955 \<Longrightarrow> pde s1 F k = (if k = PDX va \<and> pde s F k = 0 then table_entry (hd fs) else pde s F k)"
    by (rule map_table [OF inv i mem]) blast
  have g': "g < 0x10000" "g \<notin> set fs" "j < 1024" "g \<noteq> F \<Longrightarrow> tabs (pde s F) g = {}"
    using g by (auto simp: untouched_def)
  note T = vm_inv_table [OF s1(2) i s1(3)]
  have P: "PPN (pde s1 F (PDX va)) \<noteq> g"
  proof (cases "g = F \<or> pde s F (PDX va) = 0 \<and> fs \<noteq> []")
    case True
    moreover have "PPN (table_entry (hd fs)) = hd fs" if "fs \<noteq> []"
      using vm_inv_frames(6,8) [OF inv] that by (simp add: table_entry)
    ultimately show ?thesis using T(3) s1(4) [OF i] g'(2) hd_in_set by force
  next
    case False
    then show ?thesis using g'(4) mem s1(4) [OF i] i by (auto simp: tabs_def)
  qed
  let ?p = "kva (PPN (pde s1 F (PDX va)))"
  have w1: "word_at s1 g j = word_at s g j" by (rule get_page_table_words [OF inv i g s1(1)])
  have st: "word_at t g j = word_at u g j" if "kmem t = kmem (store_word (?p + 4 * PTX va) v u)" for u v
  proof -
    have "word_at t g j = word_at (store_word (?p + 4 * PTX va) v u) g j" using that by (simp add: word_at_def)
    then show ?thesis using T(5) g'(1,3) P by (simp add: view_simps)
  qed
  show ?thesis
  proof (cases "\<exists>u. unmap_frame (kva F) va s1 = Inr u \<and> (\<exists>v. kmem t = kmem (store_word (?p + 4 * PTX va) v u))")
    case True
    then obtain u v where "unmap_frame (kva F) va s1 = Inr u" "kmem t = kmem (store_word (?p + 4 * PTX va) v u)" by blast
    then show ?thesis using st unmap_frame_words [OF s1(2) i g'(1) P g'(3)] w1 by metis
  next
    case False
    have "t = s1 \<or> (\<exists>v. kmem t = kmem (store_word (?p + 4 * PTX va) v s1))"
      using run s1(1) False
      by (fastforce simp: map_frame_def Let_def bind_res_Inr_iff store_word_def split: if_splits)
    then show ?thesis using st w1 by metis
  qed
qed

text \<open>Mapping a fresh frame does not write into it.\<close>

lemma fresh_untouched:
  assumes "vm_inv pin F fs s" "f < number_of_frames s" "f \<notin> set fs" "references s f = 0" "j < 1024"
  shows "untouched F fs s f j"
proof -
  have "f \<noteq> F" using vm_inv_refs [OF assms(1,2)] assms(1,4) by (auto simp: vm_inv_def)
  then show ?thesis
    using vm_inv_refs [OF assms(1,2)] vm_inv_frames(8) [OF assms(1,2)] assms(3-5) by (simp add: untouched_def)
qed

text \<open>The page tables of the kernel are in frames in use since boot, or are the directory itself (at \<^verbatim>\<open>VPT\<close> and \<^verbatim>\<open>UVPT\<close>).\<close>

definition kernel_tables :: "(u32 \<Rightarrow> nat) \<Rightarrow> u32 \<Rightarrow> mm_state \<Rightarrow> bool" where
  "kernel_tables pin F m \<longleftrightarrow> (\<forall>i. 955 \<le> i \<and> i < 1024 \<and> pde m F i AND PERM_PRESENT \<noteq> 0 \<longrightarrow>
     PPN (pde m F i) = F \<or> PPN (pde m F i) < 0x10000 \<and> 0 < pin (PPN (pde m F i)))"

text \<open>A frame pinned since boot is no page table of the user space and not free.\<close>

lemma pinned_untouched:
  assumes "vm_inv pin F fs m" "g < 0x10000" "0 < pin g" "j < 1024" "g = F \<longrightarrow> 955 \<le> j"
  shows "untouched F fs m g j"
proof -
  have "g \<notin> set fs" using vm_inv_free(1) [OF assms(1), of g] assms(3) by auto
  moreover have "tabs (pde m F) g = {}" using assms(1,3) by (auto simp: vm_inv_def tabs_def)
  ultimately show ?thesis using assms(2,4,5) by (simp add: untouched_def)
qed

text \<open>
  What stays when the user pages change: the number of frames, and the words of the kernel's half of the directory and of the
  frames in use since boot. So the kernel's tables stay, and the kernel's own addresses translate as before.
\<close>

definition kernel_kept :: "(u32 \<Rightarrow> nat) \<Rightarrow> u32 \<Rightarrow> mm_state \<Rightarrow> mm_state \<Rightarrow> bool" where
  "kernel_kept pin F s t \<longleftrightarrow> number_of_frames t = number_of_frames s \<and>
    (\<forall>g j. g < 0x10000 \<and> 0 < pin g \<and> j < 1024 \<and> (g = F \<longrightarrow> 955 \<le> j) \<longrightarrow> word_at t g j = word_at s g j)"

lemma kernel_kept_refl [simp]: "kernel_kept pin F s s"
  by (simp add: kernel_kept_def)

lemma kernel_kept_trans: "kernel_kept pin F s t \<Longrightarrow> kernel_kept pin F t u \<Longrightarrow> kernel_kept pin F s u"
  by (simp add: kernel_kept_def)

lemma kernel_kept_kmem: "kmem t = kmem s \<Longrightarrow> number_of_frames t = number_of_frames s \<Longrightarrow> kernel_kept pin F s t"
  by (simp add: kernel_kept_def word_at_def)

lemma map_frame_kept:
  assumes inv: "vm_inv pin F fs s" and i: "PDX va < 955"
    and g: "g < number_of_frames s" "g \<notin> set fs" "references s g \<noteq> 0xFFFF" and perm: "perm < 0x1000"
    and run: "map_frame (kva F) g va perm s = Inr (r, t)"
  shows "kernel_kept pin F s t"
proof (cases "pde s F (PDX va) = 0 \<and> fs = []")
  case True
  then have "t = s" using run map_frame_no_mem inv by simp
  then show ?thesis by simp
next
  case False
  then have mem: "pde s F (PDX va) \<noteq> 0 \<or> fs \<noteq> []" by blast
  obtain u where u: "map_frame (kva F) g va perm s = Inr (0, u)" "number_of_frames u = number_of_frames s"
    by (rule map_frame_step [OF inv i g perm mem])
  then show ?thesis
    using run map_frame_words [OF inv i pinned_untouched [OF inv] mem u(1)] by (auto simp: kernel_kept_def)
qed

lemma unmap_frame_kept:
  assumes inv: "vm_inv pin F fs s" and i: "PDX va < 955" and run: "unmap_frame (kva F) va s = Inr t"
  shows "kernel_kept pin F s t"
proof (cases "pte s F (PDX va) (PTX va) = 0")
  case True
  then have "t = s" using run unmap_frame_none [OF inv i] by simp
  then show ?thesis by simp
next
  case False
  note E = vm_inv_entry(5) [OF inv i PTX_less False]
  obtain u where u: "unmap_frame (kva F) va s = Inr u" "number_of_frames u = number_of_frames s"
    by (rule unmap_frame_some [OF inv i False refl])
  have "word_at u g j = word_at s g j" if "g < 0x10000" "0 < pin g" "j < 1024" "g = F \<longrightarrow> 955 \<le> j" for g j
  proof -
    have "PPN (pde s F (PDX va)) \<noteq> g"
      using pinned_untouched [OF inv that] vm_inv_table(3) [OF inv i E] i E by (auto simp: untouched_def tabs_def split: if_splits)
    then show ?thesis by (rule unmap_frame_words [OF inv i that(1) _ that(3) u(1)])
  qed
  then show ?thesis using run u by (simp add: kernel_kept_def)
qed

lemma kernel_entries_kept:
  assumes "vm_inv pin F fs s" "kernel_kept pin F s t" "955 \<le> i" "i < 1024"
  shows "pde t F i = pde s F i"
proof -
  have "F < 0x10000" "0 < pin F" using vm_inv_frames(3) [OF assms(1)] assms(1) by (simp_all add: vm_inv_def)
  then show ?thesis using assms(2-4) by (simp add: kernel_kept_def pde_def)
qed

lemma kernel_tables_kept:
  "vm_inv pin F fs s \<Longrightarrow> kernel_kept pin F s t \<Longrightarrow> kernel_tables pin F s \<Longrightarrow> kernel_tables pin F t"
  unfolding kernel_tables_def by (metis kernel_entries_kept)

lemma kernel_translation_kept:
  assumes inv: "vm_inv pin F fs s" and k: "kernel_kept pin F s t" and tables: "kernel_tables pin F s"
    and va: "955 \<le> PDX va" "PPN (pde s F (PDX va)) \<noteq> F"
  shows "check_va2pa (kva F) va t = check_va2pa (kva F) va s"
proof -
  let ?e = "pde s F (PDX va)"
  have e: "pde t F (PDX va) = ?e" by (rule kernel_entries_kept [OF inv k va(1) PDX_less])
  have n: "number_of_frames t = number_of_frames s" using k by (simp add: kernel_kept_def)
  show ?thesis
  proof (cases "?e AND PERM_PRESENT = 0")
    case True
    then show ?thesis by (simp add: check_va2pa_def pde_read e)
  next
    case False
    then have p: "PPN ?e < 0x10000" "0 < pin (PPN ?e)" "?e \<noteq> 0" using tables va PDX_less by (auto simp: kernel_tables_def)
    then have "word_at t (PPN ?e) (PTX va) = word_at s (PPN ?e) (PTX va)" using k va(2) PTX_less by (simp add: kernel_kept_def)
    then have w: "kmem t (kva (PPN ?e) + 4 * PTX va) = kmem s (kva (PPN ?e) + 4 * PTX va)" by (simp add: word_at_def)
    have v: "K_VIRTUAL_ADDRESS t x = K_VIRTUAL_ADDRESS s x" for x by (simp add: K_VIRTUAL_ADDRESS_def n)
    consider "K_VIRTUAL_ADDRESS s (EXTRACT_ADDRESS ?e) = Inr (kva (PPN ?e))" | p where "K_VIRTUAL_ADDRESS s (EXTRACT_ADDRESS ?e) = Inl p"
      by (cases "number_of_frames s \<le> PPN (push_bit 12 (PPN ?e))") (simp_all add: EXTRACT_ADDRESS_PPN K_VIRTUAL_ADDRESS_def kva_def)
    then show ?thesis unfolding check_va2pa_def Let_def pde_read e v by cases (simp_all add: w)
  qed
qed

section \<open>The interface of an address space\<close>

text \<open>
  What the system calls and the commands rely on. \<open>lookup s va\<close> is the frame behind the page
  of \<open>va\<close>; \<open>holds s fs\<close> the provider's invariant with the free frames \<open>fs\<close>; \<open>ready s fs g va\<close>
  says that \<open>g\<close> may be mapped at \<open>va\<close>: it exists, is not free, its count can still grow,
  and a page table is there or can be made.
\<close>

locale address_space =
  fixes lookup :: "'s \<Rightarrow> u32 \<Rightarrow> u32 option"
    and holds :: "'s \<Rightarrow> u32 list \<Rightarrow> bool"
    and ready :: "'s \<Rightarrow> u32 list \<Rightarrow> u32 \<Rightarrow> u32 \<Rightarrow> bool"
    and map_page :: "u32 \<Rightarrow> u32 \<Rightarrow> 's \<Rightarrow> (int \<times> 's) res"
    and unmap_page :: "u32 \<Rightarrow> 's \<Rightarrow> 's res"
  assumes unmap_law: "holds s fs \<Longrightarrow> va < USER_TOP \<Longrightarrow>
      \<exists>s' fs'. unmap_page va s = Inr s' \<and> holds s' fs' \<and> set fs \<subseteq> set fs' \<and>
        (\<forall>va' < USER_TOP. lookup s' va' = (if PPN va' = PPN va then None else lookup s va'))"
    and map_law: "holds s fs \<Longrightarrow> va < USER_TOP \<Longrightarrow> ready s fs g va \<Longrightarrow>
      \<exists>s' fs'. map_page g va s = Inr (0, s') \<and> holds s' fs' \<and>
        (\<forall>va' < USER_TOP. lookup s' va' = (if PPN va' = PPN va then Some g else lookup s va'))"
begin

lemma map_then_unmap:
  assumes "holds s fs" "va < USER_TOP" "ready s fs g va"
  obtains s1 s2 fs2 where "map_page g va s = Inr (0, s1)" "lookup s1 va = Some g"
    "unmap_page va s1 = Inr s2" "holds s2 fs2"
    "\<forall>va' < USER_TOP. lookup s2 va' = (if PPN va' = PPN va then None else lookup s va')"
proof -
  from map_law [OF assms] obtain s1 fs1 where 1: "map_page g va s = Inr (0, s1)" "holds s1 fs1"
    "\<forall>va' < USER_TOP. lookup s1 va' = (if PPN va' = PPN va then Some g else lookup s va')" by blast
  from unmap_law [OF 1(2) assms(2)] obtain s2 fs2 where 2: "unmap_page va s1 = Inr s2" "holds s2 fs2"
    "\<forall>va' < USER_TOP. lookup s2 va' = (if PPN va' = PPN va then None else lookup s1 va')" by blast
  show thesis using that [OF 1(1) _ 2(1,2)] 1(3) 2(3) assms(2) by simp
qed

lemma unmap_pages_all:
  "holds s fs \<Longrightarrow> \<forall>va \<in> set vas. va < USER_TOP \<Longrightarrow>
    \<exists>s' fs'. for_each unmap_page vas s = Inr s' \<and> holds s' fs' \<and> set fs \<subseteq> set fs' \<and>
      (\<forall>va' < USER_TOP. lookup s' va' =
        (if PPN va' \<in> PPN ` set vas then None else lookup s va'))"
proof (induction vas arbitrary: s fs)
  case Nil
  then show ?case by auto
next
  case (Cons va vas)
  then obtain s1 fs1 where 1: "unmap_page va s = Inr s1" "holds s1 fs1" "set fs \<subseteq> set fs1"
    "\<forall>va' < USER_TOP. lookup s1 va' = (if PPN va' = PPN va then None else lookup s va')"
    using unmap_law [of s fs va] by auto
  from Cons.IH [OF 1(2)] Cons.prems(2) obtain s2 fs2 where 2: "for_each unmap_page vas s1 = Inr s2"
    "holds s2 fs2" "set fs1 \<subseteq> set fs2"
    "\<forall>va' < USER_TOP. lookup s2 va' = (if PPN va' \<in> PPN ` set vas then None else lookup s1 va')"
    by auto
  show ?case using 1 2 by (intro exI [of _ s2] exI [of _ fs2]) auto
qed

end

text \<open>The model's own address space: the tables read as a partial map from pages to frames.\<close>

definition lookup :: "u32 \<Rightarrow> mm_state \<Rightarrow> u32 \<Rightarrow> u32 option" where
  "lookup F s va = (if pte s F (PDX va) (PTX va) = 0 then None else Some (PPN (pte s F (PDX va) (PTX va))))"

definition map_ready :: "u32 \<Rightarrow> u32 \<Rightarrow> mm_state \<Rightarrow> u32 list \<Rightarrow> u32 \<Rightarrow> u32 \<Rightarrow> bool" where
  "map_ready F perm s fs g va \<longleftrightarrow> perm < 0x1000 \<and> g < number_of_frames s \<and> g \<notin> set fs \<and> references s g \<noteq> 0xFFFF \<and>
    (pde s F (PDX va) \<noteq> 0 \<or> fs \<noteq> [])"

lemma same_page_iff: "PDX va = PDX va' \<and> PTX va = PTX va' \<longleftrightarrow> PPN va = PPN va'"
proof -
  have "unat (PDX v) = unat (PPN v) div 1024" "unat (PTX v) = unat (PPN v) mod 1024" for v
    by (simp_all add: unat_PDX unat_PTX unat_PPN div_mult2_eq [of _ 4096 1024, simplified])
  then show ?thesis unfolding word_unat_eq_iff by (metis mod_div_decomp)
qed

lemma lookup_update:
  assumes "\<And>k l. k < 955 \<Longrightarrow> l < 1024 \<Longrightarrow>
      pte s' F k l = (if k = PDX va \<and> l = PTX va then v k l else pte s F k l)"
    and "va' < USER_TOP"
  shows "lookup F s' va' = (if PPN va' = PPN va then
      (if v (PDX va) (PTX va) = 0 then None else Some (PPN (v (PDX va) (PTX va))))
    else lookup F s va')"
proof -
  have "PDX va' < 955" using assms(2) unfolding PDX_user .
  note e = assms(1) [OF this PTX_less]
  show ?thesis
  proof (cases "PPN va' = PPN va")
    case True
    then have "PDX va' = PDX va" "PTX va' = PTX va" using same_page_iff [of va' va] by simp_all
    then show ?thesis using e True by (simp add: lookup_def)
  next
    case False
    then have "\<not> (PDX va' = PDX va \<and> PTX va' = PTX va)" using same_page_iff [of va' va] by simp
    with e have "pte s' F (PDX va') (PTX va') = pte s F (PDX va') (PTX va')" by auto
    then show ?thesis using False by (simp add: lookup_def)
  qed
qed

interpretation va: address_space "lookup F" "\<lambda>s fs. vm_inv pin F fs s" "map_ready F perm"
    "\<lambda>g va. map_frame (kva F) g va perm" "unmap_frame (kva F)"
proof unfold_locales
  fix s fs va assume inv: "vm_inv pin F fs s" and va: "va < USER_TOP"
  then have i: "PDX va < 955" by (simp add: PDX_user)
  show "\<exists>s' fs'. unmap_frame (kva F) va s = Inr s' \<and> vm_inv pin F fs' s' \<and> set fs \<subseteq> set fs' \<and>
      (\<forall>va' < USER_TOP. lookup F s' va' = (if PPN va' = PPN va then None else lookup F s va'))"
  proof (cases "pte s F (PDX va) (PTX va) = 0")
    case True
    then have "lookup F s va' = None" if "PPN va' = PPN va" for va'
      using that same_page_iff [of va' va] by (simp add: lookup_def)
    then show ?thesis using unmap_frame_none [OF inv i True] inv by auto
  next
    case False
    let ?g = "PPN (pte s F (PDX va) (PTX va))"
    let ?fs = "if references s ?g = 1 then ?g # fs else fs"
    obtain s' where s': "unmap_frame (kva F) va s = Inr s'" "vm_inv pin F ?fs s'"
      and t: "\<And>k l. k < 955 \<Longrightarrow> l < 1024 \<Longrightarrow>
        pte s' F k l = (if k = PDX va \<and> l = PTX va then 0 else pte s F k l)"
      by (rule unmap_frame_some [OF inv i False refl]) blast
    have "\<forall>va' < USER_TOP. lookup F s' va' = (if PPN va' = PPN va then None else lookup F s va')"
      using lookup_update [of s' F va "\<lambda>_ _. 0" s, OF t] by simp
    with s' show ?thesis by (intro exI [of _ s'] exI [of _ ?fs]) (auto split: if_splits)
  qed
next
  fix s fs va g assume inv: "vm_inv pin F fs s" and va: "va < USER_TOP"
    and r: "map_ready F perm s fs g va"
  then have i: "PDX va < 955" and perm: "perm < 0x1000" by (simp_all add: PDX_user map_ready_def)
  obtain s' where s': "map_frame (kva F) g va perm s = Inr (0, s')"
      "vm_inv pin F (map_frames (pte s F (PDX va) (PTX va)) g (table_refs s F (PDX va) fs) (table_frames s F (PDX va) fs)) s'"
    and t: "\<And>k l. k < 955 \<Longrightarrow> l < 1024 \<Longrightarrow> pte s' F k l =
      (if k = PDX va \<and> l = PTX va then
         (if pte s F k l \<noteq> 0 \<and> PPN (pte s F k l) = g then pte s F k l else mapped_entry g perm)
       else pte s F k l)"
    by (rule map_frame_step [OF inv i _ _ _ perm, of g]) (use r in \<open>auto simp: map_ready_def\<close>)
  have g: "g < 0x10000" using r vm_inv_frames(8) [OF inv] by (simp add: map_ready_def)
  have "\<forall>va' < USER_TOP. lookup F s' va' = (if PPN va' = PPN va then Some g else lookup F s va')"
    using lookup_update [of s' F va "\<lambda>k l. if pte s F k l \<noteq> 0 \<and> PPN (pte s F k l) = g
        then pte s F k l else mapped_entry g perm" s, OF t] mapped_entry [OF g perm] by simp
  with s' show "\<exists>s' fs'. map_frame (kva F) g va perm s = Inr (0, s') \<and> vm_inv pin F fs' s' \<and>
      (\<forall>va' < USER_TOP. lookup F s' va' = (if PPN va' = PPN va then Some g else lookup F s va'))"
    by blast
qed

section \<open>Correctness\<close>

lemma check_va2pa_lookup:
  assumes inv: "vm_inv pin F fs s" and va: "va < USER_TOP"
  shows "check_va2pa (kva F) va s =
    Inr (case lookup F s va of None \<Rightarrow> 0xFFFFFFFF | Some f \<Rightarrow> push_bit 12 f)"
proof -
  have i: "PDX va < 955" using va by (simp add: PDX_user)
  show ?thesis
  proof (cases "pde s F (PDX va) = 0")
    case True
    then show ?thesis by (simp add: check_va2pa_def pde_read lookup_def pte_def)
  next
    case False
    note T = vm_inv_table [OF inv i False]
    have K: "K_VIRTUAL_ADDRESS s (EXTRACT_ADDRESS (pde s F (PDX va))) = Inr (kva (PPN (pde s F (PDX va))))"
      using T(2) vm_inv_frames(1) [OF inv] by (simp add: EXTRACT_ADDRESS_PPN K_VIRTUAL_ADDRESS_frame)
    show ?thesis
    proof (cases "pte s F (PDX va) (PTX va) = 0")
      case True
      then show ?thesis
        by (simp add: check_va2pa_def pde_read [of s F] T(1) K pte_read [OF False] lookup_def Let_def)
    next
      case nz: False
      note E = vm_inv_entry [OF inv i PTX_less nz]
      show ?thesis
        using nz by (simp add: check_va2pa_def pde_read [of s F] T(1) K [unfolded EXTRACT_ADDRESS_PPN] pte_read [OF False] lookup_def E(1)
            EXTRACT_ADDRESS_PPN Let_def)
    qed
  qed
qed

text \<open>
  C4: \<^verbatim>\<open>map_frame\<close> implements the update of a partial map. In a well-formed address space,
  with a frame \<open>g\<close> that is in use and a user address \<open>va\<close>, the call fails exactly when a page table
  is needed and no frame is free, and then it changes nothing. Otherwise it succeeds, keeps the
  invariant (so the reference count of every frame still equals the number of mappings of it,
  whatever the page held before), the page of \<open>va\<close> translates to \<open>g\<close>, and every other user page
  translates as before.
\<close>

theorem map_frame_correct:
  assumes "vm_inv pin F fs s" "va < USER_TOP" "perm < 0x1000"
    "g < number_of_frames s" "g \<notin> set fs" "references s g \<noteq> 0xFFFF"
  shows "if pde s F (PDX va) = 0 \<and> fs = []
    then map_frame (kva F) g va perm s = Inr (E_NO_MEM, s)
    else \<exists>s' fs'. map_frame (kva F) g va perm s = Inr (0, s') \<and> vm_inv pin F fs' s' \<and>
      (\<forall>va' < USER_TOP. check_va2pa (kva F) va' s' =
        (if PPN va' = PPN va then Inr (push_bit 12 g) else check_va2pa (kva F) va' s))"
proof (cases "pde s F (PDX va) = 0 \<and> fs = []")
  case True
  then show ?thesis using map_frame_no_mem [of pin F s va] assms(1) by simp
next
  case False
  then have "map_ready F perm s fs g va" using assms by (auto simp: map_ready_def)
  from va.map_law [OF assms(1,2) this] False show ?thesis
    by (auto simp: check_va2pa_lookup [OF assms(1)] check_va2pa_lookup)
qed

text \<open>
  C5: \<^verbatim>\<open>unmap_frame\<close> removes exactly one page. It never fails on a user address of a
  well-formed address space, keeps the invariant, leaves the page untranslated and every other
  user page as it was; a page that was mapped has its frame's count lowered by one, the frame
  goes to the free list exactly when that was the last reference, and the stale TLB entry is
  invalidated. A page that was not mapped leaves the state alone.
\<close>

theorem unmap_frame_correct:
  assumes "vm_inv pin F fs s" "va < USER_TOP"
  shows "case lookup F s va of
      None \<Rightarrow> unmap_frame (kva F) va s = Inr s
    | Some g \<Rightarrow> (\<exists>s'. unmap_frame (kva F) va s = Inr s' \<and>
        vm_inv pin F (if references s g = 1 then g # fs else fs) s' \<and>
        references s' = (references s)(g := references s g - 1) \<and>
        invlpgs s' = va # invlpgs s \<and>
        (\<forall>va' < USER_TOP. check_va2pa (kva F) va' s' =
          (if PPN va' = PPN va then Inr 0xFFFFFFFF else check_va2pa (kva F) va' s)))"
proof -
  have i: "PDX va < 955" using assms(2) by (simp add: PDX_user)
  show ?thesis
  proof (cases "pte s F (PDX va) (PTX va) = 0")
    case True
    then show ?thesis using unmap_frame_none [OF assms(1) i] by (simp add: lookup_def)
  next
    case False
    let ?g = "PPN (pte s F (PDX va) (PTX va))"
    obtain s' where s': "unmap_frame (kva F) va s = Inr s'"
        "vm_inv pin F (if references s ?g = 1 then ?g # fs else fs) s'"
        "references s' = (references s)(?g := references s ?g - 1)" "invlpgs s' = va # invlpgs s"
      and t: "\<And>k l. k < 955 \<Longrightarrow> l < 1024 \<Longrightarrow>
        pte s' F k l = (if k = PDX va \<and> l = PTX va then 0 else pte s F k l)"
      by (rule unmap_frame_some [OF assms(1) i False refl]) blast
    have "check_va2pa (kva F) va' s' =
        (if PPN va' = PPN va then Inr 0xFFFFFFFF else check_va2pa (kva F) va' s)" if "va' < USER_TOP" for va'
      using check_va2pa_lookup [OF s'(2) that] check_va2pa_lookup [OF assms(1) that]
        lookup_update [of s' F va "\<lambda>_ _. 0" s, OF t that] by simp
    then show ?thesis using s' False by (simp add: lookup_def)
  qed
qed


section \<open>A concrete address space\<close>

text \<open>
  A machine with 8 frames: frame 0 in use since boot, the directory in frame 1, one page table in
  frame 5 that maps page 0 to frame 4, and the free frames 2 and 3; frames 6 and 7 are
  allocated and not mapped.
\<close>

definition vm_example :: mm_state where
  "vm_example = \<lparr>kmem = (\<lambda>_. 0)(kva 1 := table_entry 5, kva 5 := mapped_entry 4 6),
     number_of_frames = 8, references = (\<lambda>_. 0)(0 := 1, 1 := 1, 4 := 1, 5 := 1),
     free_frame_list = LIST_INSERT_HEAD 2 (LIST_INSERT_HEAD 3 empty_list),
     ptr_free_mem = 0xF0200000, invlpgs = []\<rparr>"

definition vm_example_pin :: "u32 \<Rightarrow> nat" where
  "vm_example_pin f = (if f = 0 \<or> f = 1 then 1 else 0)"

lemma vm_example_fields:
  "number_of_frames vm_example = 8" "references vm_example = (\<lambda>_. 0)(0 := 1, 1 := 1, 4 := 1, 5 := 1)"
  by (simp_all add: vm_example_def)

lemma vm_example_word_at:
  "f < 0x10000 \<Longrightarrow> j < 1024 \<Longrightarrow> word_at vm_example f j =
    (if f = 1 \<and> j = 0 then table_entry 5 else if f = 5 \<and> j = 0 then mapped_entry 4 6 else 0)"
  using slot_eq_iff [of f 1 j 0] slot_eq_iff [of f 5 j 0] by (auto simp: word_at_def vm_example_def)

lemma vm_example_entries:
  "i < 955 \<Longrightarrow> pde vm_example 1 i = (if i = 0 then table_entry 5 else 0)"
  "i < 955 \<Longrightarrow> j < 1024 \<Longrightarrow>
    pte vm_example 1 i j = (if i = 0 \<and> j = 0 then mapped_entry 4 6 else 0)"
  using table_entry(1) [of 5] table_entry(3) [of 5]
  by (auto simp: pde_def pte_def vm_example_word_at index_lt)

lemma vm_example_counts:
  "tabs (pde vm_example 1) g = (if g = 5 then {0} else {})"
  "maps (pte vm_example 1) g = (if g = 4 then {(0, 0)} else {})"
  using table_entry(1) [of 5] table_entry(3) [of 5] mapped_entry(1,3) [of 4 6]
  by (auto simp: tabs_def maps_def vm_example_entries split: if_splits)

lemma vm_example_inv: "vm_inv vm_example_pin 1 [2, 3] vm_example"
proof -
  have "dlist (free_frame_list vm_example) [2, 3]"
    using dlist_fold_empty [of "[3, 2 :: u32]"] by (simp add: vm_example_def)
  moreover have "unat (references vm_example g) = vm_example_pin g +
      card (tabs (pde vm_example 1) g) + card (maps (pte vm_example 1) g)" for g
    by (auto simp: vm_example_counts vm_example_pin_def vm_example_fields)
  ultimately show ?thesis
    using table_entry(1,2) [of 5] mapped_entry(1,2) [of 4 6]
    by (auto simp: vm_inv_def vm_example_entries vm_example_pin_def vm_example_fields)
qed

theorem map_frame_correct_witness:
  "\<exists>s'. map_frame (kva 1) 6 0 7 vm_example = Inr (0, s') \<and>
     check_va2pa (kva 1) 0x234 s' = Inr 0x6000 \<and>
     check_va2pa (kva 1) 0x1000 s' = check_va2pa (kva 1) 0x1000 vm_example"
proof -
  have "6 < number_of_frames vm_example" "references vm_example 6 \<noteq> 0xFFFF"
    by (simp_all add: vm_example_def)
  from map_frame_correct [OF vm_example_inv, of 0 7 6] this obtain s' where
    "map_frame (kva 1) 6 0 7 vm_example = Inr (0, s')"
    "\<forall>va' < USER_TOP. check_va2pa (kva 1) va' s' =
      (if PPN va' = PPN 0 then Inr (push_bit 12 6) else check_va2pa (kva 1) va' vm_example)"
    by auto
  then show ?thesis by (intro exI [of _ s']) (simp add: PPN_def)
qed

theorem unmap_frame_correct_witness:
  "\<exists>s'. unmap_frame (kva 1) 0 vm_example = Inr s' \<and> vm_inv vm_example_pin 1 [4, 2, 3] s' \<and>
     check_va2pa (kva 1) 0 s' = Inr 0xFFFFFFFF"
proof -
  have "lookup 1 vm_example 0 = Some 4"
    using mapped_entry(1,3) [of 4 6] by (simp add: lookup_def PDX_def PTX_def vm_example_entries)
  moreover have "references vm_example 4 = 1" by (simp add: vm_example_def)
  ultimately show ?thesis
    using unmap_frame_correct [OF vm_example_inv, of 0] by auto
qed


end
