(* ===== verification/FOS_String.thy ===== *)
theory FOS_String
  imports FOS_Prelude
begin

text \<open>
  The string library \<^verbatim>\<open>lib/string.c\<close>, linked into the kernel and into user programs. Memory is
  a function from addresses to bytes and a pointer is an address, so pointer arithmetic
  wraps as on the machine; null is 0. A loop that only a terminating byte ends is a partial function
  (the result \<open>None\<close> is a loop that does not end); a loop with a count is total. A C \<^verbatim>\<open>int\<close> that
  counts is kept as its 32-bit pattern; an \<^verbatim>\<open>int\<close> that is the difference of two characters is an
  integer.
\<close>

type_synonym bmem = "u32 \<Rightarrow> u8"

lemma count_down_signed: "0 \<le> sint (k - 1) \<Longrightarrow> unat (k - 1) < unat (k :: u32)"
  by (rule measure_unat) auto

text \<open>The bytes of a string literal.\<close>

definition ascii :: "string \<Rightarrow> u8 list" where
  "ascii t = map (\<lambda>c. of_nat (of_char c)) t"

section \<open>Zero-terminated strings\<close>

partial_function (option) strlen_loop :: "bmem \<Rightarrow> u32 \<Rightarrow> u32 \<Rightarrow> u32 option" where
  "strlen_loop m s n = (if m s \<noteq> 0 then strlen_loop m (s + 1) (n + 1) else Some n)"

definition strlen :: "bmem \<Rightarrow> u32 \<Rightarrow> u32 option" where
  "strlen m s = strlen_loop m s 0"

function strnlen_loop :: "bmem \<Rightarrow> u32 \<Rightarrow> u32 \<Rightarrow> u32 \<Rightarrow> u32" where
  "strnlen_loop m s sz n =
    (if sz > 0 \<and> m s \<noteq> 0 then strnlen_loop m (s + 1) (sz - 1) (n + 1) else n)"
  by pat_completeness auto
termination by (relation "measure (\<lambda>(m, s, sz, n). unat sz)") (auto simp: count_down)

definition strnlen :: "bmem \<Rightarrow> u32 \<Rightarrow> u32 \<Rightarrow> u32" where
  "strnlen m s sz = strnlen_loop m s sz 0"

text \<open>\<^verbatim>\<open>strcpy\<close> and the other copying routines return the new memory with their result.\<close>

partial_function (option) strcpy_loop :: "bmem \<Rightarrow> u32 \<Rightarrow> u32 \<Rightarrow> bmem option" where
  "strcpy_loop m dst src =
    (if m src \<noteq> 0 then strcpy_loop (m(dst := m src)) (dst + 1) (src + 1)
     else Some (m(dst := m src)))"

definition strcpy :: "bmem \<Rightarrow> u32 \<Rightarrow> u32 \<Rightarrow> (u32 \<times> bmem) option" where
  "strcpy m dst src = map_option (\<lambda>m'. (dst, m')) (strcpy_loop m dst src)"

function strncpy_loop :: "bmem \<Rightarrow> u32 \<Rightarrow> u32 \<Rightarrow> u32 \<Rightarrow> u32 \<Rightarrow> bmem" where
  "strncpy_loop m dst src i sz =
    (if i < sz then
       (let m' = m(dst := m src)
        in strncpy_loop m' (dst + 1) (if m' src \<noteq> 0 then src + 1 else src) (i + 1) sz)
     else m)"
  by pat_completeness auto
termination by (relation "measure (\<lambda>(m, dst, src, i, sz). unat (sz - i))") (auto simp: loop_measure)

definition strncpy :: "bmem \<Rightarrow> u32 \<Rightarrow> u32 \<Rightarrow> u32 \<Rightarrow> u32 \<times> bmem" where
  "strncpy m dst src sz = (dst, strncpy_loop m dst src 0 sz)"

text \<open>The loop of \<^verbatim>\<open>strlcpy\<close> leaves memory and the final \<^verbatim>\<open>dst\<close>.\<close>

function strlcpy_loop :: "bmem \<Rightarrow> u32 \<Rightarrow> u32 \<Rightarrow> u32 \<Rightarrow> bmem \<times> u32" where
  "strlcpy_loop m dst src sz =
    (if sz > 0 \<and> m src \<noteq> 0
     then strlcpy_loop (m(dst := m src)) (dst + 1) (src + 1) (sz - 1)
     else (m, dst))"
  by pat_completeness auto
termination by (relation "measure (\<lambda>(m, dst, src, sz). unat sz)") (auto simp: count_down)

definition strlcpy :: "bmem \<Rightarrow> u32 \<Rightarrow> u32 \<Rightarrow> u32 \<Rightarrow> u32 \<times> bmem" where
  "strlcpy m dst src sz =
    (if sz > 0 then (let (m', d) = strlcpy_loop m dst src (sz - 1) in (d - dst, m'(d := 0)))
     else (0, m))"

definition char_diff :: "u8 \<Rightarrow> u8 \<Rightarrow> int" where
  "char_diff a b = uint a - uint b"

partial_function (option) strcmp :: "bmem \<Rightarrow> u32 \<Rightarrow> u32 \<Rightarrow> int option" where
  "strcmp m p q =
    (if m p \<noteq> 0 \<and> m p = m q then strcmp m (p + 1) (q + 1) else Some (char_diff (m p) (m q)))"

function strncmp :: "bmem \<Rightarrow> u32 \<Rightarrow> u32 \<Rightarrow> u32 \<Rightarrow> int" where
  "strncmp m p q n =
    (if n > 0 \<and> m p \<noteq> 0 \<and> m p = m q then strncmp m (p + 1) (q + 1) (n - 1)
     else if n = 0 then 0 else char_diff (m p) (m q))"
  by pat_completeness auto
termination by (relation "measure (\<lambda>(m, p, q, n). unat n)") (auto simp: count_down)

partial_function (option) strchr :: "bmem \<Rightarrow> u32 \<Rightarrow> u8 \<Rightarrow> u32 option" where
  "strchr m s c =
    (if m s \<noteq> 0 then if m s = c then Some s else strchr m (s + 1) c else Some 0)"

partial_function (option) strfind :: "bmem \<Rightarrow> u32 \<Rightarrow> u8 \<Rightarrow> u32 option" where
  "strfind m s c =
    (if m s \<noteq> 0 then if m s = c then Some s else strfind m (s + 1) c else Some s)"

section \<open>Little-endian words in memory\<close>

definition load16 :: "bmem \<Rightarrow> u32 \<Rightarrow> u16" where
  "load16 m a = ucast (m a) OR push_bit 8 (ucast (m (a + 1)))"

definition load32 :: "bmem \<Rightarrow> u32 \<Rightarrow> u32" where
  "load32 m a = ucast (load16 m a) OR push_bit 16 (ucast (load16 m (a + 2)))"

section \<open>Blocks of memory\<close>

text \<open>The loop variable of \<^verbatim>\<open>memset\<close> is a signed \<^verbatim>\<open>int\<close>.\<close>

function memset_loop :: "bmem \<Rightarrow> u32 \<Rightarrow> u8 \<Rightarrow> u32 \<Rightarrow> bmem" where
  "memset_loop m p c k =
    (if sint (k - 1) \<ge> 0 then memset_loop (m(p := c)) (p + 1) c (k - 1) else m)"
  by pat_completeness auto
termination by (relation "measure (\<lambda>(m, p, c, k). unat k)") (auto intro: count_down_signed)

definition memset :: "bmem \<Rightarrow> u32 \<Rightarrow> u8 \<Rightarrow> u32 \<Rightarrow> u32 \<times> bmem" where
  "memset m v c n = (v, memset_loop m v c n)"

function copy_up :: "bmem \<Rightarrow> u32 \<Rightarrow> u32 \<Rightarrow> u32 \<Rightarrow> bmem" where
  "copy_up m d s n = (if n > 0 then copy_up (m(d := m s)) (d + 1) (s + 1) (n - 1) else m)"
  by pat_completeness auto
termination by (relation "measure (\<lambda>(m, d, s, n). unat n)") (auto simp: count_down)

function copy_down :: "bmem \<Rightarrow> u32 \<Rightarrow> u32 \<Rightarrow> u32 \<Rightarrow> bmem" where
  "copy_down m d s n =
    (if n > 0 then copy_down (m(d - 1 := m (s - 1))) (d - 1) (s - 1) (n - 1) else m)"
  by pat_completeness auto
termination by (relation "measure (\<lambda>(m, d, s, n). unat n)") (auto simp: count_down)

definition memcpy :: "bmem \<Rightarrow> u32 \<Rightarrow> u32 \<Rightarrow> u32 \<Rightarrow> u32 \<times> bmem" where
  "memcpy m dst src n = (dst, copy_up m dst src n)"

definition memmove :: "bmem \<Rightarrow> u32 \<Rightarrow> u32 \<Rightarrow> u32 \<Rightarrow> u32 \<times> bmem" where
  "memmove m dst src n =
    (dst, if src < dst \<and> src + n > dst then copy_down m (dst + n) (src + n) n
          else copy_up m dst src n)"

function memcmp :: "bmem \<Rightarrow> u32 \<Rightarrow> u32 \<Rightarrow> u32 \<Rightarrow> int" where
  "memcmp m s1 s2 n =
    (if n > 0 then
       if m s1 \<noteq> m s2 then char_diff (m s1) (m s2) else memcmp m (s1 + 1) (s2 + 1) (n - 1)
     else 0)"
  by pat_completeness auto
termination by (relation "measure (\<lambda>(m, s1, s2, n). unat n)") (auto simp: count_down)

function memfind_loop :: "bmem \<Rightarrow> u32 \<Rightarrow> u8 \<Rightarrow> u32 \<Rightarrow> u32" where
  "memfind_loop m s c ends =
    (if s < ends then if m s = c then s else memfind_loop m (s + 1) c ends else s)"
  by pat_completeness auto
termination by (relation "measure (\<lambda>(m, s, c, ends). unat (ends - s))") (auto simp: loop_measure)

definition memfind :: "bmem \<Rightarrow> u32 \<Rightarrow> u8 \<Rightarrow> u32 \<Rightarrow> u32" where
  "memfind m s c n = memfind_loop m s c (s + n)"

section \<open>Numbers\<close>

text \<open>\<^verbatim>\<open>strtol\<close>: the blanks, the sign, the prefix and the digits. A \<^verbatim>\<open>long\<close> has 32 bits.\<close>

partial_function (option) strtol_blanks :: "bmem \<Rightarrow> u32 \<Rightarrow> u32 option" where
  "strtol_blanks m s = (if m s = 0x20 \<or> m s = 0x09 then strtol_blanks m (s + 1) else Some s)"

definition strtol_digit :: "u8 \<Rightarrow> int option" where
  "strtol_digit c =
    (if 0x30 \<le> c \<and> c \<le> 0x39 then Some (uint c - 0x30)
     else if 0x61 \<le> c \<and> c \<le> 0x7A then Some (uint c - 0x61 + 10)
     else if 0x41 \<le> c \<and> c \<le> 0x5A then Some (uint c - 0x41 + 10)
     else None)"

partial_function (option) strtol_digits :: "bmem \<Rightarrow> u32 \<Rightarrow> int \<Rightarrow> u32 \<Rightarrow> (u32 \<times> u32) option" where
  "strtol_digits m s base val =
    (case strtol_digit (m s) of
       None \<Rightarrow> Some (val, s)
     | Some dig \<Rightarrow>
         if dig \<ge> base then Some (val, s)
         else strtol_digits m (s + 1) base (val * word_of_int base + word_of_int dig))"

definition strtol_sign :: "bmem \<Rightarrow> u32 \<Rightarrow> bool \<times> u32" where
  "strtol_sign m s =
    (if m s = 0x2B then (False, s + 1) else if m s = 0x2D then (True, s + 1) else (False, s))"

definition strtol_prefix :: "bmem \<Rightarrow> u32 \<Rightarrow> int \<Rightarrow> int \<times> u32" where
  "strtol_prefix m s base =
    (if (base = 0 \<or> base = 16) \<and> m s = 0x30 \<and> m (s + 1) = 0x78 then (16, s + 2)
     else if base = 0 \<and> m s = 0x30 then (8, s + 1)
     else if base = 0 then (10, s)
     else (base, s))"

definition strtol :: "bmem \<Rightarrow> u32 \<Rightarrow> int \<Rightarrow> (u32 \<times> u32) option" where
  "strtol m s base =
    Option.bind (strtol_blanks m s) (\<lambda>s.
      let (neg, s) = strtol_sign m s;
          (base, s) = strtol_prefix m s base
      in Option.bind (strtol_digits m s base 0) (\<lambda>(val, endptr).
           Some (if neg then - val else val, endptr)))"

section \<open>Splitting a command line\<close>

definition MAX_ARGUMENTS :: nat where [simp]: "MAX_ARGUMENTS = 16"

text \<open>
  \<^verbatim>\<open>argv\<close> is an array of its own, apart from the string; \<open>argv i\<close> is its \<open>i\<close>-th pointer.
  \<^verbatim>\<open>strchr\<close> returns a pointer, which is not null when the character is found.
\<close>

partial_function (option) split_trim :: "u32 \<Rightarrow> bmem \<Rightarrow> u32 \<Rightarrow> (bmem \<times> u32) option" where
  "split_trim SPLIT_CHARS m string =
    (if m string \<noteq> 0 then
       Option.bind (strchr m SPLIT_CHARS (m string)) (\<lambda>p.
         if p \<noteq> 0 then split_trim SPLIT_CHARS (m(string := 0)) (string + 1)
         else Some (m, string))
     else Some (m, string))"

partial_function (option) split_scan :: "u32 \<Rightarrow> bmem \<Rightarrow> u32 \<Rightarrow> u32 option" where
  "split_scan SPLIT_CHARS m string =
    (if m string \<noteq> 0 then
       Option.bind (strchr m SPLIT_CHARS (m string)) (\<lambda>p.
         if p = 0 then split_scan SPLIT_CHARS m (string + 1) else Some string)
     else Some string)"

partial_function (option) split_loop ::
    "u32 \<Rightarrow> bmem \<Rightarrow> u32 \<Rightarrow> (nat \<Rightarrow> u32) \<Rightarrow> nat \<Rightarrow> (int \<times> nat \<times> (nat \<Rightarrow> u32) \<times> bmem) option" where
  "split_loop SPLIT_CHARS m string argv argc =
    Option.bind (split_trim SPLIT_CHARS m string) (\<lambda>(m, string).
      if m string = 0 then Some (1, argc, argv(argc := 0), m)
      else if argc = MAX_ARGUMENTS - 1 then Some (0, argc, argv, m)
      else Option.bind (split_scan SPLIT_CHARS m string) (\<lambda>next_string.
        split_loop SPLIT_CHARS m next_string (argv(argc := string)) (argc + 1)))"

definition strsplit ::
    "bmem \<Rightarrow> u32 \<Rightarrow> u32 \<Rightarrow> (nat \<Rightarrow> u32) \<Rightarrow> (int \<times> nat \<times> (nat \<Rightarrow> u32) \<times> bmem) option" where
  "strsplit m string SPLIT_CHARS argv = split_loop SPLIT_CHARS m string (argv(0 := 0)) 0"

declare strnlen_loop.simps [simp del] strncpy_loop.simps [simp del] strlcpy_loop.simps [simp del]
  strncmp.simps [simp del] memset_loop.simps [simp del] copy_up.simps [simp del]
  copy_down.simps [simp del] memcmp.simps [simp del] memfind_loop.simps [simp del]

section \<open>Strings as lists of bytes\<close>

text \<open>\<open>str_at m p xs\<close>: the zero-terminated string at \<open>p\<close> has the bytes \<open>xs\<close>.\<close>

fun str_at :: "bmem \<Rightarrow> u32 \<Rightarrow> u8 list \<Rightarrow> bool" where
  "str_at m p [] \<longleftrightarrow> m p = 0"
| "str_at m p (x # xs) \<longleftrightarrow> m p = x \<and> x \<noteq> 0 \<and> str_at m (p + 1) xs"

text \<open>The addresses \<open>p, ..., p + n - 1\<close>.\<close>

definition block :: "u32 \<Rightarrow> nat \<Rightarrow> u32 set" where
  "block p n = (\<lambda>i. p + of_nat i) ` {..< n}"

lemma block_0 [simp]: "block p 0 = {}"
  by (simp add: block_def)

lemma block_Suc: "block p (Suc n) = insert p (block (p + 1) n)"
proof -
  have "{..< Suc n} = insert 0 (Suc ` {..< n})" by (auto simp: lessThan_Suc_eq_insert_0)
  then show ?thesis by (simp add: block_def image_image algebra_simps)
qed

lemma str_at_cong:
  "(\<And>a. a \<in> block p (Suc (length xs)) \<Longrightarrow> m a = m' a) \<Longrightarrow> str_at m p xs = str_at m' p xs"
proof (induction xs arbitrary: p)
  case (Cons x xs)
  have "a \<in> block p (Suc (length (x # xs)))" if "a \<in> block (p + 1) (Suc (length xs))" for a
    using that by (simp only: block_Suc [of p] list.size add_Suc_right add_0_right insert_iff simp_thms)
  then have "str_at m (p + 1) xs = str_at m' (p + 1) xs" by (intro Cons.IH Cons.prems)
  moreover have "m p = m' p" by (intro Cons.prems) (simp add: block_Suc)
  ultimately show ?case by simp
qed (simp add: block_Suc)

lemma str_at_update [simp]:
  "a \<notin> block p (Suc (length xs)) \<Longrightarrow> str_at (m(a := v)) p xs = str_at m p xs"
  by (rule str_at_cong) auto

lemma str_at_unique: "str_at m p xs \<Longrightarrow> str_at m p ys \<Longrightarrow> xs = ys"
proof (induction xs arbitrary: p ys)
  case Nil then show ?case by (cases ys) auto
next
  case (Cons x xs) then show ?case by (cases ys) auto
qed

lemma str_at_append: "str_at m p (xs @ ys) \<Longrightarrow> str_at m (p + of_nat (length xs)) ys"
proof (induction xs arbitrary: p)
  case (Cons x xs)
  then have "str_at m (p + 1 + of_nat (length xs)) ys" by simp
  then show ?case by (simp add: add.assoc)
qed simp

lemma not_in_block: "n \<le> 2 ^ 32 \<Longrightarrow> a \<in> block p n \<longleftrightarrow> unat (a - p) < n"
proof
  assume "a \<in> block p n" "n \<le> 2 ^ 32"
  then show "unat (a - p) < n" by (auto simp: block_def unat_of_nat)
next
  assume "unat (a - p) < n"
  then have "a = p + of_nat (unat (a - p))" "unat (a - p) \<in> {..< n}" by simp_all
  then show "a \<in> block p n" unfolding block_def by blast
qed

lemma uint_pos_iff: "0 < uint x \<longleftrightarrow> x \<noteq> 0" for x :: "'a::len word"
  by (simp add: order_less_le uint_0_iff eq_commute [of 0])

lemma unat_minus_1: "unat (- 1 :: u32) = 4294967295"
  by (simp add: unsigned_minus_1_eq_mask mask_eq_exp_minus_1)

lemma strlen_loop_str_at: "str_at m p xs \<Longrightarrow> strlen_loop m p n = Some (n + of_nat (length xs))"
  by (induction xs arbitrary: p n) (subst strlen_loop.simps, simp add: algebra_simps)+

lemma strcmp_str_at:
  "str_at m p xs \<Longrightarrow> str_at m q ys \<Longrightarrow>
    \<exists>d. strcmp m p q = Some d \<and> (d = 0 \<longleftrightarrow> xs = ys) \<and>
      (d < 0 \<longleftrightarrow> (xs, ys) \<in> lexord {(a, b). a < b})"
proof (induction xs arbitrary: p q ys)
  case Nil
  then show ?case
    by (cases ys) (subst strcmp.simps, auto simp: char_diff_def uint_pos_iff uint_0_iff)+
next
  case (Cons x xs)
  show ?case
  proof (cases ys)
    case Nil
    then show ?thesis using Cons.prems
      by (subst strcmp.simps) (auto simp: char_diff_def uint_pos_iff uint_0_iff not_less)
  next
    case ys: (Cons y ys')
    show ?thesis
    proof (cases "x = y")
      case True
      then show ?thesis
        using Cons.prems Cons.IH [of "p + 1" "q + 1" ys'] ys by (subst strcmp.simps) simp
    next
      case False
      then show ?thesis using Cons.prems ys
        by (subst strcmp.simps) (auto simp: char_diff_def word_less_def word_uint_eq_iff)
    qed
  qed
qed

lemma strcpy_loop_str_at:
  assumes "str_at m src xs" "block dst (Suc (length xs)) \<inter> block src (Suc (length xs)) = {}"
    "length xs < 2 ^ 32"
  shows "\<exists>m'. strcpy_loop m dst src = Some m' \<and> str_at m' dst xs \<and>
    (\<forall>a. a \<notin> block dst (Suc (length xs)) \<longrightarrow> m' a = m a)"
  using assms
proof (induction xs arbitrary: m src dst)
  case Nil
  then show ?case by (subst strcpy_loop.simps) (simp add: block_Suc)
next
  case (Cons x xs)
  let ?m = "m(dst := x)"
  have sub: "block (src + 1) (Suc (length xs)) \<subseteq> block src (Suc (Suc (length xs)))"
    "block (dst + 1) (Suc (length xs)) \<subseteq> block dst (Suc (Suc (length xs)))"
    by (simp_all only: block_Suc) auto
  have dst: "dst \<in> block dst (Suc (Suc (length xs)))" by (simp add: block_Suc)
  have nd: "dst \<notin> block (src + 1) (Suc (length xs))" using Cons.prems(2) sub dst by auto
  have nd': "dst \<notin> block (dst + 1) (Suc (length xs))"
    using Cons.prems(3) by (subst not_in_block) (simp_all add: unat_minus_1)
  have "str_at ?m (src + 1) xs" using Cons.prems nd by simp
  moreover have "block (dst + 1) (Suc (length xs)) \<inter> block (src + 1) (Suc (length xs)) = {}"
    using Cons.prems(2) sub by auto
  moreover have "length xs < 2 ^ 32" using Cons.prems(3) by simp
  ultimately obtain m' where m': "strcpy_loop ?m (dst + 1) (src + 1) = Some m'"
    "str_at m' (dst + 1) xs" "\<forall>a. a \<notin> block (dst + 1) (Suc (length xs)) \<longrightarrow> m' a = ?m a"
    using Cons.IH by blast
  have "m' dst = x" using m'(3) nd' by simp
  moreover have "m' a = m a" if "a \<notin> block dst (Suc (Suc (length xs)))" for a
    using m'(3) that dst sub by auto
  ultimately show ?case
    using Cons.prems m'(1,2) by (subst strcpy_loop.simps) auto
qed

section \<open>Copying blocks\<close>

lemma pred_less_pred: "x - 1 < n - 1 \<longleftrightarrow> x \<noteq> 0 \<and> x < n" if "0 < n" for x n :: u32
proof (cases "x = 0")
  case True
  then show ?thesis by (simp add: not_less)
next
  case False
  moreover from this have "0 < unat x" by (simp add: unat_gt_0)
  moreover have "n \<noteq> 0" "0 < unat n" using that by (auto simp: unat_gt_0)
  ultimately show ?thesis by (simp add: word_less_nat_alt unat_minus_one) linarith
qed

lemma pred_le: "n \<le> x \<Longrightarrow> n - 1 \<le> x" if "0 < n" for x n :: u32
  using count_down [OF that] by (simp add: word_le_nat_alt)

lemma copy_up_eq:
  "d = s \<or> n \<le> d - s \<Longrightarrow> copy_up m d s n = (\<lambda>a. if a - d < n then m (s + (a - d)) else m a)"
proof (induction m d s n rule: copy_up.induct)
  case (1 m d s n)
  show ?case
  proof (cases "n > 0")
    case False
    then show ?thesis by (subst copy_up.simps) (simp add: word_gt_0)
  next
    case True
    have IH: "copy_up (m(d := m s)) (d + 1) (s + 1) (n - 1) =
        (\<lambda>a. if a - (d + 1) < n - 1 then (m(d := m s)) (s + 1 + (a - (d + 1))) else (m(d := m s)) a)"
      by (rule "1.IH" [OF True]) (use "1.prems" pred_le [OF True] in auto)
    show ?thesis
    proof
      fix a
      have eq: "a - (d + 1) < n - 1 \<longleftrightarrow> a \<noteq> d \<and> a - d < n"
        using pred_less_pred [OF True, of "a - d"] by (simp add: diff_diff_eq)
      have "s + (a - d) \<noteq> d \<or> s = d" if "a - d < n" "a \<noteq> d"
        using "1.prems" that by (metis add_diff_cancel_left' not_le)
      then show "copy_up m d s n a = (if a - d < n then m (s + (a - d)) else m a)"
        using True by (subst copy_up.simps) (auto simp: IH eq)
    qed
  qed
qed

lemma copy_down_eq:
  "d = s \<or> n \<le> s - d \<Longrightarrow> copy_down m d s n =
    (\<lambda>a. if a - (d - n) < n then m (s - n + (a - (d - n))) else m a)"
proof (induction m d s n rule: copy_down.induct)
  case (1 m d s n)
  show ?case
  proof (cases "n > 0")
    case False
    then show ?thesis by (subst copy_down.simps) (simp add: word_gt_0)
  next
    case True
    let ?m = "m(d - 1 := m (s - 1))"
    have IH: "copy_down ?m (d - 1) (s - 1) (n - 1) =
        (\<lambda>a. if a - (d - 1 - (n - 1)) < n - 1 then ?m (s - 1 - (n - 1) + (a - (d - 1 - (n - 1))))
          else ?m a)"
      by (rule "1.IH" [OF True]) (use "1.prems" pred_le [OF True] in auto)
    have last: "x < n - 1 \<longleftrightarrow> x \<noteq> n - 1 \<and> x < n" for x
      using True count_down [OF True] unat_minus_one [of n]
      by (auto simp: word_less_nat_alt word_unat_eq_iff word_gt_0)
    show ?thesis
    proof
      fix a
      define x where "x = a - (d - n)"
      have a: "a = d - n + x" by (simp add: x_def)
      have "a = d - 1 \<longleftrightarrow> x = n - 1" by (auto simp: a algebra_simps)
      moreover have "s - n + x \<noteq> d - 1" if "x < n - 1" "d \<noteq> s"
      proof
        assume "s - n + x = d - 1"
        then have "s - d = n - 1 - x" by (simp add: algebra_simps)
        moreover have "n - 1 - x < n" using that(1) count_down [OF True]
          by (simp add: word_less_nat_alt unat_sub word_le_nat_alt)
        ultimately show False using "1.prems" that(2) by (metis not_le)
      qed
      moreover have "n - 1 < n" using count_down [OF True] by (simp add: word_less_nat_alt)
      ultimately show "copy_down m d s n a =
          (if a - (d - n) < n then m (s - n + (a - (d - n))) else m a)"
        using True last [of x] by (subst copy_down.simps) (auto simp: IH a)
    qed
  qed
qed

lemma sint_nonneg: "unat k < 0x80000000 \<Longrightarrow> 0 \<le> sint (k :: u32)"
proof -
  assume "unat k < 0x80000000"
  then have "\<not> bit k 31" using bit_less_exp [of k 31 31] by auto
  then show ?thesis by (simp add: sint_uint signed_take_bit_nonnegative_iff bit_simps)
qed

lemma memset_loop_eq:
  "unat n < 0x80000000 \<Longrightarrow>
    memset_loop m p c n = (\<lambda>a. if a - p < n then c else m a)"
proof (induction m p c n rule: memset_loop.induct)
  case (1 m p c k)
  show ?case
  proof (cases "k = 0")
    case True
    then show ?thesis by (subst memset_loop.simps) simp
  next
    case False
    then have k: "0 < k" by (simp add: word_gt_0)
    have pos: "0 \<le> sint (k - 1)"
      using "1.prems" unat_minus_one [OF False] by (simp add: sint_nonneg)
    have IH: "memset_loop (m(p := c)) (p + 1) c (k - 1) =
        (\<lambda>a. if a - (p + 1) < k - 1 then c else (m(p := c)) a)"
      by (rule "1.IH" [OF pos]) (use "1.prems" unat_minus_one [OF False] in \<open>auto simp: word_unat_eq_iff\<close>)
    show ?thesis
      using pos pred_less_pred [OF k] k
      by (subst memset_loop.simps) (auto simp: IH fun_eq_iff simp flip: diff_diff_eq)
  qed
qed

section \<open>Parsing numbers\<close>

text \<open>
  \<open>digits_at m s base ds\<close>: the bytes at \<open>s\<close> are digits of the base with the values \<open>ds\<close>, and the
  byte after them is not a digit of the base.
\<close>

fun digits_at :: "bmem \<Rightarrow> u32 \<Rightarrow> int \<Rightarrow> int list \<Rightarrow> bool" where
  "digits_at m s base [] \<longleftrightarrow> (case strtol_digit (m s) of None \<Rightarrow> True | Some d \<Rightarrow> base \<le> d)"
| "digits_at m s base (d # ds) \<longleftrightarrow>
    strtol_digit (m s) = Some d \<and> d < base \<and> digits_at m (s + 1) base ds"

definition digit_value :: "int \<Rightarrow> int list \<Rightarrow> int" where
  "digit_value base ds = foldl (\<lambda>v d. v * base + d) 0 ds"

lemma strtol_digits_at:
  "digits_at m s base ds \<Longrightarrow> strtol_digits m s base (word_of_int v) =
    Some (word_of_int (foldl (\<lambda>v d. v * base + d) v ds), s + of_nat (length ds))"
proof (induction ds arbitrary: s v)
  case Nil
  then show ?case by (subst strtol_digits.simps) (auto split: option.splits)
next
  case (Cons d ds)
  then have "strtol_digits m (s + 1) base (word_of_int (v * base + d)) =
      Some (word_of_int (foldl (\<lambda>v d. v * base + d) (v * base + d) ds), s + 1 + of_nat (length ds))"
    by (intro Cons.IH) simp
  with Cons.prems show ?case
    by (subst strtol_digits.simps) (simp add: add.assoc)
qed

lemma strtol_blanks_at:
  "(\<And>i. i < n \<Longrightarrow> m (s + of_nat i) = 0x20 \<or> m (s + of_nat i) = 0x09) \<Longrightarrow>
    m (s + of_nat n) \<noteq> 0x20 \<Longrightarrow> m (s + of_nat n) \<noteq> 0x09 \<Longrightarrow>
    strtol_blanks m s = Some (s + of_nat n)"
proof (induction n arbitrary: s)
  case 0
  then show ?case by (subst strtol_blanks.simps) simp
next
  case (Suc n)
  have "strtol_blanks m (s + 1) = Some (s + 1 + of_nat n)"
    using Suc.prems(1) [of "Suc i" for i] Suc.prems(2,3)
    by (intro Suc.IH) (simp_all add: add.assoc)
  moreover have "m s = 0x20 \<or> m s = 0x09" using Suc.prems(1) [of 0] by simp
  ultimately show ?case by (subst strtol_blanks.simps) (simp add: add.assoc)
qed

section \<open>Splitting at separators\<close>

lemma strchr_str_at:
  "str_at m p xs \<Longrightarrow> 0 \<notin> block p (length xs) \<Longrightarrow> \<exists>q. strchr m p c = Some q \<and> (q = 0 \<longleftrightarrow> c \<notin> set xs)"
proof (induction xs arbitrary: p)
  case Nil
  then show ?case by (subst strchr.simps) simp
next
  case (Cons x xs)
  then show ?case by (subst strchr.simps) (auto simp: block_Suc)
qed

lemma strchr_cong:
  "str_at m p xs \<Longrightarrow> (\<And>a. a \<in> block p (Suc (length xs)) \<Longrightarrow> m' a = m a) \<Longrightarrow>
    str_at m' p xs"
  using str_at_cong [of p xs m m'] by auto

lemma block_unat: "unat p + n \<le> 2 ^ 32 \<Longrightarrow> x \<in> block p n \<Longrightarrow> unat p \<le> unat x \<and> unat x < unat p + n"
proof -
  assume n: "unat p + n \<le> 2 ^ 32" and "x \<in> block p n"
  then obtain i where "x = p + of_nat i" "i < n" by (auto simp: block_def)
  then show ?thesis using n by (simp add: unat_word_ariths unat_of_nat)
qed

lemma block_apart:
  "unat p + a \<le> unat q \<or> unat q + b \<le> unat p \<Longrightarrow> unat p + a \<le> 2 ^ 32 \<Longrightarrow> unat q + b \<le> 2 ^ 32 \<Longrightarrow>
    block p a \<inter> block q b = {}"
  using block_unat [of p a] block_unat [of q b] by fastforce

lemma block_append: "block p (a + b) = block p a \<union> block (p + of_nat a) b"
proof (induction a arbitrary: p)
  case (Suc a)
  have "block p (Suc a + b) = insert p (block (p + 1) (a + b))" by (simp add: block_Suc)
  then show ?case using Suc.IH [of "p + 1"] by (simp add: block_Suc [of p] add.assoc)
qed simp

lemma block_disjoint: "a + b \<le> 2 ^ 32 \<Longrightarrow> block p a \<inter> block (p + of_nat a) b = {}"
proof (rule equals0I)
  fix x assume ab: "a + b \<le> 2 ^ 32" and x: "x \<in> block p a \<inter> block (p + of_nat a) b"
  from x have "x \<in> block p a" "x \<in> block (p + of_nat a) b" by simp_all
  then obtain i j where i: "x = p + of_nat i" "i < a" and j: "x = p + of_nat a + of_nat j" "j < b"
    unfolding block_def by blast
  then have "(of_nat i :: u32) = of_nat (a + j)" by (simp add: add.assoc)
  moreover have "unat (of_nat i :: u32) = i" "unat (of_nat (a + j) :: u32) = a + j"
    using ab i(2) j(2) by (simp_all only: unat_of_nat) simp_all
  ultimately show False using i(2) by simp
qed

text \<open>A string that another write has cut short.\<close>

lemma str_at_cut:
  "str_at m p (xs @ ys) \<Longrightarrow> (\<And>a. a \<in> block p (length xs) \<Longrightarrow> m' a = m a) \<Longrightarrow>
    m' (p + of_nat (length xs)) = 0 \<Longrightarrow> str_at m' p xs"
proof (induction xs arbitrary: p)
  case (Cons x xs)
  have "str_at m' (p + 1) xs"
    by (rule Cons.IH) (use Cons.prems in \<open>auto simp: block_Suc add.assoc\<close>)
  then show ?case using Cons.prems(1) Cons.prems(2) [of p] by (simp add: block_Suc)
qed simp

lemma split_scan_str_at:
  "str_at m s xs \<Longrightarrow> str_at m d seps \<Longrightarrow> 0 \<notin> block d (length seps) \<Longrightarrow>
    split_scan d m s = Some (s + of_nat (length (takeWhile (\<lambda>c. c \<notin> set seps) xs)))"
proof (induction xs arbitrary: s)
  case Nil
  then show ?case by (subst split_scan.simps) simp
next
  case (Cons x xs)
  obtain q where q: "strchr m d x = Some q" "q = 0 \<longleftrightarrow> x \<notin> set seps"
    using strchr_str_at [OF Cons.prems(2,3)] by blast
  with Cons show ?case by (subst split_scan.simps) (simp add: add.assoc)
qed

lemma split_trim_str_at:
  "str_at m s xs \<Longrightarrow> str_at m d seps \<Longrightarrow> 0 \<notin> block d (length seps) \<Longrightarrow>
    block d (Suc (length seps)) \<inter> block s (length xs) = {} \<Longrightarrow> length xs < 2 ^ 32 \<Longrightarrow>
    split_trim d m s =
      Some (\<lambda>a. if a \<in> block s (length (takeWhile (\<lambda>c. c \<in> set seps) xs)) then 0 else m a,
        s + of_nat (length (takeWhile (\<lambda>c. c \<in> set seps) xs)))"
proof (induction xs arbitrary: m s)
  case Nil
  then show ?case by (subst split_trim.simps) simp
next
  case (Cons x xs)
  obtain q where q: "strchr m d x = Some q" "q = 0 \<longleftrightarrow> x \<notin> set seps"
    using strchr_str_at [OF Cons.prems(2,3)] by blast
  show ?case
  proof (cases "x \<in> set seps")
    case False
    then show ?thesis using Cons.prems q by (subst split_trim.simps) simp
  next
    case True
    let ?m = "m(s := 0)" and ?k = "length (takeWhile (\<lambda>c. c \<in> set seps) xs)"
    have "s \<notin> block (s + 1) (Suc (length xs))"
      using block_disjoint [of 1 "Suc (length xs)" s] Cons.prems(5) by (simp add: block_Suc [of s 0])
    then have "str_at ?m (s + 1) xs" using Cons.prems(1) by simp
    moreover have "str_at ?m d seps"
      using Cons.prems(2,4) by (auto simp: block_Suc [of s])
    ultimately have "split_trim d ?m (s + 1) =
        Some (\<lambda>a. if a \<in> block (s + 1) ?k then 0 else ?m a, s + 1 + of_nat ?k)"
      using Cons.IH Cons.prems by (auto simp: block_Suc [of s])
    then show ?thesis
      using Cons.prems(1) q True
      by (subst split_trim.simps) (auto simp: add.assoc fun_eq_iff block_Suc [of s])
  qed
qed

text \<open>
  The words of a line: the maximal runs of bytes that are not separators. They are what
  \<^verbatim>\<open>strsplit\<close> is to find.
\<close>

function split_words :: "u8 set \<Rightarrow> u8 list \<Rightarrow> u8 list list" where
  "split_words S xs =
    (let ys = dropWhile (\<lambda>c. c \<in> S) xs
     in if ys = [] then []
        else takeWhile (\<lambda>c. c \<notin> S) ys # split_words S (dropWhile (\<lambda>c. c \<notin> S) ys))"
  by pat_completeness auto
termination
proof (relation "measure (\<lambda>(S, xs). length xs)")
  fix S :: "u8 set" and xs ys assume ys: "ys = dropWhile (\<lambda>c. c \<in> S) xs" "ys \<noteq> []"
  then have "hd ys \<notin> S" using hd_dropWhile by metis
  then have "length (dropWhile (\<lambda>c. c \<notin> S) ys) < length ys"
    using ys(2) by (cases ys) (auto simp: le_imp_less_Suc length_dropWhile_le)
  also have "\<dots> \<le> length xs" using ys(1) length_dropWhile_le by simp
  finally show "((S, dropWhile (\<lambda>c. c \<notin> S) ys), S, xs) \<in> measure (\<lambda>(S, xs). length xs)" by simp
qed simp

declare split_words.simps [simp del]

text \<open>What a run of the loop from \<open>string\<close> (with the bytes \<open>xs\<close>) leaves.\<close>

definition split_result :: "u8 set \<Rightarrow> u8 list \<Rightarrow> bmem \<Rightarrow> (nat \<Rightarrow> u32) \<Rightarrow> nat \<Rightarrow>
    int \<times> nat \<times> (nat \<Rightarrow> u32) \<times> bmem \<Rightarrow> bool" where
  "split_result S xs m argv argc = (\<lambda>(r, argc', argv', m').
    (if argc + length (split_words S xs) < MAX_ARGUMENTS
     then r = 1 \<and> argc' = argc + length (split_words S xs) \<and> argv' argc' = 0 \<and>
       (\<forall>j < length (split_words S xs). str_at m' (argv' (argc + j)) (split_words S xs ! j))
     else r = 0 \<and> argc' = MAX_ARGUMENTS - 1) \<and>
    (\<forall>j < argc. argv' j = argv j) \<and> (\<forall>a. m' a = m a \<or> m' a = 0))"

text \<open>The leading separators are zeroed: what is left is the string of the rest.\<close>

lemma split_trim_rest:
  assumes "str_at m s xs" "str_at m d seps" "0 \<notin> block d (length seps)"
    "block d (Suc (length seps)) \<inter> block s (length xs) = {}" "length xs < 2 ^ 32"
  defines "ys \<equiv> dropWhile (\<lambda>c. c \<in> set seps) xs"
  obtains m1 s1 where "split_trim d m s = Some (m1, s1)" "str_at m1 s1 ys" "str_at m1 d seps"
    "block s1 (length ys) \<subseteq> block s (length xs)" "length ys \<le> length xs"
    "\<forall>a. m1 a = m a \<or> m1 a = 0" "\<forall>a. a \<notin> block s (length xs) \<longrightarrow> m1 a = m a"
    "xs = [] \<or> hd xs \<in> set seps \<longrightarrow> m1 s = 0"
proof -
  let ?sp = "takeWhile (\<lambda>c. c \<in> set seps) xs"
  define s1 where "s1 = s + of_nat (length ?sp)"
  define m1 where "m1 = (\<lambda>a. if a \<in> block s (length ?sp) then 0 else m a)"
  have trim: "split_trim d m s = Some (m1, s1)"
    unfolding m1_def s1_def by (rule split_trim_str_at [OF assms(1-5)])
  have len: "length xs = length ?sp + length ys"
    unfolding ys_def by (metis length_append takeWhile_dropWhile_id)
  have dis: "block s (length ?sp) \<inter> block s1 (Suc (length ys)) = {}"
    unfolding s1_def by (rule block_disjoint) (use assms(5) len in simp)
  have blk: "block s (length xs) = block s (length ?sp) \<union> block s1 (length ys)"
    unfolding len s1_def by (rule block_append)
  have "str_at m s1 ys"
    unfolding s1_def ys_def by (rule str_at_append) (use assms(1) in simp)
  then have ys1: "str_at m1 s1 ys"
    by (rule strchr_cong) (use dis in \<open>auto simp: m1_def\<close>)
  have seps1: "str_at m1 d seps"
    by (rule strchr_cong [OF assms(2)]) (use assms(4) blk in \<open>auto simp: m1_def\<close>)
  have "m1 s = 0" if "xs = [] \<or> hd xs \<in> set seps"
    using that assms(1) by (cases xs) (simp_all add: m1_def block_Suc)
  then show thesis
    by (intro that [OF trim ys1 seps1]) (use len blk in \<open>auto simp: m1_def\<close>)
qed

text \<open>The scan to the end of a word.\<close>

lemma split_scan_word:
  assumes "str_at m s xs" "str_at m d seps" "0 \<notin> block d (length seps)" "length xs < 2 ^ 32"
    and "xs \<noteq> []" "hd xs \<notin> set seps"
  defines "w \<equiv> takeWhile (\<lambda>c. c \<notin> set seps) xs" and "zs \<equiv> dropWhile (\<lambda>c. c \<notin> set seps) xs"
  obtains s2 where "split_scan d m s = Some s2" "str_at m s2 zs" "length zs < length xs"
    "block s2 (length zs) \<subseteq> block s (length xs)" "block s (length w) \<inter> block s2 (length zs) = {}"
    "\<And>m'. m' s2 = 0 \<Longrightarrow> (\<And>a. a \<in> block s (length w) \<Longrightarrow> m' a = m a) \<Longrightarrow> str_at m' s w"
proof -
  define s2 where "s2 = s + of_nat (length w)"
  have len: "length xs = length w + length zs"
    unfolding w_def zs_def by (metis length_append takeWhile_dropWhile_id)
  have scan: "split_scan d m s = Some s2"
    unfolding s2_def w_def by (rule split_scan_str_at [OF assms(1-3)])
  have pos: "0 < length w" using assms(5,6) by (cases xs) (simp_all add: w_def)
  have blk: "block s (length xs) = block s (length w) \<union> block s2 (length zs)"
    unfolding len s2_def by (rule block_append)
  have dis: "block s (length w) \<inter> block s2 (length zs) = {}"
    unfolding s2_def by (rule block_disjoint) (use assms(4) len in simp)
  have xs: "str_at m s (w @ zs)" using assms(1) by (simp add: w_def zs_def)
  have zs: "str_at m s2 zs" unfolding s2_def by (rule str_at_append [OF xs])
  have word: "str_at m' s w" if "m' s2 = 0" "\<And>a. a \<in> block s (length w) \<Longrightarrow> m' a = m a" for m'
    by (rule str_at_cut [OF xs]) (use that in \<open>simp_all add: s2_def\<close>)
  show thesis by (rule that [OF scan zs _ _ dis word]) (use len pos blk in auto)
qed

text \<open>One word more.\<close>

lemma split_result_word:
  assumes "split_result S zs m1 (argv(argc := p)) (argc + 1) (r, argc', argv', m')"
    and "split_words S xs = w # split_words S zs" "str_at m' p w" "\<forall>a. m1 a = m a \<or> m1 a = 0"
  shows "split_result S xs m argv argc (r, argc', argv', m')"
proof -
  have argv': "argv' argc = p" "\<forall>j < argc. argv' j = argv j" using assms(1) by (auto simp: split_result_def)
  have "\<forall>j < length (split_words S xs). str_at m' (argv' (argc + j)) (split_words S xs ! j)"
    if "argc + length (split_words S xs) < MAX_ARGUMENTS"
  proof (intro allI impI)
    fix j assume "j < length (split_words S xs)"
    then show "str_at m' (argv' (argc + j)) (split_words S xs ! j)"
      using assms(1-3) that argv'(1) by (cases j) (auto simp: split_result_def)
  qed
  moreover have "m' a = m a \<or> m' a = 0" for a
  proof -
    have "m' a = m1 a \<or> m' a = 0" using assms(1) by (simp add: split_result_def)
    then show ?thesis using assms(4) by metis
  qed
  ultimately show ?thesis using assms(1,2) argv'(2) by (auto simp: split_result_def)
qed

lemma split_loop_correct:
  assumes "str_at m s xs" "str_at m d seps" "0 \<notin> block d (length seps)"
    "block d (Suc (length seps)) \<inter> block s (length xs) = {}" "length xs < 2 ^ 32" "argc < MAX_ARGUMENTS"
  shows "\<exists>res. split_loop d m s argv argc = Some res \<and> split_result (set seps) xs m argv argc res \<and>
    (\<forall>a. a \<notin> block s (length xs) \<longrightarrow> snd (snd (snd res)) a = m a) \<and>
    (xs = [] \<or> hd xs \<in> set seps \<longrightarrow> snd (snd (snd res)) s = 0)"
  using assms
proof (induction "length xs" arbitrary: m s xs argv argc rule: less_induct)
  case less
  let ?S = "set seps"
  let ?ys = "dropWhile (\<lambda>c. c \<in> ?S) xs"
  let ?w = "takeWhile (\<lambda>c. c \<notin> ?S) ?ys" and ?zs = "dropWhile (\<lambda>c. c \<notin> ?S) ?ys"
  obtain m1 s1 where trim: "split_trim d m s = Some (m1, s1)" and ys1: "str_at m1 s1 ?ys" and seps1: "str_at m1 d seps"
    and sub: "block s1 (length ?ys) \<subseteq> block s (length xs)" "length ?ys \<le> length xs"
    and m1: "\<forall>a. m1 a = m a \<or> m1 a = 0" "\<forall>a. a \<notin> block s (length xs) \<longrightarrow> m1 a = m a"
    and first: "xs = [] \<or> hd xs \<in> ?S \<longrightarrow> m1 s = 0"
    by (rule split_trim_rest [OF less.prems(1-5)])
  show ?case
  proof (cases "?ys = []")
    case True
    then have "m1 s1 = 0" "split_words ?S xs = []"
      using ys1 [unfolded True] by (simp_all add: split_words.simps)
    moreover from this(1) have "split_loop d m s argv argc = Some (1, argc, argv(argc := 0), m1)"
      by (subst split_loop.simps) (simp add: trim)
    ultimately show ?thesis
      using less.prems(6) first m1 by (simp add: split_result_def)
  next
    case False
    then have y: "hd ?ys \<notin> ?S" using hd_dropWhile [of "\<lambda>c. c \<in> ?S" xs] by simp
    have words: "split_words ?S xs = ?w # split_words ?S ?zs"
      using False by (subst split_words.simps) (simp add: Let_def)
    have nz: "m1 s1 \<noteq> 0" using ys1 False by (cases ?ys) auto
    show ?thesis
    proof (cases "argc = MAX_ARGUMENTS - 1")
      case True
      then have "split_loop d m s argv argc = Some (0, argc, argv, m1)"
        using nz by (subst split_loop.simps) (simp add: trim)
      with True show ?thesis using first m1 words by (simp add: split_result_def)
    next
      case False
      have "length ?ys < 2 ^ 32" using sub(2) less.prems(5) by simp
      then obtain s2 where scan: "split_scan d m1 s1 = Some s2" and zs: "str_at m1 s2 ?zs" "length ?zs < length ?ys"
        and sub2: "block s2 (length ?zs) \<subseteq> block s1 (length ?ys)" "block s1 (length ?w) \<inter> block s2 (length ?zs) = {}"
        and word: "\<And>m'. m' s2 = 0 \<Longrightarrow> (\<And>a. a \<in> block s1 (length ?w) \<Longrightarrow> m' a = m1 a) \<Longrightarrow> str_at m' s1 ?w"
        by (rule split_scan_word [OF ys1 seps1 less.prems(3) _ \<open>?ys \<noteq> []\<close> y]) blast
      have shorter: "length ?zs < length xs" using zs(2) sub(2) by simp
      have apart: "block d (Suc (length seps)) \<inter> block s2 (length ?zs) = {}"
        using less.prems(4) sub(1) sub2(1) by blast
      have room: "argc + 1 < MAX_ARGUMENTS" "length ?zs < 2 ^ 32"
        using less.prems(5,6) False shorter by simp_all
      obtain q where q: "split_loop d m1 s2 (argv(argc := s1)) (argc + 1) = Some q"
        "split_result ?S ?zs m1 (argv(argc := s1)) (argc + 1) q"
        "\<forall>a. a \<notin> block s2 (length ?zs) \<longrightarrow> snd (snd (snd q)) a = m1 a"
        "?zs = [] \<or> hd ?zs \<in> ?S \<longrightarrow> snd (snd (snd q)) s2 = 0"
        using less.hyps [OF shorter zs(1) seps1 less.prems(3) apart room(2,1)] by blast
      obtain r argc' argv' m' where "q = (r, argc', argv', m')" by (cases q)
      note res = q [unfolded this snd_conv]
      have "?zs = [] \<or> hd ?zs \<in> ?S" using hd_dropWhile [of "\<lambda>c. c \<notin> ?S" ?ys] by blast
      then have "m' s2 = 0" using res(4) by blast
      then have "str_at m' s1 ?w" by (rule word) (use res(3) sub2(2) in auto)
      then have "split_result ?S xs m argv argc (r, argc', argv', m')"
        by (rule split_result_word [OF res(2) words _ m1(1)])
      moreover have "split_loop d m s argv argc = Some (r, argc', argv', m')"
        using nz False res(1) by (subst split_loop.simps) (simp add: trim scan)
      moreover have "m' s = m1 s \<or> m' s = 0" using res(2) by (simp add: split_result_def)
      with first have "xs = [] \<or> hd xs \<in> ?S \<longrightarrow> m' s = 0" by (elim disjE) simp_all
      moreover have "\<forall>a. a \<notin> block s (length xs) \<longrightarrow> m' a = m a"
      proof (intro allI impI)
        fix a assume "a \<notin> block s (length xs)"
        then have "a \<notin> block s2 (length ?zs)" "m1 a = m a" using sub(1) sub2(1) m1(2) by blast+
        then show "m' a = m a" using res(3) by simp
      qed
      ultimately show ?thesis
        by (intro exI [of _ "(r, argc', argv', m')"] conjI) (simp_all only: snd_conv)
    qed
  qed
qed

section \<open>Correctness\<close>

text \<open>
  On zero-terminated strings the routines compute their specification and end:
  \<^verbatim>\<open>strlen\<close> is the number of bytes, \<^verbatim>\<open>strcmp\<close> is zero exactly for equal strings and negative exactly
  when the first string comes first in lexicographic byte order, and \<^verbatim>\<open>strcpy\<close> into
  a destination apart from the source leaves the same string there and every other byte
  alone.
\<close>

theorem string_routines_correct:
  assumes "str_at m p xs" "str_at m q ys" "length xs < 2 ^ 32"
    "block dst (Suc (length xs)) \<inter> block p (Suc (length xs)) = {}"
  shows "strlen m p = Some (of_nat (length xs)) \<and>
    (\<exists>d. strcmp m p q = Some d \<and> (d = 0 \<longleftrightarrow> xs = ys) \<and>
      (d < 0 \<longleftrightarrow> (xs, ys) \<in> lexord {(a, b). a < b})) \<and>
    (\<exists>m'. strcpy m dst p = Some (dst, m') \<and> str_at m' dst xs \<and>
      (\<forall>a. a \<notin> block dst (Suc (length xs)) \<longrightarrow> m' a = m a))"
  using strlen_loop_str_at [OF assms(1), of 0] strcmp_str_at [OF assms(1,2)]
    strcpy_loop_str_at [OF assms(1,4,3)]
  by (auto simp: strlen_def strcpy_def)

text \<open>A memory with the bytes of a list from an address on.\<close>

definition load :: "u32 \<Rightarrow> u8 list \<Rightarrow> bmem \<Rightarrow> bmem" where
  "load p bs m = (\<lambda>a. if unat (a - p) < length bs then bs ! unat (a - p) else m a)"

lemma load_nth: "i < length bs \<Longrightarrow> length bs \<le> 2 ^ 32 \<Longrightarrow> load p bs m (p + of_nat i) = bs ! i"
  by (simp add: load_def unat_of_nat)

theorem string_routines_correct_witness:
  "strlen (load 16 [102, 111, 115, 0] (\<lambda>_. 0)) 16 = Some 3 \<and>
   (\<exists>d. strcmp (load 16 [102, 111, 115, 0] (\<lambda>_. 0)) 16 17 = Some d \<and> d < 0)"
proof -
  let ?m = "load 16 [102, 111, 115, 0] (\<lambda>_. 0)"
  have "str_at ?m 16 [102, 111, 115]" "str_at ?m 17 [111, 115]"
    by (simp_all add: load_def)
  moreover have "block 32 (Suc (length [102, 111, 115 :: u8])) \<inter>
      block (16 :: u32) (Suc (length [102, 111, 115 :: u8])) = {}"
    by (rule block_apart) simp_all
  moreover have "length [102, 111, 115 :: u8] < 2 ^ 32" by simp
  ultimately have "strlen ?m 16 = Some (of_nat (length [102, 111, 115 :: u8]))"
    "\<exists>d. strcmp ?m 16 17 = Some d \<and>
      (d < 0 \<longleftrightarrow> ([102, 111, 115 :: u8], [111, 115]) \<in> lexord {(a, b). a < b})"
    using string_routines_correct [of ?m 16 "[102, 111, 115]" 17 "[111, 115]" 32] by blast+
  then show ?thesis by simp
qed

text \<open>
  \<^verbatim>\<open>memmove\<close> moves a block right even when source and destination overlap: every byte of the
  destination receives the byte the source had before the call, and nothing else changes.
  \<^verbatim>\<open>memcpy\<close> does so when the destination does not start inside the source, and \<^verbatim>\<open>memset\<close> fills
  exactly its block for lengths below 2 GB.
\<close>

theorem memory_blocks_correct:
  assumes "unat src + unat n < 2 ^ 32" "unat dst + unat n < 2 ^ 32"
  shows "memmove m dst src n = (dst, \<lambda>a. if a - dst < n then m (src + (a - dst)) else m a) \<and>
    (dst = src \<or> n \<le> dst - src \<longrightarrow>
      memcpy m dst src n = (dst, \<lambda>a. if a - dst < n then m (src + (a - dst)) else m a)) \<and>
    (unat n < 2 ^ 31 \<longrightarrow> memset m dst c n = (dst, \<lambda>a. if a - dst < n then c else m a))"
proof -
  have top: "unat (src + n) = unat src + unat n"
    using assms(1) by (simp add: unat_word_ariths)
  have "snd (memmove m dst src n) = (\<lambda>a. if a - dst < n then m (src + (a - dst)) else m a)"
  proof (cases "src < dst \<and> src + n > dst")
    case True
    have "unat (src - dst) = 2 ^ 32 + unat src - unat dst"
      using True unat_u32_less [of dst]
      by (simp add: unat_sub_if' word_less_nat_alt not_le)
    then have "n \<le> src + n - (dst + n)"
      using assms(2) unat_u32_less [of n] by (simp add: word_le_nat_alt)
    then have "copy_down m (dst + n) (src + n) n =
        (\<lambda>a. if a - dst < n then m (src + (a - dst)) else m a)"
      using copy_down_eq [of "dst + n" "src + n" n m] by (simp only: add_diff_cancel_right' simp_thms)
    with True show ?thesis by (simp add: memmove_def)
  next
    case False
    have "dst = src \<or> n \<le> dst - src"
    proof (cases "src < dst")
      case True
      with False have "unat src + unat n \<le> unat dst" using top by (simp add: not_less word_le_nat_alt)
      then have "unat n \<le> unat dst - unat src" by linarith
      then show ?thesis using True by (simp add: word_le_nat_alt word_less_nat_alt unat_sub_if')
    next
      case ge: False
      show ?thesis
      proof (cases "dst = src")
        case False
        with ge have "unat dst < unat src" by (simp add: word_less_nat_alt word_unat_eq_iff)
        then show ?thesis using assms(1)
          by (intro disjI2) (simp add: word_le_nat_alt unat_sub_if')
      qed simp
    qed
    with copy_up_eq [of dst src n m] False show ?thesis by (auto simp: memmove_def)
  qed
  then show ?thesis
    using copy_up_eq [of dst src n m] memset_loop_eq [of n m dst c]
    by (auto simp: memmove_def memcpy_def memset_def)
qed

theorem memory_blocks_correct_witness:
  "snd (memmove (load 8 [1, 2, 3, 4] (\<lambda>_. 0)) 9 8 4) 12 = 4 \<and>
   snd (memmove (load 8 [1, 2, 3, 4] (\<lambda>_. 0)) 9 8 4) 9 = 1"
  using memory_blocks_correct [of 8 4 9 "load 8 [1, 2, 3, 4] (\<lambda>_. 0)"] by (simp add: load_def)

lemma strtol_parses:
  assumes blanks: "\<And>i. i < n \<Longrightarrow> m (s + of_nat i) = 0x20 \<or> m (s + of_nat i) = 0x09"
    and not_blank: "m (s + of_nat n) \<noteq> 0x20" "m (s + of_nat n) \<noteq> 0x09"
    and sign: "strtol_sign m (s + of_nat n) = (neg, s1)"
    and digits: "(base = 0 \<or> base = 16) \<and> m s1 = 0x30 \<and> m (s1 + 1) = 0x78 \<and> b = 16 \<and> s2 = s1 + 2 \<or>
      base = 0 \<and> m s1 = 0x30 \<and> m (s1 + 1) \<noteq> 0x78 \<and> b = 8 \<and> s2 = s1 + 1 \<or>
      base = 0 \<and> m s1 \<noteq> 0x30 \<and> b = 10 \<and> s2 = s1 \<or>
      base \<noteq> 0 \<and> \<not> (base = 16 \<and> m s1 = 0x30 \<and> m (s1 + 1) = 0x78) \<and> b = base \<and> s2 = s1"
    and "digits_at m s2 b ds"
  shows "strtol m s base =
    Some (word_of_int (if neg then - digit_value b ds else digit_value b ds), s2 + of_nat (length ds))"
proof -
  have "strtol_prefix m s1 base = (b, s2)"
    using digits by (auto simp: strtol_prefix_def)
  moreover have "strtol_blanks m s = Some (s + of_nat n)"
    by (rule strtol_blanks_at) (fact blanks not_blank)+
  ultimately show ?thesis
    using sign strtol_digits_at [OF assms(6), of 0]
    by (auto simp: strtol_def digit_value_def)
qed

text \<open>
  \<^verbatim>\<open>strtol\<close> reads blanks, an optional sign, the prefix of the base and the longest run of
  digits of the base; it ends, returns the number they denote modulo \<open>2 ^ 32\<close>, negated after a
  minus sign, and \<^verbatim>\<open>*endptr\<close> is the first byte that is not part of it. Base 0 means decimal,
  octal after \<^verbatim>\<open>0\<close> and hexadecimal after \<^verbatim>\<open>0x\<close>.
\<close>

theorem strtol_correct:
  assumes blanks: "\<And>i. i < n \<Longrightarrow> m (s + of_nat i) = 0x20 \<or> m (s + of_nat i) = 0x09"
    and not_blank: "m (s + of_nat n) \<noteq> 0x20" "m (s + of_nat n) \<noteq> 0x09"
    and sign: "strtol_sign m (s + of_nat n) = (neg, s1)"
    and digits: "(base = 0 \<or> base = 16) \<and> m s1 = 0x30 \<and> m (s1 + 1) = 0x78 \<and> b = 16 \<and> s2 = s1 + 2 \<or>
      base = 0 \<and> m s1 = 0x30 \<and> m (s1 + 1) \<noteq> 0x78 \<and> b = 8 \<and> s2 = s1 + 1 \<or>
      base = 0 \<and> m s1 \<noteq> 0x30 \<and> b = 10 \<and> s2 = s1 \<or>
      base \<noteq> 0 \<and> \<not> (base = 16 \<and> m s1 = 0x30 \<and> m (s1 + 1) = 0x78) \<and> b = base \<and> s2 = s1"
    and "digits_at m s2 b ds"
  shows "strtol m s base =
    Some (word_of_int (if neg then - digit_value b ds else digit_value b ds), s2 + of_nat (length ds))"
  by (rule strtol_parses [OF assms])

theorem strtol_correct_witness:
  "strtol (load 64 [32, 45, 48, 120, 49, 70, 0] (\<lambda>_. 0)) 64 0 = Some (- 31, 70)"
proof -
  let ?m = "load 64 [32, 45, 48, 120, 49, 70, 0] (\<lambda>_. 0)"
  have "strtol ?m 64 0 = Some (word_of_int (if True then - digit_value 16 [1, 15] else
      digit_value 16 [1, 15]), 68 + of_nat (length [1, 15 :: int]))"
    by (rule strtol_correct [where n = 1 and ?s1.0 = 66])
      (simp_all add: load_def strtol_sign_def strtol_digit_def)
  then show ?thesis by (simp add: digit_value_def)
qed

lemma strsplit_splits:
  assumes "str_at m string xs" "str_at m SPLIT_CHARS seps" "0 \<notin> block SPLIT_CHARS (length seps)"
    "block SPLIT_CHARS (Suc (length seps)) \<inter> block string (length xs) = {}" "length xs < 2 ^ 32"
  shows "\<exists>r argc argv' m'. strsplit m string SPLIT_CHARS argv = Some (r, argc, argv', m') \<and>
    (if length (split_words (set seps) xs) < MAX_ARGUMENTS
     then r = 1 \<and> argc = length (split_words (set seps) xs) \<and> argv' argc = 0 \<and>
       (\<forall>i < argc. str_at m' (argv' i) (split_words (set seps) xs ! i))
     else r = 0 \<and> argc = MAX_ARGUMENTS - 1) \<and>
    (\<forall>a. m' a = m a \<or> a \<in> block string (length xs) \<and> m' a = 0)"
proof -
  obtain r argc argv' m' where
    run: "split_loop SPLIT_CHARS m string (argv(0 := 0)) 0 = Some (r, argc, argv', m')"
    and res: "split_result (set seps) xs m (argv(0 := 0)) 0 (r, argc, argv', m')"
    and out: "\<forall>a. a \<notin> block string (length xs) \<longrightarrow> m' a = m a"
    using split_loop_correct [OF assms, of 0 "argv(0 := 0)"] by auto
  have "m' a = m a \<or> a \<in> block string (length xs) \<and> m' a = 0" for a
    using res out by (cases "a \<in> block string (length xs)") (auto simp: split_result_def)
  moreover have "if length (split_words (set seps) xs) < MAX_ARGUMENTS
     then r = 1 \<and> argc = length (split_words (set seps) xs) \<and> argv' argc = 0 \<and>
       (\<forall>i < argc. str_at m' (argv' i) (split_words (set seps) xs ! i))
     else r = 0 \<and> argc = MAX_ARGUMENTS - 1"
    using res by (auto simp: split_result_def split: if_splits)
  ultimately show ?thesis using run unfolding strsplit_def by blast
qed

text \<open>
  C33: \<^verbatim>\<open>strsplit\<close> finds the words of a line. On a terminated line, with terminated separators
  apart from it, it ends; when there are fewer than \<^verbatim>\<open>MAX_ARGUMENTS\<close> words it returns 1, \<^verbatim>\<open>*argc\<close> is
  their number, \<^verbatim>\<open>argv[i]\<close> points to the \<open>i\<close>-th word as a string of its own and \<^verbatim>\<open>argv[argc]\<close>
  is null; otherwise it returns 0 with \<^verbatim>\<open>MAX_ARGUMENTS - 1\<close>. Only the line is written, and only with
  zeros.
\<close>

theorem strsplit_correct:
  assumes "str_at m string xs" "str_at m SPLIT_CHARS seps" "0 \<notin> block SPLIT_CHARS (length seps)"
    "block SPLIT_CHARS (Suc (length seps)) \<inter> block string (length xs) = {}" "length xs < 2 ^ 32"
  shows "\<exists>r argc argv' m'. strsplit m string SPLIT_CHARS argv = Some (r, argc, argv', m') \<and>
    (if length (split_words (set seps) xs) < MAX_ARGUMENTS
     then r = 1 \<and> argc = length (split_words (set seps) xs) \<and> argv' argc = 0 \<and>
       (\<forall>i < argc. str_at m' (argv' i) (split_words (set seps) xs ! i))
     else r = 0 \<and> argc = MAX_ARGUMENTS - 1) \<and>
    (\<forall>a. m' a = m a \<or> a \<in> block string (length xs) \<and> m' a = 0)"
  by (rule strsplit_splits [OF assms])

theorem strsplit_correct_witness:
  "\<exists>argv m'. strsplit (load 64 [97, 32, 32, 98, 99, 0] (load 128 [32, 0] (\<lambda>_. 0))) 64 128 (\<lambda>_. 0) =
     Some (1, 2, argv, m') \<and> str_at m' (argv 1) [98, 99]"
proof -
  let ?m = "load 64 [97, 32, 32, 98, 99, 0] (load 128 [32, 0] (\<lambda>_. 0))"
  have w: "split_words (set [32]) [97, 32, 32, 98, 99] = [[97], [98, 99]]"
    by (simp add: split_words.simps)
  have "str_at ?m 64 [97, 32, 32, 98, 99]" "str_at ?m 128 [32]"
    by (simp_all add: load_def)
  moreover have "0 \<notin> block (128 :: u32) (length [32 :: u8])"
    using block_unat [of "128 :: u32" 1 0] by auto
  moreover have "block 128 (Suc (length [32 :: u8])) \<inter>
      block (64 :: u32) (length [97, 32, 32, 98, 99 :: u8]) = {}"
    by (rule block_apart) simp_all
  moreover have "length [97, 32, 32, 98, 99 :: u8] < 2 ^ 32" by simp
  ultimately obtain r argc argv m' where
    "strsplit ?m 64 128 (\<lambda>_. 0) = Some (r, argc, argv, m')"
    "if length (split_words (set [32]) [97, 32, 32, 98, 99]) < MAX_ARGUMENTS
     then r = 1 \<and> argc = length (split_words (set [32]) [97, 32, 32, 98, 99]) \<and> argv argc = 0 \<and>
       (\<forall>i < argc. str_at m' (argv i) (split_words (set [32]) [97, 32, 32, 98, 99] ! i))
     else r = 0 \<and> argc = MAX_ARGUMENTS - 1"
    using strsplit_correct [of ?m 64 "[97, 32, 32, 98, 99]" 128 "[32]" "\<lambda>_. 0"] by blast
  then show ?thesis unfolding w by (intro exI [of _ argv] exI [of _ m']) auto
qed

end
