(* ===== verification/FOS_Printfmt.thy ===== *)
theory FOS_Printfmt
  imports FOS_String
begin

text \<open>
  Formatted output: \<^verbatim>\<open>lib/printfmt.c\<close>, the macros of \<^verbatim>\<open>inc/stdarg.h\<close> it reads its arguments with,
  and the three character sinks it is used with (\<^verbatim>\<open>lib/printf.c\<close>, \<^verbatim>\<open>kern/printf.c\<close> and the buffer of
  \<^verbatim>\<open>vsnprintf\<close>). The function \<^verbatim>\<open>putch\<close> with its \<^verbatim>\<open>putdat\<close> is a function on a state. A format is
  the list of its bytes, a position in it an index; reading past the end gives the terminating
  zero. Arguments are the 32-bit words on the stack above the last named argument. An
  \<^verbatim>\<open>int\<close> that counts columns is an integer.
\<close>

section \<open>Arguments\<close>

text \<open>\<^verbatim>\<open>va_arg\<close> for a type of one word and of two words: the value and the next position.\<close>

type_synonym va_list = "nat \<Rightarrow> u32"

definition va_arg32 :: "va_list \<Rightarrow> nat \<Rightarrow> u32 \<times> nat" where
  "va_arg32 ap k = (ap k, k + 1)"

definition va_arg64 :: "va_list \<Rightarrow> nat \<Rightarrow> u64 \<times> nat" where
  "va_arg64 ap k = (ucast (ap k) + push_bit 32 (ucast (ap (k + 1))), k + 2)"

definition getuint :: "va_list \<Rightarrow> nat \<Rightarrow> nat \<Rightarrow> u64 \<times> nat" where
  "getuint ap k lflag =
    (if lflag \<ge> 2 then va_arg64 ap k
     else if lflag \<noteq> 0 then (let (v, k') = va_arg32 ap k in (ucast v, k'))
     else (let (v, k') = va_arg32 ap k in (ucast v, k')))"

definition getint :: "va_list \<Rightarrow> nat \<Rightarrow> nat \<Rightarrow> u64 \<times> nat" where
  "getint ap k lflag =
    (if lflag \<ge> 2 then va_arg64 ap k
     else if lflag \<noteq> 0 then (let (v, k') = va_arg32 ap k in (scast v, k'))
     else (let (v, k') = va_arg32 ap k in (scast v, k')))"

section \<open>Numbers and strings\<close>

type_synonym 's putch = "u32 \<Rightarrow> 's \<Rightarrow> 's"

text \<open>\<^verbatim>\<open>for (; width > 0; width--) putch(c)\<close>.\<close>

function pad :: "'s putch \<Rightarrow> u32 \<Rightarrow> int \<Rightarrow> 's \<Rightarrow> 's" where
  "pad putch c width s = (if width > 0 then pad putch c (width - 1) (putch c s) else s)"
  by pat_completeness auto
termination by (relation "measure (\<lambda>(putch, c, width, s). nat width)") auto

declare pad.simps [simp del]

definition hex_digit :: "u64 \<Rightarrow> u8" where
  "hex_digit d = (if d < 10 then 0x30 + ucast d else 0x57 + ucast d)"

text \<open>The bases used are 10 and 16; \<^verbatim>\<open>printnum\<close> would not end for base 0 or 1.\<close>

partial_function (option) printnum ::
    "'s putch \<Rightarrow> u64 \<Rightarrow> u64 \<Rightarrow> int \<Rightarrow> u32 \<Rightarrow> 's \<Rightarrow> 's option" where
  "printnum putch num base width padc s =
    Option.bind
      (if num \<ge> base then printnum putch (num div base) base (width - 1) padc s
       else Some (pad putch padc (width - 1) s))
      (\<lambda>s. Some (putch (ucast (hex_digit (num mod base))) s))"

text \<open>The loop of \<^verbatim>\<open>%s\<close>; it leaves the width still to fill. A \<^verbatim>\<open>char\<close> is widened with its sign.\<close>

partial_function (option) put_string ::
    "'s putch \<Rightarrow> bmem \<Rightarrow> u32 \<Rightarrow> int \<Rightarrow> bool \<Rightarrow> int \<Rightarrow> 's \<Rightarrow> (int \<times> 's) option" where
  "put_string putch m p precision altflag width s =
    (if m p \<noteq> 0 \<and> (precision < 0 \<or> precision - 1 \<ge> 0)
     then put_string putch m (p + 1) (if precision < 0 then precision else precision - 1) altflag
       (width - 1)
       (if altflag \<and> (m p < 0x20 \<or> m p > 0x7E) then putch 0x3F s else putch (scast (m p)) s)
     else Some (width, s))"

section \<open>Escape sequences\<close>

definition fmt_at :: "u8 list \<Rightarrow> nat \<Rightarrow> u8" where
  "fmt_at fmt i = (if i < length fmt then fmt ! i else 0)"

definition is_digit :: "u8 \<Rightarrow> bool" where
  "is_digit ch \<longleftrightarrow> 0x30 \<le> ch \<and> ch \<le> 0x39"

text \<open>The width field: \<open>ch\<close> is the digit just read, \<open>i\<close> the position after it.\<close>

function read_digits :: "u8 list \<Rightarrow> nat \<Rightarrow> u8 \<Rightarrow> int \<Rightarrow> int \<times> nat" where
  "read_digits fmt i ch precision =
    (if is_digit (fmt_at fmt i)
     then read_digits fmt (i + 1) (fmt_at fmt i) (precision * 10 + uint ch - 0x30)
     else (precision * 10 + uint ch - 0x30, i))"
  by pat_completeness auto
termination
  by (relation "measure (\<lambda>(fmt, i, ch, precision). length fmt - i)")
    (auto simp: is_digit_def fmt_at_def split: if_splits)

declare read_digits.simps [simp del]

text \<open>Going back to just behind the percent sign.\<close>

fun back_to_percent :: "u8 list \<Rightarrow> nat \<Rightarrow> nat" where
  "back_to_percent fmt 0 = 0"
| "back_to_percent fmt (Suc i) = (if fmt_at fmt i = 0x25 then Suc i else back_to_percent fmt i)"

definition error_string :: "int \<Rightarrow> string option" where
  "error_string err =
    (if err = 1 then Some ''unspecified error''
     else if err = 2 then Some ''bad environment''
     else if err = 3 then Some ''invalid parameter''
     else if err = 4 then Some ''out of memory''
     else if err = 5 then Some ''out of environments''
     else if err = 6 then Some ''segmentation fault''
     else None)"

text \<open>
  A string literal of the program lies in a memory of its own, at address 0 there.
  \<^verbatim>\<open>put_literal\<close> is the nested call with the format \<^verbatim>\<open>"%s"\<close> and such a string.
\<close>

definition literal_mem :: "string \<Rightarrow> bmem" where
  "literal_mem t = (\<lambda>a. fmt_at (ascii t) (unat a))"

text \<open>
  One conversion. \<open>ch\<close> has been read, \<open>i\<close> is the position after it and \<open>k\<close> that of the next
  argument; the result has both positions and the state after it. \<open>nested\<close> is \<^verbatim>\<open>printfmt\<close> for
  the two inner calls, with the memory its strings are in.
\<close>

definition put_number ::
    "'s putch \<Rightarrow> u64 \<Rightarrow> u64 \<Rightarrow> int \<Rightarrow> u8 \<Rightarrow> nat \<Rightarrow> nat \<Rightarrow> 's \<Rightarrow> (nat \<times> nat \<times> 's) option" where
  "put_number putch num base width padc i k s =
    map_option (\<lambda>s. (i, k, s)) (printnum putch num base width (ucast padc) s)"

definition conv_string :: "'s putch \<Rightarrow> bmem \<Rightarrow> u32 \<Rightarrow> u8 \<Rightarrow> int \<Rightarrow> int \<Rightarrow> bool \<Rightarrow> 's \<Rightarrow> 's option" where
  "conv_string putch m p padc width precision altflag s =
    (let (m, p) = (if p = 0 then (literal_mem ''(null)'', 0) else (m, p));
         left = width > 0 \<and> padc \<noteq> 0x2D;
         width' = (if left then width - sint (strnlen m p (word_of_int precision)) else width);
         s = (if left then pad putch (ucast padc) width' s else s);
         width' = (if left then min width' 0 else width')
     in Option.bind (put_string putch m p precision altflag width' s) (\<lambda>(width', s).
          Some (pad putch 0x20 width' s)))"

definition conversion ::
    "(bmem \<Rightarrow> u8 list \<Rightarrow> va_list \<Rightarrow> 's \<Rightarrow> 's option) \<Rightarrow> 's putch \<Rightarrow> bmem \<Rightarrow> u8 list \<Rightarrow> va_list \<Rightarrow>
     u8 \<Rightarrow> nat \<Rightarrow> u8 \<Rightarrow> int \<Rightarrow> int \<Rightarrow> nat \<Rightarrow> bool \<Rightarrow> nat \<Rightarrow> 's \<Rightarrow> (nat \<times> nat \<times> 's) option" where
  "conversion nested putch m fmt ap ch i padc width precision lflag altflag k s =
    (if ch = 0x63 then
       (let (v, k) = va_arg32 ap k in Some (i, k, putch v s))
     else if ch = 0x65 then
       (let (v, k) = va_arg32 ap k; err = \<bar>sint v\<bar>
        in map_option (\<lambda>s. (i, k, s))
          (if err > 7 then nested m (ascii ''error %d'') (\<lambda>_. word_of_int err) s
           else (case error_string err of
               None \<Rightarrow> nested m (ascii ''error %d'') (\<lambda>_. word_of_int err) s
             | Some p \<Rightarrow> nested (\<lambda>a. literal_mem p (a - 1)) (ascii ''%s'') (\<lambda>_. 1) s)))
     else if ch = 0x73 then
       (let (p, k) = va_arg32 ap k
        in map_option (\<lambda>s. (i, k, s)) (conv_string putch m p padc width precision altflag s))
     else if ch = 0x64 then
       (let (num, k) = getint ap k lflag
        in if sint num < 0 then put_number putch (- num) 10 width padc i k (putch 0x2D s)
           else put_number putch num 10 width padc i k s)
     else if ch = 0x75 then
       (let (num, k) = getuint ap k lflag in put_number putch num 10 width padc i k s)
     else if ch = 0x6F then Some (i, k, putch 0x58 (putch 0x58 (putch 0x58 s)))
     else if ch = 0x70 then
       (let (num, k) = va_arg32 ap k
        in put_number putch (ucast num) 16 width padc i k (putch 0x78 (putch 0x30 s)))
     else if ch = 0x78 then
       (let (num, k) = getuint ap k lflag in put_number putch num 16 width padc i k s)
     else if ch = 0x25 then Some (i, k, putch (ucast ch) s)
     else Some (back_to_percent fmt (i - 1), k, putch 0x25 s))"

text \<open>The flags before the conversion; \<^verbatim>\<open>goto reswitch\<close> is the recursive call.\<close>

definition process_precision :: "int \<Rightarrow> int \<Rightarrow> int \<times> int" where
  "process_precision width precision = (if width < 0 then (precision, -1) else (width, precision))"

lemma read_digits_mono: "i \<le> snd (read_digits fmt i ch p)"
proof (induction fmt i ch p rule: read_digits.induct)
  case (1 fmt i ch p)
  then show ?case by (subst read_digits.simps) fastforce
qed

lemma read_digits_le: "i \<le> length fmt \<Longrightarrow> snd (read_digits fmt i ch p) \<le> length fmt"
proof (induction fmt i ch p rule: read_digits.induct)
  case (1 fmt i ch p)
  have "is_digit (fmt_at fmt i) \<Longrightarrow> i + 1 \<le> length fmt"
    by (auto simp: fmt_at_def is_digit_def split: if_splits)
  with 1 show ?case by (subst read_digits.simps) auto
qed

record flags =
  f_padc :: u8
  f_width :: int
  f_precision :: int
  f_lflag :: nat
  f_altflag :: bool

text \<open>The result is the conversion character, the position after it, the flags and the next argument.\<close>

function read_flags :: "u8 list \<Rightarrow> va_list \<Rightarrow> nat \<Rightarrow> flags \<Rightarrow> nat \<Rightarrow> u8 \<times> nat \<times> flags \<times> nat" where
  "read_flags fmt ap i f k =
    (let ch = fmt_at fmt i in
     if ch = 0x2D then read_flags fmt ap (i + 1) (f\<lparr>f_padc := 0x2D\<rparr>) k
     else if ch = 0x30 then read_flags fmt ap (i + 1) (f\<lparr>f_padc := 0x30\<rparr>) k
     else if is_digit ch then
       (let w = read_digits fmt (i + 1) ch 0;
            pp = process_precision (f_width f) (fst w)
        in read_flags fmt ap (snd w) (f\<lparr>f_width := fst pp, f_precision := snd pp\<rparr>) k)
     else if ch = 0x2A then
       (let pp = process_precision (f_width f) (sint (fst (va_arg32 ap k)))
        in read_flags fmt ap (i + 1) (f\<lparr>f_width := fst pp, f_precision := snd pp\<rparr>)
          (snd (va_arg32 ap k)))
     else if ch = 0x2E then
       read_flags fmt ap (i + 1) (f\<lparr>f_width := (if f_width f < 0 then 0 else f_width f)\<rparr>) k
     else if ch = 0x23 then read_flags fmt ap (i + 1) (f\<lparr>f_altflag := True\<rparr>) k
     else if ch = 0x6C then read_flags fmt ap (i + 1) (f\<lparr>f_lflag := f_lflag f + 1\<rparr>) k
     else (ch, i + 1, f, k))"
  by pat_completeness auto
termination
proof (relation "measure (\<lambda>(fmt, ap, i, f, k). length fmt - i)", goal_cases)
  case (4 fmt ap i f k ch w pp)
  then have "i < length fmt" by (auto simp: fmt_at_def is_digit_def split: if_splits)
  moreover have "i + 1 \<le> snd w" using 4 read_digits_mono by simp
  ultimately show ?case by simp
qed (auto simp: fmt_at_def split: if_splits)

declare read_flags.simps [simp del]

definition escape ::
    "(bmem \<Rightarrow> u8 list \<Rightarrow> va_list \<Rightarrow> 's \<Rightarrow> 's option) \<Rightarrow> 's putch \<Rightarrow> bmem \<Rightarrow> u8 list \<Rightarrow> va_list \<Rightarrow>
     nat \<Rightarrow> nat \<Rightarrow> 's \<Rightarrow> (nat \<times> nat \<times> 's) option" where
  "escape nested putch m fmt ap i k s =
    (let (ch, i, f, k) = read_flags fmt ap i
       \<lparr>f_padc = 0x20, f_width = -1, f_precision = -1, f_lflag = 0, f_altflag = False\<rparr> k
     in conversion nested putch m fmt ap ch i (f_padc f) (f_width f) (f_precision f) (f_lflag f)
          (f_altflag f) k s)"

lemma read_flags_mono: "read_flags fmt ap i f k = (ch, i', f', k') \<Longrightarrow> i < i'"
proof (induction "length fmt - i" arbitrary: i f k rule: less_induct)
  case less
  have step: "i < i'" if "read_flags fmt ap j f1 k1 = (ch, i', f', k')" "i < j" "fmt_at fmt i \<noteq> 0"
    for j f1 k1
  proof -
    have "i < length fmt" using that(3) by (simp add: fmt_at_def split: if_splits)
    then have "j < i'" using that(2) by (intro less.hyps [OF _ that(1)]) linarith
    then show ?thesis using that(2) by simp
  qed
  have mono: "i < snd (read_digits fmt (Suc i) (fmt_at fmt i) 0)"
    using read_digits_mono [of "i + 1" fmt "fmt_at fmt i" 0] by simp
  show ?case
    using less.prems by (subst (asm) read_flags.simps)
      (auto simp: Let_def is_digit_def split: if_splits intro: step mono)
qed

section \<open>The main loop\<close>

lemma back_to_percent_bounds:
  "i0 < i \<Longrightarrow> fmt_at fmt i0 = 0x25 \<Longrightarrow> i0 < back_to_percent fmt i \<and> back_to_percent fmt i \<le> i"
  by (induction i) (auto simp: less_Suc_eq)

lemma conversion_progress:
  assumes "conversion nested putch m fmt ap ch i padc width precision lflag altflag k s = Some (i', k', s')"
    "fmt_at fmt i0 = 0x25" "i0 + 1 < i"
  shows "i0 < i'"
  using assms back_to_percent_bounds [of i0 "i - 1" fmt] diff_le_self [of i 1]
  by (auto simp: conversion_def put_number_def Let_def va_arg32_def split: if_splits prod.splits)

lemma escape_progress:
  assumes "escape nested putch m fmt ap (i0 + 1) k s = Some (i', k', s')" "fmt_at fmt i0 = 0x25"
  shows "i0 < i'"
proof -
  obtain ch i f k1 where f: "read_flags fmt ap (i0 + 1)
      \<lparr>f_padc = 0x20, f_width = -1, f_precision = -1, f_lflag = 0, f_altflag = False\<rparr> k = (ch, i, f, k1)"
    by (rule prod_cases4)
  then show ?thesis
    using assms conversion_progress [where i = i] read_flags_mono [OF f] by (simp add: escape_def)
qed

text \<open>
  \<open>ch\<close> is read before the loop tests it; \<open>i\<close> and \<open>k\<close> are \<^verbatim>\<open>fmt\<close> and \<^verbatim>\<open>ap\<close>. The result \<open>None\<close> is an
  inner loop that does not end.
\<close>

function vprintfmt_loop ::
    "(bmem \<Rightarrow> u8 list \<Rightarrow> va_list \<Rightarrow> 's \<Rightarrow> 's option) \<Rightarrow> 's putch \<Rightarrow> bmem \<Rightarrow> u8 list \<Rightarrow> va_list \<Rightarrow>
     nat \<Rightarrow> nat \<Rightarrow> 's \<Rightarrow> 's option" where
  "vprintfmt_loop nested putch m fmt ap i k s =
    (if fmt_at fmt i = 0x25 then
       Option.bind (escape nested putch m fmt ap (i + 1) k s)
         (\<lambda>x. vprintfmt_loop nested putch m fmt ap (fst x) (fst (snd x)) (snd (snd x)))
     else if fmt_at fmt i = 0 then Some s
     else vprintfmt_loop nested putch m fmt ap (i + 1) k (putch (ucast (fmt_at fmt i)) s))"
  by pat_completeness auto
termination
proof (relation "measure (\<lambda>(nested, putch, m, fmt, ap, i, k, s). length fmt - i)", goal_cases)
  case (2 nested putch m fmt ap i k s x)
  then have "i < length fmt" by (auto simp: fmt_at_def split: if_splits)
  moreover have "i < fst x" using 2 by (cases x) (auto intro: escape_progress)
  ultimately show ?case by (cases x) simp
qed (auto simp: fmt_at_def split: if_splits)

declare vprintfmt_loop.simps [simp del]

text \<open>
  The formats of the inner calls hold no \<^verbatim>\<open>%e\<close>, so a call nests at most once.
\<close>

definition printfmt_nested :: "'s putch \<Rightarrow> bmem \<Rightarrow> u8 list \<Rightarrow> va_list \<Rightarrow> 's \<Rightarrow> 's option" where
  "printfmt_nested putch m fmt ap s = vprintfmt_loop (\<lambda>_ _ _ _. None) putch m fmt ap 0 0 s"

definition vprintfmt :: "'s putch \<Rightarrow> bmem \<Rightarrow> u8 list \<Rightarrow> va_list \<Rightarrow> 's \<Rightarrow> 's option" where
  "vprintfmt putch m fmt ap s = vprintfmt_loop (printfmt_nested putch) putch m fmt ap 0 0 s"

section \<open>The sinks\<close>

text \<open>
  \<^verbatim>\<open>lib/printf.c\<close>: the buffer and the strings given to \<^verbatim>\<open>sys_cputs\<close> so far. A write outside the
  256 bytes of \<^verbatim>\<open>buf\<close> is not made.
\<close>

record printbuf =
  idx :: nat
  cnt :: u32
  buf :: "u8 list"
  flushed :: "u8 list list"

definition user_putch :: "printbuf putch" where
  "user_putch ch b =
    (let b = b\<lparr>buf := (buf b)[idx b := ucast ch], idx := idx b + 1\<rparr>;
         b = (if idx b = 256 - 1
              then b\<lparr>flushed := flushed b @ [take (idx b) (buf b)], idx := 0\<rparr> else b)
     in b\<lparr>cnt := cnt b + 1\<rparr>)"

text \<open>The buffer on the stack starts with whatever bytes \<open>junk\<close> are there.\<close>

definition user_vcprintf :: "u8 list \<Rightarrow> bmem \<Rightarrow> u8 list \<Rightarrow> va_list \<Rightarrow> (u32 \<times> u8 list list) option" where
  "user_vcprintf junk m fmt ap =
    map_option (\<lambda>b. (cnt b, flushed b @ [take (idx b) (buf b)]))
      (vprintfmt user_putch m fmt ap \<lparr>idx = 0, cnt = 0, buf = junk, flushed = []\<rparr>)"

text \<open>
  \<^verbatim>\<open>kern/printf.c\<close>: \<^verbatim>\<open>*cnt++\<close> increments the pointer \<^verbatim>\<open>cnt\<close>, a parameter, and not the counter. The
  console is a parameter with its \<^verbatim>\<open>cputchar\<close>.
\<close>

definition kern_putch :: "('c putch) \<Rightarrow> ('c \<times> u32) putch" where
  "kern_putch cputchar ch = (\<lambda>(c, cnt). (cputchar ch c, cnt))"

definition kern_vcprintf ::
    "('c putch) \<Rightarrow> bmem \<Rightarrow> u8 list \<Rightarrow> va_list \<Rightarrow> 'c \<Rightarrow> (u32 \<times> 'c) option" where
  "kern_vcprintf cputchar m fmt ap c =
    map_option (\<lambda>(c, cnt). (cnt, c)) (vprintfmt (kern_putch cputchar) m fmt ap (c, 0))"

text \<open>\<^verbatim>\<open>vsnprintf\<close>. The strings it prints lie apart from the buffer it fills.\<close>

record sprintbuf =
  b_buf :: u32
  b_ebuf :: u32
  b_cnt :: u32
  b_mem :: bmem

definition sprintputch :: "sprintbuf putch" where
  "sprintputch ch b =
    (let b = b\<lparr>b_cnt := b_cnt b + 1\<rparr>
     in if b_buf b < b_ebuf b then b\<lparr>b_mem := (b_mem b)(b_buf b := ucast ch), b_buf := b_buf b + 1\<rparr>
        else b)"

definition vsnprintf :: "bmem \<Rightarrow> u32 \<Rightarrow> int \<Rightarrow> u8 list \<Rightarrow> va_list \<Rightarrow> (int \<times> bmem) option" where
  "vsnprintf m p n fmt ap =
    (let b = \<lparr>b_buf = p, b_ebuf = p + word_of_int n - 1, b_cnt = 0, b_mem = m\<rparr>
     in if p = 0 \<or> n < 1 then Some (- (- 3), m)
        else map_option (\<lambda>b. (sint (b_cnt b), (b_mem b)(b_buf b := 0)))
          (vprintfmt sprintputch m fmt ap b))"

definition snprintf :: "bmem \<Rightarrow> u32 \<Rightarrow> int \<Rightarrow> u8 list \<Rightarrow> va_list \<Rightarrow> (int \<times> bmem) option" where
  "snprintf m p n fmt ap = vsnprintf m p n fmt ap"

section \<open>What is printed does not depend on the sink\<close>

text \<open>The sink that collects the characters.\<close>

definition emit :: "u32 list putch" where
  "emit c cs = cs @ [c]"

lemma pad_emit: "pad putch c w s = fold putch (replicate (nat w) c) s"
proof (induction putch c w s rule: pad.induct)
  case (1 putch c w s)
  show ?case
  proof (cases "0 < w")
    case True
    then have "nat w = Suc (nat (w - 1))" by simp
    then show ?thesis using True 1 by (subst pad.simps) simp
  next
    case False
    then show ?thesis by (subst pad.simps) simp
  qed
qed

lemma fold_emit [simp]: "fold emit cs ds = ds @ cs"
  by (induction cs arbitrary: ds) (simp_all add: emit_def)

fun digits_of :: "nat \<Rightarrow> nat \<Rightarrow> nat list" where
  "digits_of base n = (if base \<le> n \<and> 2 \<le> base then digits_of base (n div base) @ [n mod base] else [n mod base])"

declare digits_of.simps [simp del]

lemma fold_emit_Nil: "fold emit cs [] = cs"
  by simp

lemma digits_of_less: "n < base \<Longrightarrow> digits_of base n = [n]"
  by (subst digits_of.simps) simp

lemma digits_of_step: "base \<le> n \<Longrightarrow> 2 \<le> base \<Longrightarrow> digits_of base n = digits_of base (n div base) @ [n mod base]"
  by (subst digits_of.simps) simp

text \<open>The text of a number: its digits, filled up to the width with the padding character.\<close>

definition number_text :: "u64 \<Rightarrow> u64 \<Rightarrow> int \<Rightarrow> u32 \<Rightarrow> u32 list" where
  "number_text num base width padc =
    replicate (nat (width - int (length (digits_of (unat base) (unat num))))) padc @
    map (\<lambda>d. ucast (hex_digit (of_nat d))) (digits_of (unat base) (unat num))"

lemma printnum_text:
  "2 \<le> unat base \<Longrightarrow> printnum putch num base width padc s =
    Some (fold putch (number_text num base width padc) s)"
proof (induction "unat num" arbitrary: num width s rule: less_induct)
  case less
  have digit: "num mod base = of_nat (unat num mod unat base)"
    by (simp flip: unat_mod)
  show ?case
  proof (cases "base \<le> num")
    case False
    then have "unat num < unat base" by (simp add: not_le word_less_nat_alt)
    then show ?thesis using False less.prems
      by (subst printnum.simps) (simp add: pad_emit number_text_def digits_of_less digit)
  next
    case True
    then have le: "unat base \<le> unat num" by (simp add: word_le_nat_alt)
    have div: "unat (num div base) = unat num div unat base" by (rule unat_div)
    have "unat (num div base) < unat num" unfolding div using le less.prems by (intro div_less_dividend) auto
    from less.hyps [OF this less.prems] show ?thesis
      using True digits_of_step [OF le less.prems]
      by (subst printnum.simps) (simp add: number_text_def div digit algebra_simps)
  qed
qed

lemma put_string_uniform:
  "put_string putch m p precision altflag w s = Some y \<Longrightarrow>
    \<exists>cs w'. y = (w', fold putch cs s) \<and>
      (\<forall>putch' s'. put_string (putch' :: 't putch) m p precision altflag w s' = Some (w', fold putch' cs s'))"
proof (induction rule: put_string.raw_induct [rotated, consumes 1])
  case (1 rec putch m p precision altflag w s y)
  show ?case
  proof (cases "m p \<noteq> 0 \<and> (precision < 0 \<or> precision - 1 \<ge> 0)")
    case False
    then have "y = (w, s)" using 1(2) by auto
    moreover have "put_string putch' m p precision altflag w s' = Some (w, s')" for putch' :: "'t putch" and s'
      by (subst put_string.simps) (rule if_not_P [OF False])
    ultimately show ?thesis by (intro exI [of _ "[]"] exI [of _ w]) simp
  next
    case True
    define c where "c = (if altflag \<and> (m p < 0x20 \<or> m p > 0x7E) then 0x3F else scast (m p) :: u32)"
    have "rec putch m (p + 1) (if precision < 0 then precision else precision - 1) altflag (w - 1)
        (putch c s) = Some y"
      using 1(2) True by (simp add: c_def if_distrib [of "\<lambda>x. putch x s"] cong: if_cong)
    from 1(1) [OF this] obtain cs w' where cs: "y = (w', fold putch cs (putch c s))"
      "\<And>(putch' :: 't putch) s'. put_string putch' m (p + 1) (if precision < 0 then precision else precision - 1)
         altflag (w - 1) s' = Some (w', fold putch' cs s')" by blast
    have "put_string putch' m p precision altflag w s' = Some (w', fold putch' (c # cs) s')"
      for putch' :: "'t putch" and s'
      using cs(2) [of putch' "putch' c s'"]
      by (subst put_string.simps) (subst if_P [OF True], simp add: c_def if_distrib [of "\<lambda>x. putch' x s'"] cong: if_cong)
    then show ?thesis using cs(1) by (intro exI [of _ "c # cs"] exI [of _ w']) simp
  qed
qed

lemma put_string_sink:
  "put_string (putch :: 'b putch)  m p precision altflag w s =
    map_option (\<lambda>(w, cs). (w, fold putch cs s)) (put_string emit m p precision altflag w [])"
proof (cases "put_string emit m p precision altflag w []")
  case None
  then have "put_string putch m p precision altflag w s = None"
    using put_string_uniform [of putch m p precision altflag w s, where 't = "u32 list"]
    by (cases "put_string putch m p precision altflag w s") fastforce+
  with None show ?thesis by simp
next
  case (Some y)
  obtain cs w' where "y = (w', fold emit cs [])"
    "put_string putch m p precision altflag w s = Some (w', fold putch cs s)"
    using put_string_uniform [OF Some, where 't = 'b] by blast
  with Some show ?thesis by simp
qed

definition string_tail :: "bmem \<Rightarrow> u32 \<Rightarrow> int \<Rightarrow> bool \<Rightarrow> int \<Rightarrow> u32 list option" where
  "string_tail m p precision altflag w =
    map_option (\<lambda>(w, ds). ds @ replicate (nat w) 0x20) (put_string emit m p precision altflag w [])"

lemma string_tail_sink:
  "Option.bind (put_string putch m p precision altflag w s) (\<lambda>(w, s). Some (pad putch 0x20 w s)) =
    map_option (\<lambda>ds. fold putch ds s) (string_tail m p precision altflag w)"
  unfolding put_string_sink [of putch m p precision altflag w s] string_tail_def
  by (cases "put_string emit m p precision altflag w []") (auto simp: pad_emit)

lemma conv_string_sink:
  "conv_string putch m p padc width precision altflag s =
    map_option (\<lambda>cs. fold putch cs s) (conv_string emit m p padc width precision altflag [])"
proof -
  define mp where "mp = (if p = 0 then (literal_mem ''(null)'', 0) else (m, p))"
  define w where "w = (if width > 0 \<and> padc \<noteq> 0x2D
    then width - sint (strnlen (fst mp) (snd mp) (word_of_int precision)) else width)"
  define cs where "cs = (if width > 0 \<and> padc \<noteq> 0x2D then replicate (nat w) (ucast padc :: u32) else [])"
  define v where "v = (if width > 0 \<and> padc \<noteq> 0x2D then min w 0 else w)"
  have eq: "conv_string putch m p padc width precision altflag s =
      Option.bind (put_string putch (fst mp) (snd mp) precision altflag v (fold putch cs s))
        (\<lambda>(w, s). Some (pad putch 0x20 w s))" for putch :: "'c putch" and s
    unfolding conv_string_def Let_def mp_def [symmetric] v_def cs_def w_def
    by (cases "width > 0 \<and> padc \<noteq> 0x2D") (auto simp: pad_emit case_prod_unfold)
  show ?thesis
    unfolding eq string_tail_sink
    by (cases "string_tail (fst mp) (snd mp) precision altflag v") simp_all
qed

text \<open>
  \<open>agrees putch r e\<close>: the run \<open>r\<close> of a routine with the sink \<open>putch\<close> from any state does what the
  run \<open>e\<close> with the collecting sink from the empty list says.
\<close>

definition agrees3 :: "'s putch \<Rightarrow> ('s \<Rightarrow> (nat \<times> nat \<times> 's) option) \<Rightarrow> (nat \<times> nat \<times> u32 list) option \<Rightarrow> bool" where
  "agrees3 putch r e \<longleftrightarrow> (\<forall>s. r s = map_option (\<lambda>(i, k, cs). (i, k, fold putch cs s)) e)"

definition agrees :: "'s putch \<Rightarrow> ('s \<Rightarrow> 's option) \<Rightarrow> u32 list option \<Rightarrow> bool" where
  "agrees putch r e \<longleftrightarrow> (\<forall>s. r s = map_option (\<lambda>cs. fold putch cs s) e)"

definition same_nested ::
    "'s putch \<Rightarrow> (bmem \<Rightarrow> u8 list \<Rightarrow> va_list \<Rightarrow> 's \<Rightarrow> 's option) \<Rightarrow>
     (bmem \<Rightarrow> u8 list \<Rightarrow> va_list \<Rightarrow> u32 list \<Rightarrow> u32 list option) \<Rightarrow> bool" where
  "same_nested putch nested nested_e \<longleftrightarrow>
    (\<forall>m fmt ap. agrees putch (nested m fmt ap) (nested_e m fmt ap []))"

lemma put_number_sink:
  assumes "base = 10 \<or> base = 16"
  shows "put_number putch num base width padc i k s =
    Some (i, k, fold putch (number_text num base width (ucast padc)) s)"
proof -
  have "2 \<le> unat base" using assms by auto
  then show ?thesis by (simp add: put_number_def printnum_text)
qed

lemma conversion_sink:
  assumes "same_nested putch nested nested_e"
  shows "agrees3 putch
    (conversion nested putch m fmt ap ch i padc width precision lflag altflag k)
    (conversion nested_e emit m fmt ap ch i padc width precision lflag altflag k [])"
  unfolding agrees3_def
proof
  fix s
  have n: "nested m' fmt' ap' s' = map_option (\<lambda>cs. fold putch cs s') (nested_e m' fmt' ap' [])" for m' fmt' ap' s'
    using assms by (simp add: same_nested_def agrees_def)
  note simps = conversion_def n put_number_sink conv_string_sink [of putch] Let_def va_arg32_def
    case_prod_unfold option.map_comp comp_def emit_def
  consider "ch = 0x65" | "ch \<noteq> 0x65" "ch = 0x73" | "ch \<noteq> 0x65" "ch \<noteq> 0x73" by blast
  then show "conversion nested putch m fmt ap ch i padc width precision lflag altflag k s =
    map_option (\<lambda>(i, k, cs). (i, k, fold putch cs s))
      (conversion nested_e emit m fmt ap ch i padc width precision lflag altflag k [])"
  proof cases
    case 1
    then show ?thesis
      by (cases "error_string \<bar>sint (ap k)\<bar>") (simp_all add: simps)
  next
    case 2
    then show ?thesis by (simp add: simps)
  next
    case 3
    then show ?thesis by (simp add: simps)
  qed
qed

lemma escape_sink:
  assumes "same_nested putch nested nested_e"
  shows "agrees3 putch (escape nested putch m fmt ap i k) (escape nested_e emit m fmt ap i k [])"
proof -
  obtain ch i' f k' where f: "read_flags fmt ap i
      \<lparr>f_padc = 0x20, f_width = -1, f_precision = -1, f_lflag = 0, f_altflag = False\<rparr> k = (ch, i', f, k')"
    by (rule prod_cases4)
  show ?thesis
    using conversion_sink [OF assms, of m fmt ap ch i' "f_padc f" "f_width f" "f_precision f"
        "f_lflag f" "f_altflag f" k']
    by (simp add: escape_def f agrees3_def)
qed

text \<open>The collecting sink started from \<open>cs\<close> adds its text behind \<open>cs\<close>.\<close>

lemma vprintfmt_loop_sink:
  assumes n: "same_nested putch nested nested_e" and e: "same_nested emit nested_e nested_e"
  shows "vprintfmt_loop nested putch m fmt ap i k (fold putch cs s) =
    map_option (\<lambda>cs. fold putch cs s) (vprintfmt_loop nested_e emit m fmt ap i k cs)"
proof (induction "length fmt - i" arbitrary: i k cs rule: less_induct)
  case less
  show ?case
  proof (cases "fmt_at fmt i = 0x25")
    case True
    then have i: "i < length fmt" by (auto simp: fmt_at_def split: if_splits)
    define e0 where "e0 = escape nested_e emit m fmt ap (i + 1) k []"
    have p: "escape nested putch m fmt ap (i + 1) k (fold putch cs s) =
        map_option (\<lambda>(i, k, ds). (i, k, fold putch (cs @ ds) s)) e0"
      using escape_sink [OF n, of m fmt ap "i + 1" k] unfolding agrees3_def e0_def fold_append comp_apply by (rule spec)
    have q: "escape nested_e emit m fmt ap (i + 1) k cs = map_option (\<lambda>(i, k, ds). (i, k, cs @ ds)) e0"
      using escape_sink [OF e, of m fmt ap "i + 1" k] unfolding agrees3_def e0_def fold_emit by (rule spec)
    have loop: "vprintfmt_loop nst pt m fmt ap i k s =
        Option.bind (escape nst pt m fmt ap (i + 1) k s)
          (\<lambda>x. vprintfmt_loop nst pt m fmt ap (fst x) (fst (snd x)) (snd (snd x)))"
      for nst :: "bmem \<Rightarrow> u8 list \<Rightarrow> va_list \<Rightarrow> 'c \<Rightarrow> 'c option" and pt and s
      using True by (subst vprintfmt_loop.simps) simp
    show ?thesis
    proof (cases e0)
      case None
      then show ?thesis unfolding loop p q by simp
    next
      case (Some x)
      obtain i' k' ds where x: "x = (i', k', ds)" by (cases x)
      have "i < i'" using escape_progress [of nested_e emit m fmt ap i k "[]" i' k' ds] Some x True by (simp add: e0_def)
      then have "vprintfmt_loop nested putch m fmt ap i' k' (fold putch (cs @ ds) s) =
          map_option (\<lambda>cs. fold putch cs s) (vprintfmt_loop nested_e emit m fmt ap i' k' (cs @ ds))"
        using i by (intro less.hyps) linarith
      then show ?thesis
        unfolding loop p q Some x by simp
    qed
  next
    case ne: False
    show ?thesis
    proof (cases "fmt_at fmt i = 0")
      case True
      then show ?thesis
        by (subst vprintfmt_loop.simps, subst (2) vprintfmt_loop.simps) simp
    next
      case False
      then have i: "i < length fmt" by (simp add: fmt_at_def split: if_splits)
      have "vprintfmt_loop nested putch m fmt ap (i + 1) k (fold putch (cs @ [ucast (fmt_at fmt i)]) s) =
          map_option (\<lambda>cs. fold putch cs s)
            (vprintfmt_loop nested_e emit m fmt ap (i + 1) k (cs @ [ucast (fmt_at fmt i)]))"
        using i by (intro less.hyps) linarith
      then show ?thesis
        using ne False
        by (subst vprintfmt_loop.simps, subst (2) vprintfmt_loop.simps) (simp add: emit_def)
    qed
  qed
qed

text \<open>The text a call prints.\<close>

definition rendered :: "bmem \<Rightarrow> u8 list \<Rightarrow> va_list \<Rightarrow> u32 list option" where
  "rendered m fmt ap = vprintfmt emit m fmt ap []"

lemma printfmt_nested_sink: "same_nested putch (printfmt_nested putch) (printfmt_nested emit)"
proof -
  have "same_nested putch (\<lambda>_ _ _ _. None) (\<lambda>_ _ _ _. None)"
    "same_nested emit (\<lambda>_ _ _ _. None) (\<lambda>_ _ _ _. None)"
    by (simp_all add: same_nested_def agrees_def)
  from vprintfmt_loop_sink [OF this, where cs = "[]"] show ?thesis
    unfolding same_nested_def agrees_def printfmt_nested_def by simp
qed

lemma vprintfmt_sink: "vprintfmt putch m fmt ap s = map_option (\<lambda>cs. fold putch cs s) (rendered m fmt ap)"
  unfolding vprintfmt_def rendered_def
  using vprintfmt_loop_sink [OF printfmt_nested_sink printfmt_nested_sink, where cs = "[]"] by simp

section \<open>The interface of a character sink\<close>

text \<open>
  What a sink promises to the formatter's caller: \<open>out\<close> is the text the sink has taken,
  \<open>ok\<close> its invariant.
\<close>

locale char_sink =
  fixes put :: "'s putch" and out :: "'s \<Rightarrow> 'c list" and ok :: "'s \<Rightarrow> bool" and code :: "u32 \<Rightarrow> 'c"
  assumes put_ok: "ok s \<Longrightarrow> ok (put c s)"
    and put_out: "ok s \<Longrightarrow> out (put c s) = out s @ [code c]"
begin

lemma fold_out: "ok s \<Longrightarrow> ok (fold put cs s) \<and> out (fold put cs s) = out s @ map code cs"
proof (induction cs arbitrary: s)
  case (Cons c cs)
  then show ?case using Cons.IH [OF put_ok [OF Cons.prems, of c]] by (simp add: put_out)
qed simp

lemma printed:
  assumes "ok s" "vprintfmt put m fmt ap s = Some s'"
  obtains cs where "rendered m fmt ap = Some cs" "ok s'" "out s' = out s @ map code cs"
  using assms fold_out [OF assms(1)] unfolding vprintfmt_sink by auto

end

text \<open>The user sink: what was flushed, and then the part of the buffer in use.\<close>

definition printbuf_text :: "printbuf \<Rightarrow> u8 list" where
  "printbuf_text b = concat (flushed b) @ take (idx b) (buf b)"

definition printbuf_ok :: "printbuf \<Rightarrow> bool" where
  "printbuf_ok b \<longleftrightarrow> idx b < 255 \<and> length (buf b) = 256 \<and>
     cnt b = of_nat (length (printbuf_text b))"

lemma user_putch_step:
  assumes "printbuf_ok b"
  shows "printbuf_ok (user_putch c b)" "printbuf_text (user_putch c b) = printbuf_text b @ [ucast c]"
proof -
  have len: "idx b < 255" "length (buf b) = 256" "cnt b = of_nat (length (printbuf_text b))"
    using assms by (simp_all add: printbuf_ok_def)
  have tk: "take (idx b + 1) ((buf b)[idx b := ucast c]) = take (idx b) (buf b) @ [ucast c :: u8]"
    using len by (simp add: take_Suc_conv_app_nth)
  show text_eq: "printbuf_text (user_putch c b) = printbuf_text b @ [ucast c]"
  proof (cases "idx b + 1 = 255")
    case True
    then show ?thesis using tk by (simp add: user_putch_def Let_def printbuf_text_def)
  next
    case False
    then show ?thesis using tk by (simp add: user_putch_def Let_def printbuf_text_def)
  qed
  have "cnt (user_putch c b) = cnt b + 1" "length (buf (user_putch c b)) = 256"
    "idx (user_putch c b) < 255"
    using len by (auto simp: user_putch_def Let_def)
  then show "printbuf_ok (user_putch c b)" using len(3) by (simp add: printbuf_ok_def text_eq)
qed

interpretation user_sink: char_sink user_putch printbuf_text printbuf_ok ucast
  by unfold_locales (simp_all add: user_putch_step)

interpretation collect: char_sink emit "\<lambda>cs. cs" "\<lambda>_. True" "\<lambda>c. c"
  by unfold_locales (simp_all add: emit_def)

section \<open>Termination\<close>

text \<open>Somewhere in memory there is a zero byte, so every string ends.\<close>

definition has_nul :: "bmem \<Rightarrow> bool" where
  "has_nul m \<longleftrightarrow> (\<exists>a. m a = 0)"

lemma terminated:
  assumes "m a = 0"
  shows "\<exists>xs. str_at m p xs"
proof (induction "unat (a - p)" arbitrary: p rule: less_induct)
  case less
  show ?case
  proof (cases "m p = 0")
    case True
    then show ?thesis by (intro exI [of _ "[]"]) simp
  next
    case False
    with assms have "a - p \<noteq> 0" by auto
    then have "unat (a - p - 1) < unat (a - p)" by (rule measure_unat)
    then obtain xs where "str_at m (p + 1) xs"
      using less [of "p + 1"] by (auto simp: diff_diff_eq)
    then show ?thesis using False by (intro exI [of _ "m p # xs"]) simp
  qed
qed

lemma put_string_returns: "str_at m p xs \<Longrightarrow> \<exists>y. put_string putch m p precision altflag w s = Some y"
proof (induction xs arbitrary: p precision w s)
  case Nil
  then show ?case by (subst put_string.simps) simp
next
  case (Cons x xs)
  then show ?case by (subst put_string.simps) auto
qed

lemma has_nul_literal: "length t < 2 ^ 32 \<Longrightarrow> has_nul (\<lambda>a. literal_mem t (a + c))"
  unfolding has_nul_def
  by (rule exI [of _ "of_nat (length t) - c"]) (simp add: literal_mem_def fmt_at_def ascii_def unat_of_nat)

lemma put_string_total:
  "has_nul m \<Longrightarrow> \<exists>f. \<forall>w s. put_string putch m p precision altflag w s = Some (f w s)"
proof -
  assume "has_nul m"
  then obtain xs where "str_at m p xs" using terminated unfolding has_nul_def by blast
  then have "put_string putch m p precision altflag w s =
      Some (the (put_string putch m p precision altflag w s))" for w s
    using put_string_returns [of m p xs putch precision altflag w s] by auto
  then show ?thesis by (intro exI [of _ "\<lambda>w s. the (put_string putch m p precision altflag w s)"]) simp
qed

lemma conv_string_returns:
  assumes "has_nul m"
  shows "\<exists>s'. conv_string putch m p padc width precision altflag s = Some s'"
proof (cases "p = 0")
  case True
  have "has_nul (\<lambda>a. literal_mem ''(null)'' (a + 0))" by (rule has_nul_literal) simp
  then have "has_nul (literal_mem ''(null)'')" by simp
  from put_string_total [OF this, of putch 0 precision altflag] obtain f where
    "\<forall>w s. put_string putch (literal_mem ''(null)'') 0 precision altflag w s = Some (f w s)" by blast
  with True show ?thesis by (simp add: conv_string_def Let_def case_prod_unfold)
next
  case False
  from put_string_total [OF assms, of putch p precision altflag] obtain f where
    "\<forall>w s. put_string putch m p precision altflag w s = Some (f w s)" by blast
  with False show ?thesis by (simp add: conv_string_def Let_def case_prod_unfold)
qed

lemma fmt_at_Cons: "fmt_at (c # fmt) i = (if i = 0 then c else fmt_at fmt (i - 1))"
  by (auto simp: fmt_at_def nth_Cons')

lemma fmt_at_Nil [simp]: "fmt_at [] i = 0"
  by (simp add: fmt_at_def)

lemma nested_returns:
  "\<exists>s'. printfmt_nested putch m (ascii ''error %d'') ap s = Some s'"
  "has_nul m \<Longrightarrow> \<exists>s'. printfmt_nested putch m (ascii ''%s'') ap s = Some s'"
proof -
  note step = vprintfmt_loop.simps read_flags.simps
  have d: "ascii ''error %d'' = [0x65, 0x72, 0x72, 0x6F, 0x72, 0x20, 0x25, 0x64]"
    and s: "ascii ''%s'' = [0x25, 0x73]"
    by (simp_all add: ascii_def)
  show "\<exists>s'. printfmt_nested putch m (ascii ''error %d'') ap s = Some s'"
    by (simp add: printfmt_nested_def d step fmt_at_Cons escape_def conversion_def is_digit_def
        getint_def va_arg32_def put_number_sink Let_def)
  show "\<exists>s'. printfmt_nested putch m (ascii ''%s'') ap s = Some s'" if "has_nul m"
    using conv_string_returns [where m = m and putch = putch and p = "ap 0" and padc = "0x20" and
        width = "-1" and precision = "-1" and altflag = False and s = s, OF that]
    by (auto simp: printfmt_nested_def s step fmt_at_Cons escape_def conversion_def is_digit_def
        va_arg32_def Let_def)
qed

lemma conversion_returns:
  assumes "has_nul m"
  shows "\<exists>x. conversion (printfmt_nested putch) putch m fmt ap ch i padc width precision lflag altflag k s = Some x"
proof -
  have err: "\<exists>s'. printfmt_nested putch (\<lambda>a. literal_mem t (a - 1)) (ascii ''%s'') ap' s = Some s'"
    if "error_string e = Some t" for t e ap' s
  proof -
    have "length t < 2 ^ 32" using that by (auto simp: error_string_def split: if_splits)
    then have "has_nul (\<lambda>a. literal_mem t (a - 1))" using has_nul_literal [of t "-1"] by simp
    then show ?thesis by (rule nested_returns(2))
  qed
  consider "ch = 0x65" | "ch \<noteq> 0x65" "ch = 0x73" | "ch \<noteq> 0x65" "ch \<noteq> 0x73" by blast
  then show ?thesis
  proof cases
    case 1
    obtain s1 where "printfmt_nested putch m (ascii ''error %d'') (\<lambda>_. word_of_int \<bar>sint (ap k)\<bar>) s = Some s1"
      by (rule exE [OF nested_returns(1)])
    with 1 show ?thesis
      using err by (cases "error_string \<bar>sint (ap k)\<bar>") (simp_all add: conversion_def va_arg32_def Let_def)
  next
    case 2
    then show ?thesis
      using conv_string_returns [OF assms] by (simp add: conversion_def va_arg32_def Let_def)
  next
    case 3
    then show ?thesis
      by (simp add: conversion_def va_arg32_def Let_def put_number_sink case_prod_unfold)
  qed
qed

lemma vprintfmt_returns:
  assumes "has_nul m"
  shows "\<exists>s'. vprintfmt_loop (printfmt_nested putch) putch m fmt ap i k s = Some s'"
proof (induction "length fmt - i" arbitrary: i k s rule: less_induct)
  case less
  have later: "\<exists>s'. vprintfmt_loop (printfmt_nested putch) putch m fmt ap j k s = Some s'"
    if "i < j" "fmt_at fmt i \<noteq> 0" for j k s
  proof -
    have "i < length fmt" using that(2) by (simp add: fmt_at_def split: if_splits)
    then show ?thesis using that(1) by (intro less) linarith
  qed
  show ?case
  proof (cases "fmt_at fmt i = 0x25")
    case True
    obtain i' k' s' where x: "escape (printfmt_nested putch) putch m fmt ap (i + 1) k s = Some (i', k', s')"
      using conversion_returns [OF assms] unfolding escape_def
      by (metis (no_types, lifting) case_prod_unfold prod_cases3)
    then have "i < i'" using True by (rule escape_progress)
    then show ?thesis using later [of i' k' s'] True x by (subst vprintfmt_loop.simps) simp
  next
    case False
    then show ?thesis
      using later [of "i + 1" k] by (subst vprintfmt_loop.simps) auto
  qed
qed

section \<open>Printed numbers read back\<close>

lemma digits_of_nonempty: "digits_of base n \<noteq> []"
  by (subst digits_of.simps) simp

lemma digits_of_bound: "2 \<le> base \<Longrightarrow> d \<in> set (digits_of base n) \<Longrightarrow> d < base"
proof (induction base n rule: digits_of.induct)
  case (1 base n)
  then show ?case by (subst (asm) digits_of.simps) (auto split: if_splits)
qed

lemma digits_of_value: "2 \<le> base \<Longrightarrow> foldl (\<lambda>v d. v * base + d) 0 (digits_of base n) = n"
proof (induction base n rule: digits_of.induct)
  case (1 base n)
  then show ?case by (subst digits_of.simps) (auto simp: not_le)
qed

lemma digit_value_of: "2 \<le> base \<Longrightarrow> digit_value (int base) (map int (digits_of base n)) = int n"
proof -
  have "foldl (\<lambda>v d. v * int base + d) (int a) (map int ds) = int (foldl (\<lambda>v d. v * base + d) a ds)" for a ds
    by (induction ds arbitrary: a) (simp_all flip: of_nat_mult of_nat_add)
  from this [of 0 "digits_of base n"] show "2 \<le> base \<Longrightarrow> ?thesis"
    by (simp add: digit_value_def digits_of_value)
qed

lemma hex_digit_cases:
  assumes "d < 16"
  shows "strtol_digit (hex_digit (of_nat d)) = Some (int d)"
    "hex_digit (of_nat d) \<notin> {0x20, 0x09, 0x2B, 0x2D, 0x78, 0}"
proof -
  have "d = 0 \<or> d = 1 \<or> d = 2 \<or> d = 3 \<or> d = 4 \<or> d = 5 \<or> d = 6 \<or> d = 7 \<or>
      d = 8 \<or> d = 9 \<or> d = 10 \<or> d = 11 \<or> d = 12 \<or> d = 13 \<or> d = 14 \<or> d = 15"
    using assms by arith
  then show "strtol_digit (hex_digit (of_nat d)) = Some (int d)"
    "hex_digit (of_nat d) \<notin> {0x20, 0x09, 0x2B, 0x2D, 0x78, 0}"
    by (elim disjE; simp add: hex_digit_def strtol_digit_def)+
qed

definition digit_bytes :: "nat list \<Rightarrow> u8 list" where
  "digit_bytes ds = map (\<lambda>d. hex_digit (of_nat d)) ds"

lemma digits_at_bytes:
  "str_at m p (digit_bytes ds) \<Longrightarrow> \<forall>d \<in> set ds. d < base \<Longrightarrow> base \<le> 16 \<Longrightarrow>
    digits_at m p (int base) (map int ds)"
proof (induction ds arbitrary: p)
  case Nil
  then show ?case by (simp add: digit_bytes_def strtol_digit_def)
next
  case (Cons d ds)
  then show ?case using hex_digit_cases(1) [of d] by (simp add: digit_bytes_def)
qed

lemma ucast_ucast_u8: "ucast (ucast (x :: u8) :: u32) = x"
  by (rule bit_word_eqI) (simp add: bit_simps)

lemma str_at_replicate: "str_at m p (replicate k c @ ys) \<Longrightarrow> i < k \<Longrightarrow> m (p + of_nat i) = c"
proof (induction k arbitrary: p i)
  case (Suc k)
  show ?case
  proof (cases i)
    case 0
    then show ?thesis using Suc.prems by simp
  next
    case (Suc j)
    with Suc.prems have "m (p + 1 + of_nat j) = c" by (intro Suc.IH) simp_all
    then show ?thesis using Suc by (simp add: add.assoc)
  qed
qed simp

lemma strtol_printed:
  assumes "str_at m p (replicate k 0x20 @ digit_bytes ds)" "ds \<noteq> []" "\<forall>d \<in> set ds. d < base"
    "base = 10 \<or> base = 16"
  shows "strtol m p (int base) =
    Some (word_of_int (digit_value (int base) (map int ds)), p + of_nat (k + length ds))"
proof -
  have blank: "m (p + of_nat i) = 0x20" if "i < k" for i
    by (rule str_at_replicate [OF assms(1) that])
  define q where "q = p + of_nat k"
  have at: "str_at m q (digit_bytes ds)"
    using str_at_append [OF assms(1)] by (simp add: q_def)
  obtain d ds' where ds: "ds = d # ds'" using assms(2) by (cases ds) auto
  have d: "d < 16" "\<forall>x \<in> set ds. x < 16" using ds assms(3,4) by auto
  have mq: "m q = hex_digit (of_nat d)" using at ds by (simp add: digit_bytes_def)
  have second: "m (q + 1) \<noteq> 0x78"
    using at ds d(2) hex_digit_cases(2) by (cases ds') (auto simp: digit_bytes_def)
  have "strtol_blanks m p = Some q"
    unfolding q_def
  proof (rule strtol_blanks_at)
    show "m (p + of_nat i) = 0x20 \<or> m (p + of_nat i) = 0x09" if "i < k" for i
      using blank [OF that] by simp
    show "m (p + of_nat k) \<noteq> 0x20" "m (p + of_nat k) \<noteq> 0x09"
      using hex_digit_cases(2) [OF d(1)] mq by (auto simp: q_def)
  qed
  moreover have "strtol_sign m q = (False, q)" "strtol_prefix m q (int base) = (int base, q)"
    using hex_digit_cases(2) [OF d(1)] mq second assms(4) by (auto simp: strtol_sign_def strtol_prefix_def)
  moreover have "strtol_digits m q (int base) 0 =
      Some (word_of_int (digit_value (int base) (map int ds)), q + of_nat (length ds))"
    using strtol_digits_at [OF digits_at_bytes [OF at assms(3)], of 0] assms(4)
    by (auto simp: digit_value_def)
  ultimately show ?thesis by (simp add: strtol_def q_def add.assoc)
qed

text \<open>
  C34: a number printed with \<^verbatim>\<open>printnum\<close> reads back with \<^verbatim>\<open>strtol\<close>. For every number below
  \<open>2 ^ 32\<close>, base 10 or 16 and any field width filled with blanks, \<^verbatim>\<open>printnum\<close> ends, and
  parsing the characters it printed gives the number again and uses them up.
\<close>

theorem printed_number_reads_back:
  assumes "base = 10 \<or> base = 16" "unat n < 2 ^ 32"
  shows "\<exists>cs. printnum emit n base width 0x20 [] = Some cs \<and>
    (str_at m p (map ucast cs) \<longrightarrow> strtol m p (uint base) = Some (ucast n, p + of_nat (length cs)))"
proof -
  let ?b = "unat base" and ?k = "nat (width - int (length (digits_of (unat base) (unat n))))"
  let ?ds = "digits_of (unat base) (unat n)" and ?cs = "number_text n base width 0x20"
  have b: "2 \<le> ?b" "?b = 10 \<or> ?b = 16" "uint base = int ?b" using assms(1) by auto
  have cs: "map ucast ?cs = replicate ?k 0x20 @ digit_bytes ?ds"
    by (simp add: number_text_def digit_bytes_def ucast_ucast_u8)
  have "\<forall>d \<in> set ?ds. d < ?b" using digits_of_bound [OF b(1)] by blast
  then have "strtol m p (uint base) =
      Some (word_of_int (digit_value (int ?b) (map int ?ds)), p + of_nat (?k + length ?ds))"
    if "str_at m p (map ucast ?cs)"
    unfolding b(3) using that [unfolded cs] digits_of_nonempty b(2) by (intro strtol_printed)
  moreover have "word_of_int (digit_value (int ?b) (map int ?ds)) = (ucast n :: u32)"
    unfolding digit_value_of [OF b(1)] by simp
  moreover have "printnum emit n base width 0x20 [] = Some ?cs"
    using printnum_text [OF b(1), of emit n width "0x20" "[]"] unfolding fold_emit_Nil .
  moreover have "length ?cs = ?k + length ?ds" by (simp add: number_text_def)
  ultimately show ?thesis by (intro exI [of _ ?cs]) presburger
qed

theorem printed_number_reads_back_witness:
  "printnum emit 3054 16 6 0x20 [] = Some [0x20, 0x20, 0x20, 0x62, 0x65, 0x65] \<and>
   strtol (load 64 [0x20, 0x20, 0x20, 0x62, 0x65, 0x65, 0] (\<lambda>_. 0)) 64 16 = Some (3054, 70)"
proof -
  let ?m = "load 64 [0x20, 0x20, 0x20, 0x62, 0x65, 0x65, 0] (\<lambda>_. 0)"
  have run: "printnum emit 3054 16 6 0x20 [] = Some [0x20, 0x20, 0x20, 0x62, 0x65, 0x65]"
    by (simp add: printnum.simps pad.simps hex_digit_def emit_def)
  moreover have "str_at ?m 64 [0x20, 0x20, 0x20, 0x62, 0x65, 0x65]"
    by (simp add: load_def)
  ultimately show ?thesis using printed_number_reads_back [of 16 3054 6 ?m 64] by simp
qed

text \<open>
  C30: formatting always ends. For every format, argument list and flags, as long as some byte of
  memory is zero, \<^verbatim>\<open>vprintfmt\<close> returns; and the text it produces is a function of the
  format, the arguments and memory: every sink, whatever its state, receives exactly this text.
\<close>

theorem vprintfmt_total_and_uniform:
  assumes "has_nul m"
  shows "\<exists>cs. rendered m fmt ap = Some cs \<and>
    (\<forall>(putch :: 's putch) s. vprintfmt putch m fmt ap s = Some (fold putch cs s))"
proof -
  obtain cs where "rendered m fmt ap = Some cs"
    using vprintfmt_returns [OF assms, of emit fmt ap 0 0 "[]"] by (auto simp: rendered_def vprintfmt_def)
  then show ?thesis by (simp add: vprintfmt_sink)
qed

theorem vprintfmt_total_and_uniform_witness:
  "\<exists>cs. vprintfmt user_putch (\<lambda>_. 0) (ascii ''%5d|%s'') (\<lambda>k. of_nat k)
     \<lparr>idx = 0, cnt = 0, buf = [], flushed = []\<rparr> = Some (fold user_putch cs \<lparr>idx = 0, cnt = 0, buf = [], flushed = []\<rparr>)"
proof -
  have "has_nul (\<lambda>_. 0)" by (simp add: has_nul_def)
  from vprintfmt_total_and_uniform [OF this, of "ascii ''%5d|%s''" "\<lambda>k. of_nat k", where 's = printbuf]
  show ?thesis by blast
qed

lemma flushed_short:
  "printbuf_ok b \<Longrightarrow> \<forall>x \<in> set (flushed b). length x \<le> 255 \<Longrightarrow>
    \<forall>x \<in> set (flushed (user_putch c b)). length x \<le> 255"
  by (auto simp: user_putch_def Let_def printbuf_ok_def)

lemma flushed_short_fold:
  "printbuf_ok b \<Longrightarrow> \<forall>x \<in> set (flushed b). length x \<le> 255 \<Longrightarrow>
    \<forall>x \<in> set (flushed (fold user_putch cs b)). length x \<le> 255"
proof (induction cs arbitrary: b)
  case (Cons c cs)
  then show ?case
    using Cons.IH [OF user_putch_step(1) [OF Cons.prems(1)] flushed_short [OF Cons.prems]] by simp
qed simp

text \<open>
  \<^verbatim>\<open>cprintf\<close> in user programs loses nothing. Whatever bytes the buffer starts with, the
  strings given to \<^verbatim>\<open>sys_cputs\<close>, one after the other, are exactly the rendered text; none is longer
  than 255 bytes, so the buffer is never overrun; and the return value is the number of
  characters.
\<close>

theorem user_vcprintf_correct:
  assumes "length junk = 256"
  shows "case rendered m fmt ap of
      None \<Rightarrow> user_vcprintf junk m fmt ap = None
    | Some cs \<Rightarrow> (\<exists>strings. user_vcprintf junk m fmt ap = Some (of_nat (length cs), strings) \<and>
        concat strings = map ucast cs \<and> (\<forall>x \<in> set strings. length x \<le> 255))"
proof (cases "rendered m fmt ap")
  case None
  then show ?thesis by (simp add: user_vcprintf_def vprintfmt_sink)
next
  case (Some cs)
  let ?start = "\<lparr>idx = 0, cnt = 0, buf = junk, flushed = []\<rparr>"
  let ?b = "fold user_putch cs ?start"
  have ok: "printbuf_ok ?start" and empty: "printbuf_text ?start = []"
    using assms by (simp_all add: printbuf_ok_def printbuf_text_def)
  have b: "printbuf_ok ?b" "printbuf_text ?b = map ucast cs"
    using user_sink.fold_out [OF ok, of cs] unfolding empty append_Nil by blast+
  have "\<forall>x \<in> set (flushed ?b). length x \<le> 255" by (rule flushed_short_fold [OF ok]) simp
  moreover have "length (take (idx ?b) (buf ?b)) \<le> 255" using b(1) by (simp add: printbuf_ok_def)
  moreover have "cnt ?b = of_nat (length cs)"
    using b(1) unfolding printbuf_ok_def b(2) length_map by blast
  moreover have "concat (flushed ?b @ [take (idx ?b) (buf ?b)]) = map ucast cs"
    using b(2) by (simp add: printbuf_text_def)
  moreover have "user_vcprintf junk m fmt ap = Some (cnt ?b, flushed ?b @ [take (idx ?b) (buf ?b)])"
    by (simp add: user_vcprintf_def vprintfmt_sink Some)
  ultimately show ?thesis using Some by auto
qed

theorem user_vcprintf_correct_witness:
  "\<exists>strings. user_vcprintf (replicate 256 0) (\<lambda>_. 0) (ascii ''ok'') (\<lambda>_. 0) = Some (2, strings) \<and>
     concat strings = ascii ''ok''"
proof -
  have "rendered (\<lambda>_. 0) (ascii ''ok'') (\<lambda>_. 0) = Some [0x6F, 0x6B]"
    by (simp add: rendered_def vprintfmt_def vprintfmt_loop.simps ascii_def fmt_at_Cons emit_def)
  then show ?thesis
    using user_vcprintf_correct [of "replicate 256 0" "\<lambda>_. 0" "ascii ''ok''" "\<lambda>_. 0"]
    by (auto simp: ascii_def)
qed

lemma kern_putch_fold: "fold (kern_putch cputchar) cs (c, n) = (fold cputchar cs c, n)"
  by (induction cs arbitrary: c) (simp_all add: kern_putch_def)

text \<open>
  \<^verbatim>\<open>cprintf\<close> in the kernel puts the rendered text on the console and returns 0, whatever it
  printed: \<^verbatim>\<open>*cnt++\<close> in its \<^verbatim>\<open>putch\<close> moves the pointer and leaves the count.
\<close>

theorem kern_vcprintf_returns_zero:
  "kern_vcprintf cputchar m fmt ap c = map_option (\<lambda>cs. (0, fold cputchar cs c)) (rendered m fmt ap)"
  by (simp add: kern_vcprintf_def vprintfmt_sink option.map_comp comp_def kern_putch_fold)

lemma sprintputch_fold:
  "b_buf b + of_nat k = b_ebuf b \<Longrightarrow> unat (b_buf b) + k < 2 ^ 32 \<Longrightarrow>
    b_cnt (fold sprintputch cs b) = b_cnt b + of_nat (length cs) \<and>
    b_buf (fold sprintputch cs b) = b_buf b + of_nat (min k (length cs)) \<and>
    (\<forall>a. b_mem (fold sprintputch cs b) a =
      (if unat (a - b_buf b) < min k (length cs) then ucast (cs ! unat (a - b_buf b)) else b_mem b a))"
proof (induction cs arbitrary: b k)
  case Nil
  then show ?case by simp
next
  case (Cons c cs)
  show ?case
  proof (cases k)
    case 0
    then have "\<not> b_buf b < b_ebuf b" using Cons.prems(1) by simp
    then have "sprintputch c b = b\<lparr>b_cnt := b_cnt b + 1\<rparr>" by (simp add: sprintputch_def Let_def)
    then show ?thesis using Cons.IH [of "b\<lparr>b_cnt := b_cnt b + 1\<rparr>" 0] Cons.prems 0 by simp
  next
    case (Suc k')
    have top: "unat (b_ebuf b) = unat (b_buf b) + k"
      using Cons.prems unfolding Cons.prems(1) [symmetric] by (simp add: unat_word_ariths unat_of_nat)
    then have "b_buf b < b_ebuf b" using Suc by (simp add: word_less_nat_alt)
    then have step: "sprintputch c b = b\<lparr>b_cnt := b_cnt b + 1,
        b_mem := (b_mem b)(b_buf b := ucast c), b_buf := b_buf b + 1\<rparr>"
      by (simp add: sprintputch_def Let_def)
    have nowrap: "unat (b_buf b + 1) + k' < 2 ^ 32"
      using Cons.prems(2) Suc by (simp add: unat_word_ariths)
    define b' where "b' = sprintputch c b"
    have b': "b_buf b' = b_buf b + 1" "b_ebuf b' = b_ebuf b" "b_cnt b' = b_cnt b + 1"
      "b_mem b' = (b_mem b)(b_buf b := ucast c)"
      by (simp_all add: b'_def step)
    have "b_buf b' + of_nat k' = b_ebuf b'" using Cons.prems(1) Suc by (simp add: b' add.assoc)
    from Cons.IH [OF this] nowrap have
      IH: "b_cnt (fold sprintputch cs b') = b_cnt b' + of_nat (length cs)"
        "b_buf (fold sprintputch cs b') = b_buf b' + of_nat (min k' (length cs))"
        "\<And>a. b_mem (fold sprintputch cs b') a = (if unat (a - b_buf b') < min k' (length cs)
          then ucast (cs ! unat (a - b_buf b')) else b_mem b' a)"
      by (simp_all only: b'(1))
    have shift: "unat (a - (b_buf b + 1)) = unat (a - b_buf b) - 1" if "a \<noteq> b_buf b" for a
      using that unat_minus_one [of "a - b_buf b"] by (simp add: diff_diff_eq)
    have last: "unat (b_buf b - (b_buf b + 1)) = 2 ^ 32 - 1" by (simp add: unat_minus_1)
    have small: "k' < 2 ^ 32 - 1" using Cons.prems(2) Suc by simp
    have "b_mem (fold sprintputch cs b') a =
        (if unat (a - b_buf b) < min k (length (c # cs))
         then ucast ((c # cs) ! unat (a - b_buf b)) else b_mem b a)" for a
    proof (cases "a = b_buf b")
      case True
      then show ?thesis using last small Suc by (simp add: IH(3) b')
    next
      case False
      then have "0 < unat (a - b_buf b)" by (simp add: unat_gt_0)
      then show ?thesis
        using shift [OF False] False Suc by (auto simp: IH(3) b' nth_Cons')
    qed
    then show ?thesis using IH(1,2) Suc by (simp add: b'_def [symmetric] b' add.assoc)
  qed
qed

text \<open>
  C35: \<^verbatim>\<open>vsnprintf\<close> with a buffer of \<open>n\<close> bytes stores the first \<open>n - 1\<close> characters of the text
  and a terminating zero, touches no byte outside the buffer, and returns the length of the
  whole text (as a 32-bit \<^verbatim>\<open>int\<close>). With a null buffer or \<open>n < 1\<close> it stores nothing and returns \<^verbatim>\<open>-E_INVAL\<close>,
  which is 3 and not an error code.
\<close>

theorem vsnprintf_correct:
  assumes "p \<noteq> 0 \<Longrightarrow> 1 \<le> n \<Longrightarrow> int (unat p) + n < 2 ^ 32"
  shows "if p = 0 \<or> n < 1 then vsnprintf m p n fmt ap = Some (3, m)
    else (case rendered m fmt ap of
        None \<Rightarrow> vsnprintf m p n fmt ap = None
      | Some cs \<Rightarrow> (\<exists>m'. vsnprintf m p n fmt ap = Some (sint (of_nat (length cs) :: u32), m') \<and>
          (\<forall>a. m' a = (let i = unat (a - p); l = min (nat n - 1) (length cs)
             in if i < l then ucast (cs ! i) else if i = l then 0 else m a))))"
proof (cases "p = 0 \<or> n < 1")
  case True
  then show ?thesis by (simp add: vsnprintf_def)
next
  case False
  then have n: "1 \<le> n" "int (unat p) + n < 2 ^ 32" using assms by auto
  define k where "k = nat n - 1"
  have k1: "n = int k + 1" using n by (simp add: k_def)
  then have "int (unat p + k) < int (2 ^ 32)" using n(2) by simp
  then have k: "n = int k + 1" "unat p + k < 2 ^ 32" using k1 by (simp_all only: of_nat_less_iff)
  define b where "b = \<lparr>b_buf = p, b_ebuf = p + word_of_int n - 1, b_cnt = 0, b_mem = m\<rparr>"
  show ?thesis
  proof (cases "rendered m fmt ap")
    case None
    then show ?thesis using False by (simp add: vsnprintf_def vprintfmt_sink Let_def)
  next
    case (Some cs)
    let ?l = "min k (length cs)"
    have "b_buf b + of_nat k = b_ebuf b" "unat (b_buf b) + k < 2 ^ 32"
      using k by (simp_all add: b_def)
    from sprintputch_fold [OF this, of cs] have f: "b_cnt (fold sprintputch cs b) = of_nat (length cs)"
      "b_buf (fold sprintputch cs b) = p + of_nat ?l"
      "\<And>a. b_mem (fold sprintputch cs b) a = (if unat (a - p) < ?l then ucast (cs ! unat (a - p)) else m a)"
      by (simp_all add: b_def)
    have at: "a = p + of_nat ?l \<longleftrightarrow> unat (a - p) = ?l" for a
    proof
      assume "a = p + of_nat ?l"
      then show "unat (a - p) = ?l" using k(2) by (simp add: unat_of_nat)
    next
      assume l: "unat (a - p) = ?l"
      have "a - p = of_nat (unat (a - p))" by simp
      then have "a - p = of_nat ?l" unfolding l .
      then show "a = p + of_nat ?l" by (simp add: algebra_simps)
    qed
    have run: "vsnprintf m p n fmt ap = Some (sint (b_cnt (fold sprintputch cs b)),
        (b_mem (fold sprintputch cs b))(b_buf (fold sprintputch cs b) := 0))"
      using False Some by (simp add: vsnprintf_def vprintfmt_sink Let_def b_def)
    show ?thesis
      unfolding run f(1,2) using False Some f(3) at by (auto simp: Let_def k_def min_def)
  qed
qed

theorem vsnprintf_correct_witness:
  "\<exists>m'. vsnprintf (\<lambda>_. 9) 64 3 (ascii ''abcd'') (\<lambda>_. 0) = Some (4, m') \<and>
     m' 64 = 0x61 \<and> m' 65 = 0x62 \<and> m' 66 = 0 \<and> m' 67 = 9"
proof -
  have "rendered (\<lambda>_. 9) (ascii ''abcd'') (\<lambda>_. 0) = Some [0x61, 0x62, 0x63, 0x64]"
    by (simp add: rendered_def vprintfmt_def vprintfmt_loop.simps ascii_def fmt_at_Cons emit_def)
  then show ?thesis
    using vsnprintf_correct [of 64 3 "\<lambda>_. 9" "ascii ''abcd''" "\<lambda>_. 0"] by auto
qed

end
