(* ===== verification/FOS_IO.thy ===== *)
theory FOS_IO
  imports FOS_Mmu
begin

text \<open>
  Port input and output, and what the kernel reads from the clock chip: \<^verbatim>\<open>inb\<close> and \<^verbatim>\<open>outb\<close> of
  \<^verbatim>\<open>inc/x86.h\<close>, \<^verbatim>\<open>kern/kclock.c\<close>, and \<^verbatim>\<open>nvram_read\<close> and \<^verbatim>\<open>detect_memory\<close> of \<^verbatim>\<open>kern/helpers.c\<close>.
  The devices are arbitrary: \<open>script p n\<close> is the byte that the \<open>n\<close>-th read of port \<open>p\<close> gives. What
  is written is recorded, the latest write first.
\<close>

record io =
  script :: "u16 \<Rightarrow> nat \<Rightarrow> u8"
  reads :: "u16 \<Rightarrow> nat"
  writes :: "(u16 \<times> u8) list"

definition inb :: "u16 \<Rightarrow> 'a io_scheme \<Rightarrow> u8 \<times> 'a io_scheme" where
  "inb port s = (script s port (reads s port), s\<lparr>reads := (reads s)(port := reads s port + 1)\<rparr>)"

definition outb :: "u16 \<Rightarrow> u8 \<Rightarrow> 'a io_scheme \<Rightarrow> 'a io_scheme" where
  "outb port data s = s\<lparr>writes := (port, data) # writes s\<rparr>"

section \<open>The clock chip\<close>

definition IO_RTC :: u16 where [simp]: "IO_RTC = 0x70"
definition MC_NVRAM_START :: u32 where [simp]: "MC_NVRAM_START = 0xE"
definition NVRAM_BASELO :: u32 where [simp]: "NVRAM_BASELO = MC_NVRAM_START + 7"
definition NVRAM_EXTLO :: u32 where [simp]: "NVRAM_EXTLO = MC_NVRAM_START + 9"

definition mc146818_read :: "u32 \<Rightarrow> 'a io_scheme \<Rightarrow> u32 \<times> 'a io_scheme" where
  "mc146818_read reg s =
    (let s = outb IO_RTC (ucast reg) s; (v, s) = inb (IO_RTC + 1) s in (ucast v, s))"

definition mc146818_write :: "u32 \<Rightarrow> u32 \<Rightarrow> 'a io_scheme \<Rightarrow> 'a io_scheme" where
  "mc146818_write reg datum s = outb (IO_RTC + 1) (ucast datum) (outb IO_RTC (ucast reg) s)"

definition nvram_read :: "u32 \<Rightarrow> 'a io_scheme \<Rightarrow> u32 \<times> 'a io_scheme" where
  "nvram_read r s =
    (let (lo, s) = mc146818_read r s; (hi, s) = mc146818_read (r + 1) s
     in (lo OR push_bit 8 hi, s))"

text \<open>
  The four results: \<^verbatim>\<open>size_of_base_mem\<close>, \<^verbatim>\<open>size_of_extended_mem\<close>, \<^verbatim>\<open>maxpa\<close> and
  \<^verbatim>\<open>number_of_frames\<close>.
\<close>

definition detect_memory :: "'a io_scheme \<Rightarrow> (u32 \<times> u32 \<times> u32 \<times> u32) \<times> 'a io_scheme" where
  "detect_memory s =
    (let (base, s) = nvram_read NVRAM_BASELO s;
         size_of_base_mem = ROUNDDOWN (base * 1024) PAGE_SIZE;
         (ext, s) = nvram_read NVRAM_EXTLO s;
         size_of_extended_mem = ROUNDDOWN (ext * 1024) PAGE_SIZE;
         maxpa = (if size_of_extended_mem \<noteq> 0 then PHYS_EXTENDED_MEM + size_of_extended_mem
                  else size_of_extended_mem);
         number_of_frames = maxpa div PAGE_SIZE
     in ((size_of_base_mem, size_of_extended_mem, maxpa, number_of_frames), s))"

lemma nvram_read_value:
  "fst (nvram_read r s) = ucast (script s 0x71 (reads s 0x71)) +
    256 * ucast (script s 0x71 (reads s 0x71 + 1))"
  "script (snd (nvram_read r s)) = script s" "reads (snd (nvram_read r s)) 0x71 = reads s 0x71 + 2"
proof -
  define lo hi where "lo = (ucast (script s 0x71 (reads s 0x71)) :: u32)"
    and "hi = (ucast (script s 0x71 (reads s 0x71 + 1)) :: u32)"
  have "unat lo < 2 ^ 8"
    using unat_u8_less [of "script s 0x71 (reads s 0x71)"]
    by (simp add: lo_def unsigned_ucast_eq take_bit_nat_eq_self)
  then have "lo AND push_bit 8 hi = 0" using push_bit_and_low [of lo 8 hi] by (simp add: and.commute)
  then have "lo OR push_bit 8 hi = lo + push_bit 8 hi" by (simp add: disjunctive_add_eq_or)
  then show "fst (nvram_read r s) = ucast (script s 0x71 (reads s 0x71)) +
    256 * ucast (script s 0x71 (reads s 0x71 + 1))"
    by (simp add: nvram_read_def mc146818_read_def inb_def outb_def lo_def hi_def push_bit_eq_mult mult.commute)
  show "script (snd (nvram_read r s)) = script s" "reads (snd (nvram_read r s)) 0x71 = reads s 0x71 + 2"
    by (simp_all add: nvram_read_def mc146818_read_def inb_def outb_def)
qed

lemma detect_memory_count:
  "snd (snd (snd (fst (detect_memory s)))) =
    (let kb = unat (script s 0x71 (reads s 0x71 + 2)) + 256 * unat (script s 0x71 (reads s 0x71 + 3))
     in if kb < 4 then 0 else of_nat (256 + kb div 4))"
proof -
  define kb where "kb = unat (script s 0x71 (reads s 0x71 + 2)) +
    256 * unat (script s 0x71 (reads s 0x71 + 3))"
  define ext where "ext = (ucast (script s 0x71 (reads s 0x71 + 2)) +
    256 * ucast (script s 0x71 (reads s 0x71 + 3)) :: u32)"
  have bytes: "unat (script s 0x71 n) < 256" for n by (rule unat_u8_less)
  have ext: "unat ext = kb" "kb < 65536"
    using bytes [of "reads s 0x71 + 2"] bytes [of "reads s 0x71 + 3"]
    by (simp_all add: ext_def kb_def unat_word_ariths unsigned_ucast_eq take_bit_nat_eq_self)
  have r: "fst (nvram_read NVRAM_EXTLO (snd (nvram_read NVRAM_BASELO s))) = ext"
    by (simp add: nvram_read_value ext_def numeral_3_eq_3)
  define e where "e = ROUNDDOWN (ext * 1024) PAGE_SIZE"
  have "unat (ext * 1024) = kb * 1024" using ext by (simp add: unat_word_ariths)
  then have "unat e = 1024 * kb - 1024 * (kb mod 4)"
    using unat_ROUNDDOWN [of "ext * 1024" PAGE_SIZE] mult_mod_right [of 1024 kb 4]
    by (simp add: e_def mult.commute [of kb])
  moreover have "kb = 4 * (kb div 4) + kb mod 4" by simp
  ultimately have e: "unat e = 4096 * (kb div 4)" by linarith
  have z: "e = 0 \<longleftrightarrow> kb < 4" using e by (simp add: word_unat_eq_iff) presburger
  have "snd (snd (snd (fst (detect_memory s)))) =
      (if e \<noteq> 0 then PHYS_EXTENDED_MEM + e else e) div PAGE_SIZE"
    by (simp add: detect_memory_def case_prod_unfold Let_def r [simplified] e_def [simplified, symmetric])
  also have "\<dots> = (if kb < 4 then 0 else of_nat (256 + kb div 4))"
  proof (cases "kb < 4")
    case False
    have "unat (0x100000 + e) = 0x100000 + 4096 * (kb div 4)"
      using e ext(2) by (simp add: unat_word_ariths)
    then have "unat ((0x100000 + e) div 4096) = 256 + kb div 4" by (simp add: unat_div)
    moreover have "unat (of_nat (256 + kb div 4) :: u32) = 256 + kb div 4"
      using ext(2) by (simp only: unat_of_nat) simp
    ultimately have "(0x100000 + e) div 4096 = of_nat (256 + kb div 4)" by (metis word_unat_eq_iff)
    then show ?thesis using False z by simp
  qed (use z in simp)
  finally show ?thesis unfolding Let_def kb_def .
qed

text \<open>
  \<^verbatim>\<open>detect_memory\<close> reads the size of extended memory in kilobytes from the clock chip, low
  byte first. With at least one page of it (and less than 64 MB, all the 16 bits can say) the
  number of frames is the 256 of the first megabyte and the whole pages of extended memory.
  Without any, the number of frames is 0, not the pages of base memory: the \<^verbatim>\<open>else\<close> branch
  assigns \<^verbatim>\<open>size_of_extended_mem\<close> again.
\<close>

theorem detect_memory_frames:
  "snd (snd (snd (fst (detect_memory s)))) =
    (let kb = unat (script s 0x71 (reads s 0x71 + 2)) + 256 * unat (script s 0x71 (reads s 0x71 + 3))
     in if kb < 4 then 0 else of_nat (256 + kb div 4))"
  by (rule detect_memory_count)

end
