(* ===== verification/FOS_Console.thy ===== *)
theory FOS_Console
  imports FOS_IO FOS_String
begin

text \<open>
  The console, \<^verbatim>\<open>kern/console.c\<close>: the serial port, the parallel port, the text display, the
  keyboard with its tables (\<^verbatim>\<open>inc/kbdreg.h\<close>), and the circular input buffer. The state extends
  the ports of \<open>FOS_IO\<close> by the static variables of the file. The text memory of the display is
  a function from the addresses of 16-bit cells; a cell with no memory behind it reads
  \<open>open_bus\<close>.
\<close>

record console = io +
  serial_exists :: bool
  vmem :: "u32 \<Rightarrow> u16"
  backed :: "u32 \<Rightarrow> bool"
  open_bus :: u16
  addr_6845 :: u32
  crt_buf :: u32
  crt_pos :: u16
  shift :: u32
  cons_buf :: "u32 \<Rightarrow> u8"
  rpos :: u32
  wpos :: u32

section \<open>The serial port\<close>

definition COM1 :: u16 where [simp]: "COM1 = 0x3F8"
definition COM_RX :: u16 where [simp]: "COM_RX = 0"
definition COM_DLL :: u16 where [simp]: "COM_DLL = 0"
definition COM_DLM :: u16 where [simp]: "COM_DLM = 1"
definition COM_IER :: u16 where [simp]: "COM_IER = 1"
definition COM_IIR :: u16 where [simp]: "COM_IIR = 2"
definition COM_FCR :: u16 where [simp]: "COM_FCR = 2"
definition COM_LCR :: u16 where [simp]: "COM_LCR = 3"
definition COM_LCR_DLAB :: u8 where [simp]: "COM_LCR_DLAB = 0x80"
definition COM_LCR_WLEN8 :: u8 where [simp]: "COM_LCR_WLEN8 = 0x03"
definition COM_MCR :: u16 where [simp]: "COM_MCR = 4"
definition COM_LSR :: u16 where [simp]: "COM_LSR = 5"
definition COM_LSR_DATA :: u8 where [simp]: "COM_LSR_DATA = 0x01"

definition serial_proc_data :: "console \<Rightarrow> int \<times> console" where
  "serial_proc_data s =
    (let (lsr, s) = inb (COM1 + COM_LSR) s
     in if lsr AND COM_LSR_DATA = 0 then (-1, s)
        else (let (c, s) = inb (COM1 + COM_RX) s in (uint c, s)))"

definition serial_init :: "console \<Rightarrow> console" where
  "serial_init s =
    (let s = outb (COM1 + COM_FCR) 0 s;
         s = outb (COM1 + COM_LCR) COM_LCR_DLAB s;
         s = outb (COM1 + COM_DLL) (115200 div 9600) s;
         s = outb (COM1 + COM_DLM) 0 s;
         s = outb (COM1 + COM_LCR) (COM_LCR_WLEN8 AND NOT COM_LCR_DLAB) s;
         s = outb (COM1 + COM_MCR) 0 s;
         s = outb (COM1 + COM_IER) 0x01 s;
         (lsr, s) = inb (COM1 + COM_LSR) s;
         s = s\<lparr>serial_exists := lsr \<noteq> 0xFF\<rparr>;
         (_, s) = inb (COM1 + COM_IIR) s;
         (_, s) = inb (COM1 + COM_RX) s
     in s)"

section \<open>The parallel port\<close>

definition delay :: "console \<Rightarrow> console" where
  "delay s = snd (inb 0x84 (snd (inb 0x84 (snd (inb 0x84 (snd (inb 0x84 s)))))))"

function lpt_wait :: "nat \<Rightarrow> console \<Rightarrow> console" where
  "lpt_wait i s =
    (let (status, s) = inb 0x379 s
     in if status AND 0x80 = 0 \<and> i < 2800 then lpt_wait (i + 1) (delay s) else s)"
  by pat_completeness auto
termination by (relation "measure (\<lambda>(i, s). 2800 - i)") auto

declare lpt_wait.simps [simp del]

definition lpt_putc :: "u32 \<Rightarrow> console \<Rightarrow> console" where
  "lpt_putc c s = outb 0x37A 0x08 (outb 0x37A 0x0D (outb 0x378 (ucast c) (lpt_wait 0 s)))"

section \<open>The display\<close>

definition MONO_BASE :: u32 where [simp]: "MONO_BASE = 0x3B4"
definition MONO_BUF :: u32 where [simp]: "MONO_BUF = 0xB0000"
definition CGA_BASE :: u32 where [simp]: "CGA_BASE = 0x3D4"
definition CGA_BUF :: u32 where [simp]: "CGA_BUF = 0xB8000"
definition CRT_COLS :: u16 where [simp]: "CRT_COLS = 80"
definition CRT_SIZE :: u16 where [simp]: "CRT_SIZE = 25 * CRT_COLS"

definition read_cell :: "u32 \<Rightarrow> console \<Rightarrow> u16" where
  "read_cell a s = (if backed s a then vmem s a else open_bus s)"

definition write_cell :: "u32 \<Rightarrow> u16 \<Rightarrow> console \<Rightarrow> console" where
  "write_cell a v s = s\<lparr>vmem := (vmem s)(a := v)\<rparr>"

definition cga_init :: "console \<Rightarrow> console" where
  "cga_init s =
    (let cp = KERNEL_BASE + CGA_BUF;
         was = read_cell cp s;
         s = write_cell cp 0xA55A s;
         (cp, s) = (if read_cell cp s \<noteq> 0xA55A
           then (KERNEL_BASE + MONO_BUF, s\<lparr>addr_6845 := MONO_BASE\<rparr>)
           else (cp, (write_cell cp was s)\<lparr>addr_6845 := CGA_BASE\<rparr>));
         s = outb (ucast (addr_6845 s)) 14 s;
         (hi, s) = inb (ucast (addr_6845 s + 1)) s;
         s = outb (ucast (addr_6845 s)) 15 s;
         (lo, s) = inb (ucast (addr_6845 s + 1)) s;
         pos = push_bit 8 (ucast hi) OR (ucast lo :: u32)
     in s\<lparr>crt_buf := cp, crt_pos := ucast pos\<rparr>)"

text \<open>Cell \<open>i\<close> of the array \<^verbatim>\<open>crt_buf\<close>.\<close>

definition cell_addr :: "console \<Rightarrow> u32 \<Rightarrow> u32" where
  "cell_addr s i = crt_buf s + 2 * i"

definition put_cell :: "u32 \<Rightarrow> u16 \<Rightarrow> console \<Rightarrow> console" where
  "put_cell i v s = write_cell (cell_addr s i) v s"

text \<open>The \<^verbatim>\<open>memcpy\<close> of all rows but the first onto the row above, cell by cell upwards.\<close>

definition scroll_copy :: "console \<Rightarrow> console" where
  "scroll_copy s = fold (\<lambda>i s. put_cell i (read_cell (cell_addr s (i + ucast CRT_COLS)) s) s)
    (word_range 0 (ucast (CRT_SIZE - CRT_COLS))) s"

definition scroll_blank :: "console \<Rightarrow> console" where
  "scroll_blank s = fold (\<lambda>i s. put_cell i (0x0700 OR 0x20) s)
    (word_range (ucast (CRT_SIZE - CRT_COLS)) (ucast CRT_SIZE)) s"

definition scroll :: "console \<Rightarrow> console" where
  "scroll s =
    (if crt_pos s \<ge> CRT_SIZE
     then (let s = scroll_blank (scroll_copy s) in s\<lparr>crt_pos := crt_pos s - CRT_COLS\<rparr>) else s)"

definition move_cursor :: "console \<Rightarrow> console" where
  "move_cursor s =
    (let s = outb (ucast (addr_6845 s)) 14 s;
         s = outb (ucast (addr_6845 s + 1)) (ucast (drop_bit 8 (crt_pos s))) s;
         s = outb (ucast (addr_6845 s)) 15 s
     in outb (ucast (addr_6845 s + 1)) (ucast (crt_pos s)) s)"

text \<open>The cases of the switch other than the tab; \<open>c\<close> has its attribute.\<close>

definition cga_char :: "u32 \<Rightarrow> console \<Rightarrow> console" where
  "cga_char c s =
    (if c AND 0xFF = 0x08 then
       (if crt_pos s > 0 then
          (let s = s\<lparr>crt_pos := crt_pos s - 1\<rparr> in put_cell (ucast (crt_pos s)) (ucast (c AND NOT 0xFF OR 0x20)) s)
        else s)
     else if c AND 0xFF = 0x0A then
       (let s = s\<lparr>crt_pos := crt_pos s + CRT_COLS\<rparr> in s\<lparr>crt_pos := crt_pos s - crt_pos s mod CRT_COLS\<rparr>)
     else if c AND 0xFF = 0x0D then s\<lparr>crt_pos := crt_pos s - crt_pos s mod CRT_COLS\<rparr>
     else (put_cell (ucast (crt_pos s)) (ucast c) s)\<lparr>crt_pos := crt_pos s + 1\<rparr>)"

definition with_attribute :: "u32 \<Rightarrow> u32" where
  "with_attribute c = (if c AND NOT 0xFF = 0 then c OR 0x0700 else c)"

text \<open>A tab prints five blanks with \<^verbatim>\<open>cons_putc\<close>, which prints on both devices.\<close>

function cga_putc :: "u32 \<Rightarrow> console \<Rightarrow> console" where
  "cga_putc c s =
    move_cursor (scroll
      (if with_attribute c AND 0xFF = 0x09
       then ((\<lambda>s. cga_putc 0x20 (lpt_putc 0x20 s)) ^^ 5) s
       else cga_char (with_attribute c) s))"
  by pat_completeness auto
termination
  by (relation "measure (\<lambda>(c, s). if with_attribute c AND 0xFF = 0x09 then 1 else 0)")
    (auto simp: with_attribute_def)

declare cga_putc.simps [simp del]

definition cons_putc :: "u32 \<Rightarrow> console \<Rightarrow> console" where
  "cons_putc c s = cga_putc c (lpt_putc c s)"

definition cputchar :: "u32 \<Rightarrow> console \<Rightarrow> console" where
  "cputchar c s = cons_putc c s"

section \<open>The keyboard\<close>

definition SHIFT :: u32 where [simp]: "SHIFT = 1"
definition CTL :: u32 where [simp]: "CTL = 2"
definition ALT :: u32 where [simp]: "ALT = 4"
definition CAPSLOCK :: u32 where [simp]: "CAPSLOCK = 8"
definition NUMLOCK :: u32 where [simp]: "NUMLOCK = 16"
definition SCROLLLOCK :: u32 where [simp]: "SCROLLLOCK = 32"
definition E0ESC :: u32 where [simp]: "E0ESC = 64"

definition KEY_HOME :: u8 where [simp]: "KEY_HOME = 0xE0"
definition KEY_END :: u8 where [simp]: "KEY_END = 0xE1"
definition KEY_UP :: u8 where [simp]: "KEY_UP = 0xE2"
definition KEY_DN :: u8 where [simp]: "KEY_DN = 0xE3"
definition KEY_LF :: u8 where [simp]: "KEY_LF = 0xE4"
definition KEY_RT :: u8 where [simp]: "KEY_RT = 0xE5"
definition KEY_PGUP :: u8 where [simp]: "KEY_PGUP = 0xE6"
definition KEY_PGDN :: u8 where [simp]: "KEY_PGDN = 0xE7"
definition KEY_INS :: u8 where [simp]: "KEY_INS = 0xE8"
definition KEY_DEL :: u8 where [simp]: "KEY_DEL = 0xE9"

definition KBSTATP :: u16 where [simp]: "KBSTATP = 0x64"
definition KBS_DIB :: u8 where [simp]: "KBS_DIB = 0x01"
definition KBDATAP :: u16 where [simp]: "KBDATAP = 0x60"

definition shiftcode :: "u8 \<Rightarrow> u32" where
  "shiftcode d =
    (if d = 0x1D \<or> d = 0x9D then CTL else if d = 0x2A \<or> d = 0x36 then SHIFT
     else if d = 0x38 \<or> d = 0xB8 then ALT else 0)"

definition togglecode :: "u8 \<Rightarrow> u32" where
  "togglecode d =
    (if d = 0x3A then CAPSLOCK else if d = 0x45 then NUMLOCK else if d = 0x46 then SCROLLLOCK else 0)"

definition normalmap_low :: "u8 list" where
  "normalmap_low =
  [0x00, 0x1B, 0x31, 0x32, 0x33, 0x34, 0x35, 0x36, 0x37, 0x38, 0x39, 0x30, 0x2D, 0x3D, 0x08, 0x09,
   0x71, 0x77, 0x65, 0x72, 0x74, 0x79, 0x75, 0x69, 0x6F, 0x70, 0x5B, 0x5D, 0x0A, 0x00, 0x61, 0x73,
   0x64, 0x66, 0x67, 0x68, 0x6A, 0x6B, 0x6C, 0x3B, 0x27, 0x60, 0x00, 0x5C, 0x7A, 0x78, 0x63, 0x76,
   0x62, 0x6E, 0x6D, 0x2C, 0x2E, 0x2F, 0x00, 0x2A, 0x00, 0x20, 0x00, 0x00, 0x00, 0x00, 0x00, 0x00,
   0x00, 0x00, 0x00, 0x00, 0x00, 0x00, 0x00, 0x37, 0x38, 0x39, 0x2D, 0x34, 0x35, 0x36, 0x2B, 0x31,
   0x32, 0x33, 0x30, 0x2E, 0x00, 0x00, 0x00, 0x00]"

definition normalmap :: "u8 \<Rightarrow> u8" where
  "normalmap d = (if unat d < length normalmap_low then normalmap_low ! unat d else
    (if d = 0x97 then KEY_HOME else if d = 0x9C then 0x0A else if d = 0xB5 then 0x2F
    else if d = 0xC8 then KEY_UP else if d = 0xC9 then KEY_PGUP else if d = 0xCB then KEY_LF
    else if d = 0xCD then KEY_RT else if d = 0xCF then KEY_END else if d = 0xD0 then KEY_DN
    else if d = 0xD1 then KEY_PGDN else if d = 0xD2 then KEY_INS else if d = 0xD3 then KEY_DEL else 0))"

definition shiftmap_low :: "u8 list" where
  "shiftmap_low =
  [0x00, 0x1B, 0x21, 0x40, 0x23, 0x24, 0x25, 0x5E, 0x26, 0x2A, 0x28, 0x29, 0x5F, 0x2B, 0x08, 0x09,
   0x51, 0x57, 0x45, 0x52, 0x54, 0x59, 0x55, 0x49, 0x4F, 0x50, 0x7B, 0x7D, 0x0A, 0x00, 0x41, 0x53,
   0x44, 0x46, 0x47, 0x48, 0x4A, 0x4B, 0x4C, 0x3A, 0x22, 0x7E, 0x00, 0x7C, 0x5A, 0x58, 0x43, 0x56,
   0x42, 0x4E, 0x4D, 0x3C, 0x3E, 0x3F, 0x00, 0x2A, 0x00, 0x20, 0x00, 0x00, 0x00, 0x00, 0x00, 0x00,
   0x00, 0x00, 0x00, 0x00, 0x00, 0x00, 0x00, 0x37, 0x38, 0x39, 0x2D, 0x34, 0x35, 0x36, 0x2B, 0x31,
   0x32, 0x33, 0x30, 0x2E, 0x00, 0x00, 0x00, 0x00]"

definition shiftmap :: "u8 \<Rightarrow> u8" where
  "shiftmap d = (if unat d < length shiftmap_low then shiftmap_low ! unat d else
    (if d = 0x97 then KEY_HOME else if d = 0x9C then 0x0A else if d = 0xB5 then 0x2F
    else if d = 0xC8 then KEY_UP else if d = 0xC9 then KEY_PGUP else if d = 0xCB then KEY_LF
    else if d = 0xCD then KEY_RT else if d = 0xCF then KEY_END else if d = 0xD0 then KEY_DN
    else if d = 0xD1 then KEY_PGDN else if d = 0xD2 then KEY_INS else if d = 0xD3 then KEY_DEL else 0))"

definition ctlmap_low :: "u8 list" where
  "ctlmap_low =
  [0x00, 0x00, 0x00, 0x00, 0x00, 0x00, 0x00, 0x00, 0x00, 0x00, 0x00, 0x00, 0x00, 0x00, 0x00, 0x00,
   0x11, 0x17, 0x05, 0x12, 0x14, 0x19, 0x15, 0x09, 0x0F, 0x10, 0x00, 0x00, 0x0D, 0x00, 0x01, 0x13,
   0x04, 0x06, 0x07, 0x08, 0x0A, 0x0B, 0x0C, 0x00, 0x00, 0x00, 0x00, 0x1C, 0x1A, 0x18, 0x03, 0x16,
   0x02, 0x0E, 0x0D, 0x00, 0x00, 0xEF, 0x00, 0x00]"

definition ctlmap :: "u8 \<Rightarrow> u8" where
  "ctlmap d = (if unat d < length ctlmap_low then ctlmap_low ! unat d else
    (if d = 0x97 then KEY_HOME else if d = 0xB5 then 0xEF
    else if d = 0xC8 then KEY_UP else if d = 0xC9 then KEY_PGUP else if d = 0xCB then KEY_LF
    else if d = 0xCD then KEY_RT else if d = 0xCF then KEY_END else if d = 0xD0 then KEY_DN
    else if d = 0xD1 then KEY_PGDN else if d = 0xD2 then KEY_INS else if d = 0xD3 then KEY_DEL else 0))"

text \<open>\<^verbatim>\<open>charcode[shift & (CTL | SHIFT)]\<close>.\<close>

definition charcode :: "u32 \<Rightarrow> u8 \<Rightarrow> u8" where
  "charcode sh = (if sh AND (CTL OR SHIFT) = 0 then normalmap
     else if sh AND (CTL OR SHIFT) = 1 then shiftmap else ctlmap)"

definition caps :: "int \<Rightarrow> int" where
  "caps c = (if 0x61 \<le> c \<and> c \<le> 0x7A then c + (0x41 - 0x61)
     else if 0x41 \<le> c \<and> c \<le> 0x5A then c + (0x61 - 0x41) else c)"

text \<open>The message \<^verbatim>\<open>Rebooting!\<close> goes through \<^verbatim>\<open>cprintf\<close>, a constant text.\<close>

definition reboot :: "console \<Rightarrow> console" where
  "reboot s = outb 0x92 0x3 (fold cputchar (map ucast (ascii ''Rebooting!'' @ [0x0A])) s)"

definition kbd_proc_data :: "console \<Rightarrow> int \<times> console" where
  "kbd_proc_data s =
    (let (st, s) = inb KBSTATP s
     in if st AND KBS_DIB = 0 then (-1, s)
        else (let (data, s) = inb KBDATAP s
          in if data = 0xE0 then (0, s\<lparr>shift := shift s OR E0ESC\<rparr>)
             else if data AND 0x80 \<noteq> 0 then
               (let data = (if shift s AND E0ESC \<noteq> 0 then data else data AND 0x7F)
                in (0, s\<lparr>shift := shift s AND NOT (shiftcode data OR E0ESC)\<rparr>))
             else
               (let (data, s) = (if shift s AND E0ESC \<noteq> 0
                     then (data OR 0x80, s\<lparr>shift := shift s AND NOT E0ESC\<rparr>) else (data, s));
                    s = s\<lparr>shift := shift s OR shiftcode data\<rparr>;
                    s = s\<lparr>shift := shift s XOR togglecode data\<rparr>;
                    c = uint (charcode (shift s) data);
                    c = (if shift s AND CAPSLOCK \<noteq> 0 then caps c else c);
                    s = (if (NOT (shift s)) AND (CTL OR ALT) = 0 \<and> c = uint KEY_DEL then reboot s else s)
                in (c, s))))"

section \<open>The input buffer\<close>

definition CONSBUFSIZE :: u32 where [simp]: "CONSBUFSIZE = 512"

definition cons_put :: "u8 \<Rightarrow> console \<Rightarrow> console" where
  "cons_put c s =
    (let s = s\<lparr>cons_buf := (cons_buf s)(wpos s := c), wpos := wpos s + 1\<rparr>
     in if wpos s = CONSBUFSIZE then s\<lparr>wpos := 0\<rparr> else s)"

text \<open>A device that always has data keeps the loop going; that is the result \<open>None\<close>.\<close>

partial_function (option) cons_intr :: "(console \<Rightarrow> int \<times> console) \<Rightarrow> console \<Rightarrow> console option" where
  "cons_intr proc s =
    (case proc s of (c, s) \<Rightarrow>
       if c = -1 then Some s
       else if c = 0 then cons_intr proc s
       else cons_intr proc (cons_put (word_of_int c) s))"

definition serial_intr :: "console \<Rightarrow> console option" where
  "serial_intr s = (if serial_exists s then cons_intr serial_proc_data s else Some s)"

definition kbd_intr :: "console \<Rightarrow> console option" where
  "kbd_intr s = cons_intr kbd_proc_data s"

definition cons_take :: "console \<Rightarrow> u8 \<times> console" where
  "cons_take s =
    (if rpos s \<noteq> wpos s then
       (let c = cons_buf s (rpos s); s = s\<lparr>rpos := rpos s + 1\<rparr>
        in (c, if rpos s = CONSBUFSIZE then s\<lparr>rpos := 0\<rparr> else s))
     else (0, s))"

definition cons_getc :: "console \<Rightarrow> (u8 \<times> console) option" where
  "cons_getc s =
    Option.bind (serial_intr s) (\<lambda>s. Option.bind (kbd_intr s) (\<lambda>s. Some (cons_take s)))"

partial_function (option) getchar :: "console \<Rightarrow> (u8 \<times> console) option" where
  "getchar s =
    Option.bind (cons_getc s) (\<lambda>(c, s). if c = 0 then getchar s else Some (c, s))"

definition iscons :: "int \<Rightarrow> int" where
  "iscons fdnum = 1"

definition console_initialize :: "console \<Rightarrow> console" where
  "console_initialize s =
    (let s = serial_init (cga_init s)
     in if serial_exists s then s
        else fold cputchar (map ucast (ascii ''Serial port does not exist!'' @ [0x0A])) s)"

section \<open>The display stays inside its buffer\<close>

definition crt_ok :: "console \<Rightarrow> bool" where
  "crt_ok s \<longleftrightarrow> crt_pos s < CRT_SIZE"

text \<open>The text on the display: cell \<open>i\<close> of the buffer.\<close>

definition cell :: "console \<Rightarrow> u32 \<Rightarrow> u16" where
  "cell s i = vmem s (cell_addr s i)"

lemma fields_io [simp]:
  "crt_pos (outb p v s) = crt_pos s" "vmem (outb p v s) = vmem s" "crt_buf (outb p v s) = crt_buf s"
  "backed (outb p v s) = backed s" "crt_pos (snd (inb p s)) = crt_pos s"
  "vmem (snd (inb p s)) = vmem s" "crt_buf (snd (inb p s)) = crt_buf s" "backed (snd (inb p s)) = backed s"
  "rpos (outb p v s) = rpos s" "wpos (outb p v s) = wpos s" "cons_buf (outb p v s) = cons_buf s"
  "rpos (snd (inb p s)) = rpos s" "wpos (snd (inb p s)) = wpos s" "cons_buf (snd (inb p s)) = cons_buf s"
  by (simp_all add: outb_def inb_def)

lemma fields_delay [simp]:
  "crt_pos (delay s) = crt_pos s" "vmem (delay s) = vmem s" "crt_buf (delay s) = crt_buf s"
  "backed (delay s) = backed s" "rpos (delay s) = rpos s" "wpos (delay s) = wpos s"
  "cons_buf (delay s) = cons_buf s"
  by (simp_all add: delay_def)

definition same_screen :: "console \<Rightarrow> console \<Rightarrow> bool" where
  "same_screen s t \<longleftrightarrow> crt_pos s = crt_pos t \<and> vmem s = vmem t \<and> crt_buf s = crt_buf t \<and> backed s = backed t"

lemma lpt_wait_screen: "same_screen (lpt_wait i s) s"
proof (induction i s rule: lpt_wait.induct)
  case (1 i s)
  obtain st t where t: "inb 0x379 s = (st, t)" by (cases "inb 0x379 s")
  have eq: "same_screen t s" using t fields_io(5-8) [of "0x379" s] by (simp add: same_screen_def)
  show ?case
  proof (cases "st AND 0x80 = 0 \<and> i < 2800")
    case True
    then have "same_screen (lpt_wait (i + 1) (delay t)) (delay t)" using 1 t by simp
    then show ?thesis using True t eq by (subst lpt_wait.simps) (simp add: same_screen_def)
  next
    case False
    then show ?thesis using t eq by (subst lpt_wait.simps) (auto simp: same_screen_def)
  qed
qed

lemma lpt_putc_screen: "same_screen (lpt_putc c s) s"
  using lpt_wait_screen [of 0 s] by (simp add: lpt_putc_def same_screen_def)

lemma move_cursor_screen: "same_screen (move_cursor s) s"
  by (simp add: move_cursor_def same_screen_def Let_def)

lemma put_cell_fields [simp]:
  "crt_pos (put_cell i v s) = crt_pos s" "crt_buf (put_cell i v s) = crt_buf s"
  "backed (put_cell i v s) = backed s" "cell_addr (put_cell i v s) = cell_addr s"
  by (simp_all add: put_cell_def write_cell_def cell_addr_def fun_eq_iff)

lemma vmem_put_cell: "vmem (put_cell i v s) = (vmem s)(cell_addr s i := v)"
  by (simp add: put_cell_def write_cell_def)

lemma cell_addr_inj: "i < 2000 \<Longrightarrow> j < 2000 \<Longrightarrow> cell_addr s i = cell_addr s j \<longleftrightarrow> i = j"
proof
  assume ij: "i < 2000" "j < 2000" and "cell_addr s i = cell_addr s j"
  then have "2 * i = 2 * j" by (simp add: cell_addr_def)
  then have "unat (2 * i) = unat (2 * j)" by simp
  then have "2 * unat i = 2 * unat j" using ij by (simp add: unat_word_ariths word_less_nat_alt)
  then show "i = j" by (simp add: word_unat_eq_iff)
qed simp

lemma cell_put [simp]:
  "i < 2000 \<Longrightarrow> j < 2000 \<Longrightarrow> cell (put_cell i v s) j = (if i = j then v else cell s j)"
  using cell_addr_inj [of i j s] by (auto simp: cell_def vmem_put_cell)

lemma cell_same_screen: "same_screen s t \<Longrightarrow> cell s = cell t"
  by (simp add: same_screen_def cell_def cell_addr_def fun_eq_iff)

subsection \<open>Scrolling\<close>

text \<open>Every cell of the display has memory behind it.\<close>

definition screen_ok :: "console \<Rightarrow> bool" where
  "screen_ok s \<longleftrightarrow> crt_ok s \<and> (\<forall>i < 2000. backed s (cell_addr s i))"

lemma cells_of_nat: "k \<le> 2000 \<Longrightarrow> unat (of_nat k :: u32) = k"
  by (simp add: unat_of_nat)

definition same_frame :: "console \<Rightarrow> console \<Rightarrow> bool" where
  "same_frame s t \<longleftrightarrow> crt_pos s = crt_pos t \<and> crt_buf s = crt_buf t \<and> backed s = backed t"

lemma same_frame_addr: "same_frame s t \<Longrightarrow> cell_addr s = cell_addr t"
  by (simp add: same_frame_def cell_addr_def fun_eq_iff)

lemma read_cell_screen:
  "same_frame t s \<Longrightarrow> \<forall>i < 2000. backed s (cell_addr s i) \<Longrightarrow> i < 2000 \<Longrightarrow>
    read_cell (cell_addr t i) t = cell t i"
  using same_frame_addr [of t s] by (auto simp: read_cell_def cell_def same_frame_def)

lemma scroll_copy_cells:
  assumes "\<forall>i < 2000. backed s (cell_addr s i)" "k \<le> 1920"
  shows "same_frame (fold (\<lambda>i s. put_cell i (read_cell (cell_addr s (i + 80)) s) s)
      (map of_nat [0..<k]) s) s \<and>
    (\<forall>j < 2000. cell (fold (\<lambda>i s. put_cell i (read_cell (cell_addr s (i + 80)) s) s)
      (map of_nat [0..<k]) s) j = (if unat j < k then cell s (j + 80) else cell s j))"
  using assms(2)
proof (induction k)
  case 0
  then show ?case by (simp add: same_frame_def)
next
  case (Suc k)
  let ?t = "fold (\<lambda>i s. put_cell i (read_cell (cell_addr s (i + 80)) s) s) (map of_nat [0..<k]) s"
  let ?k = "of_nat k :: u32"
  have IH: "same_frame ?t s"
    "\<And>j. j < 2000 \<Longrightarrow> cell ?t j = (if unat j < k then cell s (j + 80) else cell s j)"
    using Suc by simp_all
  have k: "unat ?k = k" "unat (?k + 80) = k + 80" "?k < 2000" "?k + 80 < 2000"
    using Suc.prems by (simp_all add: unat_word_ariths unat_of_nat word_less_nat_alt)
  have "read_cell (cell_addr ?t (?k + 80)) ?t = cell s (?k + 80)"
    using read_cell_screen [OF IH(1) assms(1) k(4)] IH(2) [OF k(4)] k(2) by simp
  then have step: "fold (\<lambda>i s. put_cell i (read_cell (cell_addr s (i + 80)) s) s) (map of_nat [0..<Suc k]) s =
      put_cell ?k (cell s (?k + 80)) ?t" by simp
  have eq: "?k = j \<longleftrightarrow> unat j = k" for j using k(1) by (auto simp: word_unat_eq_iff)
  have "cell (put_cell ?k (cell s (?k + 80)) ?t) j =
      (if unat j < Suc k then cell s (j + 80) else cell s j)" if "j < 2000" for j
    using that k(3) IH(2) [OF that] eq [of j] by (auto simp: less_Suc_eq)
  then show ?case
    unfolding step using IH(1) by (simp add: same_frame_def)
qed

lemma scroll_blank_cells:
  "same_frame (fold (\<lambda>i s. put_cell i v s) (map of_nat xs) s) s \<and>
   (\<forall>x \<in> set xs. x < 2000) \<longrightarrow> (\<forall>j < 2000. cell (fold (\<lambda>i s. put_cell i v s) (map of_nat xs) s) j =
      (if unat j \<in> set xs then v else cell s j))"
proof (induction xs arbitrary: s)
  case (Cons x xs)
  show ?case
  proof (intro impI allI)
    fix j :: u32
    assume a: "same_frame (fold (\<lambda>i s. put_cell i v s) (map of_nat (x # xs)) s) s \<and> (\<forall>x \<in> set (x # xs). x < 2000)"
      and j: "j < 2000"
    have "unat (of_nat x :: u32) = x" using a by (simp add: unat_of_nat)
    then have x: "(of_nat x :: u32) < 2000" "of_nat x = j \<longleftrightarrow> unat j = x"
      using a by (auto simp: word_less_nat_alt word_unat_eq_iff)
    have "same_frame (fold (\<lambda>i s. put_cell i v s) (map of_nat xs) (put_cell (of_nat x) v s)) (put_cell (of_nat x) v s)"
      using a by (simp add: same_frame_def)
    then show "cell (fold (\<lambda>i s. put_cell i v s) (map of_nat (x # xs)) s) j =
        (if unat j \<in> set (x # xs) then v else cell s j)"
      using Cons.IH [of "put_cell (of_nat x) v s"] a x j by auto
  qed
qed simp

lemma scroll_blank_frame: "same_frame (fold (\<lambda>i s. put_cell i v s) is s) s"
  by (induction "is" arbitrary: s) (simp_all add: same_frame_def)

lemma scroll_blank_range:
  "b \<le> 2000 \<Longrightarrow> j < 2000 \<Longrightarrow> cell (fold (\<lambda>i s. put_cell i v s) (map of_nat [a..<b]) s) j =
    (if a \<le> unat j \<and> unat j < b then v else cell s j)"
  using scroll_blank_cells [of v "[a..<b]" s] scroll_blank_frame [of v "map of_nat [a..<b]" s] by simp

text \<open>The display after scrolling: the rows move up by one and the last row is blank.\<close>

lemma scroll_cells:
  assumes "\<forall>i < 2000. backed s (cell_addr s i)" "2000 \<le> crt_pos s"
  shows "crt_pos (scroll s) = crt_pos s - 80" "crt_buf (scroll s) = crt_buf s" "backed (scroll s) = backed s"
    "j < 2000 \<Longrightarrow> cell (scroll s) j = (if j < 1920 then cell s (j + 80) else 0x0720)"
proof -
  let ?c = "scroll_copy s"
  have c: "same_frame ?c s" "\<And>j. j < 2000 \<Longrightarrow> cell ?c j = (if unat j < 1920 then cell s (j + 80) else cell s j)"
    using scroll_copy_cells [OF assms(1), of 1920] by (simp_all add: scroll_copy_def word_range_def)
  let ?b = "scroll_blank ?c"
  have b: "same_frame ?b ?c" unfolding scroll_blank_def by (rule scroll_blank_frame)
  have nums: "ucast (CRT_SIZE - CRT_COLS) = (1920 :: u32)" "ucast CRT_SIZE = (2000 :: u32)"
    "0x0700 OR 0x20 = (0x0720 :: u16)"
    by simp_all
  have "scroll_blank ?c = fold (\<lambda>i s. put_cell i 0x0720 s)
      (map of_nat [unat (1920 :: u32)..<unat (2000 :: u32)]) ?c"
    unfolding scroll_blank_def word_range_def nums by (rule refl)
  then have "cell ?b j = (if 1920 \<le> unat j \<and> unat j < 2000 then 0x0720 else cell ?c j)" if "j < 2000" for j
    using scroll_blank_range [of "unat (2000 :: u32)" j "0x0720" "unat (1920 :: u32)" ?c] that by simp
  then have bc: "cell ?b j = (if j < 1920 then cell s (j + 80) else 0x0720)" if "j < 2000" for j
    using c(2) [OF that] that by (auto simp: word_less_nat_alt)
  have s: "scroll s = ?b\<lparr>crt_pos := crt_pos ?b - 80\<rparr>"
    using assms(2) by (simp add: scroll_def Let_def)
  show "crt_pos (scroll s) = crt_pos s - 80" "crt_buf (scroll s) = crt_buf s" "backed (scroll s) = backed s"
    using b c(1) by (simp_all add: s same_frame_def)
  show "j < 2000 \<Longrightarrow> cell (scroll s) j = (if j < 1920 then cell s (j + 80) else 0x0720)"
    using bc [of j] by (simp add: s cell_def cell_addr_def)
qed

lemma scroll_none: "crt_pos s < 2000 \<Longrightarrow> scroll s = s"
  by (simp add: scroll_def not_le)

subsection \<open>One character\<close>

lemma mod_down: "unat (p - p mod 80) = unat p - unat p mod 80" for p :: u16
proof -
  have "p mod 80 \<le> p" by (simp add: word_le_nat_alt unat_mod_distrib)
  then show ?thesis by (simp add: unat_sub unat_mod_distrib)
qed

lemma cga_char_pos:
  assumes "crt_pos s < 2000"
  shows "unat (crt_pos (cga_char c s)) \<le> 2000" "crt_buf (cga_char c s) = crt_buf s"
    "backed (cga_char c s) = backed s"
proof -
  have p: "unat (crt_pos s) < 2000" using assms by (simp add: word_less_nat_alt)
  have up: "unat (crt_pos s + 80) = unat (crt_pos s) + 80" "unat (crt_pos s + 1) = unat (crt_pos s) + 1"
    using p by (simp_all add: unat_word_ariths)
  have line: "x - x mod 80 \<le> 2000" if "x < 2080" for x :: nat
  proof -
    have "x div 80 < 26" using that by (intro less_mult_imp_div_less) simp
    then show ?thesis by (simp add: minus_mod_eq_mult_div)
  qed
  have down: "unat (crt_pos s - 1) \<le> 2000" if "0 < crt_pos s"
    using count_down [OF that] p by simp
  show "unat (crt_pos (cga_char c s)) \<le> 2000"
    using p up line [of "unat (crt_pos s) + 80"] down by (auto simp: cga_char_def Let_def mod_down)
  show "crt_buf (cga_char c s) = crt_buf s" "backed (cga_char c s) = backed s"
    by (simp_all add: cga_char_def Let_def)
qed

lemma screen_ok_same: "same_screen s t \<Longrightarrow> screen_ok s = screen_ok t"
  by (simp add: same_screen_def screen_ok_def crt_ok_def cell_addr_def)

lemma cga_step_ok:
  assumes "screen_ok s"
  shows "screen_ok (move_cursor (scroll (cga_char c s)))"
proof -
  have p: "crt_pos s < 2000" and b: "\<forall>i < 2000. backed s (cell_addr s i)"
    using assms by (simp_all add: screen_ok_def crt_ok_def)
  let ?t = "cga_char c s"
  have t: "unat (crt_pos ?t) \<le> 2000" "\<forall>i < 2000. backed ?t (cell_addr ?t i)"
    using cga_char_pos [OF p, of c] b by (simp_all add: cell_addr_def)
  have "screen_ok (scroll ?t)"
  proof (cases "crt_pos ?t < 2000")
    case True
    then show ?thesis using t by (simp add: scroll_none screen_ok_def crt_ok_def)
  next
    case False
    then have "2000 \<le> crt_pos ?t" by simp
    moreover from this have "crt_pos ?t = 2000" using t(1) by (simp add: word_le_nat_alt word_unat_eq_iff)
    ultimately show ?thesis
      using scroll_cells(1-3) [OF t(2)] t(2) by (simp add: screen_ok_def crt_ok_def cell_addr_def)
  qed
  then show ?thesis using screen_ok_same [OF move_cursor_screen] by simp
qed

lemma cga_putc_ok: "screen_ok s \<Longrightarrow> screen_ok (cga_putc c s)"
proof -
  have char: "screen_ok (cga_putc c s)" if "screen_ok s" "with_attribute c AND 0xFF \<noteq> 0x09" for c s
    using that cga_step_ok [OF that(1)] by (subst cga_putc.simps) simp
  have blank: "screen_ok (cga_putc 0x20 (lpt_putc 0x20 s))" if "screen_ok s" for s
    using char [of "lpt_putc 0x20 s" "0x20"] that screen_ok_same [OF lpt_putc_screen]
    by (simp add: with_attribute_def)
  have idem: "screen_ok (move_cursor (scroll s))" if "screen_ok s" for s
    using that scroll_none screen_ok_same [OF move_cursor_screen] by (simp add: screen_ok_def crt_ok_def)
  assume "screen_ok s"
  then show "screen_ok (cga_putc c s)"
  proof (cases "with_attribute c AND 0xFF = 0x09")
    case True
    then show ?thesis
      using blank \<open>screen_ok s\<close> idem
      by (subst cga_putc.simps) (simp add: eval_nat_numeral)
  qed (rule char)
qed

text \<open>Writing the cell under the cursor, moving on and scrolling at the end of the display.\<close>

lemma put_and_scroll:
  fixes v :: u16
  assumes "screen_ok s"
  defines "q \<equiv> ucast (crt_pos s) :: u32"
  defines "t \<equiv> scroll ((put_cell q v s)\<lparr>crt_pos := crt_pos s + 1\<rparr>)"
  shows "if q < 1999
    then crt_pos t = crt_pos s + 1 \<and> (\<forall>i < 2000. cell t i = (if i = q then v else cell s i))
    else crt_pos t = 1920 \<and> (\<forall>i < 2000. cell t i =
      (if i = 1919 then v else if i < 1920 then cell s (i + 80) else 0x0720))"
proof -
  let ?u = "(put_cell q v s)\<lparr>crt_pos := crt_pos s + 1\<rparr>"
  have b: "\<forall>i < 2000. backed s (cell_addr s i)" and p: "crt_pos s < 2000"
    using assms(1) by (simp_all add: screen_ok_def crt_ok_def)
  have q: "q < 2000" "unat q = unat (crt_pos s)"
    using p by (simp_all add: q_def word_less_nat_alt unsigned_ucast_eq take_bit_nat_eq_self)
  have cu: "cell ?u j = (if j = q then v else cell s j)" if "j < 2000" for j
    using cell_put [OF q(1) that, of v s] by (simp add: cell_def cell_addr_def)
  have bu: "\<forall>i < 2000. backed ?u (cell_addr ?u i)" using b by (simp add: cell_addr_def)
  have pos: "unat (crt_pos ?u) = unat (crt_pos s) + 1"
    using p by (simp add: unat_word_ariths word_less_nat_alt)
  show ?thesis
  proof (cases "q < 1999")
    case True
    then have "crt_pos ?u < 2000" using pos q(2) by (simp add: word_less_nat_alt)
    then have "t = ?u" unfolding t_def by (rule scroll_none)
    then show ?thesis using True cu by simp
  next
    case False
    then have q': "q = 1999" using q(1) by (simp add: word_less_nat_alt word_unat_eq_iff)
    then have pu: "crt_pos ?u = 2000" using pos q(2) by (simp add: word_unat_eq_iff)
    have sc: "crt_pos t = 1920" "\<And>j. j < 2000 \<Longrightarrow> cell t j = (if j < 1920 then cell ?u (j + 80) else 0x0720)"
      using scroll_cells [OF bu] pu by (simp_all add: t_def)
    have "cell t j = (if j = 1919 then v else cell s (j + 80))" if "j < 1920" for j
    proof -
      have "j + 80 < 2000" "j + 80 = 1999 \<longleftrightarrow> j = 1919" "j < 2000"
        using that by (simp_all add: word_less_nat_alt unat_word_ariths word_unat_eq_iff)
      then show ?thesis using that sc(2) cu [of "j + 80"] q' by simp
    qed
    moreover have "cell t j = 0x0720" if "j < 2000" "\<not> j < 1920" for j using sc(2) that by simp
    moreover have "i \<noteq> 1919" if "\<not> i < 1920" for i :: u32 using that by auto
    ultimately have "cell t j = (if j = 1919 then v else if j < 1920 then cell s (j + 80) else 0x0720)"
      if "j < 2000" for j using that by (cases "j < 1920") (simp_all del: not_less)
    then show ?thesis using q' sc(1) by simp
  qed
qed

text \<open>
  C36: the display. Whatever character \<^verbatim>\<open>cons_putc\<close> is given, the cursor stays inside the 25 by
  80 cells, so no write leaves the buffer. A character that is not a control character is
  written, with its attribute, at the cursor, which moves on by one, and no other cell
  changes; at the last cell of the display all rows move up by one, the last row is blanked
  and the cursor goes to its start.
\<close>

theorem cons_putc_correct:
  assumes "screen_ok s"
  shows "screen_ok (cons_putc c s) \<and>
    (with_attribute c AND 0xFF \<notin> {0x08, 0x09, 0x0A, 0x0D} \<longrightarrow>
      (let p = ucast (crt_pos s); v = ucast (with_attribute c); t = cons_putc c s
       in if p < 1999
          then crt_pos t = crt_pos s + 1 \<and> (\<forall>i < 2000. cell t i = (if i = p then v else cell s i))
          else crt_pos t = 1920 \<and> (\<forall>i < 2000. cell t i =
            (if i = 1919 then v else if i < 1920 then cell s (i + 80) else 0x0720))))"
proof -
  let ?s = "lpt_putc c s" and ?c = "with_attribute c"
  note e = lpt_putc_screen [of c s]
  have s: "screen_ok ?s" "crt_pos ?s = crt_pos s" "cell ?s = cell s"
    using screen_ok_same [OF e] cell_same_screen [OF e] assms e by (simp_all add: same_screen_def)
  have ok: "screen_ok (cons_putc c s)"
    unfolding cons_putc_def by (rule cga_putc_ok [OF s(1)])
  show ?thesis
  proof (intro conjI impI)
    assume c: "?c AND 0xFF \<notin> {0x08, 0x09, 0x0A, 0x0D}"
    let ?u = "(put_cell (ucast (crt_pos s)) (ucast ?c) ?s)\<lparr>crt_pos := crt_pos s + 1\<rparr>"
    have u: "cga_char ?c ?s = ?u" using c s(2) by (simp add: cga_char_def)
    have t: "same_screen (cons_putc c s) (scroll ?u)"
      using c move_cursor_screen [of "scroll ?u"]
      unfolding cons_putc_def by (subst cga_putc.simps) (simp add: u)
    then have "crt_pos (cons_putc c s) = crt_pos (scroll ?u)" by (simp add: same_screen_def)
    with put_and_scroll [OF s(1), of "ucast ?c"]
    show "let p = ucast (crt_pos s); v = ucast ?c; t = cons_putc c s
       in if p < 1999
          then crt_pos t = crt_pos s + 1 \<and> (\<forall>i < 2000. cell t i = (if i = p then v else cell s i))
          else crt_pos t = 1920 \<and> (\<forall>i < 2000. cell t i =
            (if i = 1919 then v else if i < 1920 then cell s (i + 80) else 0x0720))"
      unfolding Let_def s(2,3) cell_same_screen [OF t] by (simp only:)
  qed (rule ok)
qed

text \<open>A console whose parallel port is ready and whose keyboard has one byte, the key \<^verbatim>\<open>a\<close>.\<close>

definition console_example :: console where
  "console_example = \<lparr>script = (\<lambda>p n. if p = 0x64 then (if n = 0 then 1 else 0)
       else if p = 0x60 then 0x1E else 0x80), reads = (\<lambda>_. 0), writes = [],
     serial_exists = False, vmem = (\<lambda>_. 0x0720), backed = (\<lambda>_. True), open_bus = 0xFFFF,
     addr_6845 = 0x3D4, crt_buf = 0xF00B8000, crt_pos = 1999, shift = 1, cons_buf = (\<lambda>_. 0),
     rpos = 510, wpos = 510\<rparr>"

theorem cons_putc_correct_witness:
  "crt_pos (cons_putc 0x41 console_example) = 1920 \<and> cell (cons_putc 0x41 console_example) 1919 = 0x0741 \<and>
   cell (cons_putc 0x41 console_example) 1999 = 0x0720"
proof -
  have "screen_ok console_example" by (simp add: screen_ok_def crt_ok_def console_example_def)
  moreover have "with_attribute 0x41 = 0x741" by (simp add: with_attribute_def)
  moreover have "crt_pos console_example = 1999" by (simp add: console_example_def)
  ultimately show ?thesis using cons_putc_correct [of console_example "0x41"] by (simp add: Let_def)
qed

section \<open>The input buffer is a queue\<close>

text \<open>What a producer and a consumer of characters rely on.\<close>

fun take_many :: "('s \<Rightarrow> 'c \<times> 's) \<Rightarrow> nat \<Rightarrow> 's \<Rightarrow> 'c list \<times> 's" where
  "take_many get 0 s = ([], s)"
| "take_many get (Suc n) s = (let (c, s1) = get s; (cs, s2) = take_many get n s1 in (c # cs, s2))"

locale fifo =
  fixes put :: "'c \<Rightarrow> 's \<Rightarrow> 's" and get :: "'s \<Rightarrow> 'c \<times> 's" and contents :: "'s \<Rightarrow> 'c list"
    and ok :: "'s \<Rightarrow> bool" and room :: nat
  assumes put_law: "ok s \<Longrightarrow> length (contents s) < room \<Longrightarrow>
      ok (put c s) \<and> contents (put c s) = contents s @ [c]"
    and get_law: "ok s \<Longrightarrow> contents s = c # cs \<Longrightarrow> \<exists>s'. get s = (c, s') \<and> ok s' \<and> contents s' = cs"
begin

lemma put_all:
  "ok s \<Longrightarrow> length (contents s) + length cs \<le> room \<Longrightarrow>
    ok (fold put cs s) \<and> contents (fold put cs s) = contents s @ cs"
proof (induction cs arbitrary: s)
  case (Cons c cs)
  have "ok (put c s) \<and> contents (put c s) = contents s @ [c]"
    using Cons.prems by (intro put_law) simp_all
  then show ?case using Cons.IH [of "put c s"] Cons.prems by simp
qed simp

lemma take_all:
  "ok s \<Longrightarrow> contents s = cs @ ds \<Longrightarrow>
    \<exists>s'. take_many get (length cs) s = (cs, s') \<and> ok s' \<and> contents s' = ds"
proof (induction cs arbitrary: s)
  case (Cons c cs)
  then obtain s1 where s1: "get s = (c, s1)" "ok s1" "contents s1 = cs @ ds"
    using get_law [of s c "cs @ ds"] by auto
  then show ?case using Cons.IH [of s1] by auto
qed simp

lemma in_order:
  assumes "ok s" "contents s = []" "length cs \<le> room"
  obtains s' where "take_many get (length cs) (fold put cs s) = (cs, s')" "ok s'" "contents s' = []"
  using put_all [of s cs] take_all [of "fold put cs s" cs "[]"] assms by auto

end

definition ring_index :: "nat \<Rightarrow> nat \<Rightarrow> nat" where
  "ring_index r i = (if r + i < 512 then r + i else r + i - 512)"

definition ring_length :: "nat \<Rightarrow> nat \<Rightarrow> nat" where
  "ring_length r w = (if r \<le> w then w - r else w + 512 - r)"

definition pending :: "console \<Rightarrow> u8 list" where
  "pending s = map (\<lambda>i. cons_buf s (of_nat (ring_index (unat (rpos s)) i)))
    [0..<ring_length (unat (rpos s)) (unat (wpos s))]"

definition ring_ok :: "console \<Rightarrow> bool" where
  "ring_ok s \<longleftrightarrow> rpos s < CONSBUFSIZE \<and> wpos s < CONSBUFSIZE"

lemma cons_put_fields:
  assumes "ring_ok s"
  shows "rpos (cons_put c s) = rpos s" "cons_buf (cons_put c s) = (cons_buf s)(wpos s := c)"
    "unat (wpos (cons_put c s)) = (if unat (wpos s) = 511 then 0 else unat (wpos s) + 1)"
proof -
  have w: "unat (wpos s) < 512" using assms by (simp add: ring_ok_def word_less_nat_alt)
  then have "unat (wpos s + 1) = unat (wpos s) + 1" by (simp add: unat_word_ariths)
  then show "rpos (cons_put c s) = rpos s" "cons_buf (cons_put c s) = (cons_buf s)(wpos s := c)"
    "unat (wpos (cons_put c s)) = (if unat (wpos s) = 511 then 0 else unat (wpos s) + 1)"
    by (auto simp: cons_put_def Let_def word_unat_eq_iff)
qed

lemma cons_put_ring:
  assumes "ring_ok s"
  shows "ring_ok (cons_put c s)"
    "length (pending s) < 511 \<Longrightarrow> pending (cons_put c s) = pending s @ [c]"
    "length (pending s) = 511 \<Longrightarrow> pending (cons_put c s) = []"
proof -
  let ?r = "unat (rpos s)" and ?w = "unat (wpos s)"
  have rw: "?r < 512" "?w < 512" using assms by (simp_all add: ring_ok_def word_less_nat_alt)
  note F = cons_put_fields [OF assms, of c]
  show "ring_ok (cons_put c s)" using rw F by (auto simp: ring_ok_def word_less_nat_alt)
  have len: "length (pending s) = ring_length ?r ?w" by (simp add: pending_def)
  show "pending (cons_put c s) = []" if "length (pending s) = 511"
    using that rw unfolding len by (auto simp: pending_def F ring_length_def split: if_splits)
  assume small: "length (pending s) < 511"
  have up: "ring_length ?r (if ?w = 511 then 0 else ?w + 1) = Suc (ring_length ?r ?w)"
    using small rw unfolding len by (auto simp: ring_length_def split: if_splits)
  have at: "ring_index ?r (ring_length ?r ?w) = ?w"
    using rw by (auto simp: ring_index_def ring_length_def)
  have other: "ring_index ?r i \<noteq> ?w" "ring_index ?r i < 512" if "i < ring_length ?r ?w" for i
    using that rw by (auto simp: ring_index_def ring_length_def split: if_splits)
  have old: "((cons_buf s)(wpos s := c)) (of_nat (ring_index ?r i)) = cons_buf s (of_nat (ring_index ?r i))"
    if "i < ring_length ?r ?w" for i
  proof -
    have "unat (of_nat (ring_index ?r i) :: u32) = ring_index ?r i"
      using other(2) [OF that] by (simp add: unat_of_nat)
    then have "of_nat (ring_index ?r i) \<noteq> wpos s" using other(1) [OF that] by auto
    then show ?thesis by simp
  qed
  have "pending (cons_put c s) = map (\<lambda>i. ((cons_buf s)(wpos s := c)) (of_nat (ring_index ?r i)))
      ([0..<ring_length ?r ?w] @ [ring_length ?r ?w])"
    by (simp only: pending_def F up upt_Suc_append [OF le0])
  also have "\<dots> = pending s @ [c]"
    using old at by (simp add: pending_def)
  finally show "pending (cons_put c s) = pending s @ [c]" .
qed

lemma cons_take_ring:
  assumes "ring_ok s" "pending s = c # cs"
  shows "\<exists>s'. cons_take s = (c, s') \<and> ring_ok s' \<and> pending s' = cs"
proof -
  let ?r = "unat (rpos s)" and ?w = "unat (wpos s)"
  have rw: "?r < 512" "?w < 512" using assms(1) by (simp_all add: ring_ok_def word_less_nat_alt)
  have "ring_length ?r ?w \<noteq> 0"
    using arg_cong [OF assms(2), of length] by (simp add: pending_def)
  then obtain n where n: "ring_length ?r ?w = Suc n" by (cases "ring_length ?r ?w") auto
  have ne: "rpos s \<noteq> wpos s" using n by (auto simp: ring_length_def)
  have ix: "ring_index ?r 0 = ?r" using rw by (simp add: ring_index_def)
  have all: "pending s = cons_buf s (rpos s) # map (\<lambda>i. cons_buf s (of_nat (ring_index ?r (Suc i)))) [0..<n]"
    unfolding pending_def n upt_conv_Cons [OF zero_less_Suc] map_Suc_upt [symmetric] by (simp add: ix)
  define s' where "s' = snd (cons_take s)"
  have r': "unat (rpos s + 1) = ?r + 1" using rw by (simp add: unat_word_ariths)
  have F: "cons_take s = (cons_buf s (rpos s), s')" "wpos s' = wpos s" "cons_buf s' = cons_buf s"
    "unat (rpos s') = (if ?r = 511 then 0 else ?r + 1)"
    using ne r' by (auto simp: s'_def cons_take_def Let_def word_unat_eq_iff)
  have len: "ring_length (if ?r = 511 then 0 else ?r + 1) ?w = n"
    using n rw by (auto simp: ring_length_def split: if_splits)
  have idx: "ring_index (if ?r = 511 then 0 else ?r + 1) i = ring_index ?r (Suc i)" if "i < n" for i
    using that n rw by (auto simp: ring_index_def ring_length_def split: if_splits)
  have "pending s' = map (\<lambda>i. cons_buf s (of_nat (ring_index ?r (Suc i)))) [0..<n]"
    unfolding pending_def F len using idx by simp
  moreover have "ring_ok s'" using rw F by (auto simp: ring_ok_def word_less_nat_alt)
  ultimately show ?thesis using all assms(2) F(1) by simp
qed

lemma cons_take_empty: "ring_ok s \<Longrightarrow> pending s = [] \<Longrightarrow> cons_take s = (0, s)"
  by (auto simp: pending_def ring_length_def cons_take_def ring_ok_def word_less_nat_alt word_unat_eq_iff
      split: if_splits)

interpretation ring: fifo cons_put cons_take pending ring_ok 511
  by unfold_locales (auto simp: cons_put_ring cons_take_ring)

text \<open>
  C37: the input buffer hands out the characters in the order they came. Up to 511 characters
  stored into an empty buffer are given back by as many reads, and then the buffer is empty
  again and a read gives 0. The 512th character makes the two positions meet, and all
  512 are lost: the buffer cannot tell full from empty.
\<close>

theorem input_buffer_fifo:
  assumes "ring_ok s" "pending s = []"
  shows "(length cs \<le> 511 \<longrightarrow> (\<exists>s'. take_many cons_take (length cs) (fold cons_put cs s) = (cs, s') \<and>
      cons_take s' = (0, s'))) \<and>
    (length cs = 512 \<longrightarrow> cons_take (fold cons_put cs s) = (0, fold cons_put cs s))"
proof (intro conjI impI)
  assume "length cs \<le> 511"
  then show "\<exists>s'. take_many cons_take (length cs) (fold cons_put cs s) = (cs, s') \<and> cons_take s' = (0, s')"
    using ring.in_order [OF assms] cons_take_empty by metis
next
  assume len: "length cs = 512"
  then obtain ds c where cs: "cs = ds @ [c]" "length ds = 511"
    by (cases cs rule: rev_cases) auto
  have d: "ring_ok (fold cons_put ds s)" "pending (fold cons_put ds s) = ds"
    using ring.put_all [OF assms(1), of ds] assms(2) cs(2) by simp_all
  then have "ring_ok (fold cons_put cs s)" "pending (fold cons_put cs s) = []"
    using cons_put_ring(1,3) [OF d(1), of c] cs by simp_all
  then show "cons_take (fold cons_put cs s) = (0, fold cons_put cs s)" by (rule cons_take_empty)
qed

theorem input_buffer_fifo_witness:
  "\<exists>s'. take_many cons_take 3 (fold cons_put [104, 105, 10] console_example) = ([104, 105, 10], s')"
proof -
  have "ring_ok console_example" "pending console_example = []"
    by (simp_all add: ring_ok_def pending_def ring_length_def console_example_def)
  from input_buffer_fifo [OF this, of "[104, 105, 10]"] show ?thesis by (auto simp: eval_nat_numeral)
qed

section \<open>Letters on the keyboard\<close>

definition is_letter :: "u8 \<Rightarrow> bool" where
  "is_letter c \<longleftrightarrow> 0x61 \<le> c \<and> c \<le> 0x7A"

lemma shift_tables: "list_all2 (\<lambda>a b. is_letter a \<longrightarrow> b = a - 0x20) normalmap_low shiftmap_low"
  by (simp add: normalmap_low_def shiftmap_low_def is_letter_def)

lemma letter_key:
  assumes "d < 0x80" "is_letter (normalmap d)"
  shows "shiftmap d = normalmap d - 0x20" "shiftcode d = 0" "togglecode d = 0"
proof -
  have low: "unat d < length normalmap_low"
  proof (rule ccontr)
    assume "\<not> unat d < length normalmap_low"
    then have "normalmap d = 0" using assms(1) by (auto simp: normalmap_def)
    then show False using assms(2) by (simp add: is_letter_def)
  qed
  then show "shiftmap d = normalmap d - 0x20"
    using assms(2) list_all2_nthD [OF shift_tables low] list_all2_lengthD [OF shift_tables]
    by (simp add: normalmap_def shiftmap_def)
  have "normalmap 0x1D = 0" "normalmap 0x2A = 0" "normalmap 0x36 = 0" "normalmap 0x38 = 0"
    "normalmap 0x3A = 0" "normalmap 0x45 = 0" "normalmap 0x46 = 0"
    by (simp_all add: normalmap_def normalmap_low_def)
  then show "shiftcode d = 0" "togglecode d = 0"
    using assms by (auto simp: shiftcode_def togglecode_def is_letter_def)
qed

lemma and_bit: "n < LENGTH('a) \<Longrightarrow> x AND 2 ^ n = 0 \<longleftrightarrow> \<not> bit x n" for x :: "'a::len word"
proof -
  assume n: "n < LENGTH('a)"
  have "(x AND 2 ^ n) = (if bit x n then 2 ^ n else 0)"
    by (intro bit_word_eqI) (auto simp: bit_simps bit_exp_iff)
  then show ?thesis using n by (simp add: bit_exp_iff)
qed

lemma caps_letter:
  assumes "is_letter c"
  shows "caps (uint c) = uint (c - 0x20)" "caps (uint (c - 0x20)) = uint c"
proof -
  have c: "97 \<le> uint c" "uint c \<le> 122"
    using assms by (simp_all add: is_letter_def word_le_def)
  then have "uint (c - 0x20) = uint c - 32" by (subst uint_sub_if') simp
  then show "caps (uint c) = uint (c - 0x20)" "caps (uint (c - 0x20)) = uint c"
    using c by (simp_all add: caps_def)
qed

text \<open>
  Letters. When the keyboard has a byte, the byte is the code of a letter key, the byte before
  was not an escape and control is up, \<^verbatim>\<open>kbd_proc_data\<close> returns the small letter of the key if
  shift and caps lock agree and the capital letter otherwise, and the modifiers stay as they
  are.
\<close>

theorem kbd_letters:
  assumes "script s 0x64 (reads s 0x64) AND 1 \<noteq> 0" "script s 0x60 (reads s 0x60) < 0x80"
    "is_letter (normalmap (script s 0x60 (reads s 0x60)))" "\<not> bit (shift s) 1" "\<not> bit (shift s) 6"
  shows "let (c, s') = kbd_proc_data s; key = normalmap (script s 0x60 (reads s 0x60))
    in c = uint (if bit (shift s) 0 = bit (shift s) 3 then key else key - 0x20) \<and> shift s' = shift s"
proof -
  define d where "d = script s 0x60 (reads s 0x60)"
  define key where "key = normalmap d"
  have d: "d < 0x80" "is_letter key" using assms(2,3) by (simp_all add: d_def key_def)
  note L = letter_key [OF d(1) d(2) [unfolded key_def], folded key_def]
  have "d div 128 = 0" using d(1) by (simp add: word_unat_eq_iff unat_div word_less_nat_alt)
  then have "\<not> bit d 7" by (simp add: bit_iff_odd)
  then have hi: "d AND 0x80 = 0" using and_bit [of 7 d] by simp
  have e0: "d \<noteq> 0xE0" using d(1) by auto
  have esc: "shift s AND 64 = 0" using and_bit [of 6 "shift s"] assms(5) by simp
  have capsb: "shift s AND 8 \<noteq> 0 \<longleftrightarrow> bit (shift s) 3" using and_bit [of 3 "shift s"] by simp
  have ctl: "shift s AND 2 = 0" using and_bit [of 1 "shift s"] assms(4) by simp
  have code: "charcode (shift s) d = (if bit (shift s) 0 then key - 0x20 else key)"
  proof -
    have "shift s AND mask 2 = (if bit (shift s) 0 then 1 else 0)"
      using assms(4) by (intro bit_word_eqI) (auto simp: bit_simps bit_1_iff less_2_cases_iff intro!: gr0I)
    then have "shift s AND (2 OR 1) = (if bit (shift s) 0 then 1 else 0)"
      by (simp add: mask_eq_exp_minus_1)
    then show ?thesis using L(1) by (auto simp: charcode_def key_def)
  qed
  have six: "\<not> (NOT (shift s) AND (2 OR 4) = 0)"
  proof
    assume "NOT (shift s) AND (2 OR 4) = 0"
    then have "\<not> bit (NOT (shift s) AND (2 OR 4)) 1" by simp
    then show False using assms(4) by (simp add: bit_simps)
  qed
  show ?thesis
    using assms(1) e0 hi esc capsb code L(2,3) caps_letter [OF d(2)] six
    by (simp add: kbd_proc_data_def inb_def Let_def d_def [symmetric] key_def [symmetric])
qed

theorem kbd_letters_witness:
  "fst (kbd_proc_data console_example) = 0x41"
proof -
  have "normalmap 0x1E = 0x61" by (simp add: normalmap_def normalmap_low_def)
  then show ?thesis
    using kbd_letters [of console_example]
    by (simp add: console_example_def is_letter_def case_prod_unfold bit_1_iff Let_def)
qed

text \<open>
  \<^verbatim>\<open>kbd_proc_data\<close> returns \<open>-1\<close> exactly when the keyboard has no byte; otherwise the result is a
  byte value, 0 for a key that makes no character, so what \<^verbatim>\<open>cons_intr\<close> stores is what the
  keyboard produced.
\<close>

theorem kbd_result_range:
  "if script s 0x64 (reads s 0x64) AND 1 = 0 then fst (kbd_proc_data s) = -1
   else 0 \<le> fst (kbd_proc_data s) \<and> fst (kbd_proc_data s) < 256"
proof -
  have u: "0 \<le> uint c \<and> uint c < 256" for c :: u8
    using uint_lt2p [of c] by simp
  then have "0 \<le> caps (uint c) \<and> caps (uint c) < 256" for c :: u8
    using u [of c] by (auto simp: caps_def)
  with u show ?thesis by (simp add: kbd_proc_data_def inb_def Let_def case_prod_unfold)
qed

end
