(* ===== verification/FOS_Kernel.thy ===== *)
theory FOS_Kernel
  imports FOS_Cpu FOS_Paging FOS_Printfmt FOS_Console
begin

text \<open>
  The state of the whole kernel, for the components that use several of the others: the
  structures of \<^verbatim>\<open>inc/environment_definitions.h\<close> and \<^verbatim>\<open>inc/trap.h\<close>, the program table of
  \<^verbatim>\<open>kern/user_environment.h\<close>, and \<^verbatim>\<open>cprintf\<close> on the console. A \<^verbatim>\<open>struct Env *\<close> is its index in \<^verbatim>\<open>envs\<close>;
  null is \<open>None\<close>. An \<^verbatim>\<open>int32\<close> is kept as its 32-bit pattern.
\<close>

section \<open>Saved registers\<close>

record PushRegs =
  reg_edi :: u32
  reg_esi :: u32
  reg_ebp :: u32
  reg_oesp :: u32
  reg_ebx :: u32
  reg_edx :: u32
  reg_ecx :: u32
  reg_eax :: u32

record Trapframe =
  tf_regs :: PushRegs
  tf_es :: u16
  tf_padding1 :: u16
  tf_ds :: u16
  tf_padding2 :: u16
  tf_trapno :: u32
  tf_err :: u32
  tf_eip :: u32
  tf_cs :: u16
  tf_padding3 :: u16
  tf_eflags :: u32
  tf_esp :: u32
  tf_ss :: u16
  tf_padding4 :: u16

section \<open>Environments\<close>

definition LOG2NENV :: nat where [simp]: "LOG2NENV = 10"
definition NENV :: u32 where [simp]: "NENV = 2 ^ LOG2NENV"

definition ENVX :: "u32 \<Rightarrow> u32" where
  "ENVX envid = envid AND (NENV - 1)"

definition ENV_FREE :: u32 where [simp]: "ENV_FREE = 0"
definition ENV_RUNNABLE :: u32 where [simp]: "ENV_RUNNABLE = 1"
definition ENV_NOT_RUNNABLE :: u32 where [simp]: "ENV_NOT_RUNNABLE = 2"

text \<open>The list links \<^verbatim>\<open>prev_next_info\<close> of an environment are part of \<open>env_free_list\<close> below.\<close>

record Env =
  env_tf :: Trapframe
  env_id :: u32
  env_parent_id :: u32
  env_status :: u32
  env_runs :: u32
  env_pgdir :: u32
  env_cr3 :: u32

text \<open>\<^verbatim>\<open>name\<close> and \<^verbatim>\<open>desc\<close> point to strings, \<^verbatim>\<open>ptr_start\<close> to the image of the program.\<close>

record UserProgramInfo =
  name :: u32
  desc :: u32
  ptr_start :: u32
  environment :: "u32 option"

section \<open>The kernel\<close>

text \<open>
  \<open>mm\<close> is the memory manager and \<open>con\<close> the console; \<open>bytes\<close> is the memory that holds strings and
  program images. \<open>cr0\<close>, \<open>cr2\<close> and \<open>cr3\<close> are the control registers and \<open>segment_regs\<close> the segment
  registers; \<open>frames_info\<close> and \<open>envs_base\<close> the addresses of the two arrays.
\<close>

record kernel =
  mm :: mm_state
  con :: console
  bytes :: bmem
  envs :: "u32 \<Rightarrow> Env"
  env_free_list :: "u32 Linked_List"
  curenv :: "u32 option"
  userPrograms :: "UserProgramInfo list"
  ptr_page_directory :: u32
  phys_page_directory :: u32
  frames_info :: u32
  envs_base :: u32
  cr0 :: u32
  cr2 :: u32
  cr3 :: u32
  segment_regs :: segments

text \<open>The control registers.\<close>

definition lcr0 :: "u32 \<Rightarrow> 'a kernel_scheme \<Rightarrow> 'a kernel_scheme" where [simp]: "lcr0 val s = s\<lparr>cr0 := val\<rparr>"
definition rcr0 :: "'a kernel_scheme \<Rightarrow> u32" where [simp]: "rcr0 s = cr0 s"
definition rcr2 :: "'a kernel_scheme \<Rightarrow> u32" where [simp]: "rcr2 s = cr2 s"
definition rcr3 :: "'a kernel_scheme \<Rightarrow> u32" where [simp]: "rcr3 s = cr3 s"
definition lcr3 :: "u32 \<Rightarrow> 'a kernel_scheme \<Rightarrow> 'a kernel_scheme" where [simp]: "lcr3 val s = s\<lparr>cr3 := val\<rparr>"

definition update_env :: "u32 \<Rightarrow> (Env \<Rightarrow> Env) \<Rightarrow> kernel \<Rightarrow> kernel" where
  "update_env e f s = s\<lparr>envs := (envs s)(e := f (envs s e))\<rparr>"

text \<open>Running an operation of the memory manager.\<close>

definition on_mm :: "('a \<times> mm_state) res \<Rightarrow> kernel \<Rightarrow> ('a \<times> kernel) res" where
  "on_mm r s = bind_res r (\<lambda>(x, m). Inr (x, s\<lparr>mm := m\<rparr>))"

definition on_mm_unit :: "mm_state res \<Rightarrow> kernel \<Rightarrow> kernel res" where
  "on_mm_unit r s = bind_res r (\<lambda>m. Inr (s\<lparr>mm := m\<rparr>))"

text \<open>\<^verbatim>\<open>cprintf\<close> with the words of its arguments; what it returns is never used.\<close>

definition cprintf :: "string \<Rightarrow> u32 list \<Rightarrow> kernel \<Rightarrow> kernel res" where
  "cprintf fmt args s =
    bind_res (loop_res (kern_vcprintf cputchar (bytes s) (ascii fmt)
        (\<lambda>i. if i < length args then args ! i else 0) (con s)))
      (\<lambda>(n, c). Inr (s\<lparr>con := c\<rparr>))"

lemma cprintf_returns:
  assumes "has_nul (bytes s)"
  shows "\<exists>cs. cprintf fmt args s = Inr (s\<lparr>con := fold cputchar cs (con s)\<rparr>)"
proof -
  obtain cs where "kern_vcprintf cputchar (bytes s) (ascii fmt)
      (\<lambda>i. if i < length args then args ! i else 0) (con s) = Some (0, fold cputchar cs (con s))"
    using vprintfmt_returns [OF assms, of "kern_putch cputchar" "ascii fmt" _ 0 0 "(con s, 0)"]
      vprintfmt_sink [of "kern_putch cputchar" "bytes s" "ascii fmt" _ "(con s, 0)"]
    by (fastforce simp: kern_vcprintf_def vprintfmt_def kern_putch_fold)
  then have "cprintf fmt args s = Inr (s\<lparr>con := fold cputchar cs (con s)\<rparr>)"
    by (simp add: cprintf_def)
  then show ?thesis ..
qed

section \<open>How a routine gives up control\<close>

text \<open>
  Besides returning or stopping, a routine of the kernel can enter user mode with the registers of a
  trap frame, or run the command prompt and never return to its caller.
\<close>

datatype 'a outcome =
    Returned 'a kernel
  | Entered_user Trapframe kernel
  | Entered_prompt kernel
  | Stopped stop

definition returning :: "('a \<times> kernel) res \<Rightarrow> 'a outcome" where
  "returning r = (case r of Inl e \<Rightarrow> Stopped e | Inr (x, s) \<Rightarrow> Returned x s)"

lemma returning_simps [simp]: "returning (Inl e) = Stopped e" "returning (Inr (x, s)) = Returned x s"
  by (simp_all add: returning_def)

fun and_then :: "'a outcome \<Rightarrow> ('a \<Rightarrow> kernel \<Rightarrow> 'b outcome) \<Rightarrow> 'b outcome" where
  "and_then (Returned x s) k = k x s"
| "and_then (Entered_user tf s) k = Entered_user tf s"
| "and_then (Entered_prompt s) k = Entered_prompt s"
| "and_then (Stopped e) k = Stopped e"

section \<open>Before initialisation\<close>

text \<open>A trap frame of zeros, as \<^verbatim>\<open>memset\<close> leaves it.\<close>

definition zero_trapframe :: Trapframe where
  "zero_trapframe =
    \<lparr>tf_regs = \<lparr>reg_edi = 0, reg_esi = 0, reg_ebp = 0, reg_oesp = 0, reg_ebx = 0, reg_edx = 0,
       reg_ecx = 0, reg_eax = 0\<rparr>,
     tf_es = 0, tf_padding1 = 0, tf_ds = 0, tf_padding2 = 0, tf_trapno = 0, tf_err = 0, tf_eip = 0,
     tf_cs = 0, tf_padding3 = 0, tf_eflags = 0, tf_esp = 0, tf_ss = 0, tf_padding4 = 0\<rparr>"

text \<open>A kernel before initialisation, with all memory zero.\<close>

definition zero_env :: Env where
  "zero_env = \<lparr>env_tf = zero_trapframe, env_id = 0, env_parent_id = 0, env_status = 0, env_runs = 0,
    env_pgdir = 0, env_cr3 = 0\<rparr>"

definition kernel_example :: kernel where
  "kernel_example = \<lparr>mm = vm_example, con = console_example, bytes = (\<lambda>_. 0), envs = (\<lambda>_. zero_env),
     env_free_list = empty_list, curenv = None, userPrograms = [], ptr_page_directory = 0xF0001000,
     phys_page_directory = 0x1000, frames_info = 0, envs_base = 0, cr0 = 0, cr2 = 0, cr3 = 0x1000,
     segment_regs = entry_segments \<lparr>selector = 0, cached = SEG_NULL\<rparr> \<lparr>selector = 0, cached = SEG_NULL\<rparr> 0\<rparr>"

end
