(* ===== verification/FOS_Boot.thy ===== *)
theory FOS_Boot
  imports FOS_Kernel
begin

text \<open>
  Building the kernel's address space before the frame allocator exists: the bump allocator
  \<^verbatim>\<open>boot_allocate_space\<close>, \<^verbatim>\<open>boot_get_page_table\<close>, \<^verbatim>\<open>boot_map_range\<close> and \<^verbatim>\<open>initialize_kernel_VM\<close> of
  \<^verbatim>\<open>kern/memory_manager.c\<close>, and \<^verbatim>\<open>check_boot_pgdir\<close>, \<^verbatim>\<open>turn_on_paging\<close> and
  \<^verbatim>\<open>setup_listing_to_all_page_tables_entries\<close> of \<^verbatim>\<open>kern/helpers.c\<close>. What the linker decides, the
  addresses \<^verbatim>\<open>end_of_kernel\<close> and \<^verbatim>\<open>ptr_stack_bottom\<close>, are arguments.
\<close>

section \<open>The operations\<close>

definition boot_allocate_space :: "u32 \<Rightarrow> u32 \<Rightarrow> u32 \<Rightarrow> mm_state \<Rightarrow> u32 \<times> mm_state" where
  "boot_allocate_space end_of_kernel sz align s =
    (let s = (if ptr_free_mem s = 0 then s\<lparr>ptr_free_mem := end_of_kernel\<rparr> else s);
         s = s\<lparr>ptr_free_mem := ROUNDUP (ptr_free_mem s) PAGE_SIZE\<rparr>;
         ptr_allocated_mem = ptr_free_mem s;
         s = s\<lparr>ptr_free_mem := ptr_free_mem s + sz\<rparr>
     in (ptr_allocated_mem, s))"

definition boot_get_page_table ::
    "u32 \<Rightarrow> u32 \<Rightarrow> u32 \<Rightarrow> bool \<Rightarrow> mm_state \<Rightarrow> (u32 \<times> mm_state) res" where
  "boot_get_page_table eok pgdir virtual_address create s =
    (let slot = pgdir + 4 * PDX virtual_address;
         phys_page_table = EXTRACT_ADDRESS (kmem s slot)
     in bind_res (K_VIRTUAL_ADDRESS s phys_page_table) (\<lambda>ptr_page_table.
        if phys_page_table = 0 then
          (if create then
             (let (ptr_page_table, s) = boot_allocate_space eok PAGE_SIZE PAGE_SIZE s
              in bind_res (K_PHYSICAL_ADDRESS ptr_page_table) (\<lambda>phys_page_table.
                 Inr (ptr_page_table,
                   store_word slot (CONSTRUCT_ENTRY phys_page_table (PERM_PRESENT OR PERM_WRITEABLE)) s)))
           else Inr (0, s))
        else Inr (ptr_page_table, s)))"

text \<open>
  The counter \<^verbatim>\<open>i\<close> is compared as an unsigned number; for a size within a page of
  \<open>2 ^ 32\<close> it wraps and the loop does not end.
\<close>

partial_function (option) boot_map_loop ::
    "u32 \<Rightarrow> u32 \<Rightarrow> u32 \<Rightarrow> u32 \<Rightarrow> u32 \<Rightarrow> u32 \<Rightarrow> u32 \<Rightarrow> mm_state \<Rightarrow> mm_state res option" where
  "boot_map_loop eok pgdir i virtual_address sz physical_address perm s =
    (if i < sz then
       (case boot_get_page_table eok pgdir virtual_address True s of
          Inl e \<Rightarrow> Some (Inl e)
        | Inr (ptr_page_table, s) \<Rightarrow>
            boot_map_loop eok pgdir (i + PAGE_SIZE) (virtual_address + PAGE_SIZE) sz
              (physical_address + PAGE_SIZE) perm
              (store_word (ptr_page_table + 4 * PTX virtual_address)
                (CONSTRUCT_ENTRY physical_address (perm OR PERM_PRESENT)) s))
     else Some (Inr s))"

definition boot_map_range ::
    "u32 \<Rightarrow> u32 \<Rightarrow> u32 \<Rightarrow> u32 \<Rightarrow> u32 \<Rightarrow> u32 \<Rightarrow> mm_state \<Rightarrow> mm_state res" where
  "boot_map_range eok pgdir virtual_address sz physical_address perm s =
    bind_res (loop_res (boot_map_loop eok pgdir 0 virtual_address sz
      (ROUNDUP physical_address PAGE_SIZE) perm s)) (\<lambda>r. r)"

text \<open>Indices of the directory entries that map the directory itself.\<close>

definition setup_listing_to_all_page_tables_entries :: "u32 \<Rightarrow> mm_state \<Rightarrow> mm_state res" where
  "setup_listing_to_all_page_tables_entries pgdir s =
    bind_res (K_PHYSICAL_ADDRESS pgdir) (\<lambda>phys_frame_address.
      let s = store_word (pgdir + 4 * PDX VPT)
            (CONSTRUCT_ENTRY phys_frame_address (PERM_PRESENT OR PERM_WRITEABLE)) s
      in Inr (store_word (pgdir + 4 * PDX UVPT)
            (phys_frame_address OR PERM_USER OR PERM_PRESENT) s))"

section \<open>Checking the directory\<close>

text \<open>\<^verbatim>\<open>0, PAGE_SIZE, 2 * PAGE_SIZE, ...\<close> below \<open>n * PAGE_SIZE\<close>.\<close>

definition page_steps :: "u32 \<Rightarrow> u32 list" where
  "page_steps n = map (\<lambda>k. k * PAGE_SIZE) (word_range 0 n)"

definition check_pde :: "u32 \<Rightarrow> u32 \<Rightarrow> mm_state \<Rightarrow> mm_state res" where
  "check_pde pgdir i s =
    (let e = kmem s (pgdir + 4 * i)
     in if i \<in> {PDX VPT, PDX UVPT, PDX (KERNEL_STACK_TOP - 1), PDX UENVS, PDX READ_ONLY_FRAMES_INFO}
        then check 113 (e \<noteq> 0) (Inr s)
        else if i \<ge> PDX KERNEL_BASE then check 117 (e \<noteq> 0) (Inr s)
        else check 119 (e = 0) (Inr s))"

definition check_boot_pgdir :: "u32 \<Rightarrow> kernel \<Rightarrow> kernel res" where
  "check_boot_pgdir ptr_stack_bottom s =
    (let d = ptr_page_directory s;
         n = ROUNDUP (number_of_frames (mm s) * 12) PAGE_SIZE
     in bind_res (for_each (\<lambda>i m. bind_res (K_PHYSICAL_ADDRESS (frames_info s)) (\<lambda>pa.
            assert_va2pa 95 d (READ_ONLY_FRAMES_INFO + i) (pa + i) m)) (page_steps (n div PAGE_SIZE)) (mm s)) (\<lambda>m.
        bind_res (for_each (\<lambda>i m. assert_va2pa 99 d (KERNEL_BASE + i) i m) (page_steps 0x10000) m) (\<lambda>m.
        bind_res (for_each (\<lambda>i m. bind_res (K_PHYSICAL_ADDRESS ptr_stack_bottom) (\<lambda>pa.
            assert_va2pa 103 d (KERNEL_STACK_TOP - KERNEL_STACK_SIZE + i) (pa + i) m))
            (page_steps (KERNEL_STACK_SIZE div PAGE_SIZE)) m) (\<lambda>m.
        bind_res (for_each (check_pde d) (word_range 0 1024) m) (\<lambda>m.
        cprintf (''[Boot Page Dir] Success'' @ [CHR 0x0A]) [] (s\<lparr>mm := m\<rparr>))))))"

text \<open>The bits of \<^verbatim>\<open>cr0\<close> that \<^verbatim>\<open>turn_on_paging\<close> sets and clears.\<close>

definition CR0_PE :: u32 where [simp]: "CR0_PE = 0x1"
definition CR0_MP :: u32 where [simp]: "CR0_MP = 0x2"
definition CR0_EM :: u32 where [simp]: "CR0_EM = 0x4"
definition CR0_TS :: u32 where [simp]: "CR0_TS = 0x8"
definition CR0_NE :: u32 where [simp]: "CR0_NE = 0x20"
definition CR0_WP :: u32 where [simp]: "CR0_WP = 0x10000"
definition CR0_AM :: u32 where [simp]: "CR0_AM = 0x40000"
definition CR0_PG :: u32 where [simp]: "CR0_PG = 0x80000000"

text \<open>
  \<^verbatim>\<open>turn_on_paging\<close> as the list of its steps: it changes how every later instruction, its own included, is
  fetched, so the states between the steps matter.
\<close>

datatype paging_step = Map_low | Install_directory | Enable_paging | Segment seg_instr | Unmap_low

definition paged_cr0 :: "u32 \<Rightarrow> u32" where
  "paged_cr0 c = (c OR (CR0_PE OR CR0_PG OR CR0_AM OR CR0_WP OR CR0_NE OR CR0_TS OR CR0_EM OR CR0_MP))
     AND NOT (CR0_TS OR CR0_EM)"

fun paging_exec :: "paging_step \<Rightarrow> kernel \<Rightarrow> kernel" where
  "paging_exec Map_low s =
    (let d = ptr_page_directory s in s\<lparr>mm := store_word d (kmem (mm s) (d + 4 * PDX KERNEL_BASE)) (mm s)\<rparr>)"
| "paging_exec Install_directory s = lcr3 (phys_page_directory s) s"
| "paging_exec Enable_paging s = lcr0 (paged_cr0 (rcr0 s)) s"
| "paging_exec (Segment i) s = s\<lparr>segment_regs := seg_exec i (segment_regs s)\<rparr>"
| "paging_exec Unmap_low s = s\<lparr>mm := store_word (ptr_page_directory s) 0 (mm s)\<rparr>"

definition turn_on_paging_steps :: "paging_step list" where
  "turn_on_paging_steps =
    [Map_low, Install_directory, Enable_paging, Segment (Lgdt gdt_entries),
     Segment (Mov_gs (GD_UD OR 3)), Segment (Mov_fs (GD_UD OR 3)),
     Segment (Mov_es GD_KD), Segment (Mov_ds GD_KD), Segment (Mov_ss GD_KD),
     Segment (Ljmp GD_KT), Segment (Lldt 0), Unmap_low, Install_directory]"

definition turn_on_paging :: "kernel \<Rightarrow> kernel" where
  "turn_on_paging s = fold paging_exec turn_on_paging_steps s"

text \<open>\<^verbatim>\<open>sizeof(struct Frame_Info)\<close> is 12 and \<^verbatim>\<open>sizeof(struct Env)\<close> is 100.\<close>

definition initialize_kernel_VM :: "u32 \<Rightarrow> u32 \<Rightarrow> kernel \<Rightarrow> kernel res" where
  "initialize_kernel_VM eok ptr_stack_bottom s =
    (let (d, m) = boot_allocate_space eok PAGE_SIZE PAGE_SIZE (mm s);
         m = memset_page d m
     in bind_res (K_PHYSICAL_ADDRESS d) (\<lambda>phys.
        let s = s\<lparr>mm := m, ptr_page_directory := d, phys_page_directory := phys\<rparr>
        in bind_res (K_PHYSICAL_ADDRESS ptr_stack_bottom) (\<lambda>stack.
           bind_res (boot_map_range eok d (KERNEL_STACK_TOP - KERNEL_STACK_SIZE) KERNEL_STACK_SIZE stack
             PERM_WRITEABLE (mm s)) (\<lambda>m.
           bind_res (boot_map_range eok d KERNEL_BASE (0xFFFFFFFF - KERNEL_BASE) 0 PERM_WRITEABLE m) (\<lambda>m.
           let array_size = number_of_frames m * 12;
               (fi, m) = boot_allocate_space eok array_size PAGE_SIZE m;
               s = s\<lparr>frames_info := fi\<rparr>
           in bind_res (K_PHYSICAL_ADDRESS fi) (\<lambda>pa.
              bind_res (boot_map_range eok d READ_ONLY_FRAMES_INFO array_size pa PERM_USER m) (\<lambda>m.
              bind_res (setup_listing_to_all_page_tables_entries d m) (\<lambda>m.
              let envs_size = NENV * 100;
                  (en, m) = boot_allocate_space eok envs_size PAGE_SIZE m;
                  s = s\<lparr>envs_base := en\<rparr>
              in bind_res (K_PHYSICAL_ADDRESS en) (\<lambda>pa.
                 bind_res (boot_map_range eok d UENVS envs_size pa PERM_USER m) (\<lambda>m.
                 let e = kmem m (d + 4 * PDX UENVS);
                     m = store_word (d + 4 * PDX UENVS)
                       (e OR (PERM_USER OR (PERM_PRESENT AND NOT PERM_WRITEABLE))) m
                 in bind_res (check_boot_pgdir ptr_stack_bottom (s\<lparr>mm := m\<rparr>)) (\<lambda>s.
                    Inr (turn_on_paging s))))))))))))"

section \<open>The state during boot\<close>

text \<open>
  \<open>next_frame s\<close> is the first frame the bump allocator has not touched. The directory is frame \<open>F\<close>;
  every entry in use, other than the two self-maps, leads to a table frame of its own below
  \<open>next_frame\<close>.
\<close>

definition next_frame :: "mm_state \<Rightarrow> nat" where
  "next_frame s = (unat (ptr_free_mem s) - 0xF0000000 + 4095) div 4096"

definition self_map :: "u32 \<Rightarrow> bool" where
  "self_map i \<longleftrightarrow> i = 957 \<or> i = 959"

definition boot_inv :: "u32 \<Rightarrow> mm_state \<Rightarrow> bool" where
  "boot_inv F s \<longleftrightarrow>
    unat (number_of_frames s) \<le> 0x10000 \<and> 0xF0000000 < unat (ptr_free_mem s) \<and>
    next_frame s < unat (number_of_frames s) \<and> unat F < next_frame s \<and>
    (\<forall>i < 1024. \<not> self_map i \<longrightarrow> pde s F i \<noteq> 0 \<longrightarrow> pde s F i AND 1 = 1 \<and> PPN (pde s F i) \<noteq> 0 \<and>
      PPN (pde s F i) \<noteq> F \<and> unat (PPN (pde s F i)) < next_frame s) \<and>
    (\<forall>i < 1024. \<forall>k < 1024. \<not> self_map i \<longrightarrow> \<not> self_map k \<longrightarrow> pde s F i \<noteq> 0 \<longrightarrow> pde s F k \<noteq> 0 \<longrightarrow>
      PPN (pde s F i) = PPN (pde s F k) \<longrightarrow> i = k)"

lemma next_frame_cong: "ptr_free_mem t = ptr_free_mem s \<Longrightarrow> next_frame t = next_frame s"
  by (simp add: next_frame_def)

lemma boot_inv_table:
  assumes "boot_inv F s" "i < 1024" "\<not> self_map i" "pde s F i \<noteq> 0"
  shows "pde s F i AND 1 = 1" "PPN (pde s F i) \<noteq> 0" "PPN (pde s F i) \<noteq> F"
    "unat (PPN (pde s F i)) < next_frame s" "PPN (pde s F i) < number_of_frames s"
    "PPN (pde s F i) < 0x10000"
proof -
  show t: "pde s F i AND 1 = 1" "PPN (pde s F i) \<noteq> 0" "PPN (pde s F i) \<noteq> F"
    "unat (PPN (pde s F i)) < next_frame s"
    using assms unfolding boot_inv_def by blast+
  moreover have "next_frame s < unat (number_of_frames s)" "unat (number_of_frames s) \<le> 0x10000"
    using assms(1) unfolding boot_inv_def by blast+
  ultimately show "PPN (pde s F i) < number_of_frames s" "PPN (pde s F i) < 0x10000"
    by (simp_all add: word_less_nat_alt)
qed

lemma boot_inv_frames:
  assumes "boot_inv F s"
  shows "F < 0x10000" "F < number_of_frames s" "next_frame s < 0x10000" "0 < number_of_frames s"
    "number_of_frames s \<le> 0x10000"
  using assms by (auto simp: boot_inv_def word_less_nat_alt word_le_nat_alt)

text \<open>The bump allocator gives the first untouched page; what it gives never wraps to a null mark.\<close>

lemma boot_allocate_space_eq:
  assumes top: "0xF0000000 < unat (ptr_free_mem s)" and f: "next_frame s < 0x10000"
    and sz: "4096 * next_frame s + unat sz < 0x10000000"
  shows "boot_allocate_space eok sz align s =
      (kva (of_nat (next_frame s)), s\<lparr>ptr_free_mem := kva (of_nat (next_frame s)) + sz\<rparr>)"
    "next_frame (s\<lparr>ptr_free_mem := kva (of_nat (next_frame s)) + sz\<rparr>) =
      next_frame s + (unat sz + 4095) div 4096"
    "unat (kva (of_nat (next_frame s)) + sz) = 0xF0000000 + 4096 * next_frame s + unat sz"
proof -
  let ?n = "next_frame s" and ?p = "unat (ptr_free_mem s)"
  have n: "(of_nat ?n :: u32) < 0x10000" "unat (of_nat ?n :: u32) = ?n"
    using f by (simp_all add: word_less_nat_alt unat_of_nat)
  have k: "unat (kva (of_nat ?n)) = 0xF0000000 + 4096 * ?n" using unat_kva [OF n(1)] n(2) by simp
  have up: "?p - 0xF0000000 + 4095 < 0x10000000" using f unfolding next_frame_def by linarith
  have "unat (ROUNDUP (ptr_free_mem s) 4096) = (?p + 4095) div 4096 * 4096"
    using unat_ROUNDUP [of 4096 "ptr_free_mem s"] up by simp
  also have "(?p + 4095) div 4096 = 0xF0000 + ?n"
  proof -
    have "?p + 4095 = (?p - 0xF0000000 + 4095) + 0xF0000 * 4096" using top by simp
    then show ?thesis unfolding next_frame_def by (simp only: div_mult_self1)
  qed
  finally have "ROUNDUP (ptr_free_mem s) 4096 = kva (of_nat ?n)"
    using k by (simp add: word_unat_eq_iff)
  moreover have "ptr_free_mem s \<noteq> 0" using top by auto
  ultimately show "boot_allocate_space eok sz align s =
      (kva (of_nat ?n), s\<lparr>ptr_free_mem := kva (of_nat ?n) + sz\<rparr>)"
    by (simp add: boot_allocate_space_def Let_def)
  show u: "unat (kva (of_nat ?n) + sz) = 0xF0000000 + 4096 * ?n + unat sz"
    using k sz by (simp add: unat_word_ariths)
  have "(4096 * ?n + unat sz + 4095) div 4096 = ?n + (unat sz + 4095) div 4096" by simp
  moreover have "next_frame (s\<lparr>ptr_free_mem := kva (of_nat ?n) + sz\<rparr>) =
      (unat (kva (of_nat ?n) + sz) - 0xF0000000 + 4095) div 4096"
    by (simp add: next_frame_def [of "s\<lparr>ptr_free_mem := kva (of_nat ?n) + sz\<rparr>"])
  ultimately show "next_frame (s\<lparr>ptr_free_mem := kva (of_nat ?n) + sz\<rparr>) = ?n + (unat sz + 4095) div 4096"
    unfolding u by simp
qed

section \<open>One page\<close>

definition boot_entry :: "nat \<Rightarrow> u32" where
  "boot_entry f = CONSTRUCT_ENTRY (push_bit 12 (of_nat f)) 3"

lemma boot_entry:
  assumes "f < 0x10000"
  shows "PPN (boot_entry f) = of_nat f" "boot_entry f AND 1 = 1" "boot_entry f \<noteq> 0"
proof -
  have "(of_nat f :: u32) < 0x100000" using assms by (simp add: word_less_nat_alt unat_of_nat)
  from entry_fields(1) [OF this, of 3] entry_flag [OF this, of 3 1] show
    "PPN (boot_entry f) = of_nat f" and 1: "boot_entry f AND 1 = 1" by (simp_all add: boot_entry_def)
  from 1 show "boot_entry f \<noteq> 0" by auto
qed

text \<open>The table of an address: found, or made from the next untouched frame.\<close>

lemma boot_get_page_table_hit:
  assumes "boot_inv F s" "\<not> self_map (PDX va)" "pde s F (PDX va) \<noteq> 0"
  shows "boot_get_page_table eok (kva F) va True s = Inr (kva (PPN (pde s F (PDX va))), s)"
proof -
  note t = boot_inv_table [OF assms(1) PDX_less assms(2,3)]
  have "PPN (pde s F (PDX va)) < 0x100000" using t(6) by (simp add: word_less_nat_alt)
  from PPN_push_bit [OF this] have "push_bit 12 (PPN (pde s F (PDX va))) \<noteq> 0"
    using t(2) entry_zero(1) by metis
  then show ?thesis
    using t boot_inv_frames [OF assms(1)]
    by (simp add: boot_get_page_table_def pde_read EXTRACT_ADDRESS_PPN K_VIRTUAL_ADDRESS_frame Let_def)
qed

lemma boot_inv_new_table:
  assumes inv: "boot_inv F s" and d: "d < 1024" and nf: "number_of_frames t = number_of_frames s"
    and top: "0xF0000000 < unat (ptr_free_mem t)" and nx: "next_frame t = next_frame s + 1"
    and room: "next_frame s + 1 < unat (number_of_frames s)"
    and pd: "\<And>i. i < 1024 \<Longrightarrow> pde t F i = (if i = d then boot_entry (next_frame s) else pde s F i)"
  shows "boot_inv F t"
  unfolding boot_inv_def nf nx
proof (intro conjI allI impI)
  let ?f = "of_nat (next_frame s) :: u32"
  have n: "next_frame s < 0x10000" by (rule boot_inv_frames(3) [OF inv])
  note be = boot_entry [OF n]
  have f: "unat ?f = next_frame s" using n by (simp add: unat_of_nat)
  show "unat F < next_frame s + 1" "unat (number_of_frames s) \<le> 0x10000" using inv by (simp_all add: boot_inv_def)
  have F: "?f \<noteq> F" "?f \<noteq> 0" using inv f by (auto simp: boot_inv_def)
  fix i :: u32 assume i: "i < 1024" "\<not> self_map i" "pde t F i \<noteq> 0"
  note old = boot_inv_table [OF inv i(1,2)]
  have "pde s F i \<noteq> 0 \<or> i = d" using i(3) pd [OF i(1)] by (auto split: if_splits)
  then show "pde t F i AND 1 = 1" "PPN (pde t F i) \<noteq> 0" "PPN (pde t F i) \<noteq> F"
    "unat (PPN (pde t F i)) < next_frame s + 1"
    using old be F f unfolding pd [OF i(1)] by (auto split: if_splits)
  fix k :: u32 assume k: "k < 1024" "\<not> self_map k" "pde t F k \<noteq> 0" "PPN (pde t F i) = PPN (pde t F k)"
  have new: "PPN (pde s F l) \<noteq> ?f" if "l < 1024" "\<not> self_map l" "pde s F l \<noteq> 0" for l
    using boot_inv_table(4) [OF inv that] f by auto
  show "i = k"
  proof (cases "i = d \<or> k = d")
    case True
    then show ?thesis
      using k(4) be(1) new [OF i(1,2)] new [OF k(1,2)] i(3) k(3) pd [OF i(1)] pd [OF k(1)]
      by (cases "i = d"; cases "k = d") simp_all
  next
    case False
    then have "pde t F i = pde s F i" "pde t F k = pde s F k" using pd i(1) k(1) by simp_all
    then show ?thesis using inv i k unfolding boot_inv_def by metis
  qed
qed (use top room in auto)

lemma boot_get_page_table_new:
  assumes inv: "boot_inv F s" and self: "\<not> self_map (PDX va)" and z: "pde s F (PDX va) = 0"
    and room: "next_frame s + 1 < unat (number_of_frames s)"
  obtains t where "boot_get_page_table eok (kva F) va True s = Inr (kva (of_nat (next_frame s)), t)"
    "boot_inv F t" "next_frame t = next_frame s + 1" "number_of_frames t = number_of_frames s"
    "references t = references s" "free_frame_list t = free_frame_list s"
    "pde t F (PDX va) = boot_entry (next_frame s)"
    "\<And>g j. g < 0x10000 \<Longrightarrow> j < 1024 \<Longrightarrow> \<not> (g = F \<and> j = PDX va) \<Longrightarrow> word_at t g j = word_at s g j"
proof -
  let ?n = "next_frame s" and ?f = "of_nat (next_frame s) :: u32"
  note fr = boot_inv_frames [OF inv]
  have nf: "unat (number_of_frames s) \<le> 0x10000" using fr(5) by (simp add: word_le_nat_alt)
  have top: "0xF0000000 < unat (ptr_free_mem s)" using inv by (simp add: boot_inv_def)
  have f: "?f < 0x10000" "unat ?f = ?n" using fr(3) by (simp_all add: word_less_nat_alt unat_of_nat)
  note al = boot_allocate_space_eq [where sz = PAGE_SIZE, OF top fr(3)]
  have sz: "4096 * ?n + unat PAGE_SIZE < 0x10000000" using room nf by simp
  define u where "u = s\<lparr>ptr_free_mem := kva ?f + PAGE_SIZE\<rparr>"
  define t where "t = store_word (kva F + 4 * PDX va) (boot_entry ?n) u"
  have kv: "K_VIRTUAL_ADDRESS s 0 = Inr KERNEL_BASE" using fr(4) by (auto simp: K_VIRTUAL_ADDRESS_def entry_zero)
  have run: "boot_get_page_table eok (kva F) va True s = Inr (kva ?f, t)"
    using z kv al(1) [OF sz] K_PHYSICAL_ADDRESS_kva [OF f(1)]
    by (simp add: boot_get_page_table_def pde_read entry_zero t_def u_def boot_entry_def)
  have w: "word_at t g j = (if F = g \<and> PDX va = j then boot_entry ?n else word_at s g j)"
    if "g < 0x10000" "j < 1024" for g j
    using that fr(1) word_at_store [of F g "PDX va" j "boot_entry ?n" u]
    by (simp add: t_def u_def) (simp add: word_at_def)
  have nx: "next_frame t = ?n + 1"
  proof -
    have "next_frame t = next_frame u" by (rule next_frame_cong) (simp add: t_def store_word_def)
    then show ?thesis using al(2) [OF sz, folded u_def] by simp
  qed
  have pd: "pde t F i = (if i = PDX va then boot_entry ?n else pde s F i)" if "i < 1024" for i
    using w [OF fr(1) that] by (auto simp: pde_def)
  have nfs: "number_of_frames t = number_of_frames s" "unat (ptr_free_mem t) = 0xF0000000 + 4096 * ?n + 4096"
    using al(3) [OF sz] by (simp_all add: t_def u_def store_word_def)
  have "boot_inv F t" by (rule boot_inv_new_table [OF inv PDX_less nfs(1) _ nx room pd]) (use nfs(2) in simp)
  moreover have "pde t F (PDX va) = boot_entry ?n" using pd [OF PDX_less] by simp
  moreover have "references t = references s" "free_frame_list t = free_frame_list s"
    by (simp_all add: t_def u_def store_word_def)
  moreover have "word_at t g j = word_at s g j" if "g < 0x10000" "j < 1024" "\<not> (g = F \<and> j = PDX va)" for g j
    using w [OF that(1,2)] that(3) by auto
  ultimately show thesis using that [OF run _ nx nfs(1)] by blast
qed

text \<open>Writing an entry of a table changes neither the directory nor the other tables.\<close>

lemma boot_store_entry:
  fixes e :: u32
  assumes inv: "boot_inv F s" and va: "\<not> self_map (PDX va)" "pde s F (PDX va) \<noteq> 0"
  defines "t \<equiv> store_word (kva (PPN (pde s F (PDX va))) + 4 * PTX va) e s"
  shows "boot_inv F t" "next_frame t = next_frame s" "number_of_frames t = number_of_frames s"
    "i < 1024 \<Longrightarrow> pde t F i = pde s F i"
    "i < 1024 \<Longrightarrow> j < 1024 \<Longrightarrow> \<not> self_map i \<Longrightarrow>
      pte t F i j = (if i = PDX va \<and> j = PTX va then e else pte s F i j)"
proof -
  note T = boot_inv_table [OF inv PDX_less va]
  note fr = boot_inv_frames [OF inv]
  have w: "word_at t g j = (if PPN (pde s F (PDX va)) = g \<and> PTX va = j then e else word_at s g j)"
    if "g < 0x10000" "j < 1024" for g j
    unfolding t_def by (rule word_at_store [OF T(6) that(1) PTX_less that(2)])
  show pd: "pde t F i = pde s F i" if "i < 1024" for i
    using w [OF fr(1) that] T(3) by (simp add: pde_def)
  show nx: "next_frame t = next_frame s" by (rule next_frame_cong) (simp add: t_def store_word_def)
  show nf: "number_of_frames t = number_of_frames s" by (simp add: t_def store_word_def)
  have top: "ptr_free_mem t = ptr_free_mem s" by (simp add: t_def store_word_def)
  show "boot_inv F t" using inv pd unfolding boot_inv_def nx nf top by simp
  show "pte t F i j = (if i = PDX va \<and> j = PTX va then e else pte s F i j)"
    if ij: "i < 1024" "j < 1024" "\<not> self_map i"
  proof (cases "pde s F i = 0")
    case True
    then show ?thesis using pd [OF ij(1)] va(2) by (auto simp: pte_def)
  next
    case False
    have "PPN (pde s F (PDX va)) = PPN (pde s F i) \<longleftrightarrow> PDX va = i"
      using inv PDX_less ij va False unfolding boot_inv_def by metis
    then show ?thesis
      using w [OF boot_inv_table(6) [OF inv ij(1,3) False] ij(2)] False pd [OF ij(1)] by (auto simp: pte_def)
  qed
qed

text \<open>
  What one round of the loop does to the translations: the page is mapped, what was mapped stays,
  and a directory entry changes only from 0, to a table in a frame that was untouched.
\<close>

definition grows :: "u32 \<Rightarrow> mm_state \<Rightarrow> mm_state \<Rightarrow> u32 set \<Rightarrow> u32 set \<Rightarrow> bool" where
  "grows F s t dirs pages \<longleftrightarrow>
    boot_inv F t \<and> number_of_frames t = number_of_frames s \<and>
    (\<forall>i < 1024. pde s F i \<noteq> 0 \<or> i \<notin> dirs \<longrightarrow> pde t F i = pde s F i) \<and>
    (\<forall>i < 1024. i \<in> dirs \<longrightarrow> pde t F i \<noteq> 0) \<and>
    (\<forall>va. \<not> self_map (PDX va) \<longrightarrow> pde s F (PDX va) \<noteq> 0 \<longrightarrow> PPN va \<notin> pages \<longrightarrow>
      pte t F (PDX va) (PTX va) = pte s F (PDX va) (PTX va)) \<and> next_frame s \<le> next_frame t \<and>
    (\<forall>i < 1024. pde s F i = 0 \<longrightarrow> pde t F i \<noteq> 0 \<longrightarrow> next_frame s \<le> unat (PPN (pde t F i)))"

lemma grows_trans:
  assumes "grows F s t D P" "grows F t u E Q"
  shows "grows F s u (D \<union> E) (P \<union> Q)"
  unfolding grows_def
proof (intro conjI allI impI)
  show "boot_inv F u" "number_of_frames u = number_of_frames s" "next_frame s \<le> next_frame u"
    using assms by (simp_all add: grows_def)
  fix i :: u32 assume i: "i < 1024"
  show "next_frame s \<le> unat (PPN (pde u F i))" if "pde s F i = 0" "pde u F i \<noteq> 0"
    using assms i that unfolding grows_def by (metis le_trans)
  show "pde u F i = pde s F i" if "pde s F i \<noteq> 0 \<or> i \<notin> D \<union> E"
    using assms i that unfolding grows_def by (metis UnI1 UnI2)
  show "pde u F i \<noteq> 0" if "i \<in> D \<union> E"
    using assms i that unfolding grows_def by (metis Un_iff)
next
  fix va assume "\<not> self_map (PDX va)" "pde s F (PDX va) \<noteq> 0" "PPN va \<notin> P \<union> Q"
  moreover from this have "pde t F (PDX va) \<noteq> 0" using assms(1) PDX_less unfolding grows_def by metis
  ultimately show "pte u F (PDX va) (PTX va) = pte s F (PDX va) (PTX va)"
    using assms unfolding grows_def by (metis UnCI)
qed

lemma boot_map_page:
  assumes inv: "boot_inv F s" and self: "\<not> self_map (PDX va)"
    and room: "pde s F (PDX va) = 0 \<longrightarrow> next_frame s + 1 < unat (number_of_frames s)"
  obtains p u t where "boot_get_page_table eok (kva F) va True s = Inr (p, u)"
    "t = store_word (p + 4 * PTX va) e u" "grows F s t {PDX va} {PPN va}"
    "pte t F (PDX va) (PTX va) = e"
    "next_frame t = next_frame s + of_bool (pde s F (PDX va) = 0)"
proof -
  obtain u where u: "boot_get_page_table eok (kva F) va True s = Inr (kva (PPN (pde u F (PDX va))), u)"
    "boot_inv F u" "pde u F (PDX va) \<noteq> 0" "number_of_frames u = number_of_frames s"
    "next_frame u = next_frame s + of_bool (pde s F (PDX va) = 0)"
    "\<forall>i < 1024. i \<noteq> PDX va \<or> pde s F i \<noteq> 0 \<longrightarrow> pde u F i = pde s F i"
    "pde s F (PDX va) = 0 \<longrightarrow> unat (PPN (pde u F (PDX va))) = next_frame s"
    "\<forall>i < 1024. \<forall>j < 1024. \<not> self_map i \<longrightarrow> pde s F i \<noteq> 0 \<longrightarrow> pte u F i j = pte s F i j"
  proof (cases "pde s F (PDX va) = 0")
    case True
    note n = boot_inv_frames(3) [OF inv]
    from boot_get_page_table_new [OF inv self True] room True obtain u where
      u: "boot_get_page_table eok (kva F) va True s = Inr (kva (of_nat (next_frame s)), u)"
        "boot_inv F u" "next_frame u = next_frame s + 1" "number_of_frames u = number_of_frames s"
        "pde u F (PDX va) = boot_entry (next_frame s)"
        "\<And>g j. g < 0x10000 \<Longrightarrow> j < 1024 \<Longrightarrow> \<not> (g = F \<and> j = PDX va) \<Longrightarrow> word_at u g j = word_at s g j"
      by metis
    have pd: "pde u F i = pde s F i" if "i < 1024" "i \<noteq> PDX va" for i
      using u(6) [OF boot_inv_frames(1) [OF inv] that(1)] that(2) by (simp add: pde_def)
    have "pte u F i j = pte s F i j" if "i < 1024" "j < 1024" "\<not> self_map i" "pde s F i \<noteq> 0" for i j
    proof -
      have "i \<noteq> PDX va" using that(4) True by auto
      then have "pde u F i = pde s F i" by (rule pd [OF that(1)])
      then show ?thesis
        using u(6) [OF boot_inv_table(6) [OF inv that(1,3,4)] that(2)] boot_inv_table(3) [OF inv that(1,3,4)]
        by (simp add: pte_def)
    qed
    moreover have "unat (of_nat (next_frame s) :: u32) = next_frame s" using n by (simp add: unat_of_nat)
    ultimately show thesis using that [of u] u True pd boot_entry [OF n] by auto
  next
    case False
    then show thesis using that [of s] boot_get_page_table_hit [OF inv self False] inv by simp
  qed
  define t where "t = store_word (kva (PPN (pde u F (PDX va))) + 4 * PTX va) e u"
  note st = boot_store_entry [OF u(2) self u(3), where e = e, folded t_def]
  have "grows F s t {PDX va} {PPN va}"
    unfolding grows_def
  proof (intro conjI allI impI)
    show "boot_inv F t" by (rule st(1))
    show "number_of_frames t = number_of_frames s" using st(3) u(4) by simp
    show "pde t F i = pde s F i" if "i < 1024" "pde s F i \<noteq> 0 \<or> i \<notin> {PDX va}" for i
      using that st(4) u(6) by auto
    show "pde t F i \<noteq> 0" if "i < 1024" "i \<in> {PDX va}" for i using that st(4) u(3) by simp
    show "pte t F (PDX v) (PTX v) = pte s F (PDX v) (PTX v)"
      if "\<not> self_map (PDX v)" "pde s F (PDX v) \<noteq> 0" "PPN v \<notin> {PPN va}" for v
      using st(5) [OF PDX_less PTX_less that(1)] same_page_iff [of v va] that u(8) by auto
    show "next_frame s \<le> next_frame t" using st(2) u(5) by simp
    show "next_frame s \<le> unat (PPN (pde t F i))" if "i < 1024" "pde s F i = 0" "pde t F i \<noteq> 0" for i
      using that st(4) u(6,7) by (cases "i = PDX va") auto
  qed
  then show thesis
    using that [OF u(1) t_def] st(2,5) self u(5) by simp
qed

section \<open>A range of pages\<close>

definition page_at :: "u32 \<Rightarrow> nat \<Rightarrow> u32" where
  "page_at va l = va + PAGE_SIZE * of_nat l"

lemma page_at_simps [simp]:
  "page_at va 0 = va" "page_at (va + 4096) l = page_at va (Suc l)"
  by (simp_all add: page_at_def algebra_simps)

lemma PPN_page_at: "unat (PPN (page_at va l)) = (unat (PPN va) + l) mod 1048576"
proof -
  have "unat (page_at va l) = (unat va + 4096 * l) mod 4294967296"
    by (simp add: page_at_def unat_word_ariths unat_of_nat mod_mult_right_eq mod_add_right_eq)
  then have "unat (PPN (page_at va l)) = (unat va + 4096 * l) mod (4096 * 1048576) div 4096"
    by (simp add: unat_PPN)
  also have "\<dots> = (unat va + 4096 * l) div 4096 mod 1048576"
    unfolding mod_mult2_eq [of "unat va + 4096 * l" 4096 1048576] by simp
  finally show ?thesis by (simp add: unat_PPN add.commute)
qed

lemma page_at_inject:
  assumes "l < 1048576" "k < 1048576" "PPN (page_at va l) = PPN (page_at va k)"
  shows "l = k"
proof -
  define a where "a = unat (PPN va)"
  have a: "a \<le> 1048576" using unat_u32_less [of va] by (simp add: a_def unat_PPN)
  have "(a + l) mod 1048576 = (a + k) mod 1048576"
    using assms(3) PPN_page_at [of va] unfolding a_def by metis
  then have "(a + l + (1048576 - a)) mod 1048576 = (a + k + (1048576 - a)) mod 1048576"
    by (rule mod_add_cong) (rule refl)
  moreover have "a + j + (1048576 - a) = j + 1048576" for j using a by simp
  ultimately have "(l + 1048576) mod 1048576 = (k + 1048576) mod 1048576" by simp
  then show ?thesis using assms(1,2) by simp
qed

definition dirs_of :: "u32 \<Rightarrow> nat \<Rightarrow> u32 set" where
  "dirs_of va m = (\<lambda>l. PDX (page_at va l)) ` {..< m}"

definition pages_of :: "u32 \<Rightarrow> nat \<Rightarrow> u32 set" where
  "pages_of va m = (\<lambda>l. PPN (page_at va l)) ` {..< m}"

lemma range_Suc:
  "dirs_of va (Suc m) = insert (PDX va) (dirs_of (va + 4096) m)"
  "pages_of va (Suc m) = insert (PPN va) (pages_of (va + 4096) m)"
  by (auto simp: dirs_of_def pages_of_def lessThan_Suc_eq_insert_0)

text \<open>The tables a range still needs.\<close>

definition missing :: "u32 \<Rightarrow> mm_state \<Rightarrow> u32 \<Rightarrow> nat \<Rightarrow> u32 set" where
  "missing F s va m = {d \<in> dirs_of va m. pde s F d = 0}"

lemma dirs_of_less: "d \<in> dirs_of va m \<Longrightarrow> d < 1024"
  by (auto simp: dirs_of_def)

lemma missing_step:
  assumes "grows F s t {PDX va} P"
  shows "card (missing F s va (Suc m)) = of_bool (pde s F (PDX va) = 0) + card (missing F t (va + 4096) m)"
proof -
  have iff: "pde t F d = 0 \<longleftrightarrow> pde s F d = 0 \<and> d \<noteq> PDX va" if "d < 1024" for d
    using assms that unfolding grows_def by (metis singletonD singletonI)
  have "missing F t (va + 4096) m = {d \<in> dirs_of (va + 4096) m. pde s F d = 0 \<and> d \<noteq> PDX va}"
    unfolding missing_def using iff dirs_of_less by blast
  then have "missing F s va (Suc m) =
      (if pde s F (PDX va) = 0 then insert (PDX va) (missing F t (va + 4096) m) else missing F t (va + 4096) m)"
    "PDX va \<notin> missing F t (va + 4096) m"
    unfolding missing_def range_Suc by auto
  moreover have "finite (missing F t (va + 4096) m)" by simp
  ultimately show ?thesis by simp
qed

lemma boot_map_loop_correct:
  assumes "unat sz < 2 ^ 32 - 4096" "m \<le> 0x100000" "unat i + 4096 * m = (unat sz + 4095) div 4096 * 4096"
    and "boot_inv F s" "\<forall>d \<in> dirs_of va m. \<not> self_map d"
    and "next_frame s + card (missing F s va m) < unat (number_of_frames s)"
  shows "\<exists>t. boot_map_loop eok (kva F) i va sz pa perm s = Some (Inr t) \<and>
    grows F s t (dirs_of va m) (pages_of va m) \<and> next_frame t = next_frame s + card (missing F s va m) \<and>
    (\<forall>l < m. pte t F (PDX (page_at va l)) (PTX (page_at va l)) =
      CONSTRUCT_ENTRY (page_at pa l) (perm OR PERM_PRESENT))"
  using assms(2-)
proof (induction m arbitrary: i va pa s)
  case 0
  then have "\<not> i < sz" by (simp add: word_less_nat_alt)
  then show ?case using "0.prems" by (subst boot_map_loop.simps) (simp add: grows_def dirs_of_def pages_of_def missing_def)
next
  case (Suc m)
  have i: "i < sz" "unat (i + 4096) + 4096 * m = (unat sz + 4095) div 4096 * 4096"
    using Suc.prems(2) assms(1) by (simp_all add: word_less_nat_alt unat_word_ariths)
  have self: "\<not> self_map (PDX va)" "\<forall>d \<in> dirs_of (va + 4096) m. \<not> self_map d"
    using Suc.prems(4) by (simp_all add: range_Suc)
  have "pde s F (PDX va) = 0 \<longrightarrow> PDX va \<in> missing F s va (Suc m)" by (simp add: missing_def range_Suc)
  then have "pde s F (PDX va) = 0 \<longrightarrow> 0 < card (missing F s va (Suc m))" by (auto simp: card_gt_0_iff)
  then have room: "pde s F (PDX va) = 0 \<longrightarrow> next_frame s + 1 < unat (number_of_frames s)" using Suc.prems(5) by linarith
  define e where "e = CONSTRUCT_ENTRY pa (perm OR PERM_PRESENT)"
  obtain p u t where t: "boot_get_page_table eok (kva F) va True s = Inr (p, u)"
    "t = store_word (p + 4 * PTX va) e u" "grows F s t {PDX va} {PPN va}" "pte t F (PDX va) (PTX va) = e"
    "next_frame t = next_frame s + of_bool (pde s F (PDX va) = 0)"
    by (rule boot_map_page [OF Suc.prems(3) self(1) room])
  have run: "boot_map_loop eok (kva F) i va sz pa perm s = boot_map_loop eok (kva F) (i + 4096) (va + 4096) sz (pa + 4096) perm t"
    using i(1) t(1) by (subst boot_map_loop.simps) (simp add: t(2) e_def)
  note ms = missing_step [OF t(3), of m]
  have "boot_inv F t" "number_of_frames t = number_of_frames s" using t(3) by (simp_all add: grows_def)
  with Suc.IH [of "i + 4096" t "va + 4096" "pa + 4096"] Suc.prems(1,5) i(2) self(2) t(5) ms
  obtain r where r: "boot_map_loop eok (kva F) i va sz pa perm s = Some (Inr r)"
    "grows F t r (dirs_of (va + 4096) m) (pages_of (va + 4096) m)"
    "next_frame r = next_frame s + card (missing F s va (Suc m))"
    "\<forall>l < m. pte r F (PDX (page_at va (Suc l))) (PTX (page_at va (Suc l))) =
      CONSTRUCT_ENTRY (page_at pa (Suc l)) (perm OR PERM_PRESENT)"
    unfolding run by auto
  have "PPN va \<noteq> PPN (page_at va (Suc l))" if "l < m" for l
    using page_at_inject [of 0 "Suc l" va] Suc.prems(1) that by auto
  then have "PPN va \<notin> pages_of (va + 4096) m" by (auto simp: pages_of_def)
  then have "pte r F (PDX va) (PTX va) = e"
    using r(2) t(3,4) self(1) PDX_less unfolding grows_def by (metis singletonI)
  then have "\<forall>l < Suc m. pte r F (PDX (page_at va l)) (PTX (page_at va l)) =
      CONSTRUCT_ENTRY (page_at pa l) (perm OR PERM_PRESENT)"
    using r(4) by (auto simp: less_Suc_eq_0_disj e_def)
  moreover have "grows F s r (dirs_of va (Suc m)) (pages_of va (Suc m))"
    using grows_trans [OF t(3) r(2)] by (simp add: range_Suc)
  ultimately show ?case using r(1,3) by blast
qed

lemma aligned_push_bit:
  assumes "unat x mod 4096 = 0"
  shows "push_bit 12 (PPN x) = x" "PPN x < 0x100000"
proof -
  have "unat x div 4096 * 4096 = unat x" using assms by auto
  then show "push_bit 12 (PPN x) = x"
    using unat_u32_less [of x] by (simp add: word_unat_eq_iff unat_push_bit unat_PPN)
  show "PPN x < 0x100000"
    using unat_u32_less [of x] by (simp add: word_less_nat_alt unat_PPN less_mult_imp_div_less)
qed

lemma entry_of_aligned:
  assumes "unat x mod 4096 = 0" "p < 0x1000"
  shows "EXTRACT_ADDRESS (CONSTRUCT_ENTRY x (p OR 1)) = x" "CONSTRUCT_ENTRY x (p OR 1) AND 1 = 1"
    "CONSTRUCT_ENTRY x (p OR 1) \<noteq> 0"
proof -
  have p: "p OR 1 < 0x1000" using low_or [OF assms(2), of 1] by simp
  note a = aligned_push_bit [OF assms(1)]
  note e = entry_fields(1) [OF a(2) p, unfolded a(1)] entry_flag [OF a(2) p, of 1, unfolded a(1)]
  show "EXTRACT_ADDRESS (CONSTRUCT_ENTRY x (p OR 1)) = x" using e(1) a(1) by (simp add: EXTRACT_ADDRESS_PPN)
  show 1: "CONSTRUCT_ENTRY x (p OR 1) AND 1 = 1" using e(2) by simp
  then show "CONSTRUCT_ENTRY x (p OR 1) \<noteq> 0" by auto
qed

lemma check_va2pa_boot:
  assumes inv: "boot_inv F s" and va: "\<not> self_map (PDX va)"
  shows "check_va2pa (kva F) va s = Inr (if pte s F (PDX va) (PTX va) AND 1 = 0 then NOT 0
    else EXTRACT_ADDRESS (pte s F (PDX va) (PTX va)))"
proof (cases "pde s F (PDX va) = 0")
  case True
  then show ?thesis by (simp add: check_va2pa_def pde_read pte_def)
next
  case False
  note t = boot_inv_table [OF inv PDX_less va False]
  have "K_VIRTUAL_ADDRESS s (EXTRACT_ADDRESS (pde s F (PDX va))) = Inr (kva (PPN (pde s F (PDX va))))"
    using t(5) boot_inv_frames(5) [OF inv] by (simp add: EXTRACT_ADDRESS_PPN K_VIRTUAL_ADDRESS_frame)
  then show ?thesis
    using t(1) by (simp add: check_va2pa_def pde_read [of s F] pte_read [OF False] Let_def)
qed

lemma page_at_aligned: "unat x mod 4096 = 0 \<Longrightarrow> unat (page_at x l) mod 4096 = 0"
proof -
  assume "unat x mod 4096 = 0"
  moreover have "(4096 :: nat) dvd 4096 * unat (of_nat l :: u32) mod 4294967296"
    by (rule dvd_mod) simp_all
  ultimately have d: "4096 dvd unat x + unat (4096 * of_nat l :: u32)" "(4096 :: nat) dvd 4294967296"
    by (auto simp: unat_word_ariths(2) mod_eq_0_iff_dvd)
  then have "4096 dvd (unat x + unat (4096 * of_nat l :: u32)) mod 4294967296" by (rule dvd_mod)
  then show ?thesis by (simp add: page_at_def unat_word_ariths(1) mod_eq_0_iff_dvd)
qed

text \<open>The number of pages of a size.\<close>

definition page_count :: "u32 \<Rightarrow> nat" where
  "page_count sz = (unat sz + 4095) div 4096"

lemma boot_map_range_grows:
  assumes "boot_inv F s" "unat sz < 2 ^ 32 - 4096" "\<forall>d \<in> dirs_of va (page_count sz). \<not> self_map d"
    and "next_frame s + card (missing F s va (page_count sz)) < unat (number_of_frames s)"
    and "unat pa \<le> 2 ^ 32 - 4096" "perm < 0x1000"
  obtains t where "boot_map_range eok (kva F) va sz pa perm s = Inr t"
    "grows F s t (dirs_of va (page_count sz)) (pages_of va (page_count sz))"
    "next_frame t = next_frame s + card (missing F s va (page_count sz))"
    "\<forall>l < page_count sz. check_va2pa (kva F) (page_at va l) t = Inr (page_at (ROUNDUP pa PAGE_SIZE) l)"
proof -
  let ?m = "page_count sz" and ?pa = "ROUNDUP pa PAGE_SIZE"
  have m: "?m \<le> 0x100000" using assms(2) by (simp add: page_count_def)
  obtain t where t: "boot_map_loop eok (kva F) 0 va sz ?pa perm s = Some (Inr t)"
    "grows F s t (dirs_of va ?m) (pages_of va ?m)" "next_frame t = next_frame s + card (missing F s va ?m)"
    "\<forall>l < ?m. pte t F (PDX (page_at va l)) (PTX (page_at va l)) = CONSTRUCT_ENTRY (page_at ?pa l) (perm OR PERM_PRESENT)"
    using boot_map_loop_correct [OF assms(2) m _ assms(1,3,4), of 0 eok ?pa perm]
    by (auto simp: page_count_def mult.commute)
  have "unat ?pa mod 4096 = 0" using unat_ROUNDUP [of 4096 pa] assms(5) by simp
  note al = page_at_aligned [OF this]
  have "check_va2pa (kva F) (page_at va l) t = Inr (page_at ?pa l)" if "l < ?m" for l
  proof -
    have "PDX (page_at va l) \<in> dirs_of va ?m" using that by (auto simp: dirs_of_def)
    then have "\<not> self_map (PDX (page_at va l))" using assms(3) by blast
    moreover have "boot_inv F t" using t(2) by (simp add: grows_def)
    ultimately show ?thesis
      using check_va2pa_boot t(4) that entry_of_aligned [OF al assms(6)] by simp
  qed
  then show thesis using that [of t] t by (simp add: boot_map_range_def)
qed

text \<open>
  C23: \<^verbatim>\<open>boot_map_range\<close> maps the whole range. With enough untouched frames for the tables it has to
  make, it returns; every page of the range translates to the page of physical memory at the same
  distance from the rounded physical address, every page outside the range whose table existed
  translates as before, no directory entry in use is changed, and the frames taken are exactly the
  new tables.
\<close>

theorem boot_map_range_correct:
  assumes "boot_inv F s" "unat sz < 2 ^ 32 - 4096" "\<forall>d \<in> dirs_of va (page_count sz). \<not> self_map d"
    and "next_frame s + card (missing F s va (page_count sz)) < unat (number_of_frames s)"
    and "unat pa \<le> 2 ^ 32 - 4096" "perm < 0x1000"
  shows "\<exists>t. boot_map_range eok (kva F) va sz pa perm s = Inr t \<and> boot_inv F t \<and>
    next_frame t = next_frame s + card (missing F s va (page_count sz)) \<and>
    (\<forall>l < page_count sz. check_va2pa (kva F) (page_at va l) t = Inr (page_at (ROUNDUP pa PAGE_SIZE) l)) \<and>
    (\<forall>va'. \<not> self_map (PDX va') \<and> pde s F (PDX va') \<noteq> 0 \<and> PPN va' \<notin> pages_of va (page_count sz) \<longrightarrow>
      check_va2pa (kva F) va' t = check_va2pa (kva F) va' s) \<and>
    (\<forall>i < 1024. pde s F i \<noteq> 0 \<longrightarrow> pde t F i = pde s F i)"
proof -
  obtain t where t: "boot_map_range eok (kva F) va sz pa perm s = Inr t"
    "grows F s t (dirs_of va (page_count sz)) (pages_of va (page_count sz))"
    "next_frame t = next_frame s + card (missing F s va (page_count sz))"
    "\<forall>l < page_count sz. check_va2pa (kva F) (page_at va l) t = Inr (page_at (ROUNDUP pa PAGE_SIZE) l)"
    by (rule boot_map_range_grows [where eok = eok, OF assms])
  have "boot_inv F t" using t(2) by (simp add: grows_def)
  moreover from this have "check_va2pa (kva F) va' t = check_va2pa (kva F) va' s"
    if "\<not> self_map (PDX va') \<and> pde s F (PDX va') \<noteq> 0 \<and> PPN va' \<notin> pages_of va (page_count sz)" for va'
    using that check_va2pa_boot assms(1) t(2) by (simp add: grows_def)
  moreover have "\<forall>i < 1024. pde s F i \<noteq> 0 \<longrightarrow> pde t F i = pde s F i" using t(2) by (simp add: grows_def)
  ultimately show ?thesis using t(1,3,4) by blast
qed

text \<open>A machine of 16 MB whose kernel ends at 1 MB and a half, with an empty directory in frame 384.\<close>

definition boot_example :: mm_state where
  "boot_example = \<lparr>kmem = (\<lambda>_. 0), number_of_frames = 4096, references = (\<lambda>_. 0),
     free_frame_list = empty_list, ptr_free_mem = 0xF0181000, invlpgs = []\<rparr>"

lemma boot_example_inv: "boot_inv 384 boot_example" "next_frame boot_example = 385"
  by (simp_all add: boot_inv_def next_frame_def boot_example_def pde_def word_at_def)

theorem boot_map_range_correct_witness:
  "\<exists>t. boot_map_range 0xF0180000 (kva 384) 0xEFBF8000 0x8000 0x110000 2 boot_example = Inr t \<and>
     check_va2pa (kva 384) 0xEFBF9000 t = Inr 0x111000"
proof -
  have m: "page_count 0x8000 = 8" by (simp add: page_count_def)
  have d: "PDX (page_at 0xEFBF8000 l) = 958" if "l < 8" for l
  proof -
    have "unat (page_at 0xEFBF8000 l) = 4022304768 + 4096 * l"
      using that by (simp add: page_at_def unat_word_ariths unat_of_nat)
    then show ?thesis using that by (simp add: word_unat_eq_iff unat_PDX)
  qed
  then have ds: "\<forall>d \<in> dirs_of 0xEFBF8000 8. \<not> self_map d" and "missing 384 boot_example 0xEFBF8000 8 \<subseteq> {958}"
    by (auto simp: dirs_of_def missing_def self_map_def)
  then have "card (missing 384 boot_example 0xEFBF8000 8) \<le> card {958 :: u32}" by (intro card_mono) auto
  then have "385 + card (missing 384 boot_example 0xEFBF8000 8) < unat (number_of_frames boot_example)"
    by (simp add: boot_example_def)
  with ds boot_map_range_correct [OF boot_example_inv(1), where sz = "0x8000" and va = "0xEFBF8000" and
      pa = "0x110000" and perm = 2 and eok = "0xF0180000"]
  obtain t where "boot_map_range 0xF0180000 (kva 384) 0xEFBF8000 0x8000 0x110000 2 boot_example = Inr t"
    "\<forall>l < 8. check_va2pa (kva 384) (page_at 0xEFBF8000 l) t = Inr (page_at (ROUNDUP 0x110000 PAGE_SIZE) l)"
    unfolding m boot_example_inv(2) by auto
  moreover have "ROUNDUP 0x110000 PAGE_SIZE = 0x110000" by (simp add: ROUNDUP_def ROUNDDOWN_def)
  moreover have "page_at 0xEFBF8000 1 = 0xEFBF9000" "page_at 0x110000 1 = 0x111000" by (simp_all add: page_at_def)
  ultimately show ?thesis by (metis one_less_numeral_iff semiring_norm(76))
qed

section \<open>The whole address space\<close>

text \<open>The directory entries in use, other than the self-maps, are exactly those of \<open>D\<close>, with tables above the directory.\<close>

definition boot_dirs :: "u32 \<Rightarrow> mm_state \<Rightarrow> u32 set \<Rightarrow> bool" where
  "boot_dirs F s D \<longleftrightarrow> boot_inv F s \<and>
    (\<forall>i < 1024. \<not> self_map i \<longrightarrow> (pde s F i \<noteq> 0 \<longleftrightarrow> i \<in> D) \<and> (pde s F i \<noteq> 0 \<longrightarrow> F < PPN (pde s F i)))"

lemma boot_inv_cong:
  assumes "boot_inv F s" "number_of_frames t = number_of_frames s"
    "unat (ptr_free_mem s) \<le> unat (ptr_free_mem t)" "next_frame s \<le> next_frame t"
    "next_frame t < unat (number_of_frames s)"
    "\<And>i. i < 1024 \<Longrightarrow> \<not> self_map i \<Longrightarrow> PPN (pde t F i) = PPN (pde s F i) \<and> (pde t F i = 0 \<longleftrightarrow> pde s F i = 0) \<and>
      (pde t F i \<noteq> 0 \<longrightarrow> pde t F i AND 1 = 1)"
  shows "boot_inv F t"
  unfolding boot_inv_def
proof (intro conjI allI impI)
  show "unat (number_of_frames t) \<le> 0x10000" "0xF0000000 < unat (ptr_free_mem t)"
    "next_frame t < unat (number_of_frames t)" "unat F < next_frame t"
    using assms(1-5) by (auto simp: boot_inv_def)
  fix i :: u32 assume i: "i < 1024" "\<not> self_map i" "pde t F i \<noteq> 0"
  have si: "pde s F i \<noteq> 0" using i assms(6) by blast
  note o = boot_inv_table [OF assms(1) i(1,2) si]
  show "pde t F i AND 1 = 1" "PPN (pde t F i) \<noteq> 0" "PPN (pde t F i) \<noteq> F" "unat (PPN (pde t F i)) < next_frame t"
    using assms(4,6) i o by auto
  fix k :: u32 assume k: "k < 1024" "\<not> self_map k" "pde t F k \<noteq> 0" "PPN (pde t F i) = PPN (pde t F k)"
  then have "pde s F k \<noteq> 0" "PPN (pde s F i) = PPN (pde s F k)" using assms(6) i by auto
  then show "i = k" using assms(1) i(1,2) k(1,2) si unfolding boot_inv_def by blast
qed

lemma boot_allocate_inv:
  assumes "boot_dirs F s D" "next_frame s + page_count sz < unat (number_of_frames s)"
  obtains t where "boot_allocate_space eok sz align s = (kva (of_nat (next_frame s)), t)"
    "boot_dirs F t D" "kmem t = kmem s" "number_of_frames t = number_of_frames s"
    "next_frame t = next_frame s + page_count sz" "next_frame s < 0x10000"
proof -
  have inv: "boot_inv F s" using assms(1) by (simp add: boot_dirs_def)
  note fr = boot_inv_frames [OF inv]
  have top: "0xF0000000 < unat (ptr_free_mem s)" using inv by (simp add: boot_inv_def)
  have "unat (number_of_frames s) \<le> 0x10000" using fr(5) by (simp add: word_le_nat_alt)
  moreover have "unat sz \<le> 4096 * page_count sz" unfolding page_count_def by linarith
  ultimately have sz: "4096 * next_frame s + unat sz < 0x10000000" using assms(2) by linarith
  note al = boot_allocate_space_eq [where sz = sz, OF top fr(3) sz]
  define t where "t = s\<lparr>ptr_free_mem := kva (of_nat (next_frame s)) + sz\<rparr>"
  have t: "kmem t = kmem s" "number_of_frames t = number_of_frames s" "next_frame t = next_frame s + page_count sz"
    using al(2) by (simp_all add: t_def page_count_def)
  have pd: "pde t F i = pde s F i" for i using t(1) by (simp add: pde_def word_at_def)
  have "unat (ptr_free_mem s) \<le> 0xF0000000 + 4096 * next_frame s" unfolding next_frame_def by linarith
  then have "unat (ptr_free_mem s) \<le> unat (ptr_free_mem t)" using al(3) by (simp add: t_def)
  then have "boot_inv F t"
    using boot_inv_cong [OF inv t(2)] t(3) assms(2) boot_inv_table(1) [OF inv] by (simp add: pd)
  then show thesis using that [of t] al(1) t assms(1) fr(3) by (simp add: t_def [symmetric] boot_dirs_def pd)
qed

lemma boot_store_dir:
  assumes "boot_dirs F s D" "i < 1024"
    "self_map i \<or> pde s F i \<noteq> 0 \<and> PPN v = PPN (pde s F i) \<and> v \<noteq> 0 \<and> v AND 1 = 1"
  defines "t \<equiv> store_word (kva F + 4 * i) v s"
  shows "boot_dirs F t D" "next_frame t = next_frame s" "number_of_frames t = number_of_frames s"
    "k < 1024 \<Longrightarrow> pde t F k = (if k = i then v else pde s F k)"
    "\<not> self_map (PDX va) \<Longrightarrow> check_va2pa (kva F) va t = check_va2pa (kva F) va s"
proof -
  have inv: "boot_inv F s" using assms(1) by (simp add: boot_dirs_def)
  note F = boot_inv_frames(1) [OF inv]
  have w: "word_at t g j = (if F = g \<and> i = j then v else word_at s g j)" if "g < 0x10000" "j < 1024" for g j
    unfolding t_def by (rule word_at_store [OF F that(1) assms(2) that(2)])
  show pd: "pde t F k = (if k = i then v else pde s F k)" if "k < 1024" for k
    using w [OF F that] by (auto simp: pde_def)
  show nx: "next_frame t = next_frame s" by (rule next_frame_cong) (simp add: t_def store_word_def)
  show nf: "number_of_frames t = number_of_frames s" by (simp add: t_def store_word_def)
  have same: "PPN (pde t F k) = PPN (pde s F k) \<and> (pde t F k = 0 \<longleftrightarrow> pde s F k = 0) \<and>
      (pde t F k \<noteq> 0 \<longrightarrow> pde t F k AND 1 = 1)" if "k < 1024" "\<not> self_map k" for k
    using pd [OF that(1)] assms(3) that boot_inv_table(1) [OF inv that] by (auto split: if_splits)
  have inv': "boot_inv F t"
    by (rule boot_inv_cong [OF inv nf]) (use nx inv same in \<open>auto simp: t_def store_word_def boot_inv_def\<close>)
  then show "boot_dirs F t D" using assms(1) same by (simp add: boot_dirs_def)
  show "check_va2pa (kva F) va t = check_va2pa (kva F) va s" if va: "\<not> self_map (PDX va)"
  proof -
    have "pte t F (PDX va) (PTX va) = pte s F (PDX va) (PTX va)"
    proof (cases "pde s F (PDX va) = 0")
      case True
      then show ?thesis using same [OF PDX_less va] by (simp add: pte_def)
    next
      case False
      note t = boot_inv_table [OF inv PDX_less va False]
      show ?thesis using same [OF PDX_less va] False t(3) w [OF t(6) PTX_less] by (simp add: pte_def)
    qed
    then show ?thesis using check_va2pa_boot [OF inv va] check_va2pa_boot [OF inv' va] by simp
  qed
qed

lemma page_dir: "PPN va \<in> pages_of b m \<Longrightarrow> PDX va \<in> dirs_of b m"
  using same_page_iff by (fastforce simp: pages_of_def dirs_of_def)

text \<open>One range mapped with tables of its own.\<close>

lemma boot_map_new_range:
  assumes "boot_dirs F s D" "unat sz < 2 ^ 32 - 4096" "dirs_of va (page_count sz) = E" "\<forall>d \<in> E. \<not> self_map d"
    and "card E = k" "next_frame s + k < unat (number_of_frames s)" "perm < 0x1000"
    and "unat pa \<le> 2 ^ 32 - 4096" "unat pa mod 4096 = 0" "D \<inter> E = {}"
  obtains t where "boot_map_range eok (kva F) va sz pa perm s = Inr t" "boot_dirs F t (D \<union> E)"
    "next_frame t = next_frame s + k" "number_of_frames t = number_of_frames s"
    "\<forall>l < page_count sz. check_va2pa (kva F) (page_at va l) t = Inr (page_at pa l)"
    "\<forall>v. \<not> self_map (PDX v) \<and> PDX v \<in> D \<longrightarrow> check_va2pa (kva F) v t = check_va2pa (kva F) v s"
    "\<forall>i < 1024. self_map i \<longrightarrow> pde t F i = pde s F i"
proof -
  let ?m = "page_count sz"
  have inv: "boot_inv F s" using assms(1) by (simp add: boot_dirs_def)
  have "missing F s va ?m = E"
    using assms(1,3,4,10) dirs_of_less unfolding missing_def boot_dirs_def by blast
  then have c: "card (missing F s va ?m) = k" using assms(5) by simp
  obtain t where t: "boot_map_range eok (kva F) va sz pa perm s = Inr t"
    "grows F s t E (pages_of va ?m)" "next_frame t = next_frame s + k"
    "\<forall>l < ?m. check_va2pa (kva F) (page_at va l) t = Inr (page_at (ROUNDUP pa PAGE_SIZE) l)"
    using boot_map_range_grows [where eok = eok, OF inv assms(2) _ _ assms(8,7), of va] assms(3,4,6) c by metis
  have "ROUNDUP pa PAGE_SIZE = pa"
  proof -
    obtain k where k: "unat pa = 4096 * k" using assms(9) by auto
    have "unat (ROUNDUP pa PAGE_SIZE) = (unat pa + unat PAGE_SIZE - 1) div unat PAGE_SIZE * unat PAGE_SIZE"
      by (rule unat_ROUNDUP) (use assms(8) in simp_all)
    then show ?thesis unfolding word_unat_eq_iff k by simp
  qed
  moreover have inv': "boot_inv F t" "number_of_frames t = number_of_frames s" using t(2) by (simp_all add: grows_def)
  moreover have "boot_dirs F t (D \<union> E)"
    unfolding boot_dirs_def
  proof (intro conjI allI impI)
    fix i :: u32 assume i: "i < 1024" "\<not> self_map i"
    show "pde t F i \<noteq> 0 \<longleftrightarrow> i \<in> D \<union> E"
      using t(2) assms(1) i unfolding boot_dirs_def grows_def by (metis Un_iff)
    have "unat F < next_frame s" using inv by (simp add: boot_inv_def)
    then show "F < PPN (pde t F i)" if "pde t F i \<noteq> 0"
      using t(2) assms(1) i that unfolding boot_dirs_def grows_def word_less_nat_alt
      by (cases "pde s F i = 0") (auto intro: less_le_trans)
  qed (rule inv')
  moreover have "check_va2pa (kva F) v t = check_va2pa (kva F) v s" if "\<not> self_map (PDX v) \<and> PDX v \<in> D" for v
  proof -
    have "PPN v \<notin> pages_of va ?m" "pde s F (PDX v) \<noteq> 0"
      using page_dir that assms(1,3,10) unfolding boot_dirs_def by auto
    then show ?thesis using t(2) that check_va2pa_boot [OF inv] check_va2pa_boot [OF inv'(1)] by (simp add: grows_def)
  qed
  moreover have "pde t F i = pde s F i" if "i < 1024" "self_map i" for i
    using t(2) that assms(4) unfolding grows_def by blast
  ultimately show thesis using that [of t] t by simp
qed

lemma PDX_page_at: "unat va + 4096 * l < 2 ^ 32 \<Longrightarrow> unat (PDX (page_at va l)) = (unat va + 4096 * l) div 4194304"
  by (simp add: unat_PDX page_at_def unat_word_ariths unat_of_nat)

lemma dirs_single:
  assumes "0 < m" "unat va + 4096 * m \<le> 4194304 * (unat d + 1)" "4194304 * unat d \<le> unat va" "unat d < 1024"
  shows "dirs_of va m = {d}"
proof -
  have "PDX (page_at va l) = d" if "l < m" for l
  proof -
    have "(unat va + 4096 * l) div 4194304 = unat d"
      using assms(2,3) that by (intro div_nat_eqI) auto
    moreover have "unat va + 4096 * l < 2 ^ 32" using assms(2,4) that by simp
    ultimately show ?thesis using PDX_page_at by (simp add: word_unat_eq_iff)
  qed
  then show ?thesis using assms(1) by (auto simp: dirs_of_def)
qed

lemma dirs_kernel: "dirs_of KERNEL_BASE 0x10000 = set (word_range 960 1024)"
proof (rule set_eqI)
  fix d :: u32
  have p: "unat (PDX (page_at KERNEL_BASE l)) = 960 + l div 1024" if "l < 65536" for l
  proof -
    have "(4026531840 + 4096 * l) div 4194304 = 4096 * (983040 + l) div (4096 * 1024)" by simp
    also have "\<dots> = (983040 + l) div 1024" by (rule div_mult_mult1) simp
    also have "\<dots> = 960 + l div 1024" by simp
    finally have "(4026531840 + 4096 * l) div 4194304 = 960 + l div 1024" .
    then show ?thesis using PDX_page_at [of KERNEL_BASE l] that by simp
  qed
  show "d \<in> dirs_of KERNEL_BASE 0x10000 \<longleftrightarrow> d \<in> set (word_range 960 1024)"
  proof
    assume "d \<in> dirs_of KERNEL_BASE 0x10000"
    then obtain l where l: "l < 65536" "d = PDX (page_at KERNEL_BASE l)" by (auto simp: dirs_of_def)
    then have "l div 1024 < 64" by (intro less_mult_imp_div_less) simp
    then show "d \<in> set (word_range 960 1024)" using p [OF l(1)] l(2) by (simp add: word_le_nat_alt word_less_nat_alt)
  next
    assume "d \<in> set (word_range 960 1024)"
    then have d: "960 \<le> unat d" "unat d < 1024" by (simp_all add: word_le_nat_alt word_less_nat_alt)
    define l where "l = 1024 * (unat d - 960)"
    have "l < 65536" "PDX (page_at KERNEL_BASE l) = d" using d p [of l] by (simp_all add: l_def word_unat_eq_iff)
    then show "d \<in> dirs_of KERNEL_BASE 0x10000" unfolding dirs_of_def by (intro image_eqI [of _ _ l]) auto
  qed
qed

lemma for_each_id: "(\<And>x. x \<in> set xs \<Longrightarrow> f x s = Inr s) \<Longrightarrow> for_each f xs s = Inr s"
  by (induction xs) simp_all

text \<open>The asserts of \<^verbatim>\<open>check_boot_pgdir\<close> over a mapped range.\<close>

lemma assert_range:
  assumes "\<forall>l < unat n. check_va2pa d (page_at va l) s = Inr (page_at pa l)"
  shows "for_each (\<lambda>i. assert_va2pa line d (va + i) (pa + i)) (page_steps n) s = Inr s"
proof (rule for_each_id)
  fix x assume "x \<in> set (page_steps n)"
  then obtain k where k: "k < n" "x = k * PAGE_SIZE" by (auto simp: page_steps_def)
  have x: "page_at b (unat k) = b + x" for b using k(2) by (simp add: page_at_def mult.commute)
  have "unat k < unat n" using k(1) by (simp add: word_less_nat_alt)
  then have "check_va2pa d (page_at va (unat k)) s = Inr (page_at pa (unat k))" using assms by blast
  then have "check_va2pa d (va + x) s = Inr (pa + x)" unfolding x .
  then show "assert_va2pa line d (va + x) (pa + x) s = Inr s" by (simp add: assert_va2pa_def)
qed

text \<open>What \<^verbatim>\<open>initialize_kernel_VM\<close> builds.\<close>

definition mapped :: "u32 \<Rightarrow> mm_state \<Rightarrow> u32 \<Rightarrow> u32 \<Rightarrow> nat \<Rightarrow> bool" where
  "mapped F s va pa n \<longleftrightarrow> (\<forall>l < n. check_va2pa (kva F) (page_at va l) s = Inr (page_at pa l))"

lemma mapped_keep:
  assumes "mapped F s va pa n" "dirs_of va n \<subseteq> D" "\<forall>d \<in> D. \<not> self_map d"
    "\<forall>v. \<not> self_map (PDX v) \<and> PDX v \<in> D \<longrightarrow> check_va2pa (kva F) v t = check_va2pa (kva F) v s"
  shows "mapped F t va pa n"
  unfolding mapped_def
proof (intro allI impI)
  fix l assume l: "l < n"
  then have "PDX (page_at va l) \<in> D" using assms(2) by (auto simp: dirs_of_def)
  then show "check_va2pa (kva F) (page_at va l) t = Inr (page_at pa l)"
    using assms(1,3,4) l by (simp add: mapped_def)
qed

text \<open>The first allocation starts at the end of the kernel; the page is the empty directory.\<close>

lemma boot_directory:
  assumes "ptr_free_mem m = 0" "0xF0000000 < unat eok" "unat (number_of_frames m) \<le> 0x10000"
    "(unat eok - 0xF0000000 + 4095) div 4096 + 1 < unat (number_of_frames m)"
  defines "F \<equiv> of_nat ((unat eok - 0xF0000000 + 4095) div 4096)"
  obtains t where "boot_allocate_space eok PAGE_SIZE PAGE_SIZE m = (kva F, t)"
    "boot_dirs F (memset_page (kva F) t) {}"
    "next_frame (memset_page (kva F) t) = (unat eok - 0xF0000000 + 4095) div 4096 + 1"
    "number_of_frames t = number_of_frames m" "F < 0x10000"
proof -
  define s where "s = m\<lparr>ptr_free_mem := eok\<rparr>"
  have n: "next_frame s = (unat eok - 0xF0000000 + 4095) div 4096" by (simp add: s_def next_frame_def)
  have top: "0xF0000000 < unat (ptr_free_mem s)" using assms(2) by (simp add: s_def)
  have f: "next_frame s < 0x10000" "4096 * next_frame s + unat PAGE_SIZE < 0x10000000"
    using assms(3,4) n by simp_all
  note al = boot_allocate_space_eq [where sz = PAGE_SIZE, OF top f]
  have F: "F = of_nat (next_frame s)" "unat F = next_frame s" "F < 0x10000"
    using f(1) n by (simp_all add: F_def unat_of_nat word_less_nat_alt)
  define t where "t = s\<lparr>ptr_free_mem := kva F + PAGE_SIZE\<rparr>"
  let ?u = "memset_page (kva F) t"
  have run: "boot_allocate_space eok PAGE_SIZE PAGE_SIZE m = (kva F, t)"
    using al(1) [of eok PAGE_SIZE] assms(1) F(1) by (simp add: boot_allocate_space_def s_def t_def Let_def split: if_splits)
  have pd: "pde ?u F i = 0" if "i < 1024" for i
    using word_at_memset [OF F(3,3) that] by (simp add: pde_def)
  have nf: "number_of_frames t = number_of_frames m" by (simp add: t_def s_def)
  have "next_frame ?u = next_frame t" by (rule next_frame_cong) (simp add: memset_page_def)
  then have nx: "next_frame ?u = next_frame s + 1" using al(2) F(1) by (simp add: t_def)
  have u: "number_of_frames ?u = number_of_frames m" using nf by (simp add: memset_page_def)
  have "ptr_free_mem ?u = kva (of_nat (next_frame s)) + PAGE_SIZE" using F(1) by (simp add: memset_page_def t_def)
  then have "unat (ptr_free_mem ?u) = 0xF0000000 + 4096 * next_frame s + unat PAGE_SIZE" by (simp only: al(3))
  then have "0xF0000000 < unat (ptr_free_mem ?u)" by simp
  moreover have "next_frame s + 1 < unat (number_of_frames ?u)" using assms(4) n u by simp
  moreover have "unat F < next_frame s + 1" using F(2) by simp
  ultimately have "boot_inv F ?u"
    unfolding boot_inv_def nx using assms(3) u pd by metis
  then have "boot_dirs F ?u {}" using pd by (simp add: boot_dirs_def)
  then show thesis using that [OF run _ _ nf F(3)] nx n by simp
qed

lemma setup_listing_dirs:
  assumes "boot_dirs F s D"
  obtains t where "setup_listing_to_all_page_tables_entries (kva F) s = Inr t" "boot_dirs F t D"
    "next_frame t = next_frame s" "number_of_frames t = number_of_frames s"
    "pde t F 959 = CONSTRUCT_ENTRY (push_bit 12 F) 3" "pde t F 957 = push_bit 12 F OR 4 OR 1"
    "\<forall>va. \<not> self_map (PDX va) \<longrightarrow> check_va2pa (kva F) va t = check_va2pa (kva F) va s"
proof -
  have F: "F < 0x10000" using boot_inv_frames(1) assms by (auto simp: boot_dirs_def)
  let ?t = "store_word (kva F + 4 * 959) (CONSTRUCT_ENTRY (push_bit 12 F) 3) s"
  let ?u = "store_word (kva F + 4 * 957) (push_bit 12 F OR 4 OR 1) ?t"
  note s1 = boot_store_dir [where i = 959 and v = "CONSTRUCT_ENTRY (push_bit 12 F) 3", OF assms, unfolded self_map_def, simplified]
  note s2 = boot_store_dir [where i = 957 and v = "push_bit 12 F OR 4 OR 1", OF s1(1), unfolded self_map_def, simplified]
  have d: "PDX VPT = 959" "PDX UVPT = 957" by (simp_all add: PDX_def)
  have "setup_listing_to_all_page_tables_entries (kva F) s = Inr ?u"
    unfolding setup_listing_to_all_page_tables_entries_def d K_PHYSICAL_ADDRESS_kva [OF F] Let_def bind_res_simps
    by simp
  then show thesis
    using that [of ?u] s1 s2 by (simp add: self_map_def)
qed

definition kernel_dirs :: "u32 set" where
  "kernel_dirs = {955, 956, 958} \<union> set (word_range 960 1024)"

lemma kernel_dirs_iff: "i \<in> kernel_dirs \<longleftrightarrow> i = 955 \<or> i = 956 \<or> i = 958 \<or> 960 \<le> i \<and> i < 1024"
  by (simp add: kernel_dirs_def)

lemma check_boot_pgdir_ok:
  assumes d: "boot_dirs F (mm s) kernel_dirs" "pde (mm s) F 957 \<noteq> 0" "pde (mm s) F 959 \<noteq> 0"
    and p: "ptr_page_directory s = kva F" "frames_info s = kva g" "g < 0x10000" "KERNEL_BASE \<le> stack"
    and n: "unat (number_of_frames (mm s)) \<le> 0x10000" "has_nul (bytes s)"
    and m: "mapped F (mm s) READ_ONLY_FRAMES_INFO (push_bit 12 g) (page_count (number_of_frames (mm s) * 12))"
      "mapped F (mm s) KERNEL_BASE 0 0x10000"
      "mapped F (mm s) (KERNEL_STACK_TOP - KERNEL_STACK_SIZE) (stack - KERNEL_BASE) 8"
  shows "\<exists>c. check_boot_pgdir stack s = Inr (s\<lparr>con := c\<rparr>)"
proof -
  let ?m = "mm s"
  define sz where "sz = number_of_frames ?m * 12"
  have sz: "unat sz = unat (number_of_frames ?m) * 12" using n(1) by (simp add: sz_def unat_word_ariths)
  have "unat (ROUNDUP sz PAGE_SIZE) = (unat sz + unat PAGE_SIZE - 1) div unat PAGE_SIZE * unat PAGE_SIZE"
    by (rule unat_ROUNDUP) (use sz n(1) in simp_all)
  then have c: "unat (ROUNDUP sz PAGE_SIZE div PAGE_SIZE) = page_count sz" by (simp add: unat_div page_count_def)
  have r1: "for_each (\<lambda>i. assert_va2pa 95 (kva F) (READ_ONLY_FRAMES_INFO + i) (push_bit 12 g + i))
      (page_steps (ROUNDUP sz PAGE_SIZE div PAGE_SIZE)) ?m = Inr ?m"
    by (rule assert_range) (use m(1) c in \<open>simp add: mapped_def sz_def\<close>)
  have r2: "for_each (\<lambda>i. assert_va2pa 99 (kva F) (KERNEL_BASE + i) (0 + i)) (page_steps 0x10000) ?m = Inr ?m"
    by (rule assert_range) (use m(2) in \<open>simp add: mapped_def\<close>)
  have r3: "for_each (\<lambda>i. assert_va2pa 103 (kva F) (KERNEL_STACK_TOP - KERNEL_STACK_SIZE + i) (stack - KERNEL_BASE + i))
      (page_steps (KERNEL_STACK_SIZE div PAGE_SIZE)) ?m = Inr ?m"
    by (rule assert_range) (use m(3) in \<open>simp add: mapped_def\<close>)
  have r4: "for_each (check_pde (kva F)) (word_range 0 1024) ?m = Inr ?m"
  proof (rule for_each_id)
    fix i assume "i \<in> set (word_range 0 1024)"
    then have i: "i < 1024" by simp
    have x: "PDX VPT = 959" "PDX UVPT = 957" "PDX (KERNEL_STACK_TOP - 1) = 958" "PDX UENVS = 955"
      "PDX READ_ONLY_FRAMES_INFO = 956" "PDX KERNEL_BASE = 960" by (simp_all add: PDX_def)
    have "pde ?m F i \<noteq> 0 \<longleftrightarrow> i = 957 \<or> i = 959 \<or> i \<in> kernel_dirs"
      using d i unfolding boot_dirs_def self_map_def by blast
    then show "check_pde (kva F) i ?m = Inr ?m"
      using i unfolding check_pde_def x pde_read Let_def kernel_dirs_iff by auto
  qed
  obtain c where "cprintf (''[Boot Page Dir] Success'' @ [CHR 0x0A]) [] s = Inr (s\<lparr>con := c\<rparr>)"
    using cprintf_returns [OF n(2)] by blast
  moreover have "s\<lparr>mm := ?m\<rparr> = s" by simp
  moreover have "K_PHYSICAL_ADDRESS stack = Inr (stack - KERNEL_BASE)"
    using p(4) by (simp add: K_PHYSICAL_ADDRESS_def)
  ultimately show ?thesis
    unfolding check_boot_pgdir_def Let_def p(1,2) K_PHYSICAL_ADDRESS_kva [OF p(3)] bind_res_simps
      r1 [unfolded sz_def] r2 [unfolded add_0]
    by (auto simp: r3 [simplified] r4 [simplified])
qed

lemma PPN_or_flags:
  assumes "p < 0x1000"
  shows "PPN (x OR p) = PPN x"
proof -
  have "drop_bit 12 p = 0" using assms by (simp add: word_unat_eq_iff unat_drop_bit word_less_nat_alt)
  then show ?thesis by (simp add: PPN_def drop_bit_or)
qed

lemma or_five: "(x OR 5) AND 1 = (1 :: u32)" "x OR 5 \<noteq> (0 :: u32)"
proof -
  have "(x OR 5) AND 1 = (x AND 1) OR 1" by (simp add: bit.conj_disj_distrib2)
  then show "(x OR 5) AND 1 = 1" by (simp add: or_one_eq and_one_eq mod_2_eq_odd)
  then show "x OR 5 \<noteq> 0" by auto
qed

text \<open>The five ranges, one after the other, as \<^verbatim>\<open>initialize_kernel_VM\<close> maps them.\<close>

lemma boot_ranges_kernel:
  assumes "boot_dirs F m {}" "unat pa \<le> 2 ^ 32 - 4096" "unat pa mod 4096 = 0"
    and "next_frame m + 65 < unat (number_of_frames m)"
  obtains t1 t2 where "boot_map_range eok (kva F) 0xEFBF8000 0x8000 pa 2 m = Inr t1"
    "boot_map_range eok (kva F) 0xF0000000 0x0FFFFFFF 0 2 t1 = Inr t2"
    "boot_dirs F t2 ({958} \<union> set (word_range 960 1024))" "next_frame t2 = next_frame m + 65"
    "number_of_frames t2 = number_of_frames m"
    "mapped F t2 0xEFBF8000 pa 8" "mapped F t2 0xF0000000 0 0x10000"
proof -
  have c: "page_count 0x8000 = 8" "page_count 0x0FFFFFFF = 0x10000" by (simp_all add: page_count_def)
  have d: "dirs_of 0xEFBF8000 (page_count 0x8000) = {958}" unfolding c by (rule dirs_single) simp_all
  obtain t1 where t1: "boot_map_range eok (kva F) 0xEFBF8000 0x8000 pa 2 m = Inr t1" "boot_dirs F t1 ({} \<union> {958})"
    "next_frame t1 = next_frame m + 1" "number_of_frames t1 = number_of_frames m"
    "\<forall>l < page_count 0x8000. check_va2pa (kva F) (page_at 0xEFBF8000 l) t1 = Inr (page_at pa l)"
    by (rule boot_map_new_range [where eok = eok and k = 1 and sz = "0x8000" and perm = 2, OF assms(1) _ d])
      (use assms in \<open>auto simp: self_map_def\<close>)
  have e: "dirs_of 0xF0000000 (page_count 0x0FFFFFFF) = set (word_range 960 1024)"
    using dirs_kernel by (simp add: c)
  have k: "card (set (word_range (960 :: u32) 1024)) = 64"
    using distinct_card [OF distinct_word_range, of "960 :: u32" 1024] by (simp add: length_word_range)
  have D: "boot_dirs F t1 {958}" using t1(2) by simp
  obtain t2 where t2: "boot_map_range eok (kva F) 0xF0000000 0x0FFFFFFF 0 2 t1 = Inr t2"
    "boot_dirs F t2 ({958} \<union> set (word_range 960 1024))"
    "next_frame t2 = next_frame t1 + 64" "number_of_frames t2 = number_of_frames t1"
    "\<forall>l < page_count 0x0FFFFFFF. check_va2pa (kva F) (page_at 0xF0000000 l) t2 = Inr (page_at 0 l)"
    "\<forall>v. \<not> self_map (PDX v) \<and> PDX v \<in> {958} \<longrightarrow> check_va2pa (kva F) v t2 = check_va2pa (kva F) v t1"
    by (rule boot_map_new_range [where eok = eok and k = 64 and sz = "0x0FFFFFFF" and pa = 0 and perm = 2, OF D _ e _ k])
      (use assms t1 in \<open>auto simp: self_map_def\<close>)
  have "mapped F t2 0xEFBF8000 pa 8"
    by (rule mapped_keep [where s = t1 and D = "{958}"]) (use t1 t2 d c in \<open>simp_all add: mapped_def self_map_def\<close>)
  then show thesis using that [of t1 t2] t1 t2 c by (simp add: mapped_def)
qed

lemma check_va2pa_cong:
  "kmem t = kmem s \<Longrightarrow> number_of_frames t = number_of_frames s \<Longrightarrow> check_va2pa d va t = check_va2pa d va s"
proof -
  assume m: "kmem t = kmem s" "number_of_frames t = number_of_frames s"
  then have k: "K_VIRTUAL_ADDRESS t = K_VIRTUAL_ADDRESS s" by (intro ext) (simp add: K_VIRTUAL_ADDRESS_def)
  show "check_va2pa d va t = check_va2pa d va s" unfolding check_va2pa_def k m(1) ..
qed

lemma boot_range_user:
  assumes D: "boot_dirs F m D" "\<forall>d \<in> D. \<not> self_map d" "unat d < 1024" "d \<notin> D" "\<not> self_map d"
    and va: "unat va = 4194304 * unat d" "0 < unat sz" "unat sz \<le> 4194304"
    and n: "next_frame m + page_count sz + 1 < unat (number_of_frames m)"
  obtains t u where "boot_allocate_space eok sz PAGE_SIZE m = (kva (of_nat (next_frame m)), t)"
    "boot_map_range eok (kva F) va sz (push_bit 12 (of_nat (next_frame m))) PERM_USER t = Inr u"
    "boot_dirs F u (D \<union> {d})" "next_frame u = next_frame m + page_count sz + 1"
    "number_of_frames u = number_of_frames m" "next_frame m < 0x10000"
    "mapped F u va (push_bit 12 (of_nat (next_frame m))) (page_count sz)"
    "\<forall>v. \<not> self_map (PDX v) \<and> PDX v \<in> D \<longrightarrow> check_va2pa (kva F) v u = check_va2pa (kva F) v m"
    "\<forall>i < 1024. self_map i \<longrightarrow> pde u F i = pde m F i"
proof -
  obtain t where t: "boot_allocate_space eok sz PAGE_SIZE m = (kva (of_nat (next_frame m)), t)"
    "boot_dirs F t D" "kmem t = kmem m" "number_of_frames t = number_of_frames m"
    "next_frame t = next_frame m + page_count sz" "next_frame m < 0x10000"
    by (rule boot_allocate_inv [where eok = eok and sz = sz and align = PAGE_SIZE, OF D(1)]) (use n in simp_all)
  let ?g = "of_nat (next_frame m) :: u32"
  have g: "unat ?g = next_frame m" using t(6) by (simp add: unat_of_nat)
  have pa: "unat (push_bit 12 ?g) = 4096 * next_frame m" using t(6) g by (simp add: unat_push_bit)
  have c: "0 < page_count sz" "page_count sz \<le> 1024" unfolding page_count_def using va(2,3) by linarith+
  have e: "dirs_of va (page_count sz) = {d}" by (rule dirs_single) (use D(3) va(1) c in simp_all)
  obtain u where u: "boot_map_range eok (kva F) va sz (push_bit 12 ?g) PERM_USER t = Inr u"
    "boot_dirs F u (D \<union> {d})" "next_frame u = next_frame t + 1" "number_of_frames u = number_of_frames t"
    "\<forall>l < page_count sz. check_va2pa (kva F) (page_at va l) u = Inr (page_at (push_bit 12 ?g) l)"
    "\<forall>v. \<not> self_map (PDX v) \<and> PDX v \<in> D \<longrightarrow> check_va2pa (kva F) v u = check_va2pa (kva F) v t"
    "\<forall>i < 1024. self_map i \<longrightarrow> pde u F i = pde t F i"
    by (rule boot_map_new_range [where eok = eok and k = 1 and sz = sz and perm = PERM_USER and pa = "push_bit 12 ?g",
          OF t(2) _ e])
      (use t n D pa va(3) in \<open>auto\<close>)
  have k: "pde t F i = pde m F i" "check_va2pa (kva F) v t = check_va2pa (kva F) v m" for i v
    using t(3) check_va2pa_cong [OF t(3,4)] by (simp_all add: pde_def word_at_def)
  show thesis using that [of t u] t u k by (simp add: mapped_def)
qed


lemma paged_cr0_bits: "paged_cr0 c AND 0x80010001 = 0x80010001"
proof (rule bit_word_eqI)
  let ?b = "CR0_PE OR CR0_PG OR CR0_AM OR CR0_WP OR CR0_NE OR CR0_TS OR CR0_EM OR CR0_MP"
  fix k
  have "(?b AND NOT (CR0_TS OR CR0_EM)) AND 0x80010001 = (0x80010001 :: u32)" by simp
  then have "bit ((?b AND NOT (CR0_TS OR CR0_EM)) AND 0x80010001) k = bit (0x80010001 :: u32) k" by (simp only:)
  then show "bit (paged_cr0 c AND 0x80010001) k = bit (0x80010001 :: u32) k"
    by (simp only: paged_cr0_def bit_and_iff bit_or_iff) blast
qed

lemma turn_on_paging_state:
  "turn_on_paging s = s\<lparr>mm := mm (turn_on_paging s), cr3 := phys_page_directory s, cr0 := paged_cr0 (cr0 s),
     segment_regs := kernel_segments\<rparr>"
  "mm (turn_on_paging s) = store_word (ptr_page_directory s) 0
     (store_word (ptr_page_directory s) (kmem (mm s) (ptr_page_directory s + 4 * PDX KERNEL_BASE)) (mm s))"
  by (simp_all add: turn_on_paging_def turn_on_paging_steps_def Let_def load_selector_def descriptor_def
      kernel_segments_def gdt_entries_def)

lemma turn_on_paging_eq:
  assumes "pde (mm s) F 0 = 0" "ptr_page_directory s = kva F"
  obtains t where "turn_on_paging s = t" "kmem (mm t) = kmem (mm s)" "number_of_frames (mm t) = number_of_frames (mm s)"
    "ptr_page_directory t = kva F" "cr3 t = phys_page_directory s" "frames_info t = frames_info s"
    "envs_base t = envs_base s" "cr0 t AND 0x80010001 = 0x80010001" "ptr_free_mem (mm t) = ptr_free_mem (mm s)"
    "t = s\<lparr>mm := mm t, cr3 := phys_page_directory s, cr0 := cr0 t, segment_regs := kernel_segments\<rparr>"
proof -
  let ?t = "turn_on_paging s"
  have "kmem (mm s) (kva F) = 0" using assms(1) pde_read [of "mm s" F 0] by simp
  then have m: "kmem (mm ?t) = kmem (mm s)"
    by (simp add: turn_on_paging_state(2) assms(2) store_word_def fun_eq_iff)
  have f: "number_of_frames (mm ?t) = number_of_frames (mm s)" "ptr_free_mem (mm ?t) = ptr_free_mem (mm s)"
    by (simp_all add: turn_on_paging_state(2) store_word_def)
  have e: "ptr_page_directory ?t = kva F" "cr3 ?t = phys_page_directory s" "frames_info ?t = frames_info s"
    "envs_base ?t = envs_base s" "cr0 ?t = paged_cr0 (cr0 s)"
    by (subst turn_on_paging_state(1), simp add: assms(2))+
  show thesis
    using that [OF refl m f(1) e(1-4) _ f(2)] turn_on_paging_state(1) [of s] by (simp add: e(5) paged_cr0_bits)
qed

lemma kernel_dirs_low:
  assumes "boot_dirs F m kernel_dirs" "i < 955"
  shows "pde m F i = 0"
proof -
  have "i < 1024" "\<not> self_map i" "i \<notin> kernel_dirs"
    using assms(2) by (auto simp: self_map_def kernel_dirs_iff word_less_nat_alt word_le_nat_alt)
  then show ?thesis using assms(1) unfolding boot_dirs_def by blast
qed

lemma region_dirs:
  "dirs_of 0xEFBF8000 8 = {958}" "dirs_of UENVS 25 = {955}"
  "0 < n \<Longrightarrow> n \<le> 1024 \<Longrightarrow> dirs_of READ_ONLY_FRAMES_INFO n = {956}"
  by (rule dirs_single; simp)+

text \<open>The entries used for the stack and physical memory, and those with the frame table.\<close>

definition memory_dirs :: "u32 set" where "memory_dirs = {958} \<union> set (word_range 960 1024)"
definition table_dirs :: "u32 set" where "table_dirs = memory_dirs \<union> {956}"

lemma table_dirs_UENVS: "insert 955 table_dirs = kernel_dirs"
  by (auto simp: table_dirs_def memory_dirs_def kernel_dirs_def)

lemma dirs_no_self_map: "\<forall>d \<in> memory_dirs. \<not> self_map d" "\<forall>d \<in> table_dirs. \<not> self_map d" "\<forall>d \<in> kernel_dirs. \<not> self_map d"
  by (auto simp: self_map_def memory_dirs_def table_dirs_def kernel_dirs_def)

text \<open>The first half of \<^verbatim>\<open>initialize_kernel_VM\<close>: the directory, the stack, physical memory and the frame table.\<close>

lemma kernel_VM_memory:
  assumes "ptr_free_mem m = 0" "0xF0000000 < unat eok" "unat (number_of_frames m) \<le> 0x10000"
    and "(unat eok - 0xF0000000 + 4095) div 4096 + page_count (number_of_frames m * 12) + 93 < unat (number_of_frames m)"
    and "unat pa \<le> 2 ^ 32 - 4096" "unat pa mod 4096 = 0"
  obtains F g m0 t1 t2 t3 t4 where "boot_allocate_space eok PAGE_SIZE PAGE_SIZE m = (kva F, m0)"
    "boot_map_range eok (kva F) 0xEFBF8000 0x8000 pa 2 (memset_page (kva F) m0) = Inr t1"
    "boot_map_range eok (kva F) 0xF0000000 0x0FFFFFFF 0 2 t1 = Inr t2" "number_of_frames t2 = number_of_frames m"
    "boot_allocate_space eok (number_of_frames m * 12) PAGE_SIZE t2 = (kva g, t3)"
    "boot_map_range eok (kva F) READ_ONLY_FRAMES_INFO (number_of_frames m * 12) (push_bit 12 g) PERM_USER t3 = Inr t4"
    "boot_dirs F t4 table_dirs" "number_of_frames t4 = number_of_frames m"
    "next_frame t4 = (unat eok - 0xF0000000 + 4095) div 4096 + page_count (number_of_frames m * 12) + 67"
    "mapped F t4 0xEFBF8000 pa 8" "mapped F t4 0xF0000000 0 0x10000"
    "mapped F t4 READ_ONLY_FRAMES_INFO (push_bit 12 g) (page_count (number_of_frames m * 12))"
    "g < 0x10000" "F < 0x10000" "unat F = (unat eok - 0xF0000000 + 4095) div 4096"
proof -
  let ?nf = "number_of_frames m"
  let ?sz = "?nf * 12"
  define F where "F = (of_nat ((unat eok - 0xF0000000 + 4095) div 4096) :: u32)"
  have sz: "unat ?sz = unat ?nf * 12" using assms(3) by (simp add: unat_word_ariths)
  obtain m0 where m0: "boot_allocate_space eok PAGE_SIZE PAGE_SIZE m = (kva F, m0)"
    "boot_dirs F (memset_page (kva F) m0) {}"
    "next_frame (memset_page (kva F) m0) = (unat eok - 0xF0000000 + 4095) div 4096 + 1"
    "number_of_frames m0 = ?nf" "F < 0x10000"
    by (rule boot_directory [OF assms(1,2,3), folded F_def]) (use assms(4) in simp)
  have nf: "number_of_frames (memset_page (kva F) m0) = ?nf" using m0(4) by (simp add: memset_page_def)
  obtain t1 t2 where t2: "boot_map_range eok (kva F) 0xEFBF8000 0x8000 pa 2 (memset_page (kva F) m0) = Inr t1"
    "boot_map_range eok (kva F) 0xF0000000 0x0FFFFFFF 0 2 t1 = Inr t2"
    "boot_dirs F t2 memory_dirs"
    "next_frame t2 = next_frame (memset_page (kva F) m0) + 65" "number_of_frames t2 = ?nf"
    "mapped F t2 0xEFBF8000 pa 8" "mapped F t2 0xF0000000 0 0x10000"
    unfolding memory_dirs_def
    by (rule boot_ranges_kernel [where eok = eok, OF m0(2) assms(5,6), unfolded nf]) (use assms(4) m0(3) in simp)
  define g where "g = (of_nat (next_frame t2) :: u32)"
  obtain t3 t4 where t4: "boot_allocate_space eok ?sz PAGE_SIZE t2 = (kva g, t3)"
    "boot_map_range eok (kva F) READ_ONLY_FRAMES_INFO ?sz (push_bit 12 g) PERM_USER t3 = Inr t4"
    "boot_dirs F t4 table_dirs" "next_frame t4 = next_frame t2 + page_count ?sz + 1"
    "number_of_frames t4 = ?nf" "next_frame t2 < 0x10000"
    "mapped F t4 READ_ONLY_FRAMES_INFO (push_bit 12 g) (page_count ?sz)"
    "\<forall>v. \<not> self_map (PDX v) \<and> PDX v \<in> memory_dirs \<longrightarrow> check_va2pa (kva F) v t4 = check_va2pa (kva F) v t2"
    unfolding table_dirs_def
    by (rule boot_range_user [where eok = eok and va = READ_ONLY_FRAMES_INFO and sz = ?sz and d = 956,
          OF t2(3), unfolded t2(5), folded g_def])
      (use assms(3,4) m0(3) t2(4) sz in \<open>auto simp: self_map_def memory_dirs_def\<close>)
  have sub: "dirs_of 0xEFBF8000 8 \<subseteq> memory_dirs" "dirs_of 0xF0000000 0x10000 \<subseteq> memory_dirs"
    using region_dirs dirs_kernel by (auto simp: memory_dirs_def)
  have M: "mapped F t4 0xEFBF8000 pa 8" "mapped F t4 0xF0000000 0 0x10000"
    by (rule mapped_keep [OF t2(6) sub(1) dirs_no_self_map(1) t4(8)], rule mapped_keep [OF t2(7) sub(2) dirs_no_self_map(1) t4(8)])
  have "g < 0x10000" using t4(6) unfolding g_def by (simp only: word_less_nat_alt unat_of_nat) simp
  moreover have "unat F = (unat eok - 0xF0000000 + 4095) div 4096"
    using assms(3,4) by (simp only: F_def unat_of_nat) simp
  ultimately show thesis
    by (rule that [OF m0(1) t2(1,2,5) t4(1-3,5) _ M t4(7) _ m0(5), rotated 1]) (use t4(4) t2(4) m0(3) in simp)
qed

text \<open>The second half: the self-maps and the environments.\<close>

lemma kernel_VM_environments:
  assumes "boot_dirs F t4 table_dirs" "next_frame t4 + 26 < unat (number_of_frames t4)" "F < 0x10000"
  obtains e t5 t6 t7 where "setup_listing_to_all_page_tables_entries (kva F) t4 = Inr t5"
    "boot_allocate_space eok 102400 PAGE_SIZE t5 = (kva e, t6)"
    "boot_map_range eok (kva F) UENVS 102400 (push_bit 12 e) PERM_USER t6 = Inr t7" "e < 0x10000"
    "let m = store_word (kva F + 4 * 955) (pde t7 F 955 OR 5) t7 in
      boot_dirs F m kernel_dirs \<and> number_of_frames m = number_of_frames t4 \<and> mapped F m UENVS (push_bit 12 e) 25 \<and>
      pde m F 957 \<noteq> 0 \<and> pde m F 959 \<noteq> 0 \<and> PPN (pde m F 957) = F \<and> PPN (pde m F 959) = F \<and>
      (\<forall>v. PDX v \<in> table_dirs \<longrightarrow> check_va2pa (kva F) v m = check_va2pa (kva F) v t4)"
proof -
  let ?nf = "number_of_frames t4"
  obtain t5 where t5: "setup_listing_to_all_page_tables_entries (kva F) t4 = Inr t5" "boot_dirs F t5 table_dirs"
    "next_frame t5 = next_frame t4" "number_of_frames t5 = ?nf"
    "pde t5 F 959 = CONSTRUCT_ENTRY (push_bit 12 F) 3" "pde t5 F 957 = push_bit 12 F OR 4 OR 1"
    "\<forall>va. \<not> self_map (PDX va) \<longrightarrow> check_va2pa (kva F) va t5 = check_va2pa (kva F) va t4"
    by (rule setup_listing_dirs [OF assms(1)])
  define e where "e = (of_nat (next_frame t4) :: u32)"
  obtain t6 t7 where t7: "boot_allocate_space eok 102400 PAGE_SIZE t5 = (kva e, t6)"
    "boot_map_range eok (kva F) UENVS 102400 (push_bit 12 e) PERM_USER t6 = Inr t7"
    "boot_dirs F t7 (table_dirs \<union> {955})" "number_of_frames t7 = ?nf" "next_frame t4 < 0x10000"
    "mapped F t7 UENVS (push_bit 12 e) (page_count 102400)"
    "\<forall>v. \<not> self_map (PDX v) \<and> PDX v \<in> table_dirs \<longrightarrow> check_va2pa (kva F) v t7 = check_va2pa (kva F) v t5"
    "\<forall>i < 1024. self_map i \<longrightarrow> pde t7 F i = pde t5 F i"
    by (rule boot_range_user [where eok = eok and va = UENVS and sz = 102400 and d = 955,
          OF t5(2), unfolded t5(3,4), folded e_def])
      (use assms(2) dirs_no_self_map(2) in \<open>auto simp: self_map_def page_count_def table_dirs_def memory_dirs_def\<close>)
  define v where "v = pde t7 F 955 OR 5"
  let ?m8 = "store_word (kva F + 4 * 955) v t7"
  have e955: "pde t7 F 955 \<noteq> 0 \<and> PPN v = PPN (pde t7 F 955) \<and> v \<noteq> 0 \<and> v AND 1 = 1"
    using t7(3) by (simp add: v_def PPN_or_flags or_five boot_dirs_def self_map_def)
  have "(955 :: u32) < 1024" by simp
  note m8 = boot_store_dir [OF t7(3) this disjI2 [OF e955]]
  have "F < 0x100000" using assms(3) by (simp add: word_less_nat_alt)
  note own = PPN_push_bit [OF this] entry_fields(1) [OF this, of 3]
  have "unat (push_bit 12 F) mod 4096 = 0" using assms(3) by (simp add: unat_push_bit word_less_nat_alt)
  from entry_of_aligned(3) [OF this, of 2] t5(5,6) own
  have "pde t5 F 957 \<noteq> 0" "pde t5 F 959 \<noteq> 0" "PPN (pde t5 F 957) = F" "PPN (pde t5 F 959) = F"
    by (simp_all add: or_five PPN_or_flags)
  then have self: "pde ?m8 F 957 \<noteq> 0" "pde ?m8 F 959 \<noteq> 0" "PPN (pde ?m8 F 957) = F" "PPN (pde ?m8 F 959) = F"
    using m8(4) [of 957] m8(4) [of 959] t7(8) by (simp_all add: self_map_def)
  have k4: "\<forall>v. PDX v \<in> table_dirs \<longrightarrow> check_va2pa (kva F) v ?m8 = check_va2pa (kva F) v t4"
    using m8(5) t7(7) t5(7) dirs_no_self_map(2) by metis
  have k7: "\<forall>v. \<not> self_map (PDX v) \<and> PDX v \<in> kernel_dirs \<longrightarrow> check_va2pa (kva F) v ?m8 = check_va2pa (kva F) v t7"
    using m8(5) by metis
  have "mapped F t7 UENVS (push_bit 12 e) 25" using t7(6) by (simp add: page_count_def)
  moreover have "dirs_of UENVS 25 \<subseteq> kernel_dirs" unfolding region_dirs by (simp add: kernel_dirs_def)
  ultimately have "mapped F ?m8 UENVS (push_bit 12 e) 25" by (rule mapped_keep [OF _ _ dirs_no_self_map(3) k7])
  moreover have "e < 0x10000"
    using t7(5) unfolding e_def by (simp only: word_less_nat_alt unat_of_nat) simp
  ultimately show thesis
    by (intro that [OF t5(1) t7(1,2)])
      (use m8(1,3) t7(4) self k4 in \<open>simp_all add: v_def [symmetric] Let_def table_dirs_UENVS\<close>)
qed

text \<open>The tables that \<^verbatim>\<open>initialize_kernel_VM\<close> builds before it checks them and turns paging on.\<close>

lemma kernel_VM_tables:
  assumes "ptr_free_mem (mm s) = 0" "0xF0000000 < unat eok" "unat (number_of_frames (mm s)) \<le> 0x10000"
    and "(unat eok - 0xF0000000 + 4095) div 4096 + page_count (number_of_frames (mm s) * 12) + 93
      < unat (number_of_frames (mm s))"
    and "KERNEL_BASE \<le> stack" "unat stack mod 4096 = 0"
  obtains F g e m where
    "initialize_kernel_VM eok stack s =
      bind_res (check_boot_pgdir stack (s\<lparr>ptr_page_directory := kva F, phys_page_directory := push_bit 12 F,
        frames_info := kva g, envs_base := kva e, mm := m\<rparr>)) (\<lambda>s. Inr (turn_on_paging s))"
    "boot_dirs F m kernel_dirs" "number_of_frames m = number_of_frames (mm s)"
    "mapped F m (KERNEL_STACK_TOP - KERNEL_STACK_SIZE) (stack - KERNEL_BASE) 8" "mapped F m KERNEL_BASE 0 0x10000"
    "mapped F m READ_ONLY_FRAMES_INFO (push_bit 12 g) (page_count (number_of_frames (mm s) * 12))"
    "mapped F m UENVS (push_bit 12 e) 25"
    "pde m F 957 \<noteq> 0" "pde m F 959 \<noteq> 0" "g < 0x10000" "e < 0x10000" "F < 0x10000"
    "unat F = (unat eok - 0xF0000000 + 4095) div 4096" "PPN (pde m F 957) = F" "PPN (pde m F 959) = F"
proof -
  let ?nf = "number_of_frames (mm s)" and ?pa = "stack - KERNEL_BASE"
  have st: "unat ?pa = unat stack - 4096 * 983040"
    using assms(5) by (simp add: unat_sub word_le_nat_alt)
  obtain k where k: "unat stack = 4096 * k" using assms(6) by auto
  have pa: "unat ?pa \<le> 2 ^ 32 - 4096" "unat ?pa mod 4096 = 0"
    unfolding st using unat_u32_less [of stack] by (simp_all add: k diff_mult_distrib2 [symmetric])
  obtain F g m0 t1 t2 t3 t4 where t: "boot_allocate_space eok PAGE_SIZE PAGE_SIZE (mm s) = (kva F, m0)"
    "boot_map_range eok (kva F) 0xEFBF8000 0x8000 ?pa 2 (memset_page (kva F) m0) = Inr t1"
    "boot_map_range eok (kva F) 0xF0000000 0x0FFFFFFF 0 2 t1 = Inr t2" "number_of_frames t2 = ?nf"
    "boot_allocate_space eok (?nf * 12) PAGE_SIZE t2 = (kva g, t3)"
    "boot_map_range eok (kva F) READ_ONLY_FRAMES_INFO (?nf * 12) (push_bit 12 g) PERM_USER t3 = Inr t4"
    and d: "boot_dirs F t4 table_dirs" "number_of_frames t4 = ?nf"
      "next_frame t4 = (unat eok - 0xF0000000 + 4095) div 4096 + page_count (?nf * 12) + 67"
    and M: "mapped F t4 0xEFBF8000 ?pa 8" "mapped F t4 0xF0000000 0 0x10000"
      "mapped F t4 READ_ONLY_FRAMES_INFO (push_bit 12 g) (page_count (?nf * 12))"
    and b: "g < 0x10000" "F < 0x10000" "unat F = (unat eok - 0xF0000000 + 4095) div 4096"
    by (rule kernel_VM_memory [OF assms(1-4) pa])
  have "next_frame t4 + 26 < unat (number_of_frames t4)" using d(2,3) assms(4) by simp
  from kernel_VM_environments [OF d(1) this b(2), where eok = eok]
  obtain e t5 t6 t7 where e: "setup_listing_to_all_page_tables_entries (kva F) t4 = Inr t5"
    "boot_allocate_space eok 102400 PAGE_SIZE t5 = (kva e, t6)"
    "boot_map_range eok (kva F) UENVS 102400 (push_bit 12 e) PERM_USER t6 = Inr t7" "e < 0x10000"
    and r: "let m = store_word (kva F + 4 * 955) (pde t7 F 955 OR 5) t7 in
      boot_dirs F m kernel_dirs \<and> number_of_frames m = number_of_frames t4 \<and> mapped F m UENVS (push_bit 12 e) 25 \<and>
      pde m F 957 \<noteq> 0 \<and> pde m F 959 \<noteq> 0 \<and> PPN (pde m F 957) = F \<and> PPN (pde m F 959) = F \<and>
      (\<forall>v. PDX v \<in> table_dirs \<longrightarrow> check_va2pa (kva F) v m = check_va2pa (kva F) v t4)" .
  define m where "m = store_word (kva F + 4 * 955) (pde t7 F 955 OR 5) t7"
  have k: "boot_dirs F m kernel_dirs" "number_of_frames m = ?nf" "mapped F m UENVS (push_bit 12 e) 25"
    "pde m F 957 \<noteq> 0" "pde m F 959 \<noteq> 0" "PPN (pde m F 957) = F" "PPN (pde m F 959) = F"
    and keep: "\<forall>v. \<not> self_map (PDX v) \<and> PDX v \<in> table_dirs \<longrightarrow> check_va2pa (kva F) v m = check_va2pa (kva F) v t4"
    using r d(2) by (simp_all add: m_def Let_def)
  have "0 < page_count (?nf * 12)" "page_count (?nf * 12) \<le> 1024"
    using assms(3,4) by (simp_all add: page_count_def unat_word_ariths)
  from region_dirs(3) [OF this]
  have sub: "dirs_of 0xEFBF8000 8 \<subseteq> table_dirs" "dirs_of 0xF0000000 0x10000 \<subseteq> table_dirs"
    "dirs_of READ_ONLY_FRAMES_INFO (page_count (?nf * 12)) \<subseteq> table_dirs"
    using region_dirs(1) dirs_kernel by (auto simp: table_dirs_def memory_dirs_def)
  note M' = mapped_keep [OF M(1) sub(1) dirs_no_self_map(2) keep] mapped_keep [OF M(2) sub(2) dirs_no_self_map(2) keep]
    mapped_keep [OF M(3) sub(3) dirs_no_self_map(2) keep]
  have stk: "K_PHYSICAL_ADDRESS stack = Inr ?pa" using assms(5) by (simp add: K_PHYSICAL_ADDRESS_def)
  have t7e: "PDX 4005560320 = 955" "kmem t7 (kva F + 3820) = pde t7 F 955"
    using pde_read [of t7 F 955] by (simp_all add: PDX_def)
  have run: "initialize_kernel_VM eok stack s =
      bind_res (check_boot_pgdir stack (s\<lparr>ptr_page_directory := kva F, phys_page_directory := push_bit 12 F,
        frames_info := kva g, envs_base := kva e, mm := m\<rparr>)) (\<lambda>s. Inr (turn_on_paging s))"
    using t(1,2,3,5,6) e(1-3)
    by (simp add: initialize_kernel_VM_def K_PHYSICAL_ADDRESS_kva b(1,2) e(4) stk pde_read m_def t(4) t7e)
  show thesis
    by (rule that [OF run k(1,2) _ _ M'(3) k(3-5) b(1) e(4) b(2,3) k(6,7)]) (use M' in simp_all)
qed

text \<open>The tables of the kernel's half of the directory: the directory itself, or frames taken since, above it.\<close>

definition boot_tables :: "u32 \<Rightarrow> mm_state \<Rightarrow> bool" where
  "boot_tables F m \<longleftrightarrow> (\<forall>i < 1024. pde m F i \<noteq> 0 \<longrightarrow>
     PPN (pde m F i) = F \<or> F < PPN (pde m F i) \<and> unat (PPN (pde m F i)) < next_frame m)"

lemma boot_tablesI:
  assumes "boot_dirs F m D" "PPN (pde m F 957) = F" "PPN (pde m F 959) = F"
  shows "boot_tables F m"
  unfolding boot_tables_def
proof (intro allI impI)
  fix i :: u32 assume i: "i < 1024" "pde m F i \<noteq> 0"
  show "PPN (pde m F i) = F \<or> F < PPN (pde m F i) \<and> unat (PPN (pde m F i)) < next_frame m"
  proof (cases "self_map i")
    case True
    then show ?thesis using assms(2,3) by (auto simp: self_map_def)
  next
    case False
    then show ?thesis using assms(1) i boot_inv_table(4) [OF _ i(1) False i(2)] by (simp add: boot_dirs_def)
  qed
qed

text \<open>The state in which \<^verbatim>\<open>turn_on_paging\<close> runs.\<close>

lemma initialize_kernel_VM_reaches:
  assumes "ptr_free_mem (mm s) = 0" "0xF0000000 < unat eok" "unat (number_of_frames (mm s)) \<le> 0x10000"
    and "(unat eok - 0xF0000000 + 4095) div 4096 + page_count (number_of_frames (mm s) * 12) + 93
      < unat (number_of_frames (mm s))"
    and "KERNEL_BASE \<le> stack" "unat stack mod 4096 = 0" "has_nul (bytes s)"
  obtains u F g e m b where "initialize_kernel_VM eok stack s = Inr (turn_on_paging u)"
    "u = s\<lparr>ptr_page_directory := kva F, phys_page_directory := push_bit 12 F, frames_info := kva g,
      envs_base := kva e, mm := m, con := b\<rparr>"
    "boot_dirs F m kernel_dirs" "number_of_frames m = number_of_frames (mm s)"
    "mapped F m (KERNEL_STACK_TOP - KERNEL_STACK_SIZE) (stack - KERNEL_BASE) 8" "mapped F m KERNEL_BASE 0 0x10000"
    "mapped F m READ_ONLY_FRAMES_INFO (push_bit 12 g) (page_count (number_of_frames (mm s) * 12))"
    "mapped F m UENVS (push_bit 12 e) 25" "F < 0x10000" "unat F = (unat eok - 0xF0000000 + 4095) div 4096"
    "PPN (pde m F 957) = F" "PPN (pde m F 959) = F"
proof -
  obtain F g e m where B:
    "initialize_kernel_VM eok stack s =
      bind_res (check_boot_pgdir stack (s\<lparr>ptr_page_directory := kva F, phys_page_directory := push_bit 12 F,
        frames_info := kva g, envs_base := kva e, mm := m\<rparr>)) (\<lambda>s. Inr (turn_on_paging s))"
    "boot_dirs F m kernel_dirs" "number_of_frames m = number_of_frames (mm s)"
    "mapped F m (KERNEL_STACK_TOP - KERNEL_STACK_SIZE) (stack - KERNEL_BASE) 8" "mapped F m KERNEL_BASE 0 0x10000"
    "mapped F m READ_ONLY_FRAMES_INFO (push_bit 12 g) (page_count (number_of_frames (mm s) * 12))"
    "mapped F m UENVS (push_bit 12 e) 25"
    "pde m F 957 \<noteq> 0" "pde m F 959 \<noteq> 0" "g < 0x10000" "e < 0x10000" "F < 0x10000"
    "unat F = (unat eok - 0xF0000000 + 4095) div 4096" "PPN (pde m F 957) = F" "PPN (pde m F 959) = F"
    using kernel_VM_tables [OF assms(1-6)] .
  define k where "k = s\<lparr>ptr_page_directory := kva F, phys_page_directory := push_bit 12 F,
    frames_info := kva g, envs_base := kva e, mm := m\<rparr>"
  have "\<exists>c. check_boot_pgdir stack k = Inr (k\<lparr>con := c\<rparr>)"
    by (rule check_boot_pgdir_ok [where F = F and g = g])
      (use B(2-11) assms(3,5,7) in \<open>simp_all add: k_def\<close>)
  then obtain b where "check_boot_pgdir stack k = Inr (k\<lparr>con := b\<rparr>)" ..
  with B(1) have "initialize_kernel_VM eok stack s = Inr (turn_on_paging (k\<lparr>con := b\<rparr>))" by (simp add: k_def)
  then show thesis by (rule that) (use B(2-7,12-15) in \<open>simp_all add: k_def\<close>)
qed

text \<open>
  What the kernel sees at its own addresses: the boot stack, physical memory, the frame table (from frame \<open>g\<close>) and the environments (from
  frame \<open>e\<close>). A change of the user pages keeps it.
\<close>

definition kernel_space :: "u32 \<Rightarrow> u32 \<Rightarrow> u32 \<Rightarrow> u32 \<Rightarrow> mm_state \<Rightarrow> bool" where
  "kernel_space F g e stack m \<longleftrightarrow>
    mapped F m (KERNEL_STACK_TOP - KERNEL_STACK_SIZE) (stack - KERNEL_BASE) 8 \<and>
    mapped F m KERNEL_BASE 0 0x10000 \<and>
    mapped F m READ_ONLY_FRAMES_INFO (push_bit 12 g) (page_count (number_of_frames m * 12)) \<and>
    mapped F m UENVS (push_bit 12 e) 25 \<and> (\<forall>i \<in> kernel_dirs. PPN (pde m F i) \<noteq> F)"

lemma kernel_space_kept:
  assumes inv: "vm_inv pin F fs s" and k: "kernel_kept pin F s t" and tables: "kernel_tables pin F s"
    and sp: "kernel_space F g e stack s"
  shows "kernel_space F g e stack t"
proof -
  note fr = vm_inv_frames(1,2) [OF inv]
  let ?n = "page_count (number_of_frames s * 12)"
  have nf: "number_of_frames t = number_of_frames s" using k by (simp add: kernel_kept_def)
  have "0 < unat (number_of_frames s)" "unat (number_of_frames s) \<le> 0x10000"
    using fr by (simp_all add: word_less_nat_alt word_le_nat_alt)
  then have n: "0 < ?n" "?n \<le> 1024" by (simp_all add: page_count_def unat_word_ariths)
  have sub: "dirs_of 0xEFBF8000 8 \<subseteq> kernel_dirs" "dirs_of KERNEL_BASE 0x10000 \<subseteq> kernel_dirs"
    "dirs_of READ_ONLY_FRAMES_INFO ?n \<subseteq> kernel_dirs" "dirs_of UENVS 25 \<subseteq> kernel_dirs"
    unfolding region_dirs region_dirs(3) [OF n] dirs_kernel by (auto simp: kernel_dirs_def)
  have top: "955 \<le> i" "i < 1024" if "i \<in> kernel_dirs" for i
    using that by (auto simp: kernel_dirs_iff word_le_nat_alt word_less_nat_alt)
  have own: "\<forall>i \<in> kernel_dirs. PPN (pde s F i) \<noteq> F" using sp by (simp add: kernel_space_def)
  have same: "\<forall>v. \<not> self_map (PDX v) \<and> PDX v \<in> kernel_dirs \<longrightarrow> check_va2pa (kva F) v t = check_va2pa (kva F) v s"
    using kernel_translation_kept [OF inv k tables] top own by blast
  note keep = mapped_keep [OF _ _ dirs_no_self_map(3) same]
  have "\<forall>i \<in> kernel_dirs. PPN (pde t F i) \<noteq> F" using own top kernel_entries_kept [OF inv k] by simp
  then show ?thesis using sp sub by (auto simp: kernel_space_def nf intro: keep)
qed

lemma kernel_space_cong:
  "kmem t = kmem s \<Longrightarrow> number_of_frames t = number_of_frames s \<Longrightarrow> kernel_space F g e stack t = kernel_space F g e stack s"
  by (simp add: kernel_space_def mapped_def check_va2pa_cong [of t s] pde_def word_at_def)

lemma initialize_kernel_VM_boots:
  assumes "ptr_free_mem (mm s) = 0" "0xF0000000 < unat eok" "unat (number_of_frames (mm s)) \<le> 0x10000"
    and "(unat eok - 0xF0000000 + 4095) div 4096 + page_count (number_of_frames (mm s) * 12) + 93
      < unat (number_of_frames (mm s))"
    and "KERNEL_BASE \<le> stack" "unat stack mod 4096 = 0" "has_nul (bytes s)"
  shows "\<exists>t F g e. initialize_kernel_VM eok stack s = Inr t \<and>
    ptr_page_directory t = kva F \<and> cr3 t = push_bit 12 F \<and> cr0 t AND 0x80010001 = 0x80010001 \<and>
    frames_info t = kva g \<and> envs_base t = kva e \<and>
    kernel_space F g e stack (mm t) \<and>
    (\<forall>i < 955. pde (mm t) F i = 0) \<and>
    boot_inv F (mm t) \<and> boot_tables F (mm t) \<and> unat F = (unat eok - 0xF0000000 + 4095) div 4096 \<and>
    number_of_frames (mm t) = number_of_frames (mm s) \<and>
    (\<exists>m b c. t = s\<lparr>mm := m, con := b, ptr_page_directory := kva F, phys_page_directory := push_bit 12 F,
      frames_info := kva g, envs_base := kva e, cr0 := c, cr3 := push_bit 12 F, segment_regs := kernel_segments\<rparr>)"
proof -
  obtain u F g e m b where B: "initialize_kernel_VM eok stack s = Inr (turn_on_paging u)"
    "u = s\<lparr>ptr_page_directory := kva F, phys_page_directory := push_bit 12 F, frames_info := kva g,
      envs_base := kva e, mm := m, con := b\<rparr>"
    "boot_dirs F m kernel_dirs" "number_of_frames m = number_of_frames (mm s)"
    "mapped F m (KERNEL_STACK_TOP - KERNEL_STACK_SIZE) (stack - KERNEL_BASE) 8" "mapped F m KERNEL_BASE 0 0x10000"
    "mapped F m READ_ONLY_FRAMES_INFO (push_bit 12 g) (page_count (number_of_frames (mm s) * 12))"
    "mapped F m UENVS (push_bit 12 e) 25" "F < 0x10000" "unat F = (unat eok - 0xF0000000 + 4095) div 4096"
    "PPN (pde m F 957) = F" "PPN (pde m F 959) = F"
    using initialize_kernel_VM_reaches [OF assms] .
  have "pde (mm u) F 0 = 0" "ptr_page_directory u = kva F" using kernel_dirs_low [OF B(3)] by (simp_all add: B(2))
  then obtain t where t: "turn_on_paging u = t" "kmem (mm t) = kmem m" "number_of_frames (mm t) = number_of_frames m"
    "ptr_page_directory t = kva F" "cr3 t = push_bit 12 F" "frames_info t = kva g"
    "envs_base t = kva e" "cr0 t AND 0x80010001 = 0x80010001" "ptr_free_mem (mm t) = ptr_free_mem m"
    "t = u\<lparr>mm := mm t, cr3 := push_bit 12 F, cr0 := cr0 t, segment_regs := kernel_segments\<rparr>"
    by (rule turn_on_paging_eq) (simp_all add: B(2))
  have pd: "pde (mm t) F i = pde m F i" for i using t(2) by (simp add: pde_def word_at_def)
  have "boot_inv F m" using B(3) by (simp add: boot_dirs_def)
  have "PPN (pde m F i) \<noteq> F" if "i \<in> kernel_dirs" for i
  proof -
    have i: "i < 1024" "\<not> self_map i"
      using that by (auto simp: kernel_dirs_iff self_map_def word_less_nat_alt word_le_nat_alt)
    show ?thesis by (rule boot_inv_table(3) [OF \<open>boot_inv F m\<close> i]) (use that B(3) i in \<open>simp add: boot_dirs_def\<close>)
  qed
  then have sp: "kernel_space F g e stack (mm t)"
    using B(4-8) unfolding kernel_space_cong [OF t(2,3)] by (simp add: kernel_space_def)
  have "boot_inv F (mm t)" using \<open>boot_inv F m\<close> t(3) next_frame_cong [OF t(9)] boot_inv_table(1) [OF \<open>boot_inv F m\<close>]
    by (intro boot_inv_cong [OF \<open>boot_inv F m\<close>]) (auto simp: pd t(9) boot_inv_def)
  moreover have "\<exists>m b c. t = s\<lparr>mm := m, con := b, ptr_page_directory := kva F, phys_page_directory := push_bit 12 F,
      frames_info := kva g, envs_base := kva e, cr0 := c, cr3 := push_bit 12 F, segment_regs := kernel_segments\<rparr>"
    by (subst t(10), intro exI [of _ "mm t"] exI [of _ b] exI [of _ "cr0 t"]) (simp add: B(2))
  moreover have "boot_tables F (mm t)"
    using boot_tablesI [OF B(3,11,12)] unfolding boot_tables_def pd next_frame_cong [OF t(9)] .
  ultimately show ?thesis
    using B(1) t(1,3-8) B(10) sp kernel_dirs_low [OF B(3)] unfolding pd [symmetric] B(4) [symmetric]
    by (intro exI [of _ t] exI [of _ F] exI [of _ g] exI [of _ e]) (simp add: B(4))
qed

text \<open>
  C12: \<^verbatim>\<open>initialize_kernel_VM\<close> builds the kernel's address space. On a machine with room for it, none of its
  panics and asserts fails: it returns with paging on, in a directory (loaded in \<^verbatim>\<open>cr3\<close>) that maps
  the boot stack below \<^verbatim>\<open>KERNEL_STACK_TOP\<close>, all 256 MB of physical memory at \<^verbatim>\<open>KERNEL_BASE\<close>, the
  frame table at \<^verbatim>\<open>READ_ONLY_FRAMES_INFO\<close> and the environments at \<^verbatim>\<open>UENVS\<close>; the user half
  of the directory is empty, so the temporary identity map is gone.
\<close>

theorem initialize_kernel_VM_correct:
  assumes "ptr_free_mem (mm s) = 0" "0xF0000000 < unat eok" "unat (number_of_frames (mm s)) \<le> 0x10000"
    and "(unat eok - 0xF0000000 + 4095) div 4096 + page_count (number_of_frames (mm s) * 12) + 93
      < unat (number_of_frames (mm s))"
    and "KERNEL_BASE \<le> stack" "unat stack mod 4096 = 0" "has_nul (bytes s)"
  shows "\<exists>t F g e. initialize_kernel_VM eok stack s = Inr t \<and>
    ptr_page_directory t = kva F \<and> cr3 t = push_bit 12 F \<and> cr0 t AND 0x80010001 = 0x80010001 \<and>
    frames_info t = kva g \<and> envs_base t = kva e \<and>
    mapped F (mm t) (KERNEL_STACK_TOP - KERNEL_STACK_SIZE) (stack - KERNEL_BASE) 8 \<and>
    mapped F (mm t) KERNEL_BASE 0 0x10000 \<and>
    mapped F (mm t) READ_ONLY_FRAMES_INFO (push_bit 12 g) (page_count (number_of_frames (mm t) * 12)) \<and>
    mapped F (mm t) UENVS (push_bit 12 e) 25 \<and>
    (\<forall>i < 955. pde (mm t) F i = 0)"
  using initialize_kernel_VM_boots [OF assms] unfolding kernel_space_def by blast

text \<open>A machine of 16 MB whose kernel ends at 1 MB and a half and whose boot stack is at 1 MB.\<close>

definition machine_example :: kernel where
  "machine_example = kernel_example\<lparr>mm := boot_example\<lparr>ptr_free_mem := 0\<rparr>\<rparr>"

theorem initialize_kernel_VM_correct_witness:
  "\<exists>t F. initialize_kernel_VM 0xF0180000 0xF0100000 machine_example = Inr t \<and> cr3 t = push_bit 12 F \<and>
    mapped F (mm t) KERNEL_BASE 0 0x10000"
proof -
  have c: "page_count (4096 * 12) = 12" by (simp add: page_count_def)
  have h: "ptr_free_mem (mm machine_example) = 0" "0xF0000000 < unat (0xF0180000 :: u32)"
    "unat (number_of_frames (mm machine_example)) \<le> 0x10000"
    "(unat (0xF0180000 :: u32) - 0xF0000000 + 4095) div 4096 + page_count (number_of_frames (mm machine_example) * 12) + 93
      < unat (number_of_frames (mm machine_example))"
    "KERNEL_BASE \<le> 0xF0100000" "unat (0xF0100000 :: u32) mod 4096 = 0" "has_nul (bytes machine_example)"
    using c by (simp_all add: machine_example_def boot_example_def kernel_example_def has_nul_def)
  from initialize_kernel_VM_correct [OF h] show ?thesis by blast
qed

end
