(* ===== verification/FOS_Env.thy ===== *)
theory FOS_Env
  imports FOS_Kernel
begin

text \<open>
  Environments: \<^verbatim>\<open>kern/user_environment.c\<close> and \<^verbatim>\<open>envid2env\<close> of \<^verbatim>\<open>kern/helpers.c\<close>. The free
  environments form a list like the free frames. Loading a program is not finished in the
  source: \<^verbatim>\<open>env_create\<close> stops in a panic before it makes a page directory, and so
  do \<^verbatim>\<open>env_free\<close> and \<^verbatim>\<open>program_segment_alloc_map\<close>; the pieces around them are modelled.
\<close>

section \<open>The environment table\<close>

definition ENVGENSHIFT :: nat where [simp]: "ENVGENSHIFT = 12"

definition allocate_environment :: "kernel \<Rightarrow> int \<times> u32 option" where
  "allocate_environment s =
    (case lh_first (env_free_list s) of None \<Rightarrow> (E_NO_FREE_ENV, None) | Some e \<Rightarrow> (0, Some e))"

definition free_environment :: "u32 \<Rightarrow> kernel \<Rightarrow> kernel" where
  "free_environment e s =
    (let s = s\<lparr>curenv := None\<rparr>;
         s = update_env e (\<lambda>en. en\<lparr>env_status := ENV_FREE\<rparr>) s
     in s\<lparr>env_free_list := LIST_INSERT_HEAD e (env_free_list s)\<rparr>)"

text \<open>\<^verbatim>\<open>iEnv\<close> runs from \<^verbatim>\<open>NENV-1\<close> down to 0.\<close>

definition env_init_one :: "u32 \<Rightarrow> kernel \<Rightarrow> kernel" where
  "env_init_one e s =
    (let s = update_env e (\<lambda>en. en\<lparr>env_status := ENV_FREE\<rparr>) s;
         s = update_env e (\<lambda>en. en\<lparr>env_id := 0\<rparr>) s
     in s\<lparr>env_free_list := LIST_INSERT_HEAD e (env_free_list s)\<rparr>)"

definition env_init :: "kernel \<Rightarrow> kernel" where
  "env_init s = fold env_init_one (rev (word_range 0 NENV)) s"

text \<open>What \<^verbatim>\<open>memset\<close> and the assignments after it leave in \<^verbatim>\<open>env_tf\<close>.\<close>

definition initial_trapframe :: Trapframe where
  "initial_trapframe = zero_trapframe
    \<lparr>tf_ds := GD_UD OR 3, tf_es := GD_UD OR 3, tf_ss := GD_UD OR 3, tf_esp := USTACKTOP,
     tf_cs := GD_UT OR 3\<rparr>"

definition next_env_id :: "u32 \<Rightarrow> u32 \<Rightarrow> u32" where
  "next_env_id e old =
    (let generation = (old + push_bit ENVGENSHIFT 1) AND NOT (NENV - 1);
         generation = (if sint generation \<le> 0 then push_bit ENVGENSHIFT 1 else generation)
     in generation OR e)"

definition complete_environment_initialization :: "u32 \<Rightarrow> kernel \<Rightarrow> kernel res" where
  "complete_environment_initialization e s =
    (let en = envs s e;
         m = store_word (env_pgdir en + 4 * PDX VPT)
               (env_cr3 en OR PERM_PRESENT OR PERM_WRITEABLE) (mm s);
         m = store_word (env_pgdir en + 4 * PDX UVPT)
               (env_cr3 en OR PERM_PRESENT OR PERM_USER) m;
         s = s\<lparr>mm := m\<rparr>;
         s = update_env e (\<lambda>en. en\<lparr>env_id := next_env_id e (env_id en)\<rparr>) s;
         s = update_env e (\<lambda>en. en\<lparr>env_parent_id := 0, env_status := ENV_RUNNABLE, env_runs := 0,
               env_tf := initial_trapframe\<rparr>) s
     in case LIST_REMOVE e (env_free_list s) of
          None \<Rightarrow> Inl Null_deref
        | Some l \<Rightarrow> Inr (s\<lparr>env_free_list := l\<rparr>))"

text \<open>
  \<^verbatim>\<open>-E_BAD_ENV\<close> is written in the source; \<^verbatim>\<open>E_BAD_ENV\<close> is negative, so the value returned is 2.
\<close>

definition envid2env :: "u32 \<Rightarrow> bool \<Rightarrow> kernel \<Rightarrow> (int \<times> u32 option) res" where
  "envid2env envid checkperm s =
    (if envid = 0 then Inr (0, curenv s)
     else let e = ENVX envid in
       if env_status (envs s e) = ENV_FREE \<or> env_id (envs s e) \<noteq> envid then Inr (- E_BAD_ENV, None)
       else if checkperm \<and> Some e \<noteq> curenv s then
         (case curenv s of
            None \<Rightarrow> Inl Null_deref
          | Some c \<Rightarrow> if env_parent_id (envs s e) \<noteq> env_id (envs s c) then Inr (- E_BAD_ENV, None)
              else Inr (0, Some e))
       else Inr (0, Some e))"

section \<open>Running environments\<close>

text \<open>\<^verbatim>\<open>env_pop_tf\<close> loads the registers from the frame and leaves the kernel: the frame is the result.\<close>

definition env_run :: "u32 \<Rightarrow> kernel \<Rightarrow> Trapframe \<times> kernel" where
  "env_run e s =
    (let s = (if curenv s \<noteq> Some e
              then (let s = s\<lparr>curenv := Some e\<rparr>;
                        s = update_env e (\<lambda>en. en\<lparr>env_runs := env_runs en + 1\<rparr>) s
                    in lcr3 (env_cr3 (envs s e)) s)
              else s)
     in (env_tf (envs s e), s))"

definition env_free :: "u32 option \<Rightarrow> kernel \<Rightarrow> kernel res" where
  "env_free e s = Inl (Panic ''env_free function is not completed yet'')"

text \<open>After \<^verbatim>\<open>env_free\<close> the prompt would be run for ever.\<close>

definition env_destroy :: "u32 option \<Rightarrow> kernel \<Rightarrow> kernel res" where
  "env_destroy e s = env_free e s"

section \<open>Program images\<close>

definition ELF_MAGIC :: u32 where [simp]: "ELF_MAGIC = 0x464C457F"
definition ELF_PROG_LOAD :: u32 where [simp]: "ELF_PROG_LOAD = 1"

definition e_magic :: "bmem \<Rightarrow> u32 \<Rightarrow> u32" where "e_magic m p = load32 m p"
definition e_entry :: "bmem \<Rightarrow> u32 \<Rightarrow> u32" where "e_entry m p = load32 m (p + 24)"
definition e_phoff :: "bmem \<Rightarrow> u32 \<Rightarrow> u32" where "e_phoff m p = load32 m (p + 28)"
definition e_phnum :: "bmem \<Rightarrow> u32 \<Rightarrow> u16" where "e_phnum m p = load16 m (p + 44)"

definition p_type :: "bmem \<Rightarrow> u32 \<Rightarrow> u32" where "p_type m ph = load32 m ph"
definition p_offset :: "bmem \<Rightarrow> u32 \<Rightarrow> u32" where "p_offset m ph = load32 m (ph + 4)"
definition p_va :: "bmem \<Rightarrow> u32 \<Rightarrow> u32" where "p_va m ph = load32 m (ph + 8)"
definition p_pa :: "bmem \<Rightarrow> u32 \<Rightarrow> u32" where "p_pa m ph = load32 m (ph + 12)"
definition p_filesz :: "bmem \<Rightarrow> u32 \<Rightarrow> u32" where "p_filesz m ph = load32 m (ph + 16)"
definition p_memsz :: "bmem \<Rightarrow> u32 \<Rightarrow> u32" where "p_memsz m ph = load32 m (ph + 20)"

text \<open>The address of program header \<open>i\<close> of the image at \<open>p\<close>.\<close>

definition proghdr :: "bmem \<Rightarrow> u32 \<Rightarrow> u32 \<Rightarrow> u32" where
  "proghdr m p i = p + e_phoff m p + 32 * i"

record ProgramSegment =
  segment_start :: u32
  size_in_file :: u32
  size_in_memory :: u32
  segment_va :: u32
  segment_id :: u32

function skip_segments :: "bmem \<Rightarrow> u32 \<Rightarrow> u32 \<Rightarrow> u32" where
  "skip_segments m p i =
    (if p_type m (proghdr m p i) \<noteq> ELF_PROG_LOAD \<and> i < ucast (e_phnum m p)
     then skip_segments m p (i + 1) else i)"
  by pat_completeness auto
termination
  by (relation "measure (\<lambda>(m, p, i). unat (ucast (e_phnum m p) - i))") (auto simp: loop_measure)

declare skip_segments.simps [simp del]

definition fill_segment :: "bmem \<Rightarrow> u32 \<Rightarrow> ProgramSegment \<Rightarrow> ProgramSegment" where
  "fill_segment m p seg =
    (let ph = proghdr m p (segment_id seg)
     in seg\<lparr>segment_start := p + p_offset m ph, size_in_memory := p_memsz m ph,
          size_in_file := p_filesz m ph, segment_va := p_va m ph\<rparr>)"

definition PROGRAM_SEGMENT_NEXT :: "ProgramSegment \<Rightarrow> u32 \<Rightarrow> bmem \<Rightarrow> ProgramSegment option res" where
  "PROGRAM_SEGMENT_NEXT seg p m =
    (let seg = seg\<lparr>segment_id := segment_id seg + 1\<rparr>
     in if e_magic m p \<noteq> ELF_MAGIC then Inl (Panic ''Matafa2nash 3ala Keda'')
        else let seg = seg\<lparr>segment_id := skip_segments m p (segment_id seg)\<rparr>
          in if sint (segment_id seg) < uint (e_phnum m p) then Inr (Some (fill_segment m p seg))
             else Inr None)"

text \<open>The structure on the stack starts with whatever \<open>junk\<close> is there.\<close>

definition PROGRAM_SEGMENT_FIRST :: "ProgramSegment \<Rightarrow> u32 \<Rightarrow> bmem \<Rightarrow> ProgramSegment res" where
  "PROGRAM_SEGMENT_FIRST junk p m =
    (let seg = junk\<lparr>segment_id := 0\<rparr>
     in if e_magic m p \<noteq> ELF_MAGIC then Inl (Panic ''Matafa2nash 3ala Keda'')
        else let seg = seg\<lparr>segment_id := skip_segments m p (segment_id seg)\<rparr>
          in if sint (segment_id seg) < uint (e_phnum m p) then Inr (fill_segment m p seg)
             else Inr (seg\<lparr>segment_id := -1\<rparr>))"

text \<open>The segments the body of \<^verbatim>\<open>PROGRAM_SEGMENT_FOREACH\<close> is run for.\<close>

partial_function (option) segment_loop ::
    "bmem \<Rightarrow> u32 \<Rightarrow> ProgramSegment option \<Rightarrow> ProgramSegment list res option" where
  "segment_loop m p sg =
    (case sg of None \<Rightarrow> Some (Inr [])
     | Some seg \<Rightarrow> (case PROGRAM_SEGMENT_NEXT seg p m of
         Inl e \<Rightarrow> Some (Inl e)
       | Inr sg \<Rightarrow> Option.bind (segment_loop m p sg) (\<lambda>r. Some (bind_res r (\<lambda>segs. Inr (seg # segs))))))"

definition program_segments :: "ProgramSegment \<Rightarrow> u32 \<Rightarrow> bmem \<Rightarrow> ProgramSegment list res" where
  "program_segments junk p m =
    bind_res (PROGRAM_SEGMENT_FIRST junk p m) (\<lambda>first.
      bind_res (loop_res (segment_loop m p (if segment_id first = -1 then None else Some first)))
        (\<lambda>r. r))"

section \<open>The table of user programs\<close>

text \<open>
  The table as it is linked, for the addresses of the names, descriptions and images of the five
  programs; and the search by name: the index of the first entry with the name, or the number
  of entries.
\<close>

definition initial_programs :: "(u32 \<times> u32 \<times> u32) list \<Rightarrow> UserProgramInfo list" where
  "initial_programs rows =
    map (\<lambda>(n, d, p). \<lparr>name = n, desc = d, ptr_start = p, environment = None\<rparr>) rows"

fun find_program :: "bmem \<Rightarrow> u32 \<Rightarrow> UserProgramInfo list \<Rightarrow> nat \<Rightarrow> nat option" where
  "find_program m p [] i = Some i"
| "find_program m p (u # us) i =
     Option.bind (strcmp m p (name u)) (\<lambda>d. if d = 0 then Some i else find_program m p us (i + 1))"

definition get_user_program_info :: "u32 \<Rightarrow> kernel \<Rightarrow> (nat option \<times> kernel) res" where
  "get_user_program_info user_program_name s =
    bind_res (loop_res (find_program (bytes s) user_program_name (userPrograms s) 0)) (\<lambda>i.
      if i = length (userPrograms s) then
        bind_res (cprintf (''Unknown user program '' @ [CHR 0x27] @ ''%s'' @ [CHR 0x27, CHR 0x0A])
          [user_program_name] s) (\<lambda>s. Inr (None, s))
      else Inr (Some i, s))"

fun find_program_by_env :: "u32 option \<Rightarrow> UserProgramInfo list \<Rightarrow> nat \<Rightarrow> nat" where
  "find_program_by_env e [] i = i"
| "find_program_by_env e (u # us) i =
     (if e = environment u then i else find_program_by_env e us (i + 1))"

definition get_user_program_info_by_env :: "u32 option \<Rightarrow> kernel \<Rightarrow> (nat option \<times> kernel) res" where
  "get_user_program_info_by_env e s =
    (let i = find_program_by_env e (userPrograms s) 0
     in if i = length (userPrograms s) then
          bind_res (cprintf (''Unknown user program '' @ [CHR 0x0A]) [] s) (\<lambda>s. Inr (None, s))
        else Inr (Some i, s))"

definition set_environment_entry_point :: "nat option \<Rightarrow> kernel \<Rightarrow> kernel res" where
  "set_environment_entry_point ptr_user_program s =
    (case ptr_user_program of
       None \<Rightarrow> Inl Null_deref
     | Some i \<Rightarrow>
         let u = userPrograms s ! i; p = ptr_start u
         in if e_magic (bytes s) p \<noteq> ELF_MAGIC then Inl (Panic ''Matafa2nash 3ala Keda'')
            else (case environment u of
              None \<Rightarrow> Inl Null_deref
            | Some e \<Rightarrow>
                Inr (update_env e (\<lambda>en. en\<lparr>env_tf := (env_tf en)\<lparr>tf_eip := e_entry (bytes s) p\<rparr>\<rparr>) s)))"

text \<open>\<^verbatim>\<open>env_create\<close> up to the panic it always ends in when there is a program and an environment.\<close>

definition env_create :: "u32 \<Rightarrow> kernel \<Rightarrow> (nat option \<times> kernel) res" where
  "env_create user_program_name s =
    bind_res (get_user_program_info user_program_name s) (\<lambda>(u, s).
      case u of
        None \<Rightarrow> Inr (None, s)
      | Some i \<Rightarrow>
          if fst (allocate_environment s) = E_NO_FREE_ENV then Inr (None, s)
          else Inl (Panic ''env_create: directory creation is not implemented yet!''))"

text \<open>\<^verbatim>\<open>env_run_cmd_prmpt\<close> up to the loop that runs the prompt: the state the prompt starts in.\<close>

definition env_run_cmd_prmpt :: "kernel \<Rightarrow> kernel res" where
  "env_run_cmd_prmpt s =
    bind_res (get_user_program_info_by_env (curenv s) s) (\<lambda>(upi, s).
      case curenv s of
        None \<Rightarrow> Inl Null_deref
      | Some e \<Rightarrow>
          bind_res (set_environment_entry_point upi
              (update_env e (\<lambda>en. en\<lparr>env_tf := initial_trapframe\<rparr>) s)) (\<lambda>s.
            bind_res (K_PHYSICAL_ADDRESS (ptr_page_directory s)) (\<lambda>pa.
              Inr ((lcr3 pa s)\<lparr>curenv := None\<rparr>))))"

section \<open>Environment identifiers\<close>

lemma ENVX_nat: "unat (ENVX e) = unat e mod 1024"
proof -
  have "ENVX e = e AND mask 10" by (simp add: ENVX_def mask_eq_exp_minus_1)
  then show ?thesis by (simp add: unat_and_mask)
qed

text \<open>
  The identifier given to slot \<open>e\<close> names the slot, is positive, and differs from the identifier the
  slot had before, also when the generation runs out and starts again.
\<close>

lemma next_env_id:
  assumes "e < 1024" "0 \<le> sint old"
  shows "unat (next_env_id e old) mod 1024 = unat e" "4096 \<le> unat (next_env_id e old)"
    "unat (next_env_id e old) < 2 ^ 31" "next_env_id e old \<noteq> old"
    "unat old < 2 ^ 31 - 4096 \<Longrightarrow> unat old < unat (next_env_id e old)"
proof -
  define g0 where "g0 = (old + 4096) AND NOT (mask 10)"
  define g where "g = (if sint g0 \<le> 0 then 4096 else g0)"
  have e: "unat e < 1024" using assms(1) by (simp add: word_less_nat_alt)
  have o: "unat old < 2147483648" using assms(2) by (simp add: sint_nonneg_iff)
  then have "unat (old + 4096) = unat old + 4096" by (simp add: unat_word_ariths)
  then have g0: "unat g0 = (unat old + 4096) - (unat old + 4096) mod 1024"
    by (simp only: g0_def unat_and_not_mask) simp
  have g0m: "unat g0 mod 1024 = 0" unfolding g0 by (metis minus_mod_eq_mult_div mod_mult_self1_is_0)
  have g0b: "unat old + 4096 < unat g0 + 1024" "unat g0 \<le> unat old + 4096"
    unfolding g0 using mod_less_divisor [of 1024 "unat old + 4096"] by linarith+
  have pos: "sint g0 \<le> 0 \<longleftrightarrow> \<not> unat g0 < 2147483648"
    using sint_pos [of g0] g0b by auto
  have "g AND e = 0"
  proof -
    have "g AND mask 10 = 0"
      unfolding g_def g0_def by (simp add: mask_eq_exp_minus_1 and.assoc)
    moreover have "e = e AND mask 10" using e by (simp add: word_unat_eq_iff unat_and_mask)
    ultimately show ?thesis by (metis and.left_commute and_zero_eq)
  qed
  then have n: "unat (next_env_id e old) = unat g + unat e"
  proof -
    have m: "(NENV - 1 :: u32) = mask 10" "push_bit ENVGENSHIFT (1 :: u32) = 4096" by (simp_all add: mask_eq_exp_minus_1)
    have "next_env_id e old = g OR e" unfolding next_env_id_def Let_def m g_def g0_def by (rule refl)
    then show ?thesis using unat_or_disjoint [OF \<open>g AND e = 0\<close>] by simp
  qed
  have gm: "unat g mod 1024 = 0" using g0m by (simp add: g_def)
  show "unat (next_env_id e old) mod 1024 = unat e" unfolding n using gm e by (simp add: mod_add_left_eq [symmetric] del: mod_add_left_eq)
  have gb: "unat g = (if unat g0 < 2147483648 then unat g0 else 4096)" unfolding g_def pos by simp
  obtain k where k: "unat g0 = 1024 * k" using g0m by blast
  have "4 \<le> k" using g0b(1) k by linarith
  then have "4096 \<le> unat g0" using k by simp
  then show "4096 \<le> unat (next_env_id e old)" unfolding n gb by simp
  show "unat (next_env_id e old) < 2 ^ 31" unfolding n gb using k e by auto
  have "unat old < 2 ^ 31 - 4096 \<Longrightarrow> unat g0 < 2147483648" using g0b by simp
  then show "unat old < 2 ^ 31 - 4096 \<Longrightarrow> unat old < unat (next_env_id e old)"
    unfolding n gb using g0b by simp
  have "unat (next_env_id e old) \<noteq> unat old"
    unfolding n gb using g0b e by auto
  then show "next_env_id e old \<noteq> old" by metis
qed

section \<open>The environment table as a pool of identifiers\<close>

text \<open>
  The invariant: the free list holds exactly the environments with status \<^verbatim>\<open>ENV_FREE\<close>; an identifier
  names its slot and is not negative; an environment in use has one; the current environment is in
  use.
\<close>

definition env_inv :: "u32 list \<Rightarrow> kernel \<Rightarrow> bool" where
  "env_inv fs s \<longleftrightarrow>
    dlist (env_free_list s) fs \<and> (\<forall>e \<in> set fs. e < NENV) \<and>
    (\<forall>e < NENV. (env_status (envs s e) = ENV_FREE \<longleftrightarrow> e \<in> set fs) \<and>
      0 \<le> sint (env_id (envs s e)) \<and> (env_id (envs s e) = 0 \<or> ENVX (env_id (envs s e)) = e) \<and>
      (e \<notin> set fs \<longrightarrow> env_id (envs s e) \<noteq> 0)) \<and>
    (\<forall>c. curenv s = Some c \<longrightarrow> c < NENV \<and> c \<notin> set fs)"

lemma update_env_simps [simp]:
  "envs (update_env e f s) x = (if x = e then f (envs s e) else envs s x)"
  "env_free_list (update_env e f s) = env_free_list s" "curenv (update_env e f s) = curenv s"
  "mm (update_env e f s) = mm s" "con (update_env e f s) = con s" "bytes (update_env e f s) = bytes s"
  "userPrograms (update_env e f s) = userPrograms s" "cr3 (update_env e f s) = cr3 s"
  "ptr_page_directory (update_env e f s) = ptr_page_directory s"
  by (simp_all add: update_env_def)

lemma ENVX_less: "ENVX e < NENV"
  by (simp add: word_less_nat_alt ENVX_nat)

lemma ENVX_next: "e < NENV \<Longrightarrow> 0 \<le> sint old \<Longrightarrow> ENVX (next_env_id e old) = e"
  using next_env_id(1) [of e old] by (simp add: word_unat_eq_iff ENVX_nat)

lemma complete_correct:
  assumes inv: "env_inv (e # fs) s"
  defines "id' \<equiv> next_env_id e (env_id (envs s e))"
  shows "\<exists>s'. complete_environment_initialization e s = Inr s' \<and> env_inv fs s' \<and>
    (\<forall>x. x \<noteq> e \<longrightarrow> envs s' x = envs s x) \<and> curenv s' = curenv s \<and>
    env_id (envs s' e) = id' \<and> env_status (envs s' e) = ENV_RUNNABLE \<and>
    env_tf (envs s' e) = initial_trapframe"
proof -
  have l: "dlist (env_free_list s) ([] @ e # fs)" and e: "e < NENV" "0 \<le> sint (env_id (envs s e))"
    using inv by (simp_all add: env_inv_def)
  from ll.remove_holds [OF l] obtain l' where
    l': "LIST_REMOVE e (env_free_list s) = Some l'" "dlist l' fs" by auto
  have fresh: "e \<notin> set fs" using ll.holds_distinct [OF l] by simp
  have id': "ENVX id' = e" "0 \<le> sint id'" "id' \<noteq> 0"
    using ENVX_next [OF e] next_env_id(2,3) [OF e(1) [simplified] e(2)] sint_nonneg_iff [of id']
    by (auto simp: id'_def)
  obtain s' where s': "complete_environment_initialization e s = Inr s'"
    "envs s' = (envs s)(e := (envs s e)\<lparr>env_id := id', env_parent_id := 0, env_status := ENV_RUNNABLE,
      env_runs := 0, env_tf := initial_trapframe\<rparr>)" "env_free_list s' = l'" "curenv s' = curenv s"
    using l'(1) by (simp add: complete_environment_initialization_def Let_def id'_def update_env_def)
  have "env_inv fs s'"
    using inv l'(2) fresh id' unfolding env_inv_def s'(2-4) by auto
  then show ?thesis using s' by simp
qed

lemma free_environment_inv:
  assumes "env_inv fs s" "e < NENV" "e \<notin> set fs"
  shows "env_inv (e # fs) (free_environment e s)"
  using assms by (auto simp: env_inv_def free_environment_def Let_def ll.insert_holds)

lemma envid2env_iff:
  assumes "env_inv fs s" "envid \<noteq> 0"
  shows "envid2env envid False s =
    (if ENVX envid \<notin> set fs \<and> env_id (envs s (ENVX envid)) = envid then Inr (0, Some (ENVX envid))
     else Inr (2, None))"
  using assms ENVX_less [of envid] by (auto simp: env_inv_def envid2env_def Let_def)

text \<open>The identifiers of the environments in use.\<close>

definition live_ids :: "kernel \<Rightarrow> u32 set" where
  "live_ids s = (\<lambda>e. env_id (envs s e)) ` {e. e < NENV \<and> env_status (envs s e) \<noteq> ENV_FREE}"

lemma used_envs: "env_inv fs s \<Longrightarrow> {e. e < NENV \<and> env_status (envs s e) \<noteq> ENV_FREE} = {e. e < NENV} - set fs"
  by (auto simp: env_inv_def)

lemma ids_inj: "env_inv fs s \<Longrightarrow> inj_on (\<lambda>e. env_id (envs s e)) ({e. e < NENV} - set fs)"
  unfolding env_inv_def by (rule inj_onI) (metis Diff_iff mem_Collect_eq)

lemma live_ids_iff: "env_inv fs s \<Longrightarrow>
    i \<in> live_ids s \<longleftrightarrow> i \<noteq> 0 \<and> ENVX i \<notin> set fs \<and> env_id (envs s (ENVX i)) = i"
proof
  assume inv: "env_inv fs s" and "i \<in> live_ids s"
  then obtain e where e: "e < NENV" "e \<notin> set fs" "i = env_id (envs s e)"
    unfolding live_ids_def used_envs [OF inv] by blast
  then have "i \<noteq> 0" "ENVX i = e" using inv by (auto simp: env_inv_def)
  then show "i \<noteq> 0 \<and> ENVX i \<notin> set fs \<and> env_id (envs s (ENVX i)) = i" using e by simp
next
  assume inv: "env_inv fs s" and "i \<noteq> 0 \<and> ENVX i \<notin> set fs \<and> env_id (envs s (ENVX i)) = i"
  then show "i \<in> live_ids s"
    unfolding live_ids_def used_envs [OF inv] using ENVX_less by (intro image_eqI [of _ _ "ENVX i"]) auto
qed

lemma card_below_NENV: "card {e :: u32. e < NENV} = 1024" "finite {e :: u32. e < NENV}"
proof -
  have "{e :: u32. e < NENV} = set (word_range 0 NENV)" by simp
  also have "card \<dots> = 1024" unfolding distinct_card [OF distinct_word_range] by simp
  finally show "card {e :: u32. e < NENV} = 1024" .
qed simp

lemma card_live_ids: "env_inv fs s \<Longrightarrow> card (live_ids s) + length fs = 1024"
proof -
  assume inv: "env_inv fs s"
  then have "distinct fs" "set fs \<subseteq> {e. e < NENV}" by (auto simp: env_inv_def ll.holds_distinct)
  then have "card ({e. e < NENV} - set fs) + length fs = 1024"
    using card_Diff_subset [of "set fs" "{e. e < NENV}"] card_mono [OF card_below_NENV(2), of "set fs"]
      card_below_NENV(1) by (simp add: distinct_card)
  then show ?thesis unfolding live_ids_def used_envs [OF inv] card_image [OF ids_inj [OF inv]] .
qed

subsection \<open>The interface of a table of handles\<close>

text \<open>
  A table with a fixed capacity that gives out handles: a new handle differs from those in use, a
  released one is no longer in use.
\<close>

fun create_many :: "('s \<Rightarrow> ('h \<times> 's) option) \<Rightarrow> nat \<Rightarrow> 's \<Rightarrow> ('h list \<times> 's) option" where
  "create_many create 0 s = Some ([], s)"
| "create_many create (Suc n) s =
     (case create s of None \<Rightarrow> None
      | Some (h, t) \<Rightarrow> map_option (\<lambda>(hs, u). (h # hs, u)) (create_many create n t))"

locale handle_table =
  fixes inv :: "'s \<Rightarrow> bool"
    and live :: "'s \<Rightarrow> 'h set"
    and capacity :: nat
    and create :: "'s \<Rightarrow> ('h \<times> 's) option"
    and release :: "'h \<Rightarrow> 's \<Rightarrow> 's"
  assumes live_bound: "inv s \<Longrightarrow> finite (live s) \<and> card (live s) \<le> capacity"
    and create_full: "inv s \<Longrightarrow> create s = None \<longleftrightarrow> card (live s) = capacity"
    and create_ok: "inv s \<Longrightarrow> create s = Some (h, t) \<Longrightarrow> inv t \<and> h \<notin> live s \<and> live t = insert h (live s)"
    and release_ok: "inv s \<Longrightarrow> h \<in> live s \<Longrightarrow> inv (release h s) \<and> live (release h s) = live s - {h}"
begin

lemma create_many_ok:
  "inv s \<Longrightarrow> card (live s) + n \<le> capacity \<Longrightarrow>
    \<exists>hs t. create_many create n s = Some (hs, t) \<and> inv t \<and> length hs = n \<and> distinct hs \<and>
      set hs \<inter> live s = {} \<and> live t = live s \<union> set hs"
proof (induction n arbitrary: s)
  case (Suc n)
  then obtain h t where c: "create s = Some (h, t)" using create_full by fastforce
  note ok = create_ok [OF Suc.prems(1) c]
  then have "card (live t) = Suc (card (live s))" using live_bound [OF Suc.prems(1)] by simp
  then have "card (live t) + n \<le> capacity" using Suc.prems(2) by simp
  with Suc.IH [of t] ok obtain hs u where u: "create_many create n t = Some (hs, u)" "inv u"
    "length hs = n" "distinct hs" "set hs \<inter> live t = {}" "live u = live t \<union> set hs"
    by blast
  then have "create_many create (Suc n) s = Some (h # hs, u)" using c by simp
  moreover have "length (h # hs) = Suc n" "distinct (h # hs)" "set (h # hs) \<inter> live s = {}"
    "live u = live s \<union> set (h # hs)"
    using u ok by auto
  ultimately show ?case using u(2) by blast
qed simp

lemma release_then_create: "inv s \<Longrightarrow> h \<in> live s \<Longrightarrow> create (release h s) \<noteq> None"
proof -
  assume s: "inv s" "h \<in> live s"
  then have "card (live s - {h}) < card (live s)" using live_bound by (intro card_Diff1_less) auto
  then show ?thesis using release_ok [OF s] live_bound [OF s(1)] create_full [of "release h s"] by simp
qed

end

text \<open>A new environment as \<^verbatim>\<open>env_create\<close> makes it: allocation and initialisation; the handle is the identifier.\<close>

definition env_new :: "kernel \<Rightarrow> (u32 \<times> kernel) option" where
  "env_new s =
    (case snd (allocate_environment s) of None \<Rightarrow> None
     | Some e \<Rightarrow> (case complete_environment_initialization e s of
         Inl _ \<Rightarrow> None | Inr t \<Rightarrow> Some (env_id (envs t e), t)))"

lemma env_new_step:
  assumes inv: "env_inv fs s"
  shows "env_new s = None \<longleftrightarrow> fs = []"
    "env_new s = Some (i, t) \<Longrightarrow>
      env_inv (tl fs) t \<and> i \<notin> live_ids s \<and> live_ids t = insert i (live_ids s) \<and> ENVX i = hd fs"
proof -
  have l: "dlist (env_free_list s) fs" using inv by (simp add: env_inv_def)
  have "(env_new s = None \<longleftrightarrow> fs = []) \<and> (env_new s = Some (i, t) \<longrightarrow>
      env_inv (tl fs) t \<and> i \<notin> live_ids s \<and> live_ids t = insert i (live_ids s) \<and> ENVX i = hd fs)"
  proof (cases fs)
    case Nil
    with l show ?thesis by (simp add: env_new_def allocate_environment_def ll.first_holds)
  next
    case (Cons e fs')
    from complete_correct [OF inv [unfolded Cons]] obtain u where
      u: "complete_environment_initialization e s = Inr u" "env_inv fs' u"
        "\<forall>x. x \<noteq> e \<longrightarrow> envs u x = envs s x" "env_id (envs u e) = next_env_id e (env_id (envs s e))"
      by blast
    have e: "e < NENV" "0 \<le> sint (env_id (envs s e))" and fresh: "e \<notin> set fs'"
      using inv l ll.holds_distinct [OF l] Cons by (auto simp: env_inv_def)
    define i' where "i' = next_env_id e (env_id (envs s e))"
    have i': "ENVX i' = e" "i' \<noteq> 0" "env_id (envs u (ENVX i')) = i'"
      using ENVX_next [OF e] next_env_id(2) [OF e(1) [simplified] e(2)] u(4) by (auto simp: i'_def)
    have "live_ids u = insert i' (live_ids s)"
    proof (rule set_eqI)
      fix j show "j \<in> live_ids u \<longleftrightarrow> j \<in> insert i' (live_ids s)"
        unfolding live_ids_iff [OF u(2)] insert_iff live_ids_iff [OF inv] Cons
        using u(3) i' fresh by (cases "ENVX j = e") auto
    qed
    moreover have "i' \<notin> live_ids s" unfolding live_ids_iff [OF inv] Cons using i' by simp
    moreover have "env_new s = Some (i', u)"
      using l u(1,4) Cons by (simp add: env_new_def allocate_environment_def ll.first_holds i'_def)
    ultimately show ?thesis using Cons u(2) i' by auto
  qed
  then show "env_new s = None \<longleftrightarrow> fs = []" "env_new s = Some (i, t) \<Longrightarrow>
      env_inv (tl fs) t \<and> i \<notin> live_ids s \<and> live_ids t = insert i (live_ids s) \<and> ENVX i = hd fs"
    by blast+
qed

lemma env_release:
  assumes "env_inv fs s" "i \<in> live_ids s"
  shows "env_inv (ENVX i # fs) (free_environment (ENVX i) s) \<and>
    live_ids (free_environment (ENVX i) s) = live_ids s - {i}"
proof -
  have i: "ENVX i \<notin> set fs" "env_id (envs s (ENVX i)) = i" using live_ids_iff [OF assms(1)] assms(2) by auto
  note inv = free_environment_inv [OF assms(1) ENVX_less i(1)]
  have same: "env_id (envs (free_environment e s) x) = env_id (envs s x)" for e x
    by (simp add: free_environment_def Let_def)
  have "live_ids (free_environment (ENVX i) s) = live_ids s - {i}"
    unfolding set_eq_iff live_ids_iff [OF inv] Diff_iff live_ids_iff [OF assms(1)] same
    using i by (auto)
  then show ?thesis using inv by blast
qed

interpretation env_table: handle_table "\<lambda>s. \<exists>fs. env_inv fs s" live_ids 1024 env_new
  "\<lambda>i. free_environment (ENVX i)"
proof (unfold_locales, goal_cases)
  case (1 s)
  then show ?case using card_live_ids by (fastforce simp: live_ids_def)
next
  case (2 s)
  then show ?case using card_live_ids env_new_step(1) by fastforce
next
  case (3 s h t)
  then show ?case using env_new_step(2) by blast
next
  case (4 s h)
  then show ?case using env_release by blast
qed

section \<open>Initialisation\<close>

lemma env_init_fold:
  "distinct es \<Longrightarrow> set es \<inter> set fs = {} \<Longrightarrow> dlist (env_free_list s) fs \<Longrightarrow>
    dlist (env_free_list (fold env_init_one es s)) (rev es @ fs) \<and>
    curenv (fold env_init_one es s) = curenv s \<and>
    (\<forall>e \<in> set es. env_status (envs (fold env_init_one es s) e) = ENV_FREE \<and>
      env_id (envs (fold env_init_one es s) e) = 0) \<and>
    (\<forall>e. e \<notin> set es \<longrightarrow> envs (fold env_init_one es s) e = envs s e)"
proof (induction es arbitrary: s fs)
  case (Cons x es)
  let ?t = "env_init_one x s"
  have t: "dlist (env_free_list ?t) (x # fs)" "curenv ?t = curenv s"
    "env_status (envs ?t x) = ENV_FREE" "env_id (envs ?t x) = 0" "\<And>y. y \<noteq> x \<Longrightarrow> envs ?t y = envs s y"
    using Cons.prems by (simp_all add: env_init_one_def Let_def ll.insert_holds)
  have "distinct es" "set es \<inter> set (x # fs) = {}" using Cons.prems by auto
  from Cons.IH [OF this t(1)] t(2-5) Cons.prems(1) show ?case by simp
qed simp

lemma env_init_inv:
  assumes "dlist (env_free_list s) []" "curenv s = None"
  shows "env_inv (word_range 0 NENV) (env_init s)"
  using env_init_fold [of "rev (word_range 0 NENV)" "[]" s] assms
  by (simp add: env_inv_def env_init_def)

section \<open>Correctness\<close>



text \<open>
  C39: an identifier is never stale. Starting an environment in a free slot sets its registers, makes
  it runnable and takes it off the free list; its new identifier is positive, names the slot and is
  the only identifier of the slot that \<^verbatim>\<open>envid2env\<close> finds, so the one the slot had before fails. Freeing the
  environment puts the slot back at the head of the list, and its identifier fails too.
\<close>

theorem environment_ids_never_stale:
  assumes "env_inv (e # fs) s"
  shows "allocate_environment s = (0, Some e) \<and>
    (\<exists>s'. complete_environment_initialization e s = Inr s' \<and> env_inv fs s' \<and>
      (let i = env_id (envs s' e) in
        0 < sint i \<and> ENVX i = e \<and> i \<noteq> env_id (envs s e) \<and> env_tf (envs s' e) = initial_trapframe \<and>
        (\<forall>j. j \<noteq> 0 \<and> ENVX j = e \<longrightarrow>
          envid2env j False s' = (if j = i then Inr (0, Some e) else Inr (- E_BAD_ENV, None))) \<and>
        (let s'' = free_environment e s' in env_inv (e # fs) s'' \<and>
          envid2env i False s'' = Inr (- E_BAD_ENV, None))))"
proof -
  obtain s' where s': "complete_environment_initialization e s = Inr s'" "env_inv fs s'"
    "env_id (envs s' e) = next_env_id e (env_id (envs s e))" "env_tf (envs s' e) = initial_trapframe"
    using complete_correct [OF assms] by blast
  have l: "dlist (env_free_list s) (e # fs)" and e: "e < NENV" "0 \<le> sint (env_id (envs s e))"
    using assms by (simp_all add: env_inv_def)
  have fresh: "e \<notin> set fs" using ll.holds_distinct [OF l] by simp
  let ?i = "next_env_id e (env_id (envs s e))"
  note n = next_env_id [OF e(1) [simplified] e(2)]
  have i: "0 < sint ?i" "ENVX ?i = e" "?i \<noteq> env_id (envs s e)"
    using n(2-4) ENVX_next [OF e] by (auto simp: sint_pos)
  then have i0: "?i \<noteq> 0" by auto
  have "envid2env j False s' = (if j = ?i then Inr (0, Some e) else Inr (- E_BAD_ENV, None))"
    if "j \<noteq> 0" "ENVX j = e" for j
    using envid2env_iff [OF s'(2) that(1)] that(2) fresh s'(3) by auto
  moreover have "env_inv (e # fs) (free_environment e s')" by (rule free_environment_inv [OF s'(2) e(1) fresh])
  moreover from this have "envid2env ?i False (free_environment e s') = Inr (- E_BAD_ENV, None)"
    using envid2env_iff [OF _ i0] i(2) by simp
  ultimately show ?thesis
    using s' i l by (simp add: Let_def allocate_environment_def ll.first_holds)
qed

theorem environment_ids_never_stale_witness:
  "\<exists>s'. complete_environment_initialization 0 (env_init kernel_example) = Inr s' \<and>
     0 < sint (env_id (envs s' 0))"
proof -
  have "env_inv (word_range 0 NENV) (env_init kernel_example)"
    by (rule env_init_inv) (simp_all add: kernel_example_def)
  moreover have "word_range 0 NENV = 0 # word_range 1 NENV"
    using word_range_Cons [of 0 NENV] by simp
  ultimately show ?thesis
    using environment_ids_never_stale [of 0 "word_range 1 NENV" "env_init kernel_example"]
    by (auto simp: Let_def)
qed

section \<open>Segments of a program\<close>

text \<open>What the structure holds for program header \<open>i\<close>; nothing of its previous contents is left.\<close>

definition segment_of :: "bmem \<Rightarrow> u32 \<Rightarrow> u32 \<Rightarrow> ProgramSegment" where
  "segment_of m p i =
    (let ph = proghdr m p i
     in \<lparr>segment_start = p + p_offset m ph, size_in_file = p_filesz m ph, size_in_memory = p_memsz m ph,
         segment_va = p_va m ph, segment_id = i\<rparr>)"

lemma fill_segment_eq: "fill_segment m p seg = segment_of m p (segment_id seg)"
  by (cases seg) (simp add: fill_segment_def segment_of_def Let_def)

definition loadable :: "bmem \<Rightarrow> u32 \<Rightarrow> u32 \<Rightarrow> bool" where
  "loadable m p i \<longleftrightarrow> p_type m (proghdr m p i) = ELF_PROG_LOAD"

definition header_count :: "bmem \<Rightarrow> u32 \<Rightarrow> u32" where
  "header_count m p = ucast (e_phnum m p)"

lemma header_count_small: "unat (header_count m p) = unat (e_phnum m p)" "unat (header_count m p) < 65536"
  using unat_u16_less [of "e_phnum m p"]
  by (simp_all add: header_count_def unsigned_ucast_eq take_bit_nat_eq_self)

lemma skip_segments_finds:
  assumes "i \<le> header_count m p"
  shows "skip_segments m p i \<le> header_count m p \<and>
    filter (loadable m p) (word_range i (header_count m p)) =
      (if skip_segments m p i < header_count m p
       then skip_segments m p i # filter (loadable m p) (word_range (skip_segments m p i + 1) (header_count m p))
       else [])"
  using assms
proof (induction m p i rule: skip_segments.induct)
  case (1 m p i)
  let ?n = "header_count m p"
  have step: "skip_segments m p i = (if \<not> loadable m p i \<and> i < ?n then skip_segments m p (i + 1) else i)"
    by (subst skip_segments.simps) (simp add: loadable_def header_count_def)
  show ?case
  proof (cases "i < ?n")
    case True
    have "i + 1 \<le> ?n" using loop_step [OF True] True by (simp add: word_le_nat_alt word_less_nat_alt)
    then show ?thesis
      using "1.IH" [folded loadable_def header_count_def] True step by (auto simp: word_range_Cons)
  next
    case False
    then show ?thesis using "1.prems" step by (simp add: word_range_Nil)
  qed
qed

lemma small_signed: "i \<le> header_count m p \<Longrightarrow> sint i < uint (e_phnum m p) \<longleftrightarrow> i < header_count m p"
proof -
  assume i: "i \<le> header_count m p"
  then have "unat i < 65536" using header_count_small(2) [of m p] by (simp add: word_le_nat_alt)
  then have "int (unat i) < int 65536" by (simp only: of_nat_less_iff)
  then have "uint i < 65536" by simp
  moreover have "- (2 ^ 31) \<le> uint i" by (rule order_trans [of _ 0]) simp_all
  ultimately have "sint i = uint i" by (simp add: sint_uint signed_take_bit_int_eq_self)
  moreover have "uint (header_count m p) = uint (e_phnum m p)"
    using arg_cong [OF header_count_small(1) [of m p], of int] by simp
  ultimately show ?thesis by (simp add: word_less_def)
qed

lemma PROGRAM_SEGMENT_NEXT_eq:
  assumes "e_magic m p = ELF_MAGIC" "segment_id seg < header_count m p"
  shows "PROGRAM_SEGMENT_NEXT seg p m = Inr
    (let j = skip_segments m p (segment_id seg + 1) in if j < header_count m p then Some (segment_of m p j) else None)"
proof -
  have "segment_id seg + 1 \<le> header_count m p"
    using loop_step [OF assms(2)] assms(2) by (simp add: word_le_nat_alt word_less_nat_alt)
  then have "skip_segments m p (segment_id seg + 1) \<le> header_count m p" using skip_segments_finds by blast
  from small_signed [OF this] show ?thesis
    using assms(1) by (simp add: PROGRAM_SEGMENT_NEXT_def Let_def fill_segment_eq)
qed

lemma segment_loop_visits:
  "e_magic m p = ELF_MAGIC \<Longrightarrow> j < header_count m p \<Longrightarrow>
    segment_loop m p (Some (segment_of m p j)) = Some (Inr (segment_of m p j #
      map (segment_of m p) (filter (loadable m p) (word_range (j + 1) (header_count m p)))))"
proof (induction "unat (header_count m p - j)" arbitrary: j rule: less_induct)
  case less
  let ?n = "header_count m p" and ?k = "skip_segments m p (j + 1)"
  have "j + 1 \<le> ?n" using loop_step [OF less.prems(2)] less.prems(2) by (simp add: word_le_nat_alt word_less_nat_alt)
  note f = skip_segments_finds [OF this]
  have id: "segment_id (segment_of m p j) = j" by (simp add: segment_of_def Let_def)
  note nx = PROGRAM_SEGMENT_NEXT_eq [OF less.prems(1), of "segment_of m p j", unfolded id, OF less.prems(2)]
  show ?case
  proof (cases "?k < ?n")
    case True
    have "unat j < unat ?k"
    proof (rule ccontr)
      assume "\<not> unat j < unat ?k"
      moreover have "?k \<in> set (word_range (j + 1) ?n)"
        using f True by (metis filter_is_subset list.set_intros(1) subsetD)
      ultimately show False using loop_step [OF less.prems(2)] by (simp add: word_le_nat_alt)
    qed
    then have "unat (?n - ?k) < unat (?n - j)"
      using True less.prems(2) by (simp add: unat_sub_if' word_less_nat_alt)
    from less.hyps [OF this less.prems(1) True] show ?thesis
      using nx f True by (subst segment_loop.simps) (simp add: Let_def)
  next
    case False
    have "segment_loop m p None = Some (Inr [])" by (subst segment_loop.simps) simp
    then show ?thesis using nx f False by (subst segment_loop.simps) (simp add: Let_def)
  qed
qed

lemma PROGRAM_SEGMENT_FIRST_eq:
  assumes "e_magic m p = ELF_MAGIC"
  shows "PROGRAM_SEGMENT_FIRST junk p m = Inr (let k = skip_segments m p 0 in
      if k < header_count m p then segment_of m p k else junk\<lparr>segment_id := -1\<rparr>)"
    "k < header_count m p \<Longrightarrow> k \<noteq> -1"
proof -
  have "skip_segments m p 0 \<le> header_count m p" using skip_segments_finds [of 0 m p] by simp
  then show "PROGRAM_SEGMENT_FIRST junk p m = Inr (let k = skip_segments m p 0 in
      if k < header_count m p then segment_of m p k else junk\<lparr>segment_id := -1\<rparr>)"
    using assms small_signed [of "skip_segments m p 0" m p] by (simp add: PROGRAM_SEGMENT_FIRST_def Let_def fill_segment_eq)
  show "k \<noteq> -1" if "k < header_count m p"
  proof
    assume "k = -1"
    then have "unat (- 1 :: u32) < 65536" using that header_count_small(2) [of m p] by (simp add: word_less_nat_alt)
    then show False by (simp add: unsigned_minus_1_eq_mask mask_eq_exp_minus_1)
  qed
qed

text \<open>
  \<^verbatim>\<open>PROGRAM_SEGMENT_FOREACH\<close> runs its body for exactly the program headers of type
  \<^verbatim>\<open>ELF_PROG_LOAD\<close>, each once, in the order of the header table, with the fields of the header; for an image
  without the magic number it panics. It ends for every image.
\<close>

theorem program_segments_correct:
  "program_segments junk p m =
    (if e_magic m p = ELF_MAGIC
     then Inr (map (segment_of m p) (filter (loadable m p) (word_range 0 (header_count m p))))
     else Inl (Panic ''Matafa2nash 3ala Keda''))"
proof (cases "e_magic m p = ELF_MAGIC")
  case True
  let ?n = "header_count m p" and ?k = "skip_segments m p 0"
  have f: "?k \<le> ?n \<and> filter (loadable m p) (word_range 0 ?n) =
      (if ?k < ?n then ?k # filter (loadable m p) (word_range (?k + 1) ?n) else [])"
    by (rule skip_segments_finds) simp
  note first = PROGRAM_SEGMENT_FIRST_eq(1) [OF True, unfolded Let_def]
  have "?k < ?n \<Longrightarrow> ?k \<noteq> -1" by (rule PROGRAM_SEGMENT_FIRST_eq(2) [OF True])
  moreover have "segment_loop m p None = Some (Inr [])" by (subst segment_loop.simps) simp
  ultimately show ?thesis
    using True first f segment_loop_visits [OF True, of ?k]
    by (simp add: program_segments_def segment_of_def Let_def)
qed (simp add: program_segments_def PROGRAM_SEGMENT_FIRST_def Let_def)

section \<open>Finding a program\<close>

lemma find_program_eq:
  "str_at m p nm \<Longrightarrow> list_all2 (\<lambda>u xs. str_at m (name u) xs) us names \<Longrightarrow>
    find_program m p us k = Some (k + length (takeWhile (\<lambda>xs. xs \<noteq> nm) names))"
proof (induction us arbitrary: names k)
  case (Cons u us)
  then obtain xs names' where n: "names = xs # names'" "str_at m (name u) xs"
    "list_all2 (\<lambda>u xs. str_at m (name u) xs) us names'" by (auto simp: list_all2_Cons1)
  obtain d where "strcmp m p (name u) = Some d" "d = 0 \<longleftrightarrow> nm = xs"
    using strcmp_str_at [OF Cons.prems(1) n(2)] by blast
  then show ?case using Cons.IH [OF Cons.prems(1) n(3)] n(1) by auto
qed simp

text \<open>
  \<^verbatim>\<open>get_user_program_info\<close> returns the first entry of the table whose name is the string it is given and
  changes nothing; when there is none it prints a message, changes only the console, and returns
  null. \<^verbatim>\<open>env_create\<close> returns null for an unknown program and, with no free environment, for a known
  one; otherwise it stops in its panic. It never returns a program.
\<close>

theorem user_programs_found:
  assumes "str_at (bytes s) p nm"
    and "list_all2 (\<lambda>u xs. str_at (bytes s) (name u) xs) (userPrograms s) names"
  shows "(if nm \<in> set names
      then \<exists>i < length names. names ! i = nm \<and> (\<forall>j < i. names ! j \<noteq> nm) \<and>
        get_user_program_info p s = Inr (Some i, s)
      else \<exists>c. get_user_program_info p s = Inr (None, s\<lparr>con := c\<rparr>)) \<and>
    (case env_create p s of
       Inr (u, t) \<Rightarrow> u = None \<and> (nm \<notin> set names \<or> lh_first (env_free_list s) = None)
     | Inl e \<Rightarrow> nm \<in> set names \<and> lh_first (env_free_list s) \<noteq> None)"
proof -
  let ?i = "length (takeWhile (\<lambda>xs. xs \<noteq> nm) names)"
  have len: "length (userPrograms s) = length names" using assms(2) by (rule list_all2_lengthD)
  have nul: "has_nul (bytes s)" using assms(1) by (induction nm arbitrary: p) (auto simp: has_nul_def)
  have f: "find_program (bytes s) p (userPrograms s) 0 = Some ?i"
    using find_program_eq [OF assms, of 0] by simp
  show ?thesis
  proof (cases "nm \<in> set names")
    case True
    have "?i \<noteq> length names"
    proof
      assume "?i = length names"
      then have "takeWhile (\<lambda>xs. xs \<noteq> nm) names = names" by (metis takeWhile_eq_take take_all order_refl)
      then show False using True by (auto simp: takeWhile_eq_all_conv)
    qed
    then have i: "?i < length names" using length_takeWhile_le [of "\<lambda>xs. xs \<noteq> nm" names] by linarith
    then have "names ! ?i = nm" using nth_length_takeWhile [of "\<lambda>xs. xs \<noteq> nm" names] by blast
    moreover have "\<forall>j < ?i. names ! j \<noteq> nm"
      by (metis (mono_tags) nth_mem set_takeWhileD takeWhile_nth)
    moreover have g: "get_user_program_info p s = Inr (Some ?i, s)"
      using f i len by (simp add: get_user_program_info_def)
    ultimately have "\<exists>i < length names. names ! i = nm \<and> (\<forall>j < i. names ! j \<noteq> nm) \<and>
        get_user_program_info p s = Inr (Some i, s)" using i by blast
    moreover have "case env_create p s of
       Inr (u, t) \<Rightarrow> u = None \<and> (nm \<notin> set names \<or> lh_first (env_free_list s) = None)
     | Inl e \<Rightarrow> nm \<in> set names \<and> lh_first (env_free_list s) \<noteq> None"
      using True by (cases "lh_first (env_free_list s)") (simp_all add: env_create_def allocate_environment_def g)
    ultimately show ?thesis using True by simp
  next
    case False
    then have "takeWhile (\<lambda>xs. xs \<noteq> nm) names = names" by (auto simp: takeWhile_eq_all_conv)
    from arg_cong [OF this, of length] have "?i = length (userPrograms s)" unfolding len .
    moreover obtain cs where "cprintf (''Unknown user program '' @ [CHR 0x27] @ ''%s'' @ [CHR 0x27, CHR 0x0A]) [p] s =
        Inr (s\<lparr>con := fold cputchar cs (con s)\<rparr>)" using cprintf_returns [OF nul] by blast
    ultimately have "get_user_program_info p s = Inr (None, s\<lparr>con := fold cputchar cs (con s)\<rparr>)"
      using f by (simp add: get_user_program_info_def)
    then show ?thesis using False by (auto simp: env_create_def)
  qed
qed

text \<open>A program table with one program \<^verbatim>\<open>a\<close> whose image at 256 has only the magic number and an entry point.\<close>

definition program_example :: kernel where
  "program_example = kernel_example
     \<lparr>bytes := (\<lambda>_. 0)(64 := 0x61, 66 := 0x62, 256 := 0x7F, 257 := 0x45, 258 := 0x4C, 259 := 0x46,
        280 := 0x20, 282 := 0x80),
      userPrograms := [\<lparr>name = 64, desc = 65, ptr_start = 256, environment = Some 3\<rparr>],
      curenv := Some 3\<rparr>"

theorem user_programs_found_witness:
  "get_user_program_info 64 program_example = Inr (Some 0, program_example) \<and>
   (\<exists>c. get_user_program_info 66 program_example = Inr (None, program_example\<lparr>con := c\<rparr>))"
proof -
  let ?s = program_example
  have "str_at (bytes ?s) 64 [0x61]" "str_at (bytes ?s) 66 [0x62]"
    by (simp_all add: program_example_def)
  moreover have "list_all2 (\<lambda>u xs. str_at (bytes ?s) (name u) xs) (userPrograms ?s) [[0x61]]"
    by (simp add: program_example_def)
  ultimately show ?thesis
    using user_programs_found [of ?s 64 "[0x61]" "[[0x61]]"] user_programs_found [of ?s 66 "[0x62]" "[[0x61]]"]
    by simp
qed

lemma find_program_by_env_first:
  "i < length us \<Longrightarrow> environment (us ! i) = e \<Longrightarrow> \<forall>j < i. environment (us ! j) \<noteq> e \<Longrightarrow>
    find_program_by_env e us k = k + i"
proof (induction us arbitrary: i k)
  case (Cons u us)
  show ?case
  proof (cases i)
    case (Suc j)
    then have "environment u \<noteq> e" using Cons.prems(3) by auto
    moreover have "\<forall>l < j. environment (us ! l) \<noteq> e" using Cons.prems(3) Suc by auto
    ultimately show ?thesis using Cons.IH [of j "k + 1"] Cons.prems Suc by simp
  qed (use Cons.prems in simp)
qed simp

lemma env_run_cmd_prmpt_restarts:
  assumes "curenv s = Some e"
    and "i < length (userPrograms s)" "environment (userPrograms s ! i) = Some e"
    and "\<forall>j < i. environment (userPrograms s ! j) \<noteq> Some e"
    and "e_magic (bytes s) (ptr_start (userPrograms s ! i)) = ELF_MAGIC"
    and "KERNEL_BASE \<le> ptr_page_directory s"
  shows "\<exists>t. env_run_cmd_prmpt s = Inr t \<and> curenv t = None \<and>
    cr3 t = ptr_page_directory s - KERNEL_BASE \<and> env_free_list t = env_free_list s \<and> mm t = mm s \<and> con t = con s \<and>
    (\<forall>x. x \<noteq> e \<longrightarrow> envs t x = envs s x) \<and> env_status (envs t e) = env_status (envs s e) \<and>
    fst (env_run e t) =
      initial_trapframe\<lparr>tf_eip := e_entry (bytes s) (ptr_start (userPrograms s ! i))\<rparr>"
proof -
  have "find_program_by_env (Some e) (userPrograms s) 0 = i"
    using find_program_by_env_first [OF assms(2-4), of 0] by simp
  then show ?thesis
    using assms by (simp add: env_run_cmd_prmpt_def get_user_program_info_by_env_def
        set_environment_entry_point_def K_PHYSICAL_ADDRESS_def Let_def env_run_def)
qed

text \<open>
  going to sleep. The environment that gives up the processor keeps its slot and its memory; its
  registers are set as at its start, with the entry point of its program, so that running it again
  starts the program; the kernel's page directory is loaded and there is no current environment.
\<close>

theorem env_sleep_correct:
  assumes "curenv s = Some e"
    and "i < length (userPrograms s)" "environment (userPrograms s ! i) = Some e"
    and "\<forall>j < i. environment (userPrograms s ! j) \<noteq> Some e"
    and "e_magic (bytes s) (ptr_start (userPrograms s ! i)) = ELF_MAGIC"
    and "KERNEL_BASE \<le> ptr_page_directory s"
  shows "\<exists>t. env_run_cmd_prmpt s = Inr t \<and> curenv t = None \<and>
    cr3 t = ptr_page_directory s - KERNEL_BASE \<and> env_free_list t = env_free_list s \<and> mm t = mm s \<and> con t = con s \<and>
    (\<forall>x. x \<noteq> e \<longrightarrow> envs t x = envs s x) \<and> env_status (envs t e) = env_status (envs s e) \<and>
    fst (env_run e t) =
      initial_trapframe\<lparr>tf_eip := e_entry (bytes s) (ptr_start (userPrograms s ! i))\<rparr>"
  by (rule env_run_cmd_prmpt_restarts [OF assms])

theorem env_sleep_correct_witness:
  "\<exists>t. env_run_cmd_prmpt program_example = Inr t \<and> tf_eip (fst (env_run 3 t)) = 0x800020"
proof -
  let ?s = program_example
  have u: "userPrograms ?s = [\<lparr>name = 64, desc = 65, ptr_start = 256, environment = Some 3\<rparr>]"
    and c: "curenv ?s = Some 3" and d: "ptr_page_directory ?s = 0xF0001000"
    by (simp_all add: program_example_def kernel_example_def)
  have "e_magic (bytes ?s) 256 = ELF_MAGIC" "e_entry (bytes ?s) 256 = 0x800020"
    by (simp_all add: program_example_def e_magic_def e_entry_def load32_def load16_def)
  then show ?thesis
    using env_sleep_correct [of ?s 3 0] u c d by auto
qed

end
