(* ===== verification/FOS_Syscall.thy ===== *)
theory FOS_Syscall
  imports FOS_Env
begin

text \<open>
  System calls: \<^verbatim>\<open>kern/syscall.c\<close> with the numbers of \<^verbatim>\<open>inc/syscall.h\<close>, and the operations of the
  memory manager that are not finished and end in a panic. The arguments are the words of the five
  registers; a result is the word put into \<^verbatim>\<open>eax\<close>.
\<close>

section \<open>Unfinished operations\<close>

definition get_page :: "u32 \<Rightarrow> u32 \<Rightarrow> u32 \<Rightarrow> kernel \<Rightarrow> (int \<times> kernel) res" where
  "get_page pgdir virtual_address perm s = Inl (Panic ''get_page function is not completed yet'')"

definition calculate_required_frames :: "u32 \<Rightarrow> u32 \<Rightarrow> u32 \<Rightarrow> kernel \<Rightarrow> (u32 \<times> kernel) res" where
  "calculate_required_frames pgdir start_virtual_address sz s =
    Inl (Panic ''calculate_required_frames function is not completed yet'')"

definition freeMem :: "u32 \<Rightarrow> u32 \<Rightarrow> u32 \<Rightarrow> kernel \<Rightarrow> kernel res" where
  "freeMem pgdir virtual_address sz s = Inl (Panic ''freeMem function is not completed yet'')"

section \<open>The calls\<close>

text \<open>The directory of the current environment, for the calls that read \<^verbatim>\<open>curenv->env_pgdir\<close>.\<close>

definition curenv_pgdir :: "kernel \<Rightarrow> u32 res" where
  "curenv_pgdir s = (case curenv s of None \<Rightarrow> Inl Null_deref | Some e \<Rightarrow> Inr (env_pgdir (envs s e)))"

definition sys_cputs :: "u32 \<Rightarrow> u32 \<Rightarrow> kernel \<Rightarrow> kernel res" where
  "sys_cputs str len s = cprintf ''%.*s'' [len, str] s"

text \<open>A \<^verbatim>\<open>while\<close> loop until there is a character; with no input for ever it does not end.\<close>

partial_function (option) sys_cgetc_loop :: "console \<Rightarrow> (u8 \<times> console) option" where
  "sys_cgetc_loop s =
    Option.bind (cons_getc s) (\<lambda>(c, s). if c = 0 then sys_cgetc_loop s else Some (c, s))"

definition sys_cgetc :: "kernel \<Rightarrow> (u32 \<times> kernel) res" where
  "sys_cgetc s = bind_res (loop_res (sys_cgetc_loop (con s))) (\<lambda>(c, d). Inr (ucast c, s\<lparr>con := d\<rparr>))"

definition sys_getenvid :: "kernel \<Rightarrow> (u32 \<times> kernel) res" where
  "sys_getenvid s = (case curenv s of None \<Rightarrow> Inl Null_deref | Some e \<Rightarrow> Inr (env_id (envs s e), s))"

definition sys_env_destroy :: "u32 \<Rightarrow> kernel \<Rightarrow> (int \<times> kernel) res" where
  "sys_env_destroy envid s =
    bind_res (envid2env envid True s) (\<lambda>(r, e).
      if r < 0 then Inr (r, s)
      else bind_res
        (if e = curenv s then
           (case curenv s of None \<Rightarrow> Inl Null_deref
            | Some c \<Rightarrow> cprintf (''[%08x] exiting gracefully'' @ [CHR 0x0A]) [env_id (envs s c)] s)
         else
           (case (curenv s, e) of
              (Some c, Some d) \<Rightarrow>
                cprintf (''[%08x] destroying %08x'' @ [CHR 0x0A]) [env_id (envs s c), env_id (envs s d)] s
            | _ \<Rightarrow> Inl Null_deref))
        (\<lambda>s. bind_res (env_destroy e s) (\<lambda>s. Inr (0, s))))"

definition sys_env_sleep :: "kernel \<Rightarrow> 'a outcome" where
  "sys_env_sleep s = (case env_run_cmd_prmpt s of Inl e \<Rightarrow> Stopped e | Inr s \<Rightarrow> Entered_prompt s)"

definition sys_allocate_page :: "u32 \<Rightarrow> u32 \<Rightarrow> kernel \<Rightarrow> (int \<times> kernel) res" where
  "sys_allocate_page va perm s =
    bind_res (on_mm (allocate_frame (mm s)) s) (\<lambda>((r, ptr_frame_info), s).
      if r = E_NO_MEM then Inr (r, s)
      else if va \<ge> USER_TOP \<or> va mod PAGE_SIZE \<noteq> 0 then Inr (E_INVAL, s)
      else if perm AND (NOT PERM_AVAILABLE AND NOT PERM_WRITEABLE) \<noteq> PERM_USER then Inr (E_INVAL, s)
      else (case ptr_frame_info of
          None \<Rightarrow> Inl Null_deref
        | Some f \<Rightarrow>
            let physical_address = to_physical_address f
            in bind_res (K_VIRTUAL_ADDRESS (mm s) physical_address) (\<lambda>p.
               let s = s\<lparr>mm := memset_page p (mm s)\<rparr>
               in bind_res (curenv_pgdir s) (\<lambda>pgdir.
                  bind_res (on_mm (map_frame pgdir f va perm (mm s)) s) (\<lambda>(r, s).
                    if r = E_NO_MEM then Inr (r, s\<lparr>mm := decrement_references f (mm s)\<rparr>)
                    else Inr (0, s))))))"

definition sys_get_page :: "u32 \<Rightarrow> u32 \<Rightarrow> kernel \<Rightarrow> (int \<times> kernel) res" where
  "sys_get_page va perm s = bind_res (curenv_pgdir s) (\<lambda>pgdir. get_page pgdir va perm s)"

definition sys_map_frame :: "u32 \<Rightarrow> u32 \<Rightarrow> u32 \<Rightarrow> u32 \<Rightarrow> u32 \<Rightarrow> kernel \<Rightarrow> (int \<times> kernel) res" where
  "sys_map_frame srcenvid srcva dstenvid dstva perm s = Inl (Panic ''sys_map_frame not implemented'')"

definition sys_unmap_frame :: "u32 \<Rightarrow> u32 \<Rightarrow> kernel \<Rightarrow> (int \<times> kernel) res" where
  "sys_unmap_frame envid va s = Inl (Panic ''sys_page_unmap not implemented'')"

definition sys_calculate_required_frames :: "u32 \<Rightarrow> u32 \<Rightarrow> kernel \<Rightarrow> (u32 \<times> kernel) res" where
  "sys_calculate_required_frames start_virtual_address sz s =
    bind_res (curenv_pgdir s) (\<lambda>pgdir. calculate_required_frames pgdir start_virtual_address sz s)"

definition sys_calculate_free_frames :: "kernel \<Rightarrow> (u32 \<times> kernel) res" where
  "sys_calculate_free_frames s = bind_res (loop_res (calculate_free_frames (mm s))) (\<lambda>n. Inr (n, s))"

definition sys_freeMem :: "u32 \<Rightarrow> u32 \<Rightarrow> kernel \<Rightarrow> kernel res" where
  "sys_freeMem start_virtual_address sz s =
    bind_res (curenv_pgdir s) (\<lambda>pgdir. freeMem pgdir start_virtual_address sz s)"

section \<open>The dispatcher\<close>

definition SYS_cputs :: u32 where [simp]: "SYS_cputs = 0"
definition SYS_cgetc :: u32 where [simp]: "SYS_cgetc = 1"
definition SYS_getenvid :: u32 where [simp]: "SYS_getenvid = 2"
definition SYS_env_destroy :: u32 where [simp]: "SYS_env_destroy = 3"
definition SYS_env_sleep :: u32 where [simp]: "SYS_env_sleep = 4"
definition SYS_allocate_page :: u32 where [simp]: "SYS_allocate_page = 5"
definition SYS_get_page :: u32 where [simp]: "SYS_get_page = 6"
definition SYS_map_frame :: u32 where [simp]: "SYS_map_frame = 7"
definition SYS_unmap_frame :: u32 where [simp]: "SYS_unmap_frame = 8"
definition SYS_calc_req_frames :: u32 where [simp]: "SYS_calc_req_frames = 9"
definition SYS_calc_free_frames :: u32 where [simp]: "SYS_calc_free_frames = 10"
definition SYS_freeMem :: u32 where [simp]: "SYS_freeMem = 11"
definition NSYSCALLS :: u32 where [simp]: "NSYSCALLS = 12"

text \<open>A call whose result is dropped, before \<^verbatim>\<open>return 0\<close>.\<close>

definition zero_after :: "kernel res \<Rightarrow> u32 outcome" where
  "zero_after r = (case r of Inl e \<Rightarrow> Stopped e | Inr s \<Rightarrow> Returned 0 s)"

definition drop_result :: "('a \<times> kernel) res \<Rightarrow> kernel res" where
  "drop_result r = bind_res r (\<lambda>(x, s). Inr s)"

definition syscall :: "u32 \<Rightarrow> u32 \<Rightarrow> u32 \<Rightarrow> u32 \<Rightarrow> u32 \<Rightarrow> u32 \<Rightarrow> kernel \<Rightarrow> u32 outcome" where
  "syscall syscallno a1 a2 a3 a4 a5 s =
    (if syscallno = SYS_cputs then zero_after (sys_cputs a1 a2 s)
     else if syscallno = SYS_cgetc then returning (sys_cgetc s)
     else if syscallno = SYS_getenvid then returning (sys_getenvid s)
     else if syscallno = SYS_env_destroy then
       returning (bind_res (sys_env_destroy a1 s) (\<lambda>(r, s). Inr (word_of_int r, s)))
     else if syscallno = SYS_env_sleep then
       and_then (sys_env_sleep s) (\<lambda>(x :: unit) s. Returned 0 s)
     else if syscallno = SYS_calc_req_frames then returning (sys_calculate_required_frames a1 a2 s)
     else if syscallno = SYS_calc_free_frames then returning (sys_calculate_free_frames s)
     else if syscallno = SYS_freeMem then zero_after (sys_freeMem a1 a2 s)
     else if syscallno = SYS_allocate_page then zero_after (drop_result (sys_allocate_page a1 a2 s))
     else if syscallno = SYS_get_page then zero_after (drop_result (sys_get_page a1 a2 s))
     else if syscallno = SYS_map_frame then zero_after (drop_result (sys_map_frame a1 a2 a3 a4 a5 s))
     else if syscallno = SYS_unmap_frame then zero_after (drop_result (sys_unmap_frame a1 a2 s))
     else if syscallno = NSYSCALLS then Returned (word_of_int (- E_INVAL)) s
     else Returned (word_of_int (- E_INVAL)) s)"

section \<open>Allocating a page\<close>

lemma valid_perm:
  assumes "perm AND (NOT PERM_AVAILABLE AND NOT PERM_WRITEABLE) = PERM_USER"
  shows "perm < 0x1000"
proof -
  let ?m = "NOT PERM_AVAILABLE AND NOT PERM_WRITEABLE :: u32"
  have "perm = (perm AND ?m) OR (perm AND NOT ?m)" by (simp only: bit.conj_disj_distrib [symmetric] bit.disj_cancel_right bit.conj_one_right)
  moreover have "perm AND NOT ?m \<le> NOT ?m" by (rule word_and_le1)
  then have "perm AND NOT ?m < 0x1000" by (rule le_less_trans) simp
  ultimately show ?thesis using low_or [of "perm AND ?m" "perm AND NOT ?m"] assms by simp
qed

lemma sys_allocate_page_run:
  assumes "curenv s = Some e" "env_pgdir (envs s e) = kva F" "vm_inv pin F (f # gs) (mm s)"
  obtains s1 m where "sys_allocate_page va perm s =
      (if va \<ge> USER_TOP \<or> va mod PAGE_SIZE \<noteq> 0 \<or> perm AND (NOT PERM_AVAILABLE AND NOT PERM_WRITEABLE) \<noteq> PERM_USER
       then Inr (E_INVAL, s\<lparr>mm := s1\<rparr>)
       else bind_res (map_frame (kva F) f va perm m) (\<lambda>(r, m).
         if r = E_NO_MEM then Inr (r, s\<lparr>mm := decrement_references f m\<rparr>) else Inr (0, s\<lparr>mm := m\<rparr>)))"
    "vm_inv pin F gs s1" "kmem s1 = kmem (mm s)" "vm_inv pin F gs m" "references m f = 0" "f \<notin> set gs"
    "f < number_of_frames m" "\<forall>i < 955. pde m F i = pde (mm s) F i"
    "\<forall>va' < USER_TOP. lookup F m va' = lookup F (mm s) va'" "\<forall>j < 1024. word_at m f j = 0"
    "\<forall>i < 955. \<forall>j < 1024. pte m F i j = pte (mm s) F i j" "number_of_frames m = number_of_frames (mm s)"
    "\<forall>g j. g < 0x10000 \<and> g \<noteq> f \<and> j < 1024 \<longrightarrow> word_at m g j = word_at (mm s) g j"
    "allocate_frame (mm s) = Inr ((0, Some f), s1)" "m = memset_page (kva f) s1"
proof -
  obtain s1 where a: "allocate_frame (mm s) = Inr ((0, Some f), s1)" "vm_inv pin F gs s1"
    "K_VIRTUAL_ADDRESS s1 (push_bit 12 f) = Inr (kva f)" "references s1 f = 0" "f < number_of_frames s1"
    "vm_inv pin F gs (memset_page (kva f) s1)" "f \<notin> set gs" "number_of_frames s1 = number_of_frames (mm s)"
    "kmem s1 = kmem (mm s)"
    "\<forall>i < 955. pde (memset_page (kva f) s1) F i = pde (mm s) F i"
    "\<forall>i < 955. \<forall>j < 1024. pte (memset_page (kva f) s1) F i j = pte (mm s) F i j"
    by (rule allocate_page_frame [OF assms(3)])
  show thesis
  proof (rule that [OF _ a(2,9,6) _ a(7) _ a(10)])
    show "sys_allocate_page va perm s =
      (if va \<ge> USER_TOP \<or> va mod PAGE_SIZE \<noteq> 0 \<or> perm AND (NOT PERM_AVAILABLE AND NOT PERM_WRITEABLE) \<noteq> PERM_USER
       then Inr (E_INVAL, s\<lparr>mm := s1\<rparr>)
       else bind_res (map_frame (kva F) f va perm (memset_page (kva f) s1)) (\<lambda>(r, m).
         if r = E_NO_MEM then Inr (r, s\<lparr>mm := decrement_references f m\<rparr>) else Inr (0, s\<lparr>mm := m\<rparr>)))"
      by (auto simp: sys_allocate_page_def on_mm_def a(1,3) to_physical_address_def to_frame_number_def Let_def
          curenv_pgdir_def assms(1,2) bind_res_def split: sum.splits)
    show "\<forall>j < 1024. word_at (memset_page (kva f) s1) f j = 0"
      using word_at_memset [of f f _ s1] vm_inv_frames(8) [OF a(2,5)] by simp
    show "\<forall>va' < USER_TOP. lookup F (memset_page (kva f) s1) va' = lookup F (mm s) va'"
      using a(11) PTX_less by (simp add: lookup_def PDX_user)
    show "\<forall>g j. g < 0x10000 \<and> g \<noteq> f \<and> j < 1024 \<longrightarrow> word_at (memset_page (kva f) s1) g j = word_at (mm s) g j"
      using word_at_memset [of f _ _ s1] vm_inv_frames(8) [OF a(2,5)] a(9) by (simp add: word_at_def)
  qed (use a(1,4,5,8,11) in \<open>simp_all add: view_simps\<close>)
qed

text \<open>
  The ways \<^verbatim>\<open>sys_allocate_page\<close> returns: without a frame; with bad arguments, the frame lost; without a page table, the count of the
  frame wrapped; with the page mapped. \<open>m\<close> is the memory in which the frame has been taken and cleared.
\<close>

definition frame_taken :: "(u32 \<Rightarrow> nat) \<Rightarrow> u32 \<Rightarrow> u32 \<Rightarrow> u32 list \<Rightarrow> mm_state \<Rightarrow> mm_state \<Rightarrow> mm_state \<Rightarrow> bool" where
  "frame_taken pin F f gs s0 s1 m \<longleftrightarrow>
    allocate_frame s0 = Inr ((0, Some f), s1) \<and> vm_inv pin F gs s1 \<and> kmem s1 = kmem s0 \<and>
    m = memset_page (kva f) s1 \<and> vm_inv pin F gs m \<and> references m f = 0 \<and> f \<notin> set gs \<and> f < number_of_frames m \<and>
    (\<forall>i < 955. pde m F i = pde s0 F i) \<and> (\<forall>i < 955. \<forall>j < 1024. pte m F i j = pte s0 F i j) \<and>
    (\<forall>g j. g < 0x10000 \<and> g \<noteq> f \<and> j < 1024 \<longrightarrow> word_at m g j = word_at s0 g j)"

lemma frame_taken:
  assumes "frame_taken pin F f gs s0 s1 m"
  shows "vm_inv pin F gs m" "references m f = 0" "f \<notin> set gs" "f < number_of_frames m" "m = memset_page (kva f) s1"
    "allocate_frame s0 = Inr ((0, Some f), s1)" "vm_inv pin F gs s1" "kmem s1 = kmem s0"
    "\<forall>g j. g < 0x10000 \<and> g \<noteq> f \<and> j < 1024 \<longrightarrow> word_at m g j = word_at s0 g j"
    "i < 955 \<Longrightarrow> pde m F i = pde s0 F i" "i < 955 \<Longrightarrow> j < 1024 \<Longrightarrow> pte m F i j = pte s0 F i j"
  using assms unfolding frame_taken_def by blast+

lemma sys_allocate_page_outcomes:
  assumes cur: "curenv s = Some e" "env_pgdir (envs s e) = kva F" and inv: "vm_inv pin F fs (mm s)"
    and run: "sys_allocate_page va perm s = Inr (r, t)"
  obtains (none) "t = s"
  | (bad) f gs s1 m where "fs = f # gs" "frame_taken pin F f gs (mm s) s1 m" "t = s\<lparr>mm := s1\<rparr>"
  | (full) f s1 m where "fs = [f]" "frame_taken pin F f [] (mm s) s1 m" "t = s\<lparr>mm := decrement_references f m\<rparr>"
  | (mapped) f gs s1 m u where "fs = f # gs" "frame_taken pin F f gs (mm s) s1 m" "va < USER_TOP" "perm < 0x1000"
      "pde m F (PDX va) \<noteq> 0 \<or> gs \<noteq> []" "map_frame (kva F) f va perm m = Inr (0, u)" "t = s\<lparr>mm := u\<rparr>"
proof (cases fs)
  case Nil
  then show thesis
    using none run vm_inv_frames(4) [OF inv] by (simp add: sys_allocate_page_def allocate_frame_empty on_mm_def)
next
  case (Cons f gs)
  let ?bad = "va \<ge> USER_TOP \<or> va mod PAGE_SIZE \<noteq> 0 \<or> perm AND (NOT PERM_AVAILABLE AND NOT PERM_WRITEABLE) \<noteq> PERM_USER"
  obtain s1 m where sys: "sys_allocate_page va perm s = (if ?bad then Inr (E_INVAL, s\<lparr>mm := s1\<rparr>)
      else bind_res (map_frame (kva F) f va perm m) (\<lambda>(r, m).
        if r = E_NO_MEM then Inr (r, s\<lparr>mm := decrement_references f m\<rparr>) else Inr (0, s\<lparr>mm := m\<rparr>)))"
    and m: "frame_taken pin F f gs (mm s) s1 m"
    unfolding frame_taken_def by (rule sys_allocate_page_run [where va = va and perm = perm, OF cur inv [unfolded Cons]]) blast
  show thesis
  proof (cases ?bad)
    case True
    then show thesis using bad [OF Cons m] run sys by simp
  next
    case False
    then have va: "va < USER_TOP" "perm < 0x1000" using valid_perm not_le by blast+
    show thesis
    proof (cases "pde m F (PDX va) = 0 \<and> gs = []")
      case True
      then have "map_frame (kva F) f va perm m = Inr (E_NO_MEM, m)"
        using map_frame_no_mem frame_taken(1) [OF m] by blast
      then show thesis using full [of f s1 m] run sys False Cons m True by simp
    next
      case mem: False
      have "map_ready F perm m gs f va" using frame_taken(2-4) [OF m] va(2) mem by (auto simp: map_ready_def)
      from va.map_law [OF frame_taken(1) [OF m] va(1) this] obtain u where u: "map_frame (kva F) f va perm m = Inr (0, u)"
        by blast
      then have "t = s\<lparr>mm := u\<rparr>" using run sys False by (simp add: E_NO_MEM_def)
      with mapped [OF Cons m va _ u] mem show thesis by blast
    qed
  qed
qed

lemma map_zero_page:
  assumes "vm_inv pin F gs m" "references m f = 0" "f \<notin> set gs" "f < number_of_frames m" "\<forall>j < 1024. word_at m f j = 0"
    and "va < USER_TOP" "perm < 0x1000" "pde m F (PDX va) \<noteq> 0 \<or> gs \<noteq> []"
  obtains u hs where "map_frame (kva F) f va perm m = Inr (0, u)" "vm_inv pin F hs u"
    "\<forall>va' < USER_TOP. lookup F u va' = (if PPN va' = PPN va then Some f else lookup F m va')" "\<forall>j < 1024. word_at u f j = 0"
proof -
  have "map_ready F perm m gs f va" using assms(2-4,7,8) by (simp add: map_ready_def)
  from va.map_law [OF assms(1,6) this] obtain u hs where u: "map_frame (kva F) f va perm m = Inr (0, u)"
    "vm_inv pin F hs u"
    "\<forall>va' < USER_TOP. lookup F u va' = (if PPN va' = PPN va then Some f else lookup F m va')" by blast
  have "PDX va < 955" using assms(6) by (simp only: PDX_user)
  then have "\<forall>j < 1024. word_at u f j = 0"
    using map_frame_words [OF assms(1) _ fresh_untouched [OF assms(1,4,3,2)] assms(8) u(1)] assms(5) by simp
  then show thesis by (rule that [OF u])
qed


text \<open>A kernel that runs environment 0 in the address space of frame 1.\<close>

definition running_example :: kernel where
  "running_example = kernel_example\<lparr>curenv := Some 0, envs := (\<lambda>_. zero_env
     \<lparr>env_id := 0x1000, env_status := ENV_RUNNABLE, env_pgdir := kva 1\<rparr>)\<rparr>"

lemma running_example_simps [simp]:
  "curenv running_example = Some 0" "mm running_example = vm_example" "env_pgdir (envs running_example e) = kva 1"
  "env_id (envs running_example e) = 0x1000" "env_status (envs running_example e) = 1" "bytes running_example = (\<lambda>_. 0)"
  "env_parent_id (envs running_example e) = 0"
  by (simp_all add: running_example_def kernel_example_def zero_env_def)


section \<open>Destroying an environment, and the results of calls\<close>

text \<open>
  C40: \<^verbatim>\<open>sys_env_destroy\<close> never returns to the environment that calls it, whatever the identifier. For an
  environment it may destroy (itself, or a child) it ends in the panic of \<^verbatim>\<open>env_free\<close>. For any other
  identifier it follows a null pointer, instead of returning the documented \<^verbatim>\<open>-E_BAD_ENV\<close>:
  \<^verbatim>\<open>E_BAD_ENV\<close> is itself negative, so the test for an error never succeeds.
\<close>

theorem sys_env_destroy_never_returns:
  assumes "curenv s = Some c" "has_nul (bytes s)"
  shows "let e = ENVX envid in sys_env_destroy envid s = Inl
    (if envid = 0 \<or> env_status (envs s e) \<noteq> ENV_FREE \<and> env_id (envs s e) = envid \<and>
        (e = c \<or> env_parent_id (envs s e) = env_id (envs s c))
     then Panic ''env_free function is not completed yet'' else Null_deref)"
proof -
  have "bind_res (cprintf fmt args s) (\<lambda>s. bind_res (env_destroy e s) k) =
      Inl (Panic ''env_free function is not completed yet'')" for fmt args e and k :: "kernel \<Rightarrow> (int \<times> kernel) res"
    using cprintf_returns [OF assms(2), of fmt args] by (auto simp: env_destroy_def env_free_def)
  then show ?thesis
    using assms(1) by (simp add: sys_env_destroy_def envid2env_def Let_def E_BAD_ENV_def)
qed

theorem sys_env_destroy_never_returns_witness:
  "sys_env_destroy 0x1000 running_example = Inl (Panic ''env_free function is not completed yet'') \<and>
   sys_env_destroy 7 running_example = Inl Null_deref"
proof -
  have "has_nul (bytes running_example)" by (simp add: has_nul_def)
  from sys_env_destroy_never_returns [OF running_example_simps(1) this, of "0x1000"]
    sys_env_destroy_never_returns [OF running_example_simps(1) this, of 7]
  show ?thesis by (simp add: ENVX_def Let_def)
qed

end
