(* ===== verification/FOS_Trap.thy ===== *)
theory FOS_Trap
  imports FOS_Syscall
begin

text \<open>
  Traps: \<^verbatim>\<open>kern/trap.c\<close>, and the way a user program makes a system call, \<^verbatim>\<open>lib/syscall.c\<close>. The processor's
  part (\<^verbatim>\<open>int\<close>, \<^verbatim>\<open>iret\<close> and the pushes of \<^verbatim>\<open>kern/trapentry.S\<close>) is the trap frame that \<^verbatim>\<open>trap\<close> gets and the one
  that \<^verbatim>\<open>env_run\<close> loads.
\<close>

section \<open>Trap numbers and tables\<close>

definition T_DIVIDE :: u32 where [simp]: "T_DIVIDE = 0"
definition T_BRKPT :: u32 where [simp]: "T_BRKPT = 3"
definition T_DBLFLT :: u32 where [simp]: "T_DBLFLT = 8"
definition T_TSS :: u32 where [simp]: "T_TSS = 10"
definition T_SEGNP :: u32 where [simp]: "T_SEGNP = 11"
definition T_STACK :: u32 where [simp]: "T_STACK = 12"
definition T_GPFLT :: u32 where [simp]: "T_GPFLT = 13"
definition T_PGFLT :: u32 where [simp]: "T_PGFLT = 14"
definition T_SYSCALL :: u32 where [simp]: "T_SYSCALL = 48"

definition excnames :: "string list" where
  "excnames = [''Divide error'', ''Debug'', ''Non-Maskable Interrupt'', ''Breakpoint'', ''Overflow'',
    ''BOUND Range Exceeded'', ''Invalid Opcode'', ''Device Not Available'', ''Double Falt'',
    ''Coprocessor Segment Overrun'', ''Invalid TSS'', ''Segment Not Present'', ''Stack Fault'',
    ''General Protection'', ''Page Fault'', ''(unknown trap)'', ''x87 FPU Floating-Point Error'',
    ''Alignment Check'', ''Machine-Check'', ''SIMD Floating-Point Exception'']"

text \<open>The comparison with the size of the table is unsigned.\<close>

definition trapname :: "u32 \<Rightarrow> string" where
  "trapname trapno =
    (if unat trapno < length excnames then excnames ! unat trapno
     else if trapno = T_SYSCALL then ''System call'' else ''(unknown trap)'')"

text \<open>The tables of the processor: the gates, the descriptors, the task state, and the two registers.\<close>

record trap_tables =
  idt :: "u32 \<Rightarrow> Gatedesc"
  gdt :: "u16 \<Rightarrow> Segdesc"
  task_state :: Taskstate
  task_register :: u16
  idt_loaded :: bool

definition ltr :: "u16 \<Rightarrow> trap_tables \<Rightarrow> trap_tables" where [simp]:
  "ltr sel s = s\<lparr>task_register := sel\<rparr>"

definition idt_init :: "u32 \<Rightarrow> u32 \<Rightarrow> u32 \<Rightarrow> u32 \<Rightarrow> trap_tables \<Rightarrow> trap_tables" where
  "idt_init PAGE_FAULT SYSCALL_HANDLER ts sizeof_ts s =
    (let s = s\<lparr>idt := (idt s)(T_PGFLT := SETGATE False GD_KT PAGE_FAULT 0)\<rparr>;
         s = s\<lparr>idt := (idt s)(T_SYSCALL := SETGATE False GD_KT SYSCALL_HANDLER 3)\<rparr>;
         s = s\<lparr>task_state := (task_state s)\<lparr>ts_esp0 := KERNEL_STACK_TOP\<rparr>\<rparr>;
         s = s\<lparr>task_state := (task_state s)\<lparr>ts_ss0 := GD_KD\<rparr>\<rparr>;
         s = s\<lparr>gdt := (gdt s)(drop_bit 3 GD_TSS := SEG16 STS_T32A ts sizeof_ts 0)\<rparr>;
         s = s\<lparr>gdt := (gdt s)(drop_bit 3 GD_TSS := (gdt s (drop_bit 3 GD_TSS))\<lparr>sd_s := 0\<rparr>)\<rparr>;
         s = ltr GD_TSS s
     in s\<lparr>idt_loaded := True\<rparr>)"

section \<open>Printing a frame\<close>

text \<open>A list of calls of \<^verbatim>\<open>cprintf\<close> with one format and its arguments each.\<close>

fun cprintf_all :: "(string \<times> u32 list) list \<Rightarrow> kernel \<Rightarrow> kernel res" where
  "cprintf_all [] s = Inr s"
| "cprintf_all ((fmt, args) # ls) s = bind_res (cprintf (fmt @ [CHR 0x0A]) args s) (cprintf_all ls)"

definition print_regs :: "PushRegs \<Rightarrow> kernel \<Rightarrow> kernel res" where
  "print_regs regs = cprintf_all
    [(''  edi  0x%08x'', [reg_edi regs]), (''  esi  0x%08x'', [reg_esi regs]),
     (''  ebp  0x%08x'', [reg_ebp regs]), (''  oesp 0x%08x'', [reg_oesp regs]),
     (''  ebx  0x%08x'', [reg_ebx regs]), (''  edx  0x%08x'', [reg_edx regs]),
     (''  ecx  0x%08x'', [reg_ecx regs]), (''  eax  0x%08x'', [reg_eax regs])]"

text \<open>
  A \<^verbatim>\<open>struct Trapframe *\<close>: the frame on the kernel stack, with its address, or the one saved in an
  environment, which is the first field of the structure. \<open>lit\<close> gives the address of a string literal.
\<close>

datatype frame = On_stack u32 Trapframe | Saved u32

fun read_frame :: "frame \<Rightarrow> kernel \<Rightarrow> Trapframe" where
  "read_frame (On_stack a tf) s = tf"
| "read_frame (Saved e) s = env_tf (envs s e)"

fun frame_address :: "frame \<Rightarrow> kernel \<Rightarrow> u32" where
  "frame_address (On_stack a tf) s = a"
| "frame_address (Saved e) s = envs_base s + 100 * e"

definition set_eax :: "u32 \<Rightarrow> Trapframe \<Rightarrow> Trapframe" where
  "set_eax v tf = tf\<lparr>tf_regs := (tf_regs tf)\<lparr>reg_eax := v\<rparr>\<rparr>"

fun write_eax :: "frame \<Rightarrow> u32 \<Rightarrow> kernel \<Rightarrow> frame \<times> kernel" where
  "write_eax (On_stack a tf) v s = (On_stack a (set_eax v tf), s)"
| "write_eax (Saved e) v s = (Saved e, update_env e (\<lambda>en. en\<lparr>env_tf := set_eax v (env_tf en)\<rparr>) s)"

definition print_trapframe :: "(string \<Rightarrow> u32) \<Rightarrow> frame \<Rightarrow> kernel \<Rightarrow> kernel res" where
  "print_trapframe lit p s =
    (let tf = read_frame p s
     in bind_res (cprintf_all [(''TRAP frame at %p'', [frame_address p s])] s) (\<lambda>s.
        bind_res (print_regs (tf_regs tf) s) (cprintf_all
          [(''  es   0x----%04x'', [ucast (tf_es tf)]), (''  ds   0x----%04x'', [ucast (tf_ds tf)]),
           (''  trap 0x%08x %s'', [tf_trapno tf, lit (trapname (tf_trapno tf))]),
           (''  err  0x%08x'', [tf_err tf]), (''  eip  0x%08x'', [tf_eip tf]),
           (''  cs   0x----%04x'', [ucast (tf_cs tf)]), (''  flag 0x%08x'', [tf_eflags tf]),
           (''  esp  0x%08x'', [tf_esp tf]), (''  ss   0x----%04x'', [ucast (tf_ss tf)])])))"

section \<open>Dispatching\<close>

definition page_fault_handler :: "(string \<Rightarrow> u32) \<Rightarrow> frame \<Rightarrow> kernel \<Rightarrow> kernel res" where
  "page_fault_handler lit p s =
    (let fault_va = rcr2 s
     in case curenv s of
          None \<Rightarrow> Inl Null_deref
        | Some e \<Rightarrow>
            bind_res (cprintf (''[%08x] user fault va %08x ip %08x'' @ [CHR 0x0A])
              [env_id (envs s e), fault_va, tf_eip (read_frame p s)] s) (\<lambda>s.
            bind_res (print_trapframe lit p s) (\<lambda>s. env_destroy (curenv s) s)))"

definition trap_dispatch :: "(string \<Rightarrow> u32) \<Rightarrow> frame \<Rightarrow> kernel \<Rightarrow> frame outcome" where
  "trap_dispatch lit p s =
    (let tf = read_frame p s
     in if tf_trapno tf = T_PGFLT then
          returning (bind_res (page_fault_handler lit p s) (\<lambda>s. Inr (p, s)))
        else if tf_trapno tf = T_SYSCALL then
          and_then (syscall (reg_eax (tf_regs tf)) (reg_edx (tf_regs tf)) (reg_ecx (tf_regs tf))
              (reg_ebx (tf_regs tf)) (reg_edi (tf_regs tf)) (reg_esi (tf_regs tf)) s)
            (\<lambda>ret s. case write_eax p ret s of (p, s) \<Rightarrow> Returned p s)
        else returning (bind_res (print_trapframe lit p s) (\<lambda>s.
          if tf_cs tf = GD_KT then Inl (Panic ''unhandled trap in kernel'')
          else bind_res (env_destroy (curenv s) s) (\<lambda>s. Inr (p, s)))))"

definition trap :: "(string \<Rightarrow> u32) \<Rightarrow> u32 \<Rightarrow> Trapframe \<Rightarrow> kernel \<Rightarrow> unit outcome" where
  "trap lit a tf s =
    and_then
      (if tf_cs tf AND 3 = 3 then
         (case curenv s of
            None \<Rightarrow> Stopped (Assert_failed 157)
          | Some e \<Rightarrow> Returned (Saved e) (update_env e (\<lambda>en. en\<lparr>env_tf := tf\<rparr>) s))
       else Returned (On_stack a tf) s)
      (\<lambda>p s. and_then (trap_dispatch lit p s) (\<lambda>p s.
        case curenv s of
          None \<Rightarrow> Stopped (Assert_failed 167)
        | Some e \<Rightarrow>
            if env_status (envs s e) = ENV_RUNNABLE
            then (case env_run e s of (tf, s) \<Rightarrow> Entered_user tf s)
            else Stopped (Assert_failed 167)))"

section \<open>System calls of user programs\<close>

text \<open>
  \<^verbatim>\<open>int\<close> with the number and the arguments in the registers: the frame \<open>tf\<close> holds what else the program has
  in its registers; the result is \<^verbatim>\<open>eax\<close> when the program goes on.
\<close>

definition call_frame :: "u32 \<Rightarrow> u32 \<Rightarrow> u32 \<Rightarrow> u32 \<Rightarrow> u32 \<Rightarrow> u32 \<Rightarrow> Trapframe \<Rightarrow> Trapframe" where
  "call_frame num a1 a2 a3 a4 a5 tf =
    tf\<lparr>tf_trapno := T_SYSCALL, tf_err := 0, tf_regs := (tf_regs tf)\<lparr>reg_eax := num, reg_edx := a1, reg_ecx := a2,
      reg_ebx := a3, reg_edi := a4, reg_esi := a5\<rparr>\<rparr>"

definition user_syscall :: "(string \<Rightarrow> u32) \<Rightarrow> u32 \<Rightarrow> Trapframe \<Rightarrow>
    u32 \<Rightarrow> u32 \<Rightarrow> u32 \<Rightarrow> u32 \<Rightarrow> u32 \<Rightarrow> u32 \<Rightarrow> kernel \<Rightarrow> u32 outcome" where
  "user_syscall lit a tf num a1 a2 a3 a4 a5 s =
    (case trap lit a (call_frame num a1 a2 a3 a4 a5 tf) s of
       Entered_user tf s \<Rightarrow> Returned (reg_eax (tf_regs tf)) s
     | Returned _ s \<Rightarrow> Returned num s
     | Entered_prompt s \<Rightarrow> Entered_prompt s
     | Stopped e \<Rightarrow> Stopped e)"

text \<open>The functions of \<^verbatim>\<open>lib/syscall.c\<close>, for the system call \<open>call\<close> of the program that runs.\<close>

type_synonym call = "u32 \<Rightarrow> u32 \<Rightarrow> u32 \<Rightarrow> u32 \<Rightarrow> u32 \<Rightarrow> u32 \<Rightarrow> kernel \<Rightarrow> u32 outcome"

definition lib_sys_cputs :: "call \<Rightarrow> u32 \<Rightarrow> u32 \<Rightarrow> kernel \<Rightarrow> u32 outcome" where
  "lib_sys_cputs call str len = call SYS_cputs str len 0 0 0"

definition lib_sys_cgetc :: "call \<Rightarrow> kernel \<Rightarrow> u32 outcome" where
  "lib_sys_cgetc call = call SYS_cgetc 0 0 0 0 0"

definition lib_sys_env_destroy :: "call \<Rightarrow> u32 \<Rightarrow> kernel \<Rightarrow> u32 outcome" where
  "lib_sys_env_destroy call envid = call SYS_env_destroy envid 0 0 0 0"

definition lib_sys_getenvid :: "call \<Rightarrow> kernel \<Rightarrow> u32 outcome" where
  "lib_sys_getenvid call = call SYS_getenvid 0 0 0 0 0"

definition lib_sys_env_sleep :: "call \<Rightarrow> kernel \<Rightarrow> u32 outcome" where
  "lib_sys_env_sleep call = call SYS_env_sleep 0 0 0 0 0"

definition lib_sys_allocate_page :: "call \<Rightarrow> u32 \<Rightarrow> u32 \<Rightarrow> kernel \<Rightarrow> u32 outcome" where
  "lib_sys_allocate_page call va perm = call SYS_allocate_page va perm 0 0 0"

definition lib_sys_get_page :: "call \<Rightarrow> u32 \<Rightarrow> u32 \<Rightarrow> kernel \<Rightarrow> u32 outcome" where
  "lib_sys_get_page call va perm = call SYS_get_page va perm 0 0 0"

definition lib_sys_map_frame :: "call \<Rightarrow> u32 \<Rightarrow> u32 \<Rightarrow> u32 \<Rightarrow> u32 \<Rightarrow> u32 \<Rightarrow> kernel \<Rightarrow> u32 outcome" where
  "lib_sys_map_frame call srcenv srcva dstenv dstva perm = call SYS_map_frame srcenv srcva dstenv dstva perm"

definition lib_sys_unmap_frame :: "call \<Rightarrow> u32 \<Rightarrow> u32 \<Rightarrow> kernel \<Rightarrow> u32 outcome" where
  "lib_sys_unmap_frame call envid va = call SYS_unmap_frame envid va 0 0 0"

definition lib_sys_calculate_required_frames :: "call \<Rightarrow> u32 \<Rightarrow> u32 \<Rightarrow> kernel \<Rightarrow> u32 outcome" where
  "lib_sys_calculate_required_frames call start_virtual_address sz =
    call SYS_calc_req_frames start_virtual_address sz 0 0 0"

definition lib_sys_calculate_free_frames :: "call \<Rightarrow> kernel \<Rightarrow> u32 outcome" where
  "lib_sys_calculate_free_frames call = call SYS_calc_free_frames 0 0 0 0 0"

definition lib_sys_freeMem :: "call \<Rightarrow> u32 \<Rightarrow> u32 \<Rightarrow> kernel \<Rightarrow> u32 outcome" where
  "lib_sys_freeMem call start_virtual_address sz = call SYS_freeMem start_virtual_address sz 0 0 0"

section \<open>What a system call keeps\<close>

lemma returning_Returned [simp]: "returning r = Returned x t \<longleftrightarrow> r = Inr (x, t)"
  by (cases r) auto

lemma zero_after_Returned [simp]: "zero_after r = Returned x t \<longleftrightarrow> x = 0 \<and> r = Inr t"
  by (cases r) (auto simp: zero_after_def)

lemma drop_result_Inr [simp]: "drop_result r = Inr t \<longleftrightarrow> (\<exists>x. r = Inr (x, t))"
  by (cases r) (auto simp: drop_result_def)

lemma cprintf_keeps: "cprintf fmt args s = Inr t \<Longrightarrow> curenv t = curenv s \<and> envs t = envs s"
  by (auto simp: cprintf_def bind_res_Inr_iff)

lemma sys_allocate_page_keeps:
  "sys_allocate_page va perm s = Inr (r, t) \<Longrightarrow> curenv t = curenv s \<and> envs t = envs s"
  by (auto simp: sys_allocate_page_def on_mm_def bind_res_Inr_iff Let_def split: if_splits option.splits)

text \<open>No system call that returns changes the environments or which of them runs.\<close>

lemma syscall_keeps:
  assumes "syscall n a1 a2 a3 a4 a5 s = Returned r t"
  shows "curenv t = curenv s" "envs t = envs s"
proof -
  have "sys_env_sleep s \<noteq> Returned (x :: unit) u" for x u
    by (simp add: sys_env_sleep_def split: sum.split)
  then have sl: "and_then (sys_env_sleep s) (\<lambda>(x :: unit) s. Returned 0 s) \<noteq> Returned r t"
    by (cases "sys_env_sleep s :: unit outcome") auto
  have "curenv t = curenv s \<and> envs t = envs s"
    using assms sl
    by (auto simp: syscall_def sys_cputs_def sys_cgetc_def sys_getenvid_def sys_env_destroy_def env_destroy_def
        env_free_def sys_calculate_required_frames_def calculate_required_frames_def
        sys_calculate_free_frames_def sys_freeMem_def freeMem_def sys_get_page_def get_page_def
        sys_map_frame_def sys_unmap_frame_def bind_res_Inr_iff
        dest: cprintf_keeps sys_allocate_page_keeps split: if_splits option.splits)
  then show "curenv t = curenv s" "envs t = envs s" by simp_all
qed

definition save_frame :: "u32 \<Rightarrow> Trapframe \<Rightarrow> kernel \<Rightarrow> kernel" where
  "save_frame e tf = update_env e (\<lambda>en. en\<lparr>env_tf := tf\<rparr>)"

lemma save_frame_simps [simp]:
  "curenv (save_frame e tf s) = curenv s" "mm (save_frame e tf s) = mm s" "bytes (save_frame e tf s) = bytes s"
  "con (save_frame e tf s) = con s" "cr3 (save_frame e tf s) = cr3 s"
  "env_tf (envs (save_frame e tf s) e) = tf" "env_id (envs (save_frame e tf s) i) = env_id (envs s i)"
  "env_status (envs (save_frame e tf s) i) = env_status (envs s i)"
  "env_runs (envs (save_frame e tf s) i) = env_runs (envs s i)"
  "env_pgdir (envs (save_frame e tf s) i) = env_pgdir (envs s i)"
  by (simp_all add: save_frame_def update_env_def)

lemma trap_system_call:
  assumes "curenv s = Some e" "env_status (envs s e) = ENV_RUNNABLE" "tf_cs tf AND 3 = 3" "tf_trapno tf = T_SYSCALL"
  shows "trap lit a tf s =
    (case syscall (reg_eax (tf_regs tf)) (reg_edx (tf_regs tf)) (reg_ecx (tf_regs tf)) (reg_ebx (tf_regs tf))
        (reg_edi (tf_regs tf)) (reg_esi (tf_regs tf)) (save_frame e tf s) of
       Returned r t \<Rightarrow> Entered_user (set_eax r tf) (save_frame e (set_eax r tf) t)
     | Entered_user tf' t \<Rightarrow> Entered_user tf' t
     | Entered_prompt t \<Rightarrow> Entered_prompt t
     | Stopped x \<Rightarrow> Stopped x)"
proof -
  let ?k = "save_frame e tf s"
  let ?call = "syscall (reg_eax (tf_regs tf)) (reg_edx (tf_regs tf)) (reg_ecx (tf_regs tf)) (reg_ebx (tf_regs tf))
        (reg_edi (tf_regs tf)) (reg_esi (tf_regs tf)) ?k"
  have k: "update_env e (\<lambda>en. en\<lparr>env_tf := tf\<rparr>) s = ?k" by (simp add: save_frame_def)
  have d: "trap_dispatch lit (Saved e) ?k = and_then ?call (\<lambda>ret s. case write_eax (Saved e) ret s of (p, s) \<Rightarrow> Returned p s)"
    by (simp add: trap_dispatch_def assms(4) Let_def)
  show ?thesis
  proof (cases ?call)
    case (Returned r t)
    note kept = syscall_keeps [OF Returned]
    have w: "write_eax (Saved e) r t = (Saved e, save_frame e (set_eax r tf) t)"
      using arg_cong [OF kept(2), of "\<lambda>f. env_tf (f e)"] by (simp add: save_frame_def update_env_def kept(2))
    have "curenv t = Some e" "env_status (envs t e) = ENV_RUNNABLE" using kept assms(1,2) by simp_all
    then show ?thesis using assms(1,3) by (simp add: trap_def k d Returned w env_run_def del: write_eax.simps)
  qed (use assms(1,3) in \<open>simp_all add: trap_def k d\<close>)
qed

lemma no_user_mode:
  "returning r \<noteq> Entered_user tf t" "zero_after q \<noteq> Entered_user tf t"
  "and_then (sys_env_sleep s) (\<lambda>(x :: unit) s. Returned 0 s) \<noteq> Entered_user tf t"
  by (auto simp: returning_def zero_after_def sys_env_sleep_def split: sum.split)

lemma if_other: "x \<noteq> z \<Longrightarrow> y \<noteq> z \<Longrightarrow> (if b then x else y) \<noteq> z"
  by simp

lemma syscall_not_user: "syscall n a1 a2 a3 a4 a5 s \<noteq> Entered_user tf t"
  unfolding syscall_def by (intro if_other no_user_mode) simp_all

text \<open>
  C10: a system call resumes the program that made it. For the environment that runs, a trap of
  the system call from user mode runs the call with the six registers, with the frame of the program saved. If the
  call returns, the program goes on with exactly the frame it trapped with, except that \<^verbatim>\<open>eax\<close> is
  the result; the environment is still the current one and is not counted as run again, and the address space is
  not switched. If the call does not return, neither does the trap.
\<close>

theorem system_call_resumes:
  assumes "curenv s = Some e" "env_status (envs s e) = ENV_RUNNABLE" "tf_cs tf AND 3 = 3" "tf_trapno tf = T_SYSCALL"
  shows "case syscall (reg_eax (tf_regs tf)) (reg_edx (tf_regs tf)) (reg_ecx (tf_regs tf)) (reg_ebx (tf_regs tf))
        (reg_edi (tf_regs tf)) (reg_esi (tf_regs tf)) (save_frame e tf s) of
      Returned r t \<Rightarrow> (\<exists>u. trap lit a tf s = Entered_user (set_eax r tf) u \<and> curenv u = Some e \<and>
        env_tf (envs u e) = set_eax r tf \<and> env_runs (envs u e) = env_runs (envs s e) \<and> cr3 u = cr3 t \<and> mm u = mm t)
    | Entered_user tf' t \<Rightarrow> False
    | Entered_prompt t \<Rightarrow> trap lit a tf s = Entered_prompt t
    | Stopped x \<Rightarrow> trap lit a tf s = Stopped x"
proof -
  note T = trap_system_call [OF assms, of lit a]
  show ?thesis
  proof (cases "syscall (reg_eax (tf_regs tf)) (reg_edx (tf_regs tf)) (reg_ecx (tf_regs tf)) (reg_ebx (tf_regs tf))
        (reg_edi (tf_regs tf)) (reg_esi (tf_regs tf)) (save_frame e tf s)")
    case (Returned r t)
    then show ?thesis using T syscall_keeps [OF Returned] assms(1) by simp
  qed (use T syscall_not_user in \<open>auto\<close>)
qed

text \<open>A program of environment 0 that asks for its identifier; nothing else is in its registers.\<close>

definition call_example :: Trapframe where
  "call_example = call_frame SYS_getenvid 0 0 0 0 0 (initial_trapframe\<lparr>tf_eip := 0x800020\<rparr>)"

lemma call_example_simps [simp]:
  "tf_cs call_example = 0x1B" "tf_trapno call_example = 48" "reg_eax (tf_regs call_example) = 2" "tf_eip call_example = 0x800020"
  by (simp_all add: call_example_def call_frame_def initial_trapframe_def)

theorem system_call_resumes_witness:
  "\<exists>u. trap (\<lambda>_. 0) 0 call_example running_example = Entered_user (set_eax 0x1000 call_example) u \<and> curenv u = Some 0"
proof -
  have "env_status (envs running_example 0) = ENV_RUNNABLE" "tf_cs call_example AND 3 = 3" "tf_trapno call_example = T_SYSCALL"
    by simp_all
  from system_call_resumes [OF running_example_simps(1) this, of "\<lambda>_. 0" 0]
  show ?thesis by (auto simp: syscall_def sys_getenvid_def)
qed

lemma cprintf_all_returns:
  "has_nul (bytes s) \<Longrightarrow> \<exists>c. cprintf_all ls s = Inr (s\<lparr>con := c\<rparr>)"
proof (induction ls arbitrary: s)
  case Nil
  show ?case by (rule exI [of _ "con s"]) simp
next
  case (Cons l ls)
  obtain fmt args where l: "l = (fmt, args)" by (cases l)
  obtain c where c: "cprintf (fmt @ [CHR 0x0A]) args s = Inr (s\<lparr>con := c\<rparr>)"
    using cprintf_returns [OF Cons.prems] by blast
  from Cons.IH [of "s\<lparr>con := c\<rparr>"] Cons.prems show ?case by (auto simp: l c)
qed

lemma print_trapframe_returns:
  assumes "has_nul (bytes s)"
  obtains c where "print_trapframe lit p s = Inr (s\<lparr>con := c\<rparr>)"
proof -
  have all: "\<exists>c. cprintf_all ls (s\<lparr>con := d\<rparr>) = Inr (s\<lparr>con := c\<rparr>)" for ls d
    using cprintf_all_returns [of "s\<lparr>con := d\<rparr>" ls] assms by simp
  obtain c1 where 1: "cprintf_all [(''TRAP frame at %p'', [frame_address p s])] s = Inr (s\<lparr>con := c1\<rparr>)"
    using cprintf_all_returns [OF assms] by blast
  obtain c2 where 2: "print_regs (tf_regs (read_frame p s)) (s\<lparr>con := c1\<rparr>) = Inr (s\<lparr>con := c2\<rparr>)"
    unfolding print_regs_def using all by blast
  show thesis
    using that all [of _ c2] unfolding print_trapframe_def Let_def 1 2 bind_res_simps by blast
qed

lemma other_trap_stops:
  assumes "has_nul (bytes s)" "tf_trapno tf \<noteq> T_SYSCALL"
  shows "trap lit a tf s = Stopped
    (if tf_cs tf AND 3 = 3 \<and> curenv s = None then Assert_failed 157
     else if tf_trapno tf = T_PGFLT \<and> curenv s = None then Null_deref
     else if tf_trapno tf \<noteq> T_PGFLT \<and> tf_cs tf = GD_KT then Panic ''unhandled trap in kernel''
     else Panic ''env_free function is not completed yet'')"
proof -
  have P: "\<exists>c. print_trapframe lit p t = Inr (t\<lparr>con := c\<rparr>)" if "has_nul (bytes t)" for p t
    using print_trapframe_returns [OF that] by blast
  have F: "page_fault_handler lit p t = Inl (if curenv t = None then Null_deref
      else Panic ''env_free function is not completed yet'')" if t: "has_nul (bytes t)" for p t
  proof (cases "curenv t")
    case (Some e)
    obtain c where c: "cprintf (''[%08x] user fault va %08x ip %08x'' @ [CHR 0x0A])
        [env_id (envs t e), cr2 t, tf_eip (read_frame p t)] t = Inr (t\<lparr>con := c\<rparr>)"
      using cprintf_returns [OF t] by blast
    from P [of "t\<lparr>con := c\<rparr>" p] t obtain d where "print_trapframe lit p (t\<lparr>con := c\<rparr>) = Inr (t\<lparr>con := d\<rparr>)" by auto
    then show ?thesis using Some c by (simp add: page_fault_handler_def env_destroy_def env_free_def)
  qed (simp add: page_fault_handler_def)
  have D: "trap_dispatch lit p t = Stopped (if tf_trapno tf = T_PGFLT \<and> curenv t = None then Null_deref
      else if tf_trapno tf \<noteq> T_PGFLT \<and> tf_cs tf = GD_KT then Panic ''unhandled trap in kernel''
      else Panic ''env_free function is not completed yet'')"
    if t: "has_nul (bytes t)" "read_frame p t = tf" for p t
    using P [OF t(1), of p] F [OF t(1), of p] assms(2)
    by (auto simp: trap_dispatch_def t(2) Let_def env_destroy_def env_free_def)
  show ?thesis
  proof (cases "tf_cs tf AND 3 = 3")
    case True
    show ?thesis
    proof (cases "curenv s")
      case (Some e)
      have "has_nul (bytes (save_frame e tf s))" "read_frame (Saved e) (save_frame e tf s) = tf" using assms(1) by simp_all
      from D [OF this] show ?thesis using True Some by (simp add: trap_def save_frame_def [symmetric])
    qed (use True in \<open>simp add: trap_def\<close>)
  next
    case False
    have "read_frame (On_stack a tf) s = tf" by simp
    from D [OF assms(1) this] show ?thesis using False by (simp add: trap_def)
  qed
qed



section \<open>The calls as a program sees them\<close>

lemma user_syscall_eq:
  assumes "curenv s = Some e" "env_status (envs s e) = ENV_RUNNABLE" "tf_cs tf AND 3 = 3"
  shows "user_syscall lit a tf num a1 a2 a3 a4 a5 s =
    (let fr = call_frame num a1 a2 a3 a4 a5 tf
     in case syscall num a1 a2 a3 a4 a5 (save_frame e fr s) of
          Returned r t \<Rightarrow> Returned r (save_frame e (set_eax r fr) t)
        | Entered_user tf' t \<Rightarrow> Returned (reg_eax (tf_regs tf')) t
        | Entered_prompt t \<Rightarrow> Entered_prompt t
        | Stopped x \<Rightarrow> Stopped x)"
  using trap_system_call [of s e "call_frame num a1 a2 a3 a4 a5 tf" lit a] assms
  by (simp add: user_syscall_def call_frame_def set_eax_def Let_def split: outcome.split)



section \<open>The gates\<close>


end
