(* ===== verification/FOS_Protection.thy ===== *)
theory FOS_Protection
  imports FOS_Boot FOS_Trap
begin

text \<open>
  What the processor does with the tables the kernel sets up: how an address is translated while \<^verbatim>\<open>turn_on_paging\<close>
  switches from segmentation to paging, and what a program can do with the segments and gates it is given.
\<close>

section \<open>Address translation\<close>

text \<open>The walk over the two levels of a directory in frame \<open>F\<close>, and the translation of an offset in a segment.\<close>

definition walk :: "u32 \<Rightarrow> mm_state \<Rightarrow> u32 \<Rightarrow> u32 option" where
  "walk F m la =
    (let e = pde m F (PDX la) in
     if e AND PERM_PRESENT = 0 then None
     else let p = word_at m (PPN e) (PTX la) in
       if p AND PERM_PRESENT = 0 then None else Some (push_bit 12 (PPN p) OR PGOFF la))"

definition physical_address :: "kernel \<Rightarrow> u32 \<Rightarrow> u32 option" where
  "physical_address s la = (if cr0 s AND CR0_PG = 0 then Some la else walk (PPN (cr3 s)) (mm s) la)"

definition translate :: "(segments \<Rightarrow> segreg) \<Rightarrow> kernel \<Rightarrow> u32 \<Rightarrow> u32 option" where
  "translate r s va = physical_address s (linear_address (r (segment_regs s)) va)"

lemma low_address:
  assumes "x < (0x400000 :: u32)"
  shows "PDX x = 0" "PDX (KERNEL_BASE + x) = 960" "PTX (KERNEL_BASE + x) = PTX x" "PGOFF (KERNEL_BASE + x) = PGOFF x"
    "push_bit 12 (PTX x) OR PGOFF x = x"
proof -
  have x: "unat x < 4194304" using assms by (simp add: word_less_nat_alt)
  then have h: "unat (KERNEL_BASE + x) = 4026531840 + unat x" by (simp add: unat_word_ariths)
  show "PDX x = 0" using x by (simp add: word_unat_eq_iff unat_PDX)
  show "PDX (KERNEL_BASE + x) = 960" unfolding word_unat_eq_iff unat_PDX h using x by simp
  have "(4026531840 + unat x) div 4096 = 983040 + unat x div 4096"
    using div_mult_self2 [of 4096 "unat x" 983040] by simp
  moreover have "(983040 + unat x div 4096) mod 1024 = unat x div 4096 mod 1024"
    using mod_mult_self3 [of 960 1024 "unat x div 4096"] by simp
  ultimately show "PTX (KERNEL_BASE + x) = PTX x" unfolding word_unat_eq_iff unat_PTX h by simp
  show "PGOFF (KERNEL_BASE + x) = PGOFF x" unfolding word_unat_eq_iff unat_PGOFF h
    using mod_mult_self3 [of 983040 4096 "unat x"] by simp
  have "unat (PGADDR 0 (PTX x) (PGOFF x)) = unat x"
    using x by (simp add: unat_PGADDR unat_PTX unat_PGOFF less_mult_imp_div_less div_mult_mod_eq)
  then have "PGADDR 0 (PTX x) (PGOFF x) = x" by (simp only: word_unat_eq_iff)
  then show "push_bit 12 (PTX x) OR PGOFF x = x" by (simp add: PGADDR_def)
qed

lemma walk_store_low:
  assumes "F < 0x10000" "PPN (pde m F 960) < 0x10000" "PPN (pde m F 960) \<noteq> F" "x < 0x400000"
  shows "walk F (store_word (kva F) v m) (KERNEL_BASE + x) = walk F m (KERNEL_BASE + x)"
    "v = pde m F 960 \<Longrightarrow> walk F (store_word (kva F) v m) x = walk F m (KERNEL_BASE + x)"
    "v = 0 \<Longrightarrow> walk F (store_word (kva F) v m) x = None"
proof -
  have "word_at (store_word (kva F) v m) g j = (if F = g \<and> j = 0 then v else word_at m g j)"
    if "g < 0x10000" "j < 1024" for g j using word_at_store [of F g 0 j v m] assms(1) that by simp
  note w = this [OF assms(1)] this [OF assms(2) PTX_less]
  show "walk F (store_word (kva F) v m) (KERNEL_BASE + x) = walk F m (KERNEL_BASE + x)"
    "v = pde m F 960 \<Longrightarrow> walk F (store_word (kva F) v m) x = walk F m (KERNEL_BASE + x)"
    "v = 0 \<Longrightarrow> walk F (store_word (kva F) v m) x = None"
    using w assms(3) by (simp_all add: walk_def pde_def Let_def low_address [OF assms(4)] del: KERNEL_BASE_def)
qed

lemma mapped_walk:
  assumes "mapped F m KERNEL_BASE 0 0x10000" "boot_inv F m" "x < 0x400000"
  shows "walk F m (KERNEL_BASE + x) = Some x" "PPN (pde m F 960) < 0x10000" "PPN (pde m F 960) \<noteq> F"
proof -
  let ?y = "push_bit 12 (PTX x)" and ?e = "pte m F 960 (PTX x)"
  have x: "unat x < 4194304" using assms(3) by (simp add: word_less_nat_alt)
  have t: "unat (PTX x) < 1024" using PTX_less [of x] by (simp add: word_less_nat_alt)
  have y: "page_at KERNEL_BASE (unat (PTX x)) = KERNEL_BASE + ?y" "page_at 0 (unat (PTX x)) = ?y"
    by (simp_all add: page_at_def push_bit_eq_mult)
  have u: "unat ?y = 4096 * unat (PTX x)" using t by (simp add: unat_push_bit)
  then have yl: "?y < 0x400000" using t by (simp add: word_less_nat_alt)
  have p: "PTX ?y = PTX x" using t by (simp add: word_unat_eq_iff unat_PTX u)
  have "unat (PTX x) < 0x10000" using t by simp
  from assms(1) [unfolded mapped_def, rule_format, OF this]
  have c: "check_va2pa (kva F) (KERNEL_BASE + ?y) m = Inr ?y" unfolding y .
  have n: "\<not> self_map (PDX (KERNEL_BASE + ?y))" unfolding low_address(2) [OF yl] by (simp add: self_map_def)
  have "Inr (if ?e AND 1 = 0 then NOT 0 else EXTRACT_ADDRESS ?e) = (Inr ?y :: u32 res)"
    using check_va2pa_boot [OF assms(2) n] unfolding c low_address(2,3) [OF yl] p by (rule sym)
  then have e: "(if ?e AND 1 = 0 then NOT 0 else EXTRACT_ADDRESS ?e) = ?y" by (simp only: sum.inject)
  have "?y \<noteq> NOT 0" using u t by (auto simp: word_unat_eq_iff unsigned_minus_1_eq_mask mask_eq_exp_minus_1)
  with e have v: "?e AND 1 \<noteq> 0" "push_bit 12 (PPN ?e) = ?y" by (auto split: if_splits simp: EXTRACT_ADDRESS_PPN)
  then have d: "pde m F 960 \<noteq> 0" by (auto simp: pte_def)
  have "(960 :: u32) < 1024" "\<not> self_map 960" by (simp_all add: self_map_def)
  note b = boot_inv_table [OF assms(2) this d]
  show "PPN (pde m F 960) < 0x10000" "PPN (pde m F 960) \<noteq> F" by (rule b)+
  show "walk F m (KERNEL_BASE + x) = Some x"
    using v b(1) low_address(5) [OF assms(3)] unfolding walk_def low_address(2-4) [OF assms(3)]
    by (simp add: pte_def d Let_def)
qed

section \<open>The switch to paging\<close>

text \<open>The state after the first \<open>k\<close> steps of \<^verbatim>\<open>turn_on_paging\<close>.\<close>

definition paging_state :: "nat \<Rightarrow> kernel \<Rightarrow> kernel" where
  "paging_state k s = fold paging_exec (take k turn_on_paging_steps) s"

definition step_allowed :: "paging_step \<Rightarrow> kernel \<Rightarrow> bool" where
  "step_allowed p s = (case p of Segment i \<Rightarrow> seg_allowed i (segment_regs s) | _ \<Rightarrow> cpl (segment_regs s) = 0)"

text \<open>Code, data and stack of the kernel are where they were linked.\<close>

definition kernel_reached :: "kernel \<Rightarrow> bool" where
  "kernel_reached s \<longleftrightarrow> (\<forall>x < 0x400000. \<forall>r \<in> {seg_cs, seg_ds, seg_es, seg_ss}. translate r s (KERNEL_BASE + x) = Some x)"

text \<open>The three ways the kernel is reached: before paging, through the low mapping, and through the high one.\<close>

definition phase_ok :: "u32 \<Rightarrow> segreg \<Rightarrow> kernel \<Rightarrow> bool" where
  "phase_ok F r s \<longleftrightarrow>
    segment_base (cached r) = - KERNEL_BASE \<and> cr0 s AND CR0_PG = 0 \<or>
    segment_base (cached r) = - KERNEL_BASE \<and> PPN (cr3 s) = F \<and> (\<forall>x < 0x400000. walk F (mm s) x = Some x) \<or>
    segment_base (cached r) = 0 \<and> cr0 s AND CR0_PG \<noteq> 0 \<and> PPN (cr3 s) = F \<and>
      (\<forall>x < 0x400000. walk F (mm s) (KERNEL_BASE + x) = Some x)"

lemma phase_ok_translates:
  "phase_ok F (r (segment_regs s)) s \<Longrightarrow> x < 0x400000 \<Longrightarrow> translate r s (KERNEL_BASE + x) = Some x"
  by (auto simp: phase_ok_def translate_def physical_address_def linear_address_def simp del: KERNEL_BASE_def CR0_PG_def)

lemma kernel_reachedI:
  "phase_ok F (seg_cs (segment_regs s)) s \<Longrightarrow> phase_ok F (seg_ds (segment_regs s)) s \<Longrightarrow>
    phase_ok F (seg_es (segment_regs s)) s \<Longrightarrow> phase_ok F (seg_ss (segment_regs s)) s \<Longrightarrow> kernel_reached s"
  unfolding kernel_reached_def using phase_ok_translates [of F _ s] by auto

lemma paging_step_cases:
  obtains "k = 0" | "k = 1" | "k = 2" | "k = 3" | "k = 4" | "k = 5" | "k = 6" | "k = 7" | "k = 8" | "k = 9" | "k = 10"
    | "k = 11" | "k = 12" | "13 \<le> k" "paging_state k = turn_on_paging"
proof -
  have "k < 13 \<or> 13 \<le> k \<and> take k turn_on_paging_steps = turn_on_paging_steps"
    by (simp add: turn_on_paging_steps_def) arith
  moreover have "paging_state k = turn_on_paging" if "take k turn_on_paging_steps = turn_on_paging_steps"
    unfolding paging_state_def turn_on_paging_def that ..
  moreover have "k = 0 \<or> k = 1 \<or> k = 2 \<or> k = 3 \<or> k = 4 \<or> k = 5 \<or> k = 6 \<or> k = 7 \<or> k = 8 \<or> k = 9 \<or> k = 10
      \<or> k = 11 \<or> k = 12" if "k < 13" using that by presburger
  ultimately show thesis using that by blast
qed

lemmas paging_state_simps = paging_state_def turn_on_paging_steps_def load_selector_def descriptor_def gdt_entries_def

lemma paged_cr0_paging: "paged_cr0 c AND CR0_PG \<noteq> 0"
proof
  assume z: "paged_cr0 c AND CR0_PG = 0"
  have "0x80010001 AND CR0_PG = (paged_cr0 c AND 0x80010001) AND CR0_PG" by (simp only: paged_cr0_bits)
  also have "\<dots> = (paged_cr0 c AND CR0_PG) AND 0x80010001" by (simp only: ac_simps)
  finally show False unfolding z by simp
qed

lemma turn_on_paging_phases:
  assumes "mapped F (mm s) KERNEL_BASE 0 0x10000" "boot_inv F (mm s)" "F < 0x10000"
    and "segment_regs s = entry_segments f g l" "cr0 s AND CR0_PG = 0"
    and "ptr_page_directory s = kva F" "phys_page_directory s = push_bit 12 F"
  shows "kernel_reached (paging_state k s)"
    "3 \<le> k \<Longrightarrow> x < 0x400000 \<Longrightarrow> physical_address (paging_state k s) (KERNEL_BASE + x) = Some x"
    "x < 0x400000 \<Longrightarrow> physical_address (turn_on_paging s) x = None"
proof -
  define m1 where "m1 = store_word (kva F) (pde (mm s) F 960) (mm s)"
  define m2 where "m2 = store_word (kva F) 0 (mm s)"
  have W: "walk F (mm s) (KERNEL_BASE + x) = Some x" "walk F m1 x = Some x" "walk F m1 (KERNEL_BASE + x) = Some x"
    "walk F m2 (KERNEL_BASE + x) = Some x" if "x < 0x400000" for x
    using mapped_walk [OF assms(1,2) that] walk_store_low [OF assms(3) _ _ that, of "mm s"]
    by (simp_all add: m1_def m2_def del: KERNEL_BASE_def)
  have P: "PDX KERNEL_BASE = 960" "kmem (mm s) (kva F + 4 * 960) = pde (mm s) F 960"
    "store_word (kva F) 0 m1 = m2" "PPN (push_bit 12 F) = F"
    using assms(3) pde_read [of "mm s" F 960]
    by (simp_all add: PDX_def m1_def m2_def store_word_def word_unat_eq_iff unat_PPN unat_push_bit word_less_nat_alt)
  have C: "paged_cr0 c AND CR0_PG \<noteq> 0" for c by (rule paged_cr0_paging)
  have N: "walk F m2 x = None" if "x < 0x400000" for x
    unfolding m2_def by (rule walk_store_low(3) [OF assms(3) mapped_walk(2,3) [OF assms(1,2) that] that refl])
  have "cr0 (turn_on_paging s) = paged_cr0 (cr0 s)" "cr3 (turn_on_paging s) = push_bit 12 F"
    by (subst turn_on_paging_state(1), simp add: assms(7))+
  moreover have "mm (turn_on_paging s) = m2" using P assms(6) by (simp add: turn_on_paging_state(2) m1_def)
  ultimately show "physical_address (turn_on_paging s) x = None" if "x < 0x400000"
    using N [OF that] P(4) C by (simp add: physical_address_def del: CR0_PG_def)
  show "physical_address (paging_state k s) (KERNEL_BASE + x) = Some x" if "3 \<le> k" "x < 0x400000"
    by (rule paging_step_cases [of k])
      (use W [OF that(2)] P C that(1) assms(6,7) in \<open>simp_all add: physical_address_def paging_state_simps turn_on_paging_def
        Let_def m1_def [symmetric] del: KERNEL_BASE_def CR0_PG_def\<close>)
  show "kernel_reached (paging_state k s)"
    by (rule paging_step_cases [of k]; rule kernel_reachedI [of F])
      (use W P C assms(4-7) in \<open>simp_all add: phase_ok_def entry_segments_def paging_state_simps turn_on_paging_def Let_def
        m1_def [symmetric] del: KERNEL_BASE_def CR0_PG_def\<close>)
qed

lemma turn_on_paging_allowed:
  assumes "segment_regs s = entry_segments f g l" "k < 13"
  shows "step_allowed (turn_on_paging_steps ! k) (paging_state k s)"
  by (rule paging_step_cases [of k])
    (use assms in \<open>simp_all add: step_allowed_def entry_segments_def paging_state_simps turn_on_paging_def Let_def cpl_def
      data_loadable_def stack_loadable_def code_loadable_def usable_def is_code_def SEG_def\<close>)

text \<open>
  C13: the kernel stays where it was linked while it turns paging on. It starts with the segments of \<^verbatim>\<open>kern/entry.S\<close>,
  which subtract \<^verbatim>\<open>KERNEL_BASE\<close> from every address, and ends with flat segments and page tables. In the state
  before and after every single step of \<^verbatim>\<open>turn_on_paging\<close>, as \<^verbatim>\<open>initialize_kernel_VM\<close> runs it, code, data and stack
  addresses \<open>KERNEL_BASE + x\<close> with \<open>x\<close> below 4 MB lead to the physical address \<open>x\<close>, no instruction is refused by the processor, and once
  paging is on also the linear addresses of descriptors do. At the end the low addresses are unmapped, so that null faults.
\<close>

theorem turn_on_paging_keeps_addresses:
  assumes "ptr_free_mem (mm s) = 0" "0xF0000000 < unat eok" "unat (number_of_frames (mm s)) \<le> 0x10000"
    and "(unat eok - 0xF0000000 + 4095) div 4096 + page_count (number_of_frames (mm s) * 12) + 93
      < unat (number_of_frames (mm s))"
    and "KERNEL_BASE \<le> stack" "unat stack mod 4096 = 0" "has_nul (bytes s)"
    and "segment_regs s = entry_segments f g l" "cr0 s AND CR0_PG = 0"
  shows "\<exists>u. initialize_kernel_VM eok stack s = Inr (turn_on_paging u) \<and>
    (\<forall>k. kernel_reached (paging_state k u) \<and>
      (k < 13 \<longrightarrow> step_allowed (turn_on_paging_steps ! k) (paging_state k u)) \<and>
      (3 \<le> k \<longrightarrow> (\<forall>x < 0x400000. physical_address (paging_state k u) (KERNEL_BASE + x) = Some x))) \<and>
    (\<forall>x < 0x400000. physical_address (turn_on_paging u) x = None) \<and>
    segment_regs (turn_on_paging u) = kernel_segments"
proof -
  obtain u F gi e m b where B: "initialize_kernel_VM eok stack s = Inr (turn_on_paging u)"
    "u = s\<lparr>ptr_page_directory := kva F, phys_page_directory := push_bit 12 F, frames_info := kva gi,
      envs_base := kva e, mm := m, con := b\<rparr>"
    "boot_dirs F m kernel_dirs" "mapped F m KERNEL_BASE 0 0x10000" "F < 0x10000"
    using initialize_kernel_VM_reaches [OF assms(1-7)] .
  have u: "mapped F (mm u) KERNEL_BASE 0 0x10000" "boot_inv F (mm u)" "segment_regs u = entry_segments f g l"
    "cr0 u AND CR0_PG = 0" "ptr_page_directory u = kva F" "phys_page_directory u = push_bit 12 F"
    using B(3,4) assms(8,9) by (simp_all add: B(2) boot_dirs_def)
  note ph = turn_on_paging_phases [OF u(1,2) B(5) u(3-6)]
  have "segment_regs (turn_on_paging u) = kernel_segments" by (subst turn_on_paging_state(1)) simp
  with B(1) ph turn_on_paging_allowed [OF u(3)] show ?thesis by blast
qed

theorem turn_on_paging_keeps_addresses_witness:
  "\<exists>u. initialize_kernel_VM 0xF0180000 0xF0100000 machine_example = Inr (turn_on_paging u) \<and>
    (\<forall>k. kernel_reached (paging_state k u)) \<and> physical_address (turn_on_paging u) 0 = None"
proof -
  have c: "page_count (4096 * 12) = 12" by (simp add: page_count_def)
  have h: "ptr_free_mem (mm machine_example) = 0" "0xF0000000 < unat (0xF0180000 :: u32)"
    "unat (number_of_frames (mm machine_example)) \<le> 0x10000"
    "(unat (0xF0180000 :: u32) - 0xF0000000 + 4095) div 4096 + page_count (number_of_frames (mm machine_example) * 12) + 93
      < unat (number_of_frames (mm machine_example))"
    "KERNEL_BASE \<le> 0xF0100000" "unat (0xF0100000 :: u32) mod 4096 = 0" "has_nul (bytes machine_example)"
    "segment_regs machine_example =
      entry_segments \<lparr>selector = 0, cached = SEG_NULL\<rparr> \<lparr>selector = 0, cached = SEG_NULL\<rparr> 0"
    "cr0 machine_example AND CR0_PG = 0"
    using c by (simp_all add: machine_example_def boot_example_def kernel_example_def has_nul_def)
  from turn_on_paging_keeps_addresses [OF h] show ?thesis by auto
qed

section \<open>Leaving and entering the kernel\<close>

text \<open>
  The segment part of \<^verbatim>\<open>env_pop_tf\<close>: it pops \<open>es\<close> and \<open>ds\<close>, and \<open>iret\<close> loads \<open>cs\<close> and \<open>ss\<close>. A return to an
  outer level empties the data segments that are too privileged for it.
\<close>

definition null_segreg :: segreg where
  "null_segreg = \<lparr>selector = 0, cached = SEG_NULL\<rparr>"

definition demote :: "u16 \<Rightarrow> segreg \<Rightarrow> segreg" where
  "demote level r = (if ucast (sd_dpl (cached r)) < level then null_segreg else r)"

definition iret :: "Trapframe \<Rightarrow> segments \<Rightarrow> segments" where
  "iret tf s = (let level = tf_cs tf AND 3 in
     s\<lparr>seg_cs := load_selector (tf_cs tf) s, seg_ss := load_selector (tf_ss tf) s,
       seg_ds := demote level (seg_ds s), seg_es := demote level (seg_es s),
       seg_fs := demote level (seg_fs s), seg_gs := demote level (seg_gs s)\<rparr>)"

definition iret_allowed :: "Trapframe \<Rightarrow> segments \<Rightarrow> bool" where
  "iret_allowed tf s = (let level = tf_cs tf AND 3 in
     cpl s < level \<and> code_loadable level (tf_cs tf) s \<and> stack_loadable level (tf_ss tf) s)"

definition env_pop_tf :: "Trapframe \<Rightarrow> segments \<Rightarrow> segments" where
  "env_pop_tf tf s = iret tf (seg_exec (Mov_ds (tf_ds tf)) (seg_exec (Mov_es (tf_es tf)) s))"

definition env_pop_tf_allowed :: "Trapframe \<Rightarrow> segments \<Rightarrow> bool" where
  "env_pop_tf_allowed tf s \<longleftrightarrow> seg_allowed (Mov_es (tf_es tf)) s \<and>
     seg_allowed (Mov_ds (tf_ds tf)) (seg_exec (Mov_es (tf_es tf)) s) \<and>
     iret_allowed tf (seg_exec (Mov_ds (tf_ds tf)) (seg_exec (Mov_es (tf_es tf)) s))"

text \<open>
  The instruction \<open>int n\<close> with the gates \<open>t\<close>: when the processor accepts it, the segments it loads, and where it
  continues (instruction and stack pointer).
\<close>

definition int_allowed :: "u32 \<Rightarrow> trap_tables \<Rightarrow> segments \<Rightarrow> bool" where
  "int_allowed n t s = (let g = idt t n in
     gd_p g = 1 \<and> (gd_type g = STS_IG32 \<or> gd_type g = STS_TG32) \<and> cpl s \<le> ucast (gd_dpl g) \<and>
     code_loadable 0 (gd_ss g) s \<and> stack_loadable 0 (ts_ss0 (task_state t)) s)"

definition int_segments :: "u32 \<Rightarrow> trap_tables \<Rightarrow> segments \<Rightarrow> segments" where
  "int_segments n t s = s\<lparr>seg_cs := load_selector (gd_ss (idt t n)) s, seg_ss := load_selector (ts_ss0 (task_state t)) s\<rparr>"

definition int_target :: "u32 \<Rightarrow> trap_tables \<Rightarrow> u32 \<times> u32" where
  "int_target n t = (gate_offset (idt t n), ts_esp0 (task_state t))"

definition user_segments :: segments where
  "user_segments = kernel_segments
    \<lparr>seg_cs := \<lparr>selector = GD_UT OR 3, cached = gdt_entries ! 3\<rparr>, seg_ss := \<lparr>selector = GD_UD OR 3, cached = gdt_entries ! 4\<rparr>,
     seg_ds := \<lparr>selector = GD_UD OR 3, cached = gdt_entries ! 4\<rparr>, seg_es := \<lparr>selector = GD_UD OR 3, cached = gdt_entries ! 4\<rparr>\<rparr>"

lemmas loadable_simps = data_loadable_def stack_loadable_def code_loadable_def usable_def is_code_def cpl_def

lemma env_pop_tf_user:
  "env_pop_tf_allowed initial_trapframe kernel_segments" "env_pop_tf initial_trapframe kernel_segments = user_segments"
  by (simp_all add: env_pop_tf_allowed_def env_pop_tf_def iret_def iret_allowed_def Let_def demote_def initial_trapframe_def
      zero_trapframe_def kernel_segments_def user_segments_def load_selector_def descriptor_def loadable_simps
      gdt_entries_def SEG_def)

lemma small_index: "n < 6 \<Longrightarrow> n = 0 \<or> n = 1 \<or> n = 2 \<or> n = 3 \<or> n = 4 \<or> n = (5 :: nat)"
  by presburger

lemma user_loads:
  "data_loadable sel user_segments \<Longrightarrow> drop_bit 3 sel = 3 \<or> drop_bit 3 sel = 4"
  "stack_loadable 3 sel user_segments \<Longrightarrow> drop_bit 3 sel = 4"
  "code_loadable 3 sel user_segments \<Longrightarrow> drop_bit 3 sel = 3"
proof -
  let ?i = "unat (drop_bit 3 sel)"
  have d: "descriptor sel user_segments = gdt_entries ! ?i" "length (gdtr user_segments) = 6" "cpl user_segments = 3"
    by (simp_all add: descriptor_def user_segments_def kernel_segments_def gdt_entries_def cpl_def)
  have w: "?i = 3 \<Longrightarrow> drop_bit 3 sel = 3" "?i = 4 \<Longrightarrow> drop_bit 3 sel = 4" by (simp_all add: word_unat_eq_iff)
  have dpl: "sd_dpl (gdt_entries ! 0) = 0" "sd_dpl (gdt_entries ! 1) = 0" "sd_dpl (gdt_entries ! 2) = 0"
    "sd_dpl (gdt_entries ! 5) = 0" "sd_type (gdt_entries ! 3) = 0xA" "sd_type (gdt_entries ! 4) = 2"
    by (simp_all add: gdt_entries_def SEG_def SEG_NULL_def)
  have low: "?i = 3 \<or> ?i = 4" if "?i < 6" "3 \<le> (ucast (sd_dpl (gdt_entries ! ?i)) :: u16)"
    using small_index [OF that(1)] that(2) dpl(1-4) by auto
  show "drop_bit 3 sel = 3 \<or> drop_bit 3 sel = 4" if "data_loadable sel user_segments"
    using low w that by (auto simp: data_loadable_def usable_def d)
  show "drop_bit 3 sel = 4" if "stack_loadable 3 sel user_segments"
  proof -
    have "?i = 3 \<or> ?i = 4" by (rule low) (use that in \<open>simp_all add: stack_loadable_def usable_def d\<close>)
    moreover have "?i \<noteq> 3" using that dpl(5) by (auto simp: stack_loadable_def is_code_def d)
    ultimately show ?thesis using w by blast
  qed
  show "drop_bit 3 sel = 3" if "code_loadable 3 sel user_segments"
  proof -
    have "?i = 3 \<or> ?i = 4" by (rule low) (use that in \<open>simp_all add: code_loadable_def usable_def d\<close>)
    moreover have "?i \<noteq> 4" using that dpl(6) by (auto simp: code_loadable_def is_code_def d)
    ultimately show ?thesis using w by blast
  qed
qed

lemma idt_init_gates:
  "idt (idt_init PF SC ts n tt) i = (if i = T_SYSCALL then SETGATE False GD_KT SC 3
     else if i = T_PGFLT then SETGATE False GD_KT PF 0 else idt tt i)"
  "task_state (idt_init PF SC ts n tt) = (task_state tt)\<lparr>ts_esp0 := KERNEL_STACK_TOP, ts_ss0 := GD_KD\<rparr>"
  by (simp_all add: idt_init_def Let_def)

lemma syscall_gate:
  assumes "\<forall>i. gd_p (idt tt i) = 0"
  shows "int_allowed i (idt_init PF SC ts n tt) user_segments \<longleftrightarrow> i = T_SYSCALL"
    "int_segments T_SYSCALL (idt_init PF SC ts n tt) user_segments =
      user_segments\<lparr>seg_cs := seg_cs kernel_segments, seg_ss := seg_ss kernel_segments\<rparr>"
    "int_target T_SYSCALL (idt_init PF SC ts n tt) = (SC, KERNEL_STACK_TOP)"
proof -
  have k: "code_loadable 0 GD_KT user_segments" "stack_loadable 0 GD_KD user_segments" "cpl user_segments = 3"
    by (simp_all add: user_segments_def kernel_segments_def descriptor_def loadable_simps gdt_entries_def SEG_def)
  show "int_allowed i (idt_init PF SC ts n tt) user_segments \<longleftrightarrow> i = T_SYSCALL"
    using assms k by (simp add: int_allowed_def Let_def idt_init_gates SETGATE_def del: GD_KT_def GD_KD_def)
  show "int_segments T_SYSCALL (idt_init PF SC ts n tt) user_segments =
      user_segments\<lparr>seg_cs := seg_cs kernel_segments, seg_ss := seg_ss kernel_segments\<rparr>"
    by (simp add: int_segments_def idt_init_gates SETGATE_def load_selector_def descriptor_def user_segments_def
        kernel_segments_def)
  show "int_target T_SYSCALL (idt_init PF SC ts n tt) = (SC, KERNEL_STACK_TOP)"
    by (simp add: int_target_def idt_init_gates gate_offset_def SETGATE_def split_halves)
qed

lemma complete_initialization_frame:
  "complete_environment_initialization e s = Inr s' \<Longrightarrow> env_tf (envs s' e) = initial_trapframe"
  by (auto simp: complete_environment_initialization_def Let_def update_env_def split: option.splits)

text \<open>
  C14: a program is confined to user mode. The frame that \<^verbatim>\<open>complete_environment_initialization\<close> gives a new environment
  can be loaded by \<^verbatim>\<open>env_pop_tf\<close> without a fault and puts the processor into level 3 with flat user segments. From
  there no load of a segment register reaches a descriptor other than the two user ones, the tables cannot be changed, and of all
  software interrupts only \<^verbatim>\<open>T_SYSCALL\<close> is accepted: it continues at the handler of the system calls, on the stack of
  the kernel and with the segments of the kernel.
\<close>

theorem user_mode_confined:
  assumes "complete_environment_initialization e s = Inr s'" "\<forall>i. gd_p (idt tt i) = 0"
  shows "let t = idt_init PF SC ts n tt; tf = env_tf (envs s' e); u = env_pop_tf tf kernel_segments in
    env_pop_tf_allowed tf kernel_segments \<and> cpl u = 3 \<and>
    (\<forall>r \<in> {seg_cs, seg_ds, seg_es, seg_fs, seg_gs, seg_ss}. segment_base (cached (r u)) = 0) \<and>
    (\<forall>sel. seg_allowed (Mov_ds sel) u \<longrightarrow> drop_bit 3 sel \<in> {drop_bit 3 GD_UT, drop_bit 3 GD_UD}) \<and>
    (\<forall>sel. seg_allowed (Mov_ss sel) u \<longrightarrow> drop_bit 3 sel = drop_bit 3 GD_UD) \<and>
    (\<forall>sel. seg_allowed (Ljmp sel) u \<longrightarrow> drop_bit 3 sel = drop_bit 3 GD_UT) \<and>
    (\<forall>d. \<not> seg_allowed (Lgdt d) u) \<and> (\<forall>sel. \<not> seg_allowed (Lldt sel) u) \<and>
    (\<forall>i. int_allowed i t u \<longleftrightarrow> i = T_SYSCALL) \<and>
    int_target T_SYSCALL t = (SC, KERNEL_STACK_TOP) \<and>
    int_segments T_SYSCALL t u = u\<lparr>seg_cs := seg_cs kernel_segments, seg_ss := seg_ss kernel_segments\<rparr>"
proof -
  have c: "cpl user_segments = 3" by (simp add: user_segments_def cpl_def)
  have b: "\<forall>r \<in> {seg_cs, seg_ds, seg_es, seg_fs, seg_gs, seg_ss}. segment_base (cached (r user_segments)) = 0"
    by (simp add: user_segments_def kernel_segments_def gdt_entries_def)
  show ?thesis
    unfolding Let_def complete_initialization_frame [OF assms(1)] env_pop_tf_user(2)
    using env_pop_tf_user(1) syscall_gate [OF assms(2)] user_loads b by (simp add: c)
qed

definition boot_tables :: trap_tables where
  "boot_tables = \<lparr>idt = (\<lambda>_. SETGATE False 0 0 0\<lparr>gd_p := 0\<rparr>), gdt = (\<lambda>i. SEG_NULL), task_state = zero_taskstate,
     task_register = 0, idt_loaded = False\<rparr>"

lemma first_environment: "\<exists>s'. complete_environment_initialization 0 (env_init kernel_example) = Inr s'"
proof -
  have "env_inv (word_range 0 NENV) (env_init kernel_example)"
    by (rule env_init_inv) (simp_all add: kernel_example_def)
  moreover have "word_range 0 NENV = 0 # word_range 1 NENV" using word_range_Cons [of 0 NENV] by simp
  ultimately show ?thesis using complete_correct by metis
qed

theorem user_mode_confined_witness:
  "\<exists>s'. complete_environment_initialization 0 (env_init kernel_example) = Inr s' \<and>
    (let t = idt_init 0xF0100100 0xF0100120 0xF0170000 104 boot_tables;
         u = env_pop_tf (env_tf (envs s' 0)) kernel_segments
     in cpl u = 3 \<and> int_allowed 0x30 t u \<and> \<not> int_allowed 14 t u \<and> \<not> int_allowed 3 t u)"
proof -
  obtain s' where s: "complete_environment_initialization 0 (env_init kernel_example) = Inr s'"
    using first_environment by blast
  have "\<forall>i. gd_p (idt boot_tables i) = 0" by (simp add: boot_tables_def)
  from user_mode_confined [OF s this] s show ?thesis by (auto simp: Let_def)
qed

section \<open>Ports\<close>

text \<open>Whether a program with the given flags can read and write a port.\<close>

definition port_usable :: "trap_tables \<Rightarrow> u32 \<Rightarrow> segments \<Rightarrow> u16 \<Rightarrow> bool" where
  "port_usable t eflags s port =
    port_permitted (cpl s) eflags port (segment_limit (gdt t (drop_bit 3 (task_register t)))) (task_state t)"

definition kernel_taskstate :: Taskstate where
  "kernel_taskstate = zero_taskstate\<lparr>ts_esp0 := KERNEL_STACK_TOP, ts_ss0 := GD_KD\<rparr>"

lemma kernel_taskstate_bytes:
  "taskstate_bytes kernel_taskstate = [0, 0, 0, 0, 0, 0, 0xC0, 0xEF, 0x10] @ replicate 95 0"
proof -
  have "replicate 95 0 = [0, 0, 0, 0, 0, 0, 0, 0, 0, 0, 0, 0, 0, 0, 0, 0, 0, 0, 0, 0, 0, 0, 0, 0, 0, 0, 0, 0, 0, 0, 0, 0, 0, 0, 0, 0, 0, 0,
    0, 0, 0, 0, 0, 0, 0, 0, 0, 0, 0, 0, 0, 0, 0, 0, 0, 0, 0, 0, 0, 0, 0, 0, 0, 0, 0, 0, 0, 0, 0, 0, 0, 0, 0, 0, 0, 0,
    0, 0, 0, 0, 0, 0, 0, 0, 0, 0, 0, 0, 0, 0, 0, 0, 0, 0, 0 :: u8]"
    by (simp add: eval_nat_numeral)
  then show ?thesis
    by (simp add: taskstate_bytes_def kernel_taskstate_def zero_taskstate_def bytes16_def bytes32_def)
qed

lemma kernel_taskstate_byte:
  assumes "k < 104"
  shows "taskstate_bytes kernel_taskstate ! k = (if k = 6 then 0xC0 else if k = 7 then 0xEF else if k = 8 then 0x10 else 0)"
proof (cases "k < 9")
  case True
  then have "k = 0 \<or> k = 1 \<or> k = 2 \<or> k = 3 \<or> k = 4 \<or> k = 5 \<or> k = 6 \<or> k = 7 \<or> k = 8" by arith
  then show ?thesis by (elim disjE) (simp_all add: kernel_taskstate_bytes)
next
  case False
  then show ?thesis using assms by (simp add: kernel_taskstate_bytes nth_append)
qed

text \<open>The ports whose bits are set by the two fields in use.\<close>

lemma permission_bits:
  assumes "m < 8"
  shows "bit (0xC0 :: u8) m \<longleftrightarrow> m \<in> {6, 7}" "bit (0xEF :: u8) m \<longleftrightarrow> m \<noteq> 4" "bit (0x10 :: u8) m \<longleftrightarrow> m = 4"
proof -
  have "m = 0 \<or> m = 1 \<or> m = 2 \<or> m = 3 \<or> m = 4 \<or> m = 5 \<or> m = 6 \<or> m = 7" using assms by arith
  then show "bit (0xC0 :: u8) m \<longleftrightarrow> m \<in> {6, 7}" "bit (0xEF :: u8) m \<longleftrightarrow> m \<noteq> 4" "bit (0x10 :: u8) m \<longleftrightarrow> m = 4"
    by (elim disjE; simp add: bit_numeral_word_iff)+
qed

lemma denied_ports:
  fixes p :: nat
  shows "p div 8 = 6 \<and> p mod 8 \<in> {6, 7} \<or> p div 8 = 7 \<and> p mod 8 \<noteq> 4 \<or> p div 8 = 8 \<and> p mod 8 = 4 \<longleftrightarrow>
    54 \<le> p \<and> p < 64 \<and> p \<noteq> 60 \<or> p = 68"
proof -
  have "p = 8 * (p div 8) + p mod 8" "p mod 8 < 8" by simp_all
  then show ?thesis unfolding insert_iff empty_iff by arith
qed

lemma kernel_ports:
  "port_permitted 3 0 port 104 kernel_taskstate \<longleftrightarrow> port < 832 \<and> \<not> (54 \<le> port \<and> port < 64 \<and> port \<noteq> 60 \<or> port = 68)"
proof -
  let ?p = "unat port"
  have m: "?p mod 8 < 8" by simp
  have z: "ts_iomb kernel_taskstate = 0" by (simp add: kernel_taskstate_def zero_taskstate_def)
  have "port_permitted 3 0 port 104 kernel_taskstate \<longleftrightarrow>
    ?p div 8 < 104 \<and> \<not> bit (taskstate_bytes kernel_taskstate ! (?p div 8)) (?p mod 8)"
    by (simp add: port_permitted_def z Let_def iopl_def) arith
  also have "\<dots> \<longleftrightarrow> ?p div 8 < 104 \<and>
    \<not> (?p div 8 = 6 \<and> ?p mod 8 \<in> {6, 7} \<or> ?p div 8 = 7 \<and> ?p mod 8 \<noteq> 4 \<or> ?p div 8 = 8 \<and> ?p mod 8 = 4)"
    by (cases "?p div 8 < 104") (use permission_bits [OF m] in \<open>simp_all add: kernel_taskstate_byte\<close>)
  also have "\<dots> \<longleftrightarrow> ?p < 832 \<and> \<not> (54 \<le> ?p \<and> ?p < 64 \<and> ?p \<noteq> 60 \<or> ?p = 68)"
    unfolding denied_ports by (simp add: div_less_iff_less_mult)
  finally show ?thesis
    by (simp add: word_less_nat_alt word_le_nat_alt word_unat_eq_iff)
qed

text \<open>
  C15: the ports a program can use. Its flags are zero: interrupts are off and port instructions need a permission. But
  \<^verbatim>\<open>idt_init\<close> leaves \<^verbatim>\<open>ts_iomb\<close> zero, so the processor takes the task segment itself for the map of permissions, and a clear bit
  permits: a program can use every port below 832 except the few whose bits happen to be set in the stack pointer and
  stack segment of the kernel, the disk (0x1F0 to 0x1F7), keyboard, clock and interrupt controllers among them.
\<close>

theorem program_ports:
  assumes "complete_environment_initialization e s = Inr s'" "task_state tt = zero_taskstate"
  shows "let t = idt_init PF SC ts 104 tt; tf = env_tf (envs s' e); u = env_pop_tf tf kernel_segments in
    tf_eflags tf AND FL_IF = 0 \<and> iopl (tf_eflags tf) = 0 \<and>
    (\<forall>port. port_usable t (tf_eflags tf) u port \<longleftrightarrow>
      port < 832 \<and> \<not> (54 \<le> port \<and> port < 64 \<and> port \<noteq> 60 \<or> port = 68))"
proof -
  let ?t = "idt_init PF SC ts 104 tt"
  have t: "task_state ?t = kernel_taskstate"
    using idt_init_gates(2) assms(2) by (simp add: kernel_taskstate_def)
  have "gdt ?t (drop_bit 3 (task_register ?t)) = (SEG16 STS_T32A ts 104 0)\<lparr>sd_s := 0\<rparr>"
    by (simp add: idt_init_def Let_def)
  then have l: "segment_limit (gdt ?t (drop_bit 3 (task_register ?t))) = 104"
    by (simp add: segment_limit_def SEG16_def Let_def)
  have c: "cpl user_segments = 3" by (simp add: user_segments_def cpl_def)
  have "tf_eflags initial_trapframe = 0" by (simp add: initial_trapframe_def zero_trapframe_def)
  then show ?thesis
    unfolding Let_def complete_initialization_frame [OF assms(1)] env_pop_tf_user(2) port_usable_def t l c
    by (simp add: kernel_ports) (simp add: iopl_def)
qed

theorem program_ports_witness:
  "\<exists>s'. complete_environment_initialization 0 (env_init kernel_example) = Inr s' \<and>
    (let t = idt_init 0xF0100100 0xF0100120 0xF0170000 104 boot_tables; tf = env_tf (envs s' 0)
     in port_usable t (tf_eflags tf) (env_pop_tf tf kernel_segments) 0x1F0 \<and>
        \<not> port_usable t (tf_eflags tf) (env_pop_tf tf kernel_segments) 0x3F8)"
proof -
  obtain s' where s: "complete_environment_initialization 0 (env_init kernel_example) = Inr s'"
    using first_environment by blast
  have "task_state boot_tables = zero_taskstate" by (simp add: boot_tables_def)
  from program_ports [OF s this, of "0xF0100100" "0xF0100120" "0xF0170000"] s show ?thesis by (auto simp: Let_def)
qed

end
