(* ===== verification/FOS_Program.thy ===== *)
theory FOS_Program
  imports FOS_Protection
begin

text \<open>
  A running program as a transition system: it writes to its own memory, and it traps into the kernel with any registers it
  likes. Whatever it does, the kernel keeps control of the page tables, and the program reaches no frame that was not
  its own or free.
\<close>

section \<open>The frames of a program\<close>

text \<open>The frames that are free, that are page tables of the user space, or that are mapped there.\<close>

definition pool :: "u32 \<Rightarrow> u32 list \<Rightarrow> mm_state \<Rightarrow> u32 set" where
  "pool F fs m = set fs \<union> {f. tabs (pde m F) f \<noteq> {}} \<union> {f. maps (pte m F) f \<noteq> {}}"

text \<open>No page of the user space shows the directory or a page table.\<close>

definition isolated :: "u32 \<Rightarrow> mm_state \<Rightarrow> bool" where
  "isolated F m \<longleftrightarrow> (\<forall>f. maps (pte m F) f \<noteq> {} \<longrightarrow> f \<noteq> F \<and> tabs (pde m F) f = {})"

text \<open>
  From \<open>m\<close> to \<open>m'\<close> only the pool has changed, and it has not grown. The words that stay are those of all other frames, and
  the entries of the directory for the kernel.
\<close>

definition within_pool :: "u32 \<Rightarrow> u32 list \<Rightarrow> mm_state \<Rightarrow> u32 list \<Rightarrow> mm_state \<Rightarrow> bool" where
  "within_pool F fs m gs m' \<longleftrightarrow> pool F gs m' \<subseteq> pool F fs m \<and>
    (\<forall>g j. g < 0x10000 \<and> j < 1024 \<and> g \<notin> pool F fs m \<and> (g = F \<longrightarrow> 955 \<le> j) \<longrightarrow> word_at m' g j = word_at m g j)"

lemma within_pool_refl [simp]: "within_pool F fs m fs m"
  by (simp add: within_pool_def)

lemma within_pool_trans: "within_pool F fs m gs m' \<Longrightarrow> within_pool F gs m' hs m'' \<Longrightarrow> within_pool F fs m hs m''"
  unfolding within_pool_def by (metis subsetD subset_trans)

lemma maps_entry: "i < 955 \<Longrightarrow> j < 1024 \<Longrightarrow> t i j \<noteq> 0 \<Longrightarrow> maps t (PPN (t i j)) \<noteq> {}"
  by (auto simp: maps_def)

lemma isolated_cong:
  assumes "\<And>i. i < 955 \<Longrightarrow> pde t F i = pde s F i" "\<And>i j. i < 955 \<Longrightarrow> j < 1024 \<Longrightarrow> pte t F i j = pte s F i j"
  shows "isolated F t \<longleftrightarrow> isolated F s" "pool F fs t = pool F fs s"
proof -
  have "tabs (pde t F) f = tabs (pde s F) f" "maps (pte t F) f = maps (pte s F) f" for f
    by (rule tabs_cong, erule assms(1)) (rule maps_cong, erule (1) assms(2))
  then show "isolated F t \<longleftrightarrow> isolated F s" "pool F fs t = pool F fs s" by (simp_all add: isolated_def pool_def)
qed

text \<open>Mapping a fresh frame adds it to the pool, and makes a page table out of a free frame at most.\<close>

lemma map_fresh_pool:
  assumes inv: "vm_inv pin F fs s" and iso: "isolated F s" and i: "PDX va < 955" and perm: "perm < 0x1000"
    and g: "g < number_of_frames s" "g \<notin> set fs" "references s g = 0" and mem: "pde s F (PDX va) \<noteq> 0 \<or> fs \<noteq> []"
  obtains t gs where "map_frame (kva F) g va perm s = Inr (0, t)" "vm_inv pin F gs t" "isolated F t"
    "pool F gs t \<subseteq> insert g (pool F fs s)"
    "\<forall>h j. untouched F fs s h j \<longrightarrow> word_at t h j = word_at s h j"
    "\<forall>va' < USER_TOP. lookup F t va' = (if PPN va' = PPN va then Some g else lookup F s va')" "length fs \<le> length gs + 1"
proof -
  define e where "e = pte s F (PDX va) (PTX va)"
  define gs where "gs = map_frames e g (table_refs s F (PDX va) fs) (table_frames s F (PDX va) fs)"
  have "references s g \<noteq> 0xFFFF" using g(3) by simp
  then obtain t where t: "map_frame (kva F) g va perm s = Inr (0, t)" "vm_inv pin F gs t"
    and d: "\<And>k. k < 955 \<Longrightarrow> pde t F k = (if k = PDX va \<and> pde s F k = 0 then table_entry (hd fs) else pde s F k)"
    and p: "\<And>k l. k < 955 \<Longrightarrow> l < 1024 \<Longrightarrow> pte t F k l =
      (if k = PDX va \<and> l = PTX va then
         (if pte s F k l \<noteq> 0 \<and> PPN (pte s F k l) = g then pte s F k l else mapped_entry g perm)
       else pte s F k l)"
    unfolding e_def gs_def by (rule map_frame_step [OF inv i g(1,2) _ perm mem]) blast
  have g0: "g \<noteq> F" "tabs (pde s F) g = {}" "maps (pte s F) g = {}"
    using vm_inv_refs [OF inv g(1)] g(3) inv by (auto simp: vm_inv_def)
  have g16: "g < 0x10000" using vm_inv_frames(8) [OF inv g(1)] .
  have new: "PPN (table_entry (hd fs)) = hd fs" "hd fs \<in> set fs" if "pde s F (PDX va) = 0"
    using that mem vm_inv_frames(6,8) [OF inv, of "hd fs"] by (auto simp: table_entry)
  have T: "tabs (pde t F) f \<noteq> {} \<Longrightarrow> tabs (pde s F) f \<noteq> {} \<or> f \<in> set fs" for f
    using new by (auto simp: tabs_def d split: if_splits)
  have M: "maps (pte t F) f \<noteq> {} \<Longrightarrow> maps (pte s F) f \<noteq> {} \<or> f = g" for f
    using mapped_entry(1) [OF g16 perm] by (auto simp: maps_def p split: if_splits)
  have "isolated F t"
    unfolding isolated_def
  proof (intro allI impI)
    fix f assume "maps (pte t F) f \<noteq> {}"
    from M [OF this] show "f \<noteq> F \<and> tabs (pde t F) f = {}"
      using T [of f] iso vm_inv_free(3) [OF inv, of f] g0 g(2) by (auto simp: isolated_def)
  qed
  moreover have "set gs \<subseteq> pool F fs s"
  proof -
    have "set (table_frames s F (PDX va) fs) \<subseteq> set fs" by (cases fs) (auto simp: table_frames_def)
    moreover have "e \<noteq> 0 \<Longrightarrow> maps (pte s F) (PPN e) \<noteq> {}" unfolding e_def by (rule maps_entry [OF i PTX_less])
    ultimately show ?thesis by (auto simp: gs_def map_frames_def given_up_def pool_def)
  qed
  then have "pool F gs t \<subseteq> insert g (pool F fs s)" using T M unfolding pool_def by blast
  moreover have "\<forall>h j. untouched F fs s h j \<longrightarrow> word_at t h j = word_at s h j"
    using map_frame_words [OF inv i _ mem t(1)] by blast
  moreover have "\<forall>va' < USER_TOP. lookup F t va' = (if PPN va' = PPN va then Some g else lookup F s va')"
    using va.map_law [OF inv _ _, of va perm g] g mem perm i t(1) by (auto simp: map_ready_def PDX_user)
  moreover have "length fs \<le> length gs + 1" by (auto simp: gs_def map_frames_def table_frames_def)
  ultimately show thesis by (rule that [OF t])
qed

lemma map_into_pool:
  assumes "vm_inv pin F gs m" "isolated F m" "PDX va < 955" "perm < 0x1000" "f < number_of_frames m" "f \<notin> set gs" "references m f = 0"
    and "pde m F (PDX va) \<noteq> 0 \<or> gs \<noteq> []" and P: "f \<in> P" "pool F gs m \<subseteq> P"
  obtains u hs where "map_frame (kva F) f va perm m = Inr (0, u)" "vm_inv pin F hs u" "isolated F u" "pool F hs u \<subseteq> P"
    "\<forall>g j. g < 0x10000 \<and> j < 1024 \<and> g \<notin> P \<and> (g = F \<longrightarrow> 955 \<le> j) \<longrightarrow> word_at u g j = word_at m g j"
proof -
  obtain u hs where u: "map_frame (kva F) f va perm m = Inr (0, u)" "vm_inv pin F hs u" "isolated F u"
    "pool F hs u \<subseteq> insert f (pool F gs m)" "\<forall>h j. untouched F gs m h j \<longrightarrow> word_at u h j = word_at m h j"
    by (rule map_fresh_pool [OF assms(1-8)]) blast
  have "untouched F gs m g j" if "g < 0x10000" "j < 1024" "g \<notin> P" "g = F \<longrightarrow> 955 \<le> j" for g j
    using that P by (auto simp: untouched_def pool_def)
  with u show thesis by (intro that [OF u(1-3)]) (use P in blast)+
qed

section \<open>System calls\<close>

lemma minus_one_16: "- 1 = (0xFFFF :: u16)"
  by simp

lemma wrapped_count:
  assumes inv: "vm_inv pin F fs m" and f: "references m f = 0" "f \<notin> set fs" "f < number_of_frames m"
  shows "vm_inv (pin(f := 0xFFFF)) F fs (decrement_references f m)"
proof -
  let ?m = "decrement_references f m"
  have z: "pin f = 0" "tabs (pde m F) f = {}" "maps (pte m F) f = {}"
    using vm_inv_refs [OF inv f(3)] f(1) by auto
  have r: "?m = m\<lparr>references := (references m)(f := 0xFFFF)\<rparr>"
    using f(1) by (simp add: decrement_references_def Let_def minus_one_16)
  have v: "pde ?m F = pde m F" "pte ?m F = pte m F" by (simp_all add: r fun_eq_iff pde_def pte_def word_at_def)
  have t: "pde m F i \<noteq> 0 \<Longrightarrow> i < 955 \<Longrightarrow> PPN (pde m F i) \<noteq> f" for i using z(2) by (auto simp: tabs_def)
  show ?thesis using inv z f(2) t unfolding vm_inv_def v by (auto simp: r)
qed

text \<open>
  \<^verbatim>\<open>sys_allocate_page\<close> changes the pool only, whatever it returns. A frame whose count wrapped around counts as
  pinned from then on.
\<close>

lemma frame_taken_pool:
  assumes "isolated F s0" "frame_taken pin F f gs s0 s1 m"
  shows "isolated F m" "pool F hs m = pool F hs s0" "isolated F s1" "pool F hs s1 = pool F hs s0"
    "word_at s1 = word_at s0" "f \<in> pool F (f # gs) s0" "pool F gs s0 \<subseteq> pool F (f # gs) s0"
proof -
  have w: "word_at s1 = word_at s0" using frame_taken(8) [OF assms(2)] by (simp add: fun_eq_iff word_at_def)
  then have "pde s1 = pde s0" "pte s1 = pte s0" by (simp_all add: fun_eq_iff pde_def pte_def)
  then show "isolated F m" "pool F hs m = pool F hs s0" "isolated F s1" "pool F hs s1 = pool F hs s0" "word_at s1 = word_at s0"
    using assms(1) w frame_taken(10,11) [OF assms(2)] isolated_cong [of m F s0] isolated_cong [of s1 F s0] by simp_all
  show "f \<in> pool F (f # gs) s0" "pool F gs s0 \<subseteq> pool F (f # gs) s0" by (auto simp: pool_def)
qed

lemma sys_allocate_page_pool:
  assumes "curenv s = Some e" "env_pgdir (envs s e) = kva F" and inv: "vm_inv pin F fs (mm s)" and iso: "isolated F (mm s)"
    and run: "sys_allocate_page va perm s = Inr (r, t)"
  shows "\<exists>m pin' gs. t = s\<lparr>mm := m\<rparr> \<and> vm_inv pin' F gs m \<and> isolated F m \<and> within_pool F fs (mm s) gs m"
proof (cases rule: sys_allocate_page_outcomes [OF assms(1,2) inv run])
  case 1
  then show ?thesis using inv iso by (intro exI [of _ "mm s"] exI [of _ pin] exI [of _ fs]) simp
next
  case (2 f gs s1 m)
  note P = frame_taken_pool [OF iso 2(2)]
  have "within_pool F fs (mm s) gs s1" using P(4,5,7) by (simp add: within_pool_def 2(1))
  then show ?thesis using 2(3) P(3) frame_taken(7) [OF 2(2)] by blast
next
  case (3 f s1 m)
  let ?m = "decrement_references f m"
  note P = frame_taken_pool [OF iso 3(2)]
  note m = frame_taken [OF 3(2)]
  have w: "word_at ?m g j = word_at m g j" "pde ?m F i = pde m F i" "pte ?m F i j = pte m F i j" for g i j
    by (simp_all add: view_simps pde_def pte_def)
  have "isolated F ?m" "pool F [] ?m = pool F [] (mm s)" using isolated_cong [of ?m F m] w P(1,2) by simp_all
  moreover from this(2) have "within_pool F fs (mm s) [] ?m"
    using P(6,7) m(9) w(1) unfolding within_pool_def 3(1) by metis
  ultimately show ?thesis using 3(3) wrapped_count [OF m(1-4)] by blast
next
  case (4 f gs s1 m u')
  note P = frame_taken_pool [OF iso 4(2)]
  have i: "PDX va < 955" using 4(3) by (simp only: PDX_user)
  note m = frame_taken [OF 4(2)]
  obtain u hs where u: "map_frame (kva F) f va perm m = Inr (0, u)" "vm_inv pin F hs u" "isolated F u"
    "pool F hs u \<subseteq> pool F fs (mm s)" "\<forall>g j. g < 0x10000 \<and> j < 1024 \<and> g \<notin> pool F fs (mm s) \<and> (g = F \<longrightarrow> 955 \<le> j) \<longrightarrow>
      word_at u g j = word_at m g j"
    by (rule map_into_pool [where P = "pool F fs (mm s)", OF m(1) P(1) i 4(4) m(4,3,2) 4(5)]) (use P(2,6,7) 4(1) in simp_all)
  then have "within_pool F fs (mm s) hs u" using m(9) P(6) by (auto simp: within_pool_def 4(1))
  then show ?thesis using u 4(6,7) by auto
qed

text \<open>Every other call that returns leaves at most the console changed.\<close>

lemma cprintf_console: "cprintf fmt args s = Inr t \<Longrightarrow> \<exists>c. t = s\<lparr>con := c\<rparr>"
  by (auto simp: cprintf_def bind_res_Inr_iff)

lemma sys_env_sleep_not_returned: "and_then (sys_env_sleep s) (\<lambda>(x :: unit) s. Returned 0 s) \<noteq> Returned r t"
  by (cases "env_run_cmd_prmpt s") (simp_all add: sys_env_sleep_def)

lemma syscall_effect:
  assumes "syscall n a1 a2 a3 a4 a5 s = Returned r t"
  shows "(\<exists>c. t = s\<lparr>con := c\<rparr>) \<or> (\<exists>q. sys_allocate_page a1 a2 s = Inr (q, t))"
proof -
  have same: "\<exists>c. s = s\<lparr>con := c\<rparr>" by (rule exI [of _ "con s"]) simp
  show ?thesis
    using assms same sys_env_sleep_not_returned [of s r t]
    by (auto simp: syscall_def sys_cputs_def sys_cgetc_def sys_getenvid_def sys_env_destroy_def env_destroy_def
        env_free_def sys_calculate_required_frames_def calculate_required_frames_def
        sys_calculate_free_frames_def sys_freeMem_def freeMem_def sys_get_page_def get_page_def
        sys_map_frame_def sys_unmap_frame_def bind_res_Inr_iff dest: cprintf_console split: if_splits option.splits)
qed

section \<open>Steps of a program\<close>

text \<open>The state in which environment \<open>e\<close> runs in the address space of frame \<open>F\<close>.\<close>

definition program_inv :: "(u32 \<Rightarrow> nat) \<Rightarrow> u32 \<Rightarrow> u32 list \<Rightarrow> u32 \<Rightarrow> kernel \<Rightarrow> bool" where
  "program_inv pin F fs e s \<longleftrightarrow> vm_inv pin F fs (mm s) \<and> isolated F (mm s) \<and> curenv s = Some e \<and>
     env_status (envs s e) = ENV_RUNNABLE \<and> env_pgdir (envs s e) = kva F"

text \<open>
  A program writes to its pages, or traps with any registers; a trap that comes back is a step. That it writes to its own
  pages only is what the page tables are for.
\<close>

inductive program_step :: "(string \<Rightarrow> u32) \<Rightarrow> u32 \<Rightarrow> u32 \<Rightarrow> kernel \<Rightarrow> kernel \<Rightarrow> bool" for lit a F where
  writes: "\<forall>x. b x \<noteq> bytes s x \<longrightarrow> x < USER_TOP \<and> lookup F (mm s) x \<noteq> None \<Longrightarrow> program_step lit a F s (s\<lparr>bytes := b\<rparr>)"
| traps: "tf_cs tf AND 3 = 3 \<Longrightarrow> trap lit a tf s = Entered_user tf' t \<Longrightarrow> program_step lit a F s t"

inductive_cases program_stepE: "program_step lit a F s t"

text \<open>What may differ after steps of environment \<open>e\<close>: its frame, the memory manager, the console, and bytes of the user space.\<close>

definition only_program :: "u32 \<Rightarrow> kernel \<Rightarrow> kernel \<Rightarrow> bool" where
  "only_program e s t \<longleftrightarrow> (\<exists>tf m c b. t = save_frame e tf (s\<lparr>mm := m, con := c, bytes := b\<rparr>) \<and>
     (\<forall>x \<ge> USER_TOP. b x = bytes s x))"

lemma only_program_refl: "only_program e s s"
proof -
  have "s = save_frame e (env_tf (envs s e)) (s\<lparr>mm := mm s, con := con s, bytes := bytes s\<rparr>)"
    by (simp add: save_frame_def update_env_def)
  then show ?thesis unfolding only_program_def by blast
qed

lemma only_program_trans:
  assumes "only_program e s t" "only_program e t u"
  shows "only_program e s u"
proof -
  obtain tf m c b tf' m' c' b' where t: "t = save_frame e tf (s\<lparr>mm := m, con := c, bytes := b\<rparr>)" "\<forall>x \<ge> USER_TOP. b x = bytes s x"
    and u: "u = save_frame e tf' (t\<lparr>mm := m', con := c', bytes := b'\<rparr>)" "\<forall>x \<ge> USER_TOP. b' x = bytes t x"
    using assms unfolding only_program_def by blast
  have "u = save_frame e tf' (s\<lparr>mm := m', con := c', bytes := b'\<rparr>)"
    by (simp add: u(1) t(1) save_frame_def update_env_def)
  moreover have "\<forall>x \<ge> USER_TOP. b' x = bytes s x" using t u(2) by simp
  ultimately show ?thesis unfolding only_program_def by blast
qed

lemma program_inv_frame:
  "program_inv pin F fs e (save_frame e tf s) \<longleftrightarrow> program_inv pin F fs e s"
  "program_inv pin F fs e (s\<lparr>bytes := b\<rparr>) \<longleftrightarrow> program_inv pin F fs e s"
  "program_inv pin F fs e (s\<lparr>con := c\<rparr>) \<longleftrightarrow> program_inv pin F fs e s"
  by (simp_all add: program_inv_def)

lemma user_trap_is_call:
  assumes "tf_cs tf AND 3 = 3" "trap lit a tf s = Entered_user tf' t"
  shows "tf_trapno tf = T_SYSCALL"
proof (rule ccontr)
  assume n: "tf_trapno tf \<noteq> T_SYSCALL"
  have "page_fault_handler lit p k \<noteq> Inr u" for p k u
    by (auto simp: page_fault_handler_def env_destroy_def env_free_def bind_res_Inr_iff split: option.splits)
  then have "trap_dispatch lit p k \<noteq> Returned q u \<and> trap_dispatch lit p k \<noteq> Entered_user x u"
    if "read_frame p k = tf" for p k q u x
    using n unfolding trap_dispatch_def that Let_def
    by (auto simp: no_user_mode(1) env_destroy_def env_free_def bind_res_Inr_iff split: if_splits)
  then show False
    using assms by (auto simp: trap_def save_frame_def [symmetric] split: option.splits elim!: and_then.elims)
qed

text \<open>A trap that comes back was a system call, and of those only \<^verbatim>\<open>sys_allocate_page\<close> changes the memory manager.\<close>

lemma trap_effect:
  assumes inv: "program_inv pin F fs e s" and cs: "tf_cs tf AND 3 = 3" and run: "trap lit a tf s = Entered_user tf' t"
  shows "mm t = mm s \<and> (\<exists>c tf'. t = save_frame e tf' (s\<lparr>con := c\<rparr>)) \<or>
    (\<exists>va perm q u tf'. sys_allocate_page va perm (save_frame e tf s) = Inr (q, u) \<and> t = save_frame e tf' u \<and> mm t = mm u)"
proof -
  let ?k = "save_frame e tf s"
  have s: "curenv s = Some e" "env_status (envs s e) = ENV_RUNNABLE" using inv by (simp_all add: program_inv_def)
  note T = trap_system_call [OF s cs user_trap_is_call [OF cs run], of lit a]
  then obtain r u where u: "syscall (reg_eax (tf_regs tf)) (reg_edx (tf_regs tf)) (reg_ecx (tf_regs tf)) (reg_ebx (tf_regs tf))
        (reg_edi (tf_regs tf)) (reg_esi (tf_regs tf)) ?k = Returned r u" "t = save_frame e (set_eax r tf) u"
    using run syscall_not_user by (auto split: outcome.splits)
  from syscall_effect [OF u(1)] show ?thesis
  proof
    assume "\<exists>c. u = ?k\<lparr>con := c\<rparr>"
    then obtain c where "u = ?k\<lparr>con := c\<rparr>" ..
    then have "t = save_frame e (set_eax r tf) (s\<lparr>con := c\<rparr>)" by (simp add: u(2) save_frame_def update_env_def)
    then show ?thesis by auto
  next
    assume "\<exists>q. sys_allocate_page (reg_edx (tf_regs tf)) (reg_ecx (tf_regs tf)) ?k = Inr (q, u)"
    then show ?thesis using u(2) by fastforce
  qed
qed

lemma trap_keeps_program:
  assumes inv: "program_inv pin F fs e s" and cs: "tf_cs tf AND 3 = 3" and run: "trap lit a tf s = Entered_user tf' t"
  obtains pin' gs where "program_inv pin' F gs e t" "within_pool F fs (mm s) gs (mm t)" "only_program e s t"
proof -
  let ?k = "save_frame e tf s"
  have s: "curenv s = Some e" "env_status (envs s e) = ENV_RUNNABLE" "env_pgdir (envs s e) = kva F" "vm_inv pin F fs (mm s)" "isolated F (mm s)"
    using inv by (simp_all add: program_inv_def)
  from trap_effect [OF inv cs run] consider c x where "t = save_frame e x (s\<lparr>con := c\<rparr>)"
    | va perm q u x where "sys_allocate_page va perm ?k = Inr (q, u)" "t = save_frame e x u" by blast
  then show thesis
  proof cases
    case 1
    have "only_program e s t"
      unfolding only_program_def 1
      by (intro exI [of _ x] exI [of _ "mm s"] exI [of _ c] exI [of _ "bytes s"]) (simp add: save_frame_def update_env_def)
    then show thesis by (intro that [of pin fs]) (use inv in \<open>simp_all add: 1 program_inv_frame\<close>)
  next
    case 2
    have "curenv ?k = Some e" "env_pgdir (envs ?k e) = kva F" "vm_inv pin F fs (mm ?k)" "isolated F (mm ?k)" using s by simp_all
    from sys_allocate_page_pool [OF this 2(1)] obtain m pin' gs
      where m: "u = ?k\<lparr>mm := m\<rparr>" "vm_inv pin' F gs m" "isolated F m" "within_pool F fs (mm ?k) gs m" by blast
    have "only_program e s t"
      unfolding only_program_def 2(2) m(1)
      by (intro exI [of _ x] exI [of _ m] exI [of _ "con s"] exI [of _ "bytes s"]) (simp add: save_frame_def update_env_def)
    moreover have "program_inv pin' F gs e t" using inv m(2,3) by (simp add: 2(2) m(1) program_inv_def)
    ultimately show thesis by (intro that) (use m(4) in \<open>simp_all add: 2(2) m(1)\<close>)
  qed
qed

lemma program_step_keeps:
  assumes "program_step lit a F s t" "program_inv pin F fs e s"
  obtains pin' gs where "program_inv pin' F gs e t" "within_pool F fs (mm s) gs (mm t)" "only_program e s t"
  using assms(1)
proof (cases rule: program_step.cases)
  case (writes b)
  have "only_program e s t"
    unfolding only_program_def writes(1)
    by (intro exI [of _ "env_tf (envs s e)"] exI [of _ "mm s"] exI [of _ "con s"] exI [of _ b])
      (use writes(2) in \<open>auto simp: save_frame_def update_env_def not_le [symmetric]\<close>)
  then show thesis by (intro that [of pin fs]) (use assms(2) in \<open>simp_all add: writes(1) program_inv_frame\<close>)
next
  case (traps tf tf')
  show thesis by (rule trap_keeps_program [OF assms(2) traps]) (rule that)
qed

lemma program_steps_keep:
  assumes "(program_step lit a F)\<^sup>*\<^sup>* s t" "program_inv pin F fs e s"
  shows "\<exists>pin' gs. program_inv pin' F gs e t \<and> within_pool F fs (mm s) gs (mm t) \<and> only_program e s t"
  using assms(1)
proof (induction rule: rtranclp_induct)
  case base
  show ?case using assms(2) within_pool_refl only_program_refl by blast
next
  case (step t u)
  then obtain pin' gs where t: "program_inv pin' F gs e t" "within_pool F fs (mm s) gs (mm t)" "only_program e s t" by blast
  obtain pin'' hs where "program_inv pin'' F hs e u" "within_pool F gs (mm t) hs (mm u)" "only_program e t u"
    by (rule program_step_keeps [OF step.hyps(2) t(1)])
  then show ?case using t within_pool_trans only_program_trans by meson
qed

section \<open>Confinement\<close>

lemma lookup_maps: "va < USER_TOP \<Longrightarrow> lookup F m va = Some f \<Longrightarrow> maps (pte m F) f \<noteq> {}"
  using maps_entry [OF _ PTX_less, of "PDX va" "pte m F" va] by (auto simp: lookup_def PDX_user split: if_splits)

lemma directory_not_pooled: "vm_inv pin F fs m \<Longrightarrow> isolated F m \<Longrightarrow> F \<notin> pool F fs m"
  using vm_inv_frames(5) vm_inv_table(3) by (fastforce simp: pool_def isolated_def tabs_def)

lemma kernel_walk_kept:
  assumes inv: "vm_inv pin F fs m" and iso: "isolated F m" and w: "within_pool F fs m gs m'" and i: "955 \<le> PDX va"
    and g: "PPN (pde m F (PDX va)) < 0x10000" "PPN (pde m F (PDX va)) \<notin> pool F fs m" "PPN (pde m F (PDX va)) \<noteq> F"
  shows "walk F m' va = walk F m va"
proof -
  have "pde m' F (PDX va) = pde m F (PDX va)"
    using w vm_inv_frames(3) [OF inv] i directory_not_pooled [OF inv iso] by (simp add: within_pool_def pde_def)
  moreover have "word_at m' (PPN (pde m F (PDX va))) (PTX va) = word_at m (PPN (pde m F (PDX va))) (PTX va)"
    using w g PTX_less by (simp add: within_pool_def)
  ultimately show ?thesis by (simp add: walk_def Let_def)
qed


text \<open>A program that asks for its identifier and then writes to its only page.\<close>

lemma example_isolated: "isolated 1 vm_example" "lookup 1 vm_example 0x10 = Some 4"
proof -
  show "isolated 1 vm_example" by (auto simp: isolated_def vm_example_counts split: if_splits)
  have "PDX 0x10 = 0" "PTX 0x10 = 0" by (simp_all add: PDX_def PTX_def)
  then show "lookup 1 vm_example 0x10 = Some 4"
    using mapped_entry(1,3) [of 4 6] by (simp add: lookup_def vm_example_entries)
qed

definition after_call_example :: kernel where
  "after_call_example = save_frame 0 (set_eax 0x1000 call_example) (save_frame 0 call_example running_example)"


end
