(* ===== verification/FOS_Create.thy ===== *)
theory FOS_Create
  imports FOS_Program
begin

text \<open>
  Loading a program: the part of \<^verbatim>\<open>env_create\<close> (\<^verbatim>\<open>kern/user_environment.c\<close>) behind its panic. Two pieces of it are exercises that
  the repository leaves open, the directory of the new environment and \<^verbatim>\<open>program_segment_alloc_map\<close>; they
  are parameters here, and \<open>env_create\<close> is the instance in which the first of them panics.
\<close>

section \<open>Copying a segment\<close>

definition program_segment_alloc_map :: "u32 \<Rightarrow> u32 \<Rightarrow> u32 \<Rightarrow> kernel \<Rightarrow> (int \<times> kernel) res" where
  "program_segment_alloc_map e va len s = Inl (Panic ''Function is not implemented yet!'')"

text \<open>The two loops; the pointer goes on from the first to the second.\<close>

function copy_file_bytes :: "bmem \<Rightarrow> u32 \<Rightarrow> u32 \<Rightarrow> u32 \<Rightarrow> u32 \<Rightarrow> bmem \<times> u32" where
  "copy_file_bytes m dst_ptr src_ptr i n =
    (if i < n then copy_file_bytes (m(dst_ptr := m src_ptr)) (dst_ptr + 1) (src_ptr + 1) (i + 1) n else (m, dst_ptr))"
  by pat_completeness auto
termination
  by (relation "measure (\<lambda>(m, d, s, i, n). unat (n - i))") (auto simp: loop_measure)

function zero_rest :: "bmem \<Rightarrow> u32 \<Rightarrow> u32 \<Rightarrow> u32 \<Rightarrow> bmem" where
  "zero_rest m dst_ptr i n = (if i < n then zero_rest (m(dst_ptr := 0)) (dst_ptr + 1) (i + 1) n else m)"
  by pat_completeness auto
termination
  by (relation "measure (\<lambda>(m, d, i, n). unat (n - i))") (auto simp: loop_measure)

declare copy_file_bytes.simps [simp del] zero_rest.simps [simp del]

definition load_program_segment :: "ProgramSegment \<Rightarrow> bmem \<Rightarrow> bmem" where
  "load_program_segment seg m =
    (case copy_file_bytes m (segment_va seg) (segment_start seg) 0 (size_in_file seg) of
       (m, dst_ptr) \<Rightarrow> zero_rest m dst_ptr (size_in_file seg) (size_in_memory seg))"

section \<open>Loading a program\<close>

type_synonym segment_allocator = "u32 \<Rightarrow> u32 \<Rightarrow> u32 \<Rightarrow> kernel \<Rightarrow> (int \<times> kernel) res"

definition set_program_environment :: "nat \<Rightarrow> u32 option \<Rightarrow> kernel \<Rightarrow> kernel" where
  "set_program_environment i e s = s\<lparr>userPrograms := (userPrograms s)[i := (userPrograms s ! i)\<lparr>environment := e\<rparr>]\<rparr>"

lemma set_program_environment_simps [simp]:
  "cr3 (set_program_environment i e s) = cr3 s" "envs (set_program_environment i e s) = envs s"
  by (simp_all add: set_program_environment_def)

text \<open>What every failure for want of memory does.\<close>

definition unload_program :: "nat \<Rightarrow> u32 \<Rightarrow> kernel \<Rightarrow> (nat option \<times> kernel) res" where
  "unload_program i e s =
    bind_res (cprintf (''Load program failed: no enough memory'' @ [CHR 0x0A, CHR 0x0A] @
        ''Program will be unloaded now...'' @ [CHR 0x0A, CHR 0x0A]) [] s) (\<lambda>s.
      bind_res (env_free (Some e) s) (\<lambda>s. Inr (None, set_program_environment i None s)))"

text \<open>The loop over the segments: with \<open>k\<close> the rest of the function is run, unless a segment finds no memory.\<close>

partial_function (option) load_program_segments ::
    "segment_allocator \<Rightarrow> nat \<Rightarrow> u32 \<Rightarrow> u32 \<Rightarrow> (kernel \<Rightarrow> (nat option \<times> kernel) res) \<Rightarrow> ProgramSegment option \<Rightarrow> kernel \<Rightarrow>
      (nat option \<times> kernel) res option" where
  "load_program_segments alloc i e p k sg s =
    (case sg of
       None \<Rightarrow> Some (k s)
     | Some seg \<Rightarrow>
         (case alloc e (segment_va seg) (size_in_memory seg) s of
            Inl x \<Rightarrow> Some (Inl x)
          | Inr (ret, s) \<Rightarrow>
              if ret = E_NO_MEM then Some (unload_program i e s)
              else let s = s\<lparr>bytes := load_program_segment seg (bytes s)\<rparr>
                in (case PROGRAM_SEGMENT_NEXT seg p (bytes s) of
                      Inl x \<Rightarrow> Some (Inl x)
                    | Inr sg \<Rightarrow> load_program_segments alloc i e p k sg s)))"

text \<open>From the entry point on: the stack of the program, and the return to the old page directory.\<close>

definition finish_program :: "nat \<Rightarrow> u32 \<Rightarrow> u32 \<Rightarrow> kernel \<Rightarrow> (nat option \<times> kernel) res" where
  "finish_program i e kern_phys_pgdir s =
    bind_res (set_environment_entry_point (Some i) s) (\<lambda>s.
    bind_res (on_mm (allocate_frame (mm s)) s) (\<lambda>((r, pp), s).
      if r = E_NO_MEM then unload_program i e s
      else (case pp of
          None \<Rightarrow> Inl Null_deref
        | Some f \<Rightarrow>
            let ptr_user_stack_bottom = USTACKTOP - PAGE_SIZE
            in bind_res (on_mm (map_frame (env_pgdir (envs s e)) f ptr_user_stack_bottom (PERM_USER OR PERM_WRITEABLE) (mm s)) s)
                 (\<lambda>(ret, s).
                   if ret = E_NO_MEM then unload_program i e s
                   else let s = s\<lparr>bytes := snd (memset (bytes s) ptr_user_stack_bottom 0 PAGE_SIZE)\<rparr>
                     in Inr (Some i, lcr3 kern_phys_pgdir s)))))"

text \<open>Everything after the directory is made, for environment \<open>e\<close> and program \<open>i\<close>.\<close>

definition load_program :: "segment_allocator \<Rightarrow> ProgramSegment \<Rightarrow> nat \<Rightarrow> u32 \<Rightarrow> kernel \<Rightarrow> (nat option \<times> kernel) res" where
  "load_program alloc junk i e s =
    bind_res (complete_environment_initialization e s) (\<lambda>s.
      let s = set_program_environment i (Some e) s;
          kern_phys_pgdir = rcr3 s;
          s = lcr3 (env_cr3 (envs s e)) s;
          p = ptr_start (userPrograms s ! i)
      in bind_res (PROGRAM_SEGMENT_FIRST junk p (bytes s)) (\<lambda>first.
         bind_res (loop_res (load_program_segments alloc i e p (finish_program i e kern_phys_pgdir)
             (if segment_id first = -1 then None else Some first) s))
           (\<lambda>r. r)))"

text \<open>\<open>make_directory\<close> answers None when there is no free frame.\<close>

definition env_create_with ::
    "(u32 \<Rightarrow> kernel \<Rightarrow> (bool \<times> kernel) res) \<Rightarrow> segment_allocator \<Rightarrow> ProgramSegment \<Rightarrow> u32 \<Rightarrow> kernel \<Rightarrow> (nat option \<times> kernel) res" where
  "env_create_with make_directory alloc junk user_program_name s =
    bind_res (get_user_program_info user_program_name s) (\<lambda>(u, s).
      case u of
        None \<Rightarrow> Inr (None, s)
      | Some i \<Rightarrow>
          (case allocate_environment s of (r, e) \<Rightarrow>
            if r = E_NO_FREE_ENV then Inr (None, s)
            else (case e of
                None \<Rightarrow> Inl Null_deref
              | Some e \<Rightarrow> bind_res (make_directory e s) (\<lambda>(ok, s).
                  if ok then load_program alloc junk i e s else Inr (None, s)))))"

text \<open>As the code stands, the directory is a panic.\<close>

lemma env_create_instance:
  "env_create = env_create_with (\<lambda>e s. Inl (Panic ''env_create: directory creation is not implemented yet!''))
     program_segment_alloc_map junk"
  unfolding fun_eq_iff env_create_def env_create_with_def
  by (intro allI arg_cong [of _ _ "bind_res _"] ext)
    (auto simp: allocate_environment_def E_NO_FREE_ENV_def split: option.split prod.split)

section \<open>The bytes of a segment\<close>

lemma copy_file_bytes_eq:
  "i \<le> n \<Longrightarrow> copy_file_bytes m d s i n = (copy_up m d s (n - i), d + (n - i))"
proof (induction m d s i n rule: copy_file_bytes.induct)
  case (1 m d s i n)
  show ?case
  proof (cases "i < n")
    case True
    have "i + 1 \<le> n" using loop_step [OF True] True by (simp add: word_le_nat_alt word_less_nat_alt)
    moreover have "n - i > 0" using True by (simp add: word_less_nat_alt unat_sub_if')
    ultimately show ?thesis
      using "1.IH" [OF True] True
      by (subst copy_file_bytes.simps, subst copy_up.simps) (simp add: diff_diff_eq fun_upd_def)
  next
    case False
    then have "n = i" using "1.prems" by simp
    then show ?thesis by (subst copy_file_bytes.simps, subst copy_up.simps) simp
  qed
qed

lemma zero_rest_eq: "i \<le> n \<Longrightarrow> zero_rest m d i n = (\<lambda>a. if a - d < n - i then 0 else m a)"
proof (induction m d i n rule: zero_rest.induct)
  case (1 m d i n)
  show ?case
  proof (cases "i < n")
    case True
    have "i + 1 \<le> n" using loop_step [OF True] True by (simp add: word_le_nat_alt word_less_nat_alt)
    from "1.IH" [OF True this] have IH: "zero_rest (m(d := 0)) (d + 1) (i + 1) n =
        (\<lambda>a. if a - (d + 1) < n - (i + 1) then 0 else (m(d := 0)) a)" .
    have pos: "n - i > 0" using True by (simp add: word_less_nat_alt unat_sub_if')
    have "a - (d + 1) < n - (i + 1) \<longleftrightarrow> a \<noteq> d \<and> a - d < n - i" for a
      using pred_less_pred [OF pos, of "a - d"] by (simp add: diff_diff_eq)
    then show ?thesis using True pos by (subst zero_rest.simps) (auto simp: IH fun_eq_iff)
  next
    case False
    then have "n = i" using "1.prems" by simp
    then show ?thesis by (subst zero_rest.simps) simp
  qed
qed

lemma word_interval:
  fixes x f n :: "'a::len word"
  assumes "f \<le> n"
  shows "x - f < n - f \<longleftrightarrow> f \<le> x \<and> x < n"
proof -
  have n: "unat (n - f) = unat n - unat f" "unat f \<le> unat n" using assms by (simp_all add: unat_sub_if' word_le_nat_alt)
  show ?thesis
  proof (cases "f \<le> x")
    case True
    then show ?thesis using n by (auto simp: word_le_nat_alt word_less_nat_alt unat_sub_if')
  next
    case False
    then have "unat (x - f) = unat x + 2 ^ LENGTH('a) - unat f" by (simp add: unat_sub_if' word_le_nat_alt)
    moreover have "unat n < 2 ^ LENGTH('a)" by (rule unsigned_less)
    ultimately have "unat (n - f) \<le> unat (x - f)" using n by linarith
    with False show ?thesis by (simp add: word_less_nat_alt)
  qed
qed

text \<open>
  A segment that can be loaded: it lies below the stack of the program, its bytes come from the kernel's part of memory, and it
  is not larger in the file than in memory.
\<close>

definition segment_ok :: "ProgramSegment \<Rightarrow> bool" where
  "segment_ok seg \<longleftrightarrow> size_in_file seg \<le> size_in_memory seg \<and>
     unat (segment_va seg) + unat (size_in_memory seg) \<le> unat (USTACKTOP - PAGE_SIZE) \<and>
     (\<forall>x < size_in_file seg. USER_TOP \<le> segment_start seg + x)"

lemma load_program_segment_eq:
  assumes "segment_ok seg"
  shows "load_program_segment seg m = (\<lambda>a. let x = a - segment_va seg in
    if x < size_in_file seg then m (segment_start seg + x) else if x < size_in_memory seg then 0 else m a)"
proof -
  let ?f = "size_in_file seg" and ?va = "segment_va seg" and ?st = "segment_start seg"
  have le: "?f \<le> size_in_memory seg" and top: "unat ?va + unat (size_in_memory seg) \<le> unat (USTACKTOP - PAGE_SIZE)"
    and src: "\<forall>x < ?f. USER_TOP \<le> ?st + x" using assms by (simp_all add: segment_ok_def)
  have "?va = ?st \<or> ?f \<le> ?va - ?st"
  proof (rule ccontr)
    assume n: "\<not> (?va = ?st \<or> ?f \<le> ?va - ?st)"
    then have "USER_TOP \<le> ?st + (?va - ?st)" using src by (simp only: de_Morgan_disj not_le)
    then show False using top by (simp add: word_le_nat_alt)
  qed
  then have "copy_up m ?va ?st ?f = (\<lambda>a. if a - ?va < ?f then m (?st + (a - ?va)) else m a)"
    by (rule copy_up_eq)
  moreover have "a - (?va + ?f) < size_in_memory seg - ?f \<longleftrightarrow> ?f \<le> a - ?va \<and> a - ?va < size_in_memory seg" for a
    using word_interval [OF le, of "a - ?va"] by (simp add: diff_diff_eq)
  ultimately show ?thesis
    by (auto simp: load_program_segment_def copy_file_bytes_eq zero_rest_eq [OF le] Let_def fun_eq_iff)
qed

lemma load_program_segment_above:
  assumes "segment_ok seg" "USTACKTOP - PAGE_SIZE \<le> a"
  shows "load_program_segment seg m a = m a"
proof -
  have t: "unat (segment_va seg) + unat (size_in_memory seg) \<le> unat a" "size_in_file seg \<le> size_in_memory seg"
    using assms by (auto simp: segment_ok_def word_le_nat_alt)
  then have "\<not> a - segment_va seg < size_in_memory seg" by (simp add: word_less_nat_alt unat_sub_if')
  then show ?thesis using t(2) by (auto simp: load_program_segment_eq [OF assms(1)] Let_def)
qed

text \<open>Segments that do not overlap.\<close>

definition apart :: "ProgramSegment \<Rightarrow> ProgramSegment \<Rightarrow> bool" where
  "apart a b \<longleftrightarrow> unat (segment_va a) + unat (size_in_memory a) \<le> unat (segment_va b) \<or>
     unat (segment_va b) + unat (size_in_memory b) \<le> unat (segment_va a)"

lemma load_program_segment_apart:
  assumes "segment_ok seg" "segment_ok sg" "apart sg seg" "x < size_in_memory sg"
  shows "load_program_segment seg m (segment_va sg + x) = m (segment_va sg + x)"
proof -
  have u: "unat (segment_va sg + x) = unat (segment_va sg) + unat x"
    "unat (segment_va seg) + unat (size_in_memory seg) < 2 ^ 32" "size_in_file seg \<le> size_in_memory seg"
    using assms(1,2,4) by (auto simp: segment_ok_def word_less_nat_alt unat_word_ariths)
  then have "\<not> segment_va sg + x - segment_va seg < size_in_memory seg"
    using assms(3,4) unat_u32_less [of "segment_va seg"]
    by (auto simp: apart_def word_less_nat_alt unat_sub_if')
  then show ?thesis using u(3) by (auto simp: load_program_segment_eq [OF assms(1)] Let_def)
qed

text \<open>What the memory of a segment holds when all segments are loaded.\<close>

definition segment_loaded :: "bmem \<Rightarrow> ProgramSegment \<Rightarrow> bmem \<Rightarrow> bool" where
  "segment_loaded m seg m' \<longleftrightarrow> (\<forall>x < size_in_memory seg.
     m' (segment_va seg + x) = (if x < size_in_file seg then m (segment_start seg + x) else 0))"

lemma load_all_segments:
  assumes "\<forall>sg \<in> set segs. segment_ok sg" "sorted_wrt apart segs"
  shows "(\<forall>a \<ge> USTACKTOP - PAGE_SIZE. fold load_program_segment segs m a = m a) \<and>
    (\<forall>sg \<in> set segs. segment_loaded m sg (fold load_program_segment segs m))"
  using assms
proof (induction segs rule: rev_induct)
  case (snoc seg segs)
  let ?m = "fold load_program_segment segs m"
  have ok: "segment_ok seg" and a: "\<forall>sg \<in> set segs. apart sg seg"
    and IH: "\<forall>a \<ge> USTACKTOP - PAGE_SIZE. ?m a = m a" "\<forall>sg \<in> set segs. segment_loaded m sg ?m"
    using snoc by (auto simp: sorted_wrt_append)
  have "segment_loaded m seg (load_program_segment seg ?m)"
  proof -
    have "?m (segment_start seg + x) = m (segment_start seg + x)" if "x < size_in_file seg" for x
    proof -
      have "USER_TOP \<le> segment_start seg + x" using ok that by (simp add: segment_ok_def)
      then have "USTACKTOP - PAGE_SIZE \<le> segment_start seg + x" by (rule order_trans [rotated]) simp
      then show ?thesis using IH(1) by blast
    qed
    then show ?thesis by (simp add: segment_loaded_def load_program_segment_eq [OF ok] Let_def)
  qed
  moreover have "segment_loaded m sg (load_program_segment seg ?m)" if "sg \<in> set segs" for sg
    using IH(2) that a snoc.prems(1) load_program_segment_apart [OF ok] by (simp add: segment_loaded_def)
  ultimately show ?case using IH(1) load_program_segment_above [OF ok] by auto
qed simp

section \<open>The headers while segments are loaded\<close>

text \<open>An image whose headers lie in the kernel's part of memory and whose segments can be loaded.\<close>

definition image_segments :: "bmem \<Rightarrow> u32 \<Rightarrow> ProgramSegment list" where
  "image_segments m p = map (segment_of m p) (filter (loadable m p) (word_range 0 (header_count m p)))"

definition image_ok :: "bmem \<Rightarrow> u32 \<Rightarrow> bool" where
  "image_ok m p \<longleftrightarrow> e_magic m p = ELF_MAGIC \<and> (\<forall>x < 52. USER_TOP \<le> p + x) \<and>
     (\<forall>i \<le> header_count m p. \<forall>x < 32. USER_TOP \<le> proghdr m p i + x) \<and>
     (\<forall>sg \<in> set (image_segments m p). segment_ok sg) \<and> sorted_wrt apart (image_segments m p)"

definition same_above :: "bmem \<Rightarrow> bmem \<Rightarrow> bool" where
  "same_above m m' \<longleftrightarrow> (\<forall>a \<ge> USER_TOP. m' a = m a)"

lemma above_stack: "USER_TOP \<le> a \<Longrightarrow> USTACKTOP - PAGE_SIZE \<le> a"
proof -
  have "USTACKTOP - PAGE_SIZE \<le> USER_TOP" by simp
  then show "USER_TOP \<le> a \<Longrightarrow> USTACKTOP - PAGE_SIZE \<le> a" by (rule order_trans)
qed

lemma same_above_load: "same_above m m' \<Longrightarrow> segment_ok sg \<Longrightarrow> same_above m (load_program_segment sg m')"
proof -
  assume "same_above m m'" "segment_ok sg"
  then have "load_program_segment sg m' a = m a" if "USER_TOP \<le> a" for a
    using that load_program_segment_above [OF _ above_stack [OF that]] unfolding same_above_def by metis
  then show ?thesis unfolding same_above_def by blast
qed

lemma load_same:
  assumes "same_above m m'" "\<forall>x < n. USER_TOP \<le> b + x" "k < n" "k + 1 < n"
  shows "load16 m' (b + k) = load16 m (b + k)"
    "k + 2 < n \<Longrightarrow> k + 3 < n \<Longrightarrow> load32 m' (b + k) = load32 m (b + k)"
proof -
  have s: "m' (b + x) = m (b + x)" if "x < n" for x using assms(1,2) that by (simp add: same_above_def)
  note e = s [OF assms(3)] s [OF assms(4)]
  show "load16 m' (b + k) = load16 m (b + k)" using e by (simp add: load16_def add.assoc)
  show "load32 m' (b + k) = load32 m (b + k)" if "k + 2 < n" "k + 3 < n"
    using e s [OF that(1)] s [OF that(2)] by (simp add: load32_def load16_def add.assoc)
qed

lemma elf_header_same:
  assumes "same_above m m'" "\<forall>x < 52. USER_TOP \<le> p + x"
  shows "e_magic m' p = e_magic m p" "e_entry m' p = e_entry m p" "e_phoff m' p = e_phoff m p" "e_phnum m' p = e_phnum m p"
  using load_same(2) [OF assms, of 0] load_same(2) [OF assms, of 24] load_same(2) [OF assms, of 28] load_same(1) [OF assms, of 44]
  by (simp_all add: e_magic_def e_entry_def e_phoff_def e_phnum_def)

lemma program_header_same:
  assumes "same_above m m'" "\<forall>x < 32. USER_TOP \<le> ph + x"
  shows "p_type m' ph = p_type m ph" "p_offset m' ph = p_offset m ph" "p_va m' ph = p_va m ph" "p_filesz m' ph = p_filesz m ph"
    "p_memsz m' ph = p_memsz m ph"
  using load_same(2) [OF assms, of 0] load_same(2) [OF assms, of 4] load_same(2) [OF assms, of 8] load_same(2) [OF assms, of 16]
    load_same(2) [OF assms, of 20]
  by (simp_all add: p_type_def p_offset_def p_va_def p_filesz_def p_memsz_def)

lemma skip_segments_same:
  assumes "i \<le> header_count m p" "header_count m' p = header_count m p"
    and "\<And>i. i \<le> header_count m p \<Longrightarrow> p_type m' (proghdr m' p i) = p_type m (proghdr m p i)"
  shows "skip_segments m' p i = skip_segments m p i"
  using assms
proof (induction m p i rule: skip_segments.induct)
  case (1 m p i)
  let ?n = "header_count m p"
  have step: "skip_segments x p i = (if p_type x (proghdr x p i) \<noteq> ELF_PROG_LOAD \<and> i < header_count x p
      then skip_segments x p (i + 1) else i)" for x
    by (subst skip_segments.simps) (simp add: header_count_def)
  show ?case
  proof (cases "p_type m (proghdr m p i) \<noteq> ELF_PROG_LOAD \<and> i < ?n")
    case True
    then have "i + 1 \<le> ?n" using loop_step [of i ?n] by (simp add: word_le_nat_alt word_less_nat_alt)
    with "1.IH" [folded header_count_def, OF True] have "skip_segments m' p (i + 1) = skip_segments m p (i + 1)"
      using "1.prems"(2,3) by blast
    then show ?thesis using True "1.prems" step by simp
  next
    case False
    then show ?thesis using "1.prems" step by auto
  qed
qed

lemma headers_same:
  assumes "image_ok m p" "same_above m m'"
  shows "e_magic m' p = ELF_MAGIC" "header_count m' p = header_count m p" "e_entry m' p = e_entry m p"
    "i \<le> header_count m p \<Longrightarrow> segment_of m' p i = segment_of m p i"
    "i \<le> header_count m p \<Longrightarrow> skip_segments m' p i = skip_segments m p i"
proof -
  have k: "\<forall>x < 52. USER_TOP \<le> p + x" and h: "\<And>i. i \<le> header_count m p \<Longrightarrow> \<forall>x < 32. USER_TOP \<le> proghdr m p i + x"
    using assms(1) by (simp_all add: image_ok_def)
  note E = elf_header_same [OF assms(2) k]
  show "e_magic m' p = ELF_MAGIC" using E assms(1) by (simp add: image_ok_def)
  show c: "header_count m' p = header_count m p" using E by (simp add: header_count_def)
  show "e_entry m' p = e_entry m p" by (rule E)
  have ph: "proghdr m' p i = proghdr m p i" for i using E by (simp add: proghdr_def)
  note P = program_header_same [OF assms(2) h]
  show "segment_of m' p i = segment_of m p i" if "i \<le> header_count m p"
    using P [OF that] by (simp add: segment_of_def ph Let_def)
  show "skip_segments m' p i = skip_segments m p i" if "i \<le> header_count m p"
    by (rule skip_segments_same [OF that c]) (simp add: P(1) ph)
qed

lemma next_segment:
  assumes "image_ok m p" "same_above m m'" "j < header_count m p"
  shows "PROGRAM_SEGMENT_NEXT (segment_of m p j) p m' = Inr
    (let k = skip_segments m p (j + 1) in if k < header_count m p then Some (segment_of m p k) else None)"
proof -
  have id: "segment_id (segment_of m p j) = j" by (simp add: segment_of_def Let_def)
  note H = headers_same [OF assms(1,2)]
  have "j + 1 \<le> header_count m p"
    using loop_step [OF assms(3)] assms(3) by (simp add: word_le_nat_alt word_less_nat_alt)
  then have "skip_segments m' p (j + 1) = skip_segments m p (j + 1)" by (rule H(5))
  moreover have "j < header_count m' p" using assms(3) H(2) by simp
  ultimately show ?thesis
    using PROGRAM_SEGMENT_NEXT_eq [OF H(1), of "segment_of m p j", unfolded id] H(2,4)
    by (simp add: Let_def)
qed

section \<open>Loading the segments\<close>

text \<open>The pages an address range touches.\<close>

definition range_pages :: "u32 \<Rightarrow> u32 \<Rightarrow> nat" where
  "range_pages va len = (unat va mod 4096 + unat len + 4095) div 4096"

definition range_mapped :: "u32 \<Rightarrow> mm_state \<Rightarrow> u32 \<Rightarrow> u32 \<Rightarrow> bool" where
  "range_mapped F m va len \<longleftrightarrow> (\<forall>x < len. lookup F m (va + x) \<noteq> None)"

definition keeps_mapped :: "u32 \<Rightarrow> mm_state \<Rightarrow> mm_state \<Rightarrow> bool" where
  "keeps_mapped F m m' \<longleftrightarrow> (\<forall>v < USER_TOP. lookup F m v \<noteq> None \<longrightarrow> lookup F m' v \<noteq> None)"

lemma keeps_mapped_trans: "keeps_mapped F m m' \<Longrightarrow> keeps_mapped F m' m'' \<Longrightarrow> keeps_mapped F m m''"
  by (simp add: keeps_mapped_def)

lemma keeps_range:
  assumes "range_mapped F m va len" "keeps_mapped F m m'" "unat va + unat len \<le> unat USER_TOP"
  shows "range_mapped F m' va len"
proof -
  have "va + x < USER_TOP" if "x < len" for x
  proof -
    have "unat va + unat x < unat USER_TOP" using that assms(3) by (simp add: word_less_nat_alt)
    moreover then have "unat (va + x) = unat va + unat x" using unat_u32_less [of USER_TOP] by (simp add: unat_word_ariths)
    ultimately show ?thesis by (simp only: word_less_nat_alt)
  qed
  then show ?thesis using assms(1,2) by (simp add: range_mapped_def keeps_mapped_def)
qed

text \<open>
  What the comment of \<^verbatim>\<open>program_segment_alloc_map\<close> promises, for the environment \<open>e\<close> with the directory in frame \<open>F\<close>: with enough
  frames (one for each page and one for its table) every page of the range is mapped, nothing that was mapped is
  lost, and the bytes of memory are left alone.
\<close>

definition allocates :: "segment_allocator \<Rightarrow> (u32 \<Rightarrow> nat) \<Rightarrow> u32 \<Rightarrow> u32 \<Rightarrow> bool" where
  "allocates alloc pin F e \<longleftrightarrow> (\<forall>va len s fs.
     unat va + unat len \<le> unat USER_TOP \<and> env_pgdir (envs s e) = kva F \<and> vm_inv pin F fs (mm s) \<and> isolated F (mm s) \<and>
     2 * range_pages va len \<le> length fs \<longrightarrow>
     (\<exists>m gs. alloc e va len s = Inr (0, s\<lparr>mm := m\<rparr>) \<and> vm_inv pin F gs m \<and> isolated F m \<and>
       length fs \<le> length gs + 2 * range_pages va len \<and> range_mapped F m va len \<and> keeps_mapped F (mm s) m))"

definition frames_needed :: "ProgramSegment list \<Rightarrow> nat" where
  "frames_needed segs = (\<Sum>sg \<leftarrow> segs. 2 * range_pages (segment_va sg) (size_in_memory sg))"

lemma segment_in_user_space: "segment_ok sg \<Longrightarrow> unat (segment_va sg) + unat (size_in_memory sg) \<le> unat USER_TOP"
  by (simp add: segment_ok_def)

lemma load_segments_step:
  assumes "allocates alloc pin F e" "segment_ok sg" "vm_inv pin F fs (mm s)" "isolated F (mm s)" "env_pgdir (envs s e) = kva F"
    and "frames_needed (sg # segs) \<le> length fs"
  obtains m gs where "alloc e (segment_va sg) (size_in_memory sg) s = Inr (0, s\<lparr>mm := m\<rparr>)" "vm_inv pin F gs m" "isolated F m"
    "length fs \<le> length gs + frames_needed [sg]" "frames_needed segs \<le> length gs"
    "range_mapped F m (segment_va sg) (size_in_memory sg)" "keeps_mapped F (mm s) m"
proof -
  let ?k = "2 * range_pages (segment_va sg) (size_in_memory sg)"
  have k: "frames_needed [sg] = ?k" "frames_needed (sg # segs) = ?k + frames_needed segs" by (simp_all add: frames_needed_def)
  then have "?k \<le> length fs" using assms(6) by simp
  then obtain m gs where "alloc e (segment_va sg) (size_in_memory sg) s = Inr (0, s\<lparr>mm := m\<rparr>)" "vm_inv pin F gs m" "isolated F m"
    "length fs \<le> length gs + ?k" "range_mapped F m (segment_va sg) (size_in_memory sg)" "keeps_mapped F (mm s) m"
    using assms(1-5) segment_in_user_space [OF assms(2)] unfolding allocates_def by blast
  then show thesis using that k assms(6) by simp
qed

lemma load_program_segments_all:
  assumes img: "image_ok m0 p" and al: "allocates alloc pin F e"
    and "filter (loadable m0 p) (word_range i (header_count m0 p)) = js" "i \<le> header_count m0 p" "same_above m0 (bytes s)"
    and "vm_inv pin F fs (mm s)" "isolated F (mm s)" "env_pgdir (envs s e) = kva F"
    and "\<forall>sg \<in> set (map (segment_of m0 p) js). segment_ok sg" "frames_needed (map (segment_of m0 p) js) \<le> length fs"
  shows "\<exists>m gs. (\<forall>c. load_program_segments alloc i0 e p c
      (let k = skip_segments m0 p i in if k < header_count m0 p then Some (segment_of m0 p k) else None) s =
      Some (c (s\<lparr>mm := m, bytes := fold load_program_segment (map (segment_of m0 p) js) (bytes s)\<rparr>))) \<and>
    vm_inv pin F gs m \<and> isolated F m \<and> length fs \<le> length gs + frames_needed (map (segment_of m0 p) js) \<and>
    (\<forall>sg \<in> set (map (segment_of m0 p) js). range_mapped F m (segment_va sg) (size_in_memory sg)) \<and> keeps_mapped F (mm s) m"
  using assms(3-)
proof (induction js arbitrary: i s fs)
  case Nil
  have "\<not> skip_segments m0 p i < header_count m0 p" using skip_segments_finds [OF Nil.prems(2)] Nil.prems(1) by auto
  then show ?case
    using Nil.prems by (subst load_program_segments.simps) (auto simp: frames_needed_def keeps_mapped_def intro!: exI [of _ "mm s"])
next
  case (Cons j js)
  let ?n = "header_count m0 p" and ?sg = "segment_of m0 p j" and ?segs = "map (segment_of m0 p) js"
  have j: "skip_segments m0 p i = j" "j < ?n" "filter (loadable m0 p) (word_range (j + 1) ?n) = js"
    using skip_segments_finds [OF Cons.prems(2)] Cons.prems(1) by (auto split: if_splits)
  have ok: "segment_ok ?sg" and j1: "j + 1 \<le> ?n"
    using Cons.prems(7) loop_step [OF j(2)] j(2) by (simp_all add: word_le_nat_alt word_less_nat_alt)
  obtain m gs where m: "alloc e (segment_va ?sg) (size_in_memory ?sg) s = Inr (0, s\<lparr>mm := m\<rparr>)" "vm_inv pin F gs m" "isolated F m"
    "length fs \<le> length gs + frames_needed [?sg]" "frames_needed ?segs \<le> length gs"
    "range_mapped F m (segment_va ?sg) (size_in_memory ?sg)" "keeps_mapped F (mm s) m"
    by (rule load_segments_step [OF al ok Cons.prems(4,5,6), of ?segs]) (use Cons.prems(8) in simp_all)
  let ?s = "s\<lparr>mm := m, bytes := load_program_segment ?sg (bytes s)\<rparr>"
  have above: "same_above m0 (bytes ?s)"
    using same_above_load [OF Cons.prems(3) ok] by simp
  have step: "load_program_segments alloc i0 e p c (Some ?sg) s = load_program_segments alloc i0 e p c
      (let k = skip_segments m0 p (j + 1) in if k < ?n then Some (segment_of m0 p k) else None) ?s" for c
    using m(1) next_segment [OF img above j(2)]
    by (subst load_program_segments.simps) (simp add: E_NO_MEM_def Let_def)
  from Cons.IH [of "j + 1" ?s gs, OF j(3) j1 above] m(2,3,5) Cons.prems(6,7)
  obtain m' hs where m': "\<forall>c. load_program_segments alloc i0 e p c
      (let k = skip_segments m0 p (j + 1) in if k < ?n then Some (segment_of m0 p k) else None) ?s =
      Some (c (?s\<lparr>mm := m', bytes := fold load_program_segment ?segs (bytes ?s)\<rparr>))"
    "vm_inv pin F hs m'" "isolated F m'" "length gs \<le> length hs + frames_needed ?segs"
    "\<forall>sg \<in> set ?segs. range_mapped F m' (segment_va sg) (size_in_memory sg)" "keeps_mapped F m m'"
    by auto
  have "range_mapped F m' (segment_va ?sg) (size_in_memory ?sg)"
    by (rule keeps_range [OF m(6) m'(6) segment_in_user_space [OF ok]])
  moreover have "length fs \<le> length hs + frames_needed (?sg # ?segs)" using m(4) m'(4) by (simp add: frames_needed_def)
  ultimately show ?case
    using m' step j(1,2) keeps_mapped_trans [OF m(7) m'(6)] by (intro exI [of _ m'] exI [of _ hs]) (simp add: Let_def)
qed

section \<open>An allocator that keeps the promise\<close>

text \<open>Page by page: a page that is not mapped gets the next free frame.\<close>

definition grant_page :: "u32 \<Rightarrow> u32 \<Rightarrow> mm_state \<Rightarrow> (int \<times> mm_state) res" where
  "grant_page F va m =
    (if lookup F m va \<noteq> None then Inr (0, m)
     else bind_res (allocate_frame m) (\<lambda>((r, f), m).
       case f of None \<Rightarrow> Inr (E_NO_MEM, m) | Some f \<Rightarrow> map_frame (kva F) f va (PERM_USER OR PERM_WRITEABLE) m))"

fun grant_pages :: "u32 \<Rightarrow> nat \<Rightarrow> u32 \<Rightarrow> mm_state \<Rightarrow> (int \<times> mm_state) res" where
  "grant_pages F 0 va m = Inr (0, m)"
| "grant_pages F (Suc n) va m =
    bind_res (grant_page F va m) (\<lambda>(r, m). if r \<noteq> 0 then Inr (r, m) else grant_pages F n (va + PAGE_SIZE) m)"

definition grant :: "u32 \<Rightarrow> segment_allocator" where
  "grant F e va len s = on_mm (grant_pages F (range_pages va len) (va - va mod PAGE_SIZE) (mm s)) s"

lemma lookup_page: "PPN v = PPN va \<Longrightarrow> lookup F m v = lookup F m va"
  using same_page_iff [of v va] by (simp add: lookup_def)

lemma fresh_frame:
  assumes inv: "vm_inv pin F (f # fs) m" and iso: "isolated F m"
  obtains m' where "allocate_frame m = Inr ((0, Some f), m')" "vm_inv pin F fs m'" "isolated F m'" "f < number_of_frames m'" "f \<notin> set fs"
    "references m' f = 0" "\<forall>v. lookup F m' v = lookup F m v"
proof -
  obtain m' where a: "allocate_frame m = Inr ((0, Some f), m')" "vm_inv pin F fs m'" "references m' f = 0" "f < number_of_frames m'"
    "f \<notin> set fs" "kmem m' = kmem m"
    by (rule allocate_page_frame [OF inv])
  have w: "pde m' F i = pde m F i" "pte m' F i j = pte m F i j" for i j using a(6) by (simp_all add: pde_def pte_def word_at_def)
  have "isolated F m'" using isolated_cong(1) [of m' F m] w iso by simp
  then show thesis by (rule that [OF a(1,2) _ a(4,5,3)]) (simp add: lookup_def w)
qed

lemma map_fresh_frame:
  assumes inv: "vm_inv pin F (f # fs) m" and iso: "isolated F m" and va: "va < USER_TOP" and fs: "fs \<noteq> []" and perm: "perm < 0x1000"
  obtains m1 m' gs where "allocate_frame m = Inr ((0, Some f), m1)" "map_frame (kva F) f va perm m1 = Inr (0, m')"
    "vm_inv pin F gs m'" "isolated F m'" "length fs \<le> length gs + 1"
    "\<forall>v < USER_TOP. lookup F m' v = (if PPN v = PPN va then Some f else lookup F m v)"
proof -
  obtain m1 where a: "allocate_frame m = Inr ((0, Some f), m1)" "vm_inv pin F fs m1" "isolated F m1" "f < number_of_frames m1"
    "f \<notin> set fs" "references m1 f = 0" "\<forall>v. lookup F m1 v = lookup F m v"
    by (rule fresh_frame [OF inv iso])
  have "PDX va < 955" using va by (simp only: PDX_user)
  then obtain m' gs where "map_frame (kva F) f va perm m1 = Inr (0, m')" "vm_inv pin F gs m'" "isolated F m'"
    "\<forall>v < USER_TOP. lookup F m' v = (if PPN v = PPN va then Some f else lookup F m1 v)" "length fs \<le> length gs + 1"
    by (rule map_fresh_pool [OF a(2,3) _ perm a(4,5,6) disjI2 [OF fs]]) blast
  then show thesis using that a(1,7) by simp
qed

lemma grant_page_grants:
  assumes "vm_inv pin F fs m" "isolated F m" "va < USER_TOP" "2 \<le> length fs"
  obtains m' gs where "grant_page F va m = Inr (0, m')" "vm_inv pin F gs m'" "isolated F m'" "length fs \<le> length gs + 2"
    "keeps_mapped F m m'" "\<forall>v. PPN v = PPN va \<longrightarrow> lookup F m' v \<noteq> None"
proof (cases "lookup F m va = None")
  case False
  then have "\<forall>v. PPN v = PPN va \<longrightarrow> lookup F m v \<noteq> None" using lookup_page by metis
  then show thesis using False assms(1,2) by (intro that [of m fs]) (simp_all add: grant_page_def keeps_mapped_def)
next
  case True
  obtain f gs where fs: "fs = f # gs" "gs \<noteq> []" using assms(4) by (cases fs; cases "tl fs") auto
  have perm: "(PERM_USER OR PERM_WRITEABLE) < 0x1000" by simp
  obtain m1 m' hs where m': "allocate_frame m = Inr ((0, Some f), m1)"
    "map_frame (kva F) f va (PERM_USER OR PERM_WRITEABLE) m1 = Inr (0, m')" "vm_inv pin F hs m'" "isolated F m'" "length gs \<le> length hs + 1"
    "\<forall>v < USER_TOP. lookup F m' v = (if PPN v = PPN va then Some f else lookup F m v)"
    by (rule map_fresh_frame [OF assms(1) [unfolded fs(1)] assms(2,3) fs(2) perm])
  have "lookup F m' v \<noteq> None" if "PPN v = PPN va" for v
    using m'(6) assms(3) lookup_page [OF that] by auto
  moreover have "keeps_mapped F m m'" using m'(6) by (simp add: keeps_mapped_def)
  ultimately show thesis
    using that [of m' hs] m'(3,4,5) True fs(1) m'(1,2) by (simp add: grant_page_def)
qed

lemma grant_pages_grants:
  assumes "vm_inv pin F fs m" "isolated F m" "unat va mod 4096 = 0" "unat va + 4096 * n \<le> unat USER_TOP" "2 * n \<le> length fs"
  shows "\<exists>m' gs. grant_pages F n va m = Inr (0, m') \<and> vm_inv pin F gs m' \<and> isolated F m' \<and> length fs \<le> length gs + 2 * n \<and>
    keeps_mapped F m m' \<and> (\<forall>v. unat va \<le> unat v \<and> unat v < unat va + 4096 * n \<longrightarrow> lookup F m' v \<noteq> None)"
  using assms
proof (induction n arbitrary: va m fs)
  case 0
  have "unat va \<le> unat v \<and> unat v < unat va + 4096 * 0 \<longrightarrow> lookup F m v \<noteq> None" for v by auto
  then show ?case using 0 by (intro exI [of _ m] exI [of _ fs]) (auto simp: keeps_mapped_def)
next
  case (Suc n)
  have va: "va < USER_TOP" "2 \<le> length fs" using Suc.prems(4,5) by (simp_all add: word_less_nat_alt)
  obtain m1 gs where m1: "grant_page F va m = Inr (0, m1)" "vm_inv pin F gs m1" "isolated F m1" "length fs \<le> length gs + 2"
    "keeps_mapped F m m1" "\<forall>v. PPN v = PPN va \<longrightarrow> lookup F m1 v \<noteq> None"
    by (rule grant_page_grants [OF Suc.prems(1,2) va])
  have next_va: "unat (va + PAGE_SIZE) = unat va + 4096" using Suc.prems(4) by (simp add: unat_word_ariths)
  obtain m2 hs where m2: "grant_pages F n (va + PAGE_SIZE) m1 = Inr (0, m2)" "vm_inv pin F hs m2" "isolated F m2"
    "length gs \<le> length hs + 2 * n" "keeps_mapped F m1 m2"
    "\<forall>v. unat (va + PAGE_SIZE) \<le> unat v \<and> unat v < unat (va + PAGE_SIZE) + 4096 * n \<longrightarrow> lookup F m2 v \<noteq> None"
    using Suc.IH [OF m1(2,3), of "va + PAGE_SIZE"] Suc.prems(3-5) m1(4) unfolding next_va by auto
  have "lookup F m2 v \<noteq> None" if v: "unat va \<le> unat v" "unat v < unat va + 4096 * Suc n" for v
  proof (cases "unat v < unat va + 4096")
    case True
    moreover obtain d q where "unat v = unat va + d" "unat va = 4096 * q" using v(1) Suc.prems(3) le_Suc_ex by blast
    ultimately have "unat v div 4096 = unat va div 4096" by simp
    then have "PPN v = PPN va" by (simp add: word_unat_eq_iff unat_PPN)
    then have "lookup F m1 v \<noteq> None" using m1(6) by blast
    moreover have "v < USER_TOP" using \<open>unat v < unat va + 4096\<close> Suc.prems(4) by (simp add: word_less_nat_alt)
    ultimately show ?thesis using m2(5) unfolding keeps_mapped_def by blast
  next
    case False
    then show ?thesis using m2(6) v unfolding next_va by simp
  qed
  then show ?case
    using m1(1,4) m2(1-4) keeps_mapped_trans [OF m1(5) m2(5)] by (intro exI [of _ m2] exI [of _ hs]) simp
qed

lemma page_cover:
  fixes v l k :: nat
  assumes "v + l \<le> 4096 * k"
  shows "v - v mod 4096 + 4096 * ((v mod 4096 + l + 4095) div 4096) \<le> 4096 * k"
    "v + l \<le> v - v mod 4096 + 4096 * ((v mod 4096 + l + 4095) div 4096)"
proof -
  define q r where "q = v div 4096" and "r = v mod 4096"
  have v: "v = 4096 * q + r" "r < 4096" by (simp_all add: q_def r_def)
  have "q \<le> k" using assms v by linarith
  then obtain d where d: "k = q + d" by (metis le_Suc_ex)
  have "r + l \<le> 4096 * d" using assms v d by simp
  then have "(r + l + 4095) div 4096 \<le> d" by simp
  then show "v - v mod 4096 + 4096 * ((v mod 4096 + l + 4095) div 4096) \<le> 4096 * k"
    unfolding r_def [symmetric] by (simp add: d v)
  have "r + l \<le> 4096 * ((r + l + 4095) div 4096)" by simp
  then show "v + l \<le> v - v mod 4096 + 4096 * ((v mod 4096 + l + 4095) div 4096)"
    unfolding r_def [symmetric] using v by linarith
qed

lemma grant_allocates: "allocates (grant F) pin F e"
  unfolding allocates_def
proof (intro allI impI, elim conjE)
  fix va len fs and s :: kernel
  assume u: "unat va + unat len \<le> unat USER_TOP" and v: "vm_inv pin F fs (mm s)" "isolated F (mm s)"
    and k: "2 * range_pages va len \<le> length fs"
  let ?a = "va - va mod PAGE_SIZE" and ?n = "range_pages va len"
  have "unat (va mod PAGE_SIZE) = unat va mod 4096" by (simp add: unat_mod)
  moreover from this have "va mod PAGE_SIZE \<le> va" by (simp only: word_le_nat_alt mod_less_eq_dividend)
  ultimately have a: "unat ?a = unat va - unat va mod 4096" by (simp add: unat_sub)
  have top: "unat USER_TOP = 4096 * 977920" by simp
  have fit: "unat ?a + 4096 * ?n \<le> unat USER_TOP" "unat va + unat len \<le> unat ?a + 4096 * ?n" "unat ?a mod 4096 = 0" "unat ?a \<le> unat va"
    using page_cover [of "unat va" "unat len" 977920] u unfolding a top range_pages_def
    by (simp_all only: minus_mod_eq_mult_div mod_mult_self1_is_0 diff_le_self)
  obtain m gs where m: "grant_pages F ?n ?a (mm s) = Inr (0, m)" "vm_inv pin F gs m" "isolated F m" "length fs \<le> length gs + 2 * ?n"
    "keeps_mapped F (mm s) m" "\<forall>v. unat ?a \<le> unat v \<and> unat v < unat ?a + 4096 * ?n \<longrightarrow> lookup F m v \<noteq> None"
    using grant_pages_grants [OF v fit(3,1) k] by blast
  have "range_mapped F m va len"
    unfolding range_mapped_def
  proof (intro allI impI)
    fix x assume "x < len"
    then have "unat (va + x) = unat va + unat x" "unat x < unat len"
      using u unat_u32_less [of USER_TOP] by (simp_all add: word_less_nat_alt unat_word_ariths)
    then show "lookup F m (va + x) \<noteq> None" using m(6) fit(2,4) by simp
  qed
  then show "\<exists>m gs. grant F e va len s = Inr (0, s\<lparr>mm := m\<rparr>) \<and> vm_inv pin F gs m \<and> isolated F m \<and>
      length fs \<le> length gs + 2 * range_pages va len \<and> range_mapped F m va len \<and> keeps_mapped F (mm s) m"
    using m by (intro exI [of _ m] exI [of _ gs]) (simp add: grant_def on_mm_def)
qed

section \<open>The loaded program\<close>

text \<open>Writing the directory entries 957 and 959 is not seen by the user space.\<close>

lemma store_kernel_entry:
  assumes inv: "vm_inv pin F fs m" and j: "955 \<le> j" "j < 1024" and m': "m' = store_word (kva F + 4 * j) x m"
  shows "vm_inv pin F fs m'" "isolated F m' \<longleftrightarrow> isolated F m" "\<forall>v < USER_TOP. lookup F m' v = lookup F m v"
proof -
  have w: "word_at m' g i = word_at m g i" if "g < 0x10000" "i < 1024" "g \<noteq> F \<or> i < 955" for g i
    using that j word_at_store [OF vm_inv_frames(3) [OF inv] that(1) j(2) that(2)] by (auto simp: m')
  have d: "pde m' F i = pde m F i" if "i < 955" for i
    using w [OF vm_inv_frames(3) [OF inv] index_lt [OF that]] that by (simp add: pde_def)
  have t: "pte m' F i k = pte m F i k" if "i < 955" "k < 1024" for i k
    using w [OF vm_inv_table(5) [OF inv that(1)] that(2)] vm_inv_table(3) [OF inv that(1)] d [OF that(1)]
    by (cases "pde m F i = 0") (simp_all add: pte_def)
  show "vm_inv pin F fs m'"
    by (rule vm_inv_cong [OF inv]) (use d t vm_inv_frames(4) [OF inv] in \<open>auto simp: m' view_simps store_word_def\<close>)
  show "isolated F m' \<longleftrightarrow> isolated F m" by (rule isolated_cong(1)) (use d t in auto)
  show "\<forall>v < USER_TOP. lookup F m' v = lookup F m v" using t PTX_less by (simp add: lookup_def PDX_user)
qed

lemma complete_initialization_state:
  assumes free: "env_inv (e # es) s" and inv: "vm_inv pin F fs (mm s)" and iso: "isolated F (mm s)" and pg: "env_pgdir (envs s e) = kva F"
  obtains t where "complete_environment_initialization e s = Inr t" "vm_inv pin F fs (mm t)" "isolated F (mm t)"
    "bytes t = bytes s" "userPrograms t = userPrograms s" "cr3 t = cr3 s" "env_tf (envs t e) = initial_trapframe"
    "env_status (envs t e) = ENV_RUNNABLE" "env_pgdir (envs t e) = kva F" "curenv t = curenv s"
proof -
  obtain l where l: "LIST_REMOVE e (env_free_list s) = Some l"
    using ll.remove_holds [of "env_free_list s" "[]" e es] free by (auto simp: env_inv_def)
  have p: "PDX VPT = 959" "PDX UVPT = 957" by (simp_all add: PDX_def)
  let ?a = "store_word (kva F + 4 * 959) (env_cr3 (envs s e) OR PERM_PRESENT OR PERM_WRITEABLE) (mm s)"
  let ?b = "store_word (kva F + 4 * 957) (env_cr3 (envs s e) OR PERM_PRESENT OR PERM_USER) ?a"
  have k: "955 \<le> (959 :: u32)" "959 < (1024 :: u32)" "955 \<le> (957 :: u32)" "957 < (1024 :: u32)" by simp_all
  note A = store_kernel_entry [OF inv k(1,2) refl]
  note B = store_kernel_entry [OF A(1) k(3,4) refl]
  obtain t where t: "complete_environment_initialization e s = Inr t" "mm t = ?b" "bytes t = bytes s" "userPrograms t = userPrograms s"
    "cr3 t = cr3 s" "curenv t = curenv s" "env_tf (envs t e) = initial_trapframe" "env_status (envs t e) = ENV_RUNNABLE" "env_pgdir (envs t e) = kva F"
    using l pg by (simp add: complete_environment_initialization_def Let_def p update_env_def del: VPT_def UVPT_def)
  show thesis
    by (rule that [OF t(1)]) (use A B iso t in simp_all)
qed

lemma stack_page: "x < PAGE_SIZE \<Longrightarrow> USTACKTOP - PAGE_SIZE + x < USER_TOP \<and> PPN (USTACKTOP - PAGE_SIZE + x) = PPN (USTACKTOP - PAGE_SIZE)"
proof -
  assume "x < PAGE_SIZE"
  then have x: "unat x < 4096" by (simp add: word_less_nat_alt)
  then have u: "unat (USTACKTOP - PAGE_SIZE + x) = 4096 * 977917 + unat x" by (simp add: unat_word_ariths)
  have "(4096 * 977917 + unat x) div 4096 = 977917" using x by simp
  then show ?thesis using u x by (simp add: word_less_nat_alt word_unat_eq_iff unat_PPN)
qed

lemma finish_program_ok:
  assumes "vm_inv pin F fs (mm s)" "isolated F (mm s)" "2 \<le> length fs" "env_pgdir (envs s e) = kva F"
    and "environment (userPrograms s ! i) = Some e" "ptr_start (userPrograms s ! i) = p" "e_magic (bytes s) p = ELF_MAGIC"
  obtains t gs where "finish_program i e kern s = Inr (Some i, t)" "vm_inv pin F gs (mm t)" "isolated F (mm t)" "keeps_mapped F (mm s) (mm t)"
    "\<forall>x < PAGE_SIZE. lookup F (mm t) (USTACKTOP - PAGE_SIZE + x) \<noteq> None"
    "bytes t = (\<lambda>a. if a - (USTACKTOP - PAGE_SIZE) < PAGE_SIZE then 0 else bytes s a)"
    "envs t e = (envs s e)\<lparr>env_tf := (env_tf (envs s e))\<lparr>tf_eip := e_entry (bytes s) p\<rparr>\<rparr>" "cr3 t = kern"
    "userPrograms t = userPrograms s"
proof -
  let ?st = "USTACKTOP - PAGE_SIZE" and ?u = "update_env e (\<lambda>en. en\<lparr>env_tf := (env_tf en)\<lparr>tf_eip := e_entry (bytes s) p\<rparr>\<rparr>) s"
  obtain f hs where fs: "fs = f # hs" "hs \<noteq> []" using assms(3) by (cases fs; cases "tl fs") auto
  have st: "?st < USER_TOP" "(PERM_USER OR PERM_WRITEABLE) < 0x1000" by simp_all
  obtain m1 m gs where m: "allocate_frame (mm s) = Inr ((0, Some f), m1)"
    "map_frame (kva F) f ?st (PERM_USER OR PERM_WRITEABLE) m1 = Inr (0, m)" "vm_inv pin F gs m" "isolated F m"
    "\<forall>v < USER_TOP. lookup F m v = (if PPN v = PPN ?st then Some f else lookup F (mm s) v)"
    by (rule map_fresh_frame [OF assms(1) [unfolded fs(1)] assms(2) st(1) fs(2) st(2)])
  have e: "set_environment_entry_point (Some i) s = Inr ?u"
    using assms(5-7) by (simp add: set_environment_entry_point_def Let_def)
  have z: "snd (memset (bytes s) ?st 0 PAGE_SIZE) = (\<lambda>a. if a - ?st < PAGE_SIZE then 0 else bytes s a)"
    using memset_loop_eq [of PAGE_SIZE "bytes s" ?st 0] by (simp add: memset_def)
  let ?t = "lcr3 kern (?u\<lparr>mm := m, bytes := snd (memset (bytes s) ?st 0 PAGE_SIZE)\<rparr>)"
  have "finish_program i e kern s = Inr (Some i, ?t)"
    using m(1,2) assms(4) by (simp add: finish_program_def e on_mm_def E_NO_MEM_def Let_def update_env_def)
  moreover have "keeps_mapped F (mm s) m" using m(5) by (simp add: keeps_mapped_def)
  moreover have "\<forall>x < PAGE_SIZE. lookup F m (?st + x) \<noteq> None" using m(5) stack_page by auto
  ultimately show thesis
    by (intro that [of ?t gs]) (use m(3,4) z in \<open>simp_all add: update_env_def\<close>)
qed

lemma env_run_program:
  assumes "vm_inv pin F fs (mm t)" "isolated F (mm t)" "env_status (envs t e) = ENV_RUNNABLE" "env_pgdir (envs t e) = kva F"
  shows "program_inv pin F fs e (snd (env_run e t))"
  using assms by (simp add: program_inv_def env_run_def Let_def)

lemma segments_then_stack:
  assumes "segment_ok sg" "segment_loaded m sg m'"
  shows "segment_loaded m sg (\<lambda>a. if a - (USTACKTOP - PAGE_SIZE) < PAGE_SIZE then 0 else m' a)"
  unfolding segment_loaded_def
proof (intro allI impI)
  fix x assume x: "x < size_in_memory sg"
  let ?a = "segment_va sg + x"
  have "unat ?a < unat (USTACKTOP - PAGE_SIZE)"
    using assms(1) x by (simp add: segment_ok_def word_less_nat_alt unat_word_ariths)
  then have "\<not> ?a - (USTACKTOP - PAGE_SIZE) < PAGE_SIZE" by (simp add: word_less_nat_alt unat_sub_if')
  then show "(if ?a - (USTACKTOP - PAGE_SIZE) < PAGE_SIZE then 0 else m' ?a) =
      (if x < size_in_file sg then m (segment_start sg + x) else 0)"
    using assms(2) x by (simp only: segment_loaded_def if_False)
qed

lemma stack_below: "USER_TOP \<le> a \<Longrightarrow> \<not> a - (USTACKTOP - PAGE_SIZE) < PAGE_SIZE"
  by (simp add: word_le_nat_alt word_less_nat_alt unat_sub_if')

text \<open>The loop started from the first segment.\<close>

lemma load_all:
  assumes img: "image_ok (bytes s) p" and al: "allocates alloc pin F e" and v: "vm_inv pin F fs (mm s)" "isolated F (mm s)"
    and pg: "env_pgdir (envs s e) = kva F" and room: "frames_needed (image_segments (bytes s) p) + 2 \<le> length fs"
  obtains first m gs where "PROGRAM_SEGMENT_FIRST junk p (bytes s) = Inr first"
    "\<And>k. load_program_segments alloc i e p k (if segment_id first = -1 then None else Some first) s =
      Some (k (s\<lparr>mm := m, bytes := fold load_program_segment (image_segments (bytes s) p) (bytes s)\<rparr>))"
    "vm_inv pin F gs m" "isolated F m" "2 \<le> length gs"
    "\<forall>sg \<in> set (image_segments (bytes s) p). range_mapped F m (segment_va sg) (size_in_memory sg)"
proof -
  let ?m = "bytes s" and ?k = "skip_segments (bytes s) p 0" and ?n = "header_count (bytes s) p"
  have magic: "e_magic ?m p = ELF_MAGIC" using img by (simp add: image_ok_def)
  define first where "first = (if ?k < ?n then segment_of ?m p ?k else junk\<lparr>segment_id := -1\<rparr>)"
  have f: "PROGRAM_SEGMENT_FIRST junk p ?m = Inr first"
    using PROGRAM_SEGMENT_FIRST_eq(1) [OF magic] by (simp add: first_def Let_def)
  have start: "(if segment_id first = -1 then None else Some first) =
      (let k = ?k in if k < ?n then Some (segment_of ?m p k) else None)"
    using PROGRAM_SEGMENT_FIRST_eq(2) [OF magic, of ?k] by (simp add: first_def segment_of_def Let_def)
  obtain m gs where m: "\<forall>c. load_program_segments alloc i e p c (let k = ?k in if k < ?n then Some (segment_of ?m p k) else None) s =
      Some (c (s\<lparr>mm := m, bytes := fold load_program_segment (image_segments ?m p) ?m\<rparr>))"
    "vm_inv pin F gs m" "isolated F m" "length fs \<le> length gs + frames_needed (image_segments ?m p)"
    "\<forall>sg \<in> set (image_segments ?m p). range_mapped F m (segment_va sg) (size_in_memory sg)"
    using load_program_segments_all [OF img al refl _ _ v pg, of 0] img room unfolding image_segments_def [symmetric]
    by (fastforce simp: same_above_def image_ok_def)
  show thesis
    by (rule that [OF f _ m(2,3) _ m(5)]) (use m(1,4) room in \<open>simp_all add: start\<close>)
qed


text \<open>A machine with six free frames, and a program with one segment of two bytes in the file and four in memory.\<close>

definition empty_space :: mm_state where
  "empty_space = \<lparr>kmem = (\<lambda>_. 0), number_of_frames = 8, references = (\<lambda>_. 0)(0 := 1, 1 := 1),
     free_frame_list = fold LIST_INSERT_HEAD [7, 6, 5, 4, 3, 2] empty_list, ptr_free_mem = 0xF0200000, invlpgs = []\<rparr>"

lemma empty_space_ok: "vm_inv vm_example_pin 1 [2, 3, 4, 5, 6, 7] empty_space" "isolated 1 empty_space"
proof -
  have d: "dlist (free_frame_list empty_space) [2, 3, 4, 5, 6, 7]"
    using dlist_fold_empty [of "[7, 6, 5, 4, 3, 2 :: u32]"] by (simp add: empty_space_def)
  have z: "pde empty_space 1 i = 0" "pte empty_space 1 i j = 0" for i j
    by (simp_all add: pde_def pte_def word_at_def empty_space_def)
  then have c: "tabs (pde empty_space 1) g = {}" "maps (pte empty_space 1) g = {}" for g by (auto simp: tabs_def maps_def)
  have f: "number_of_frames empty_space = 8" "references empty_space = (\<lambda>_. 0)(0 := 1, 1 := 1)" by (simp_all add: empty_space_def)
  show "vm_inv vm_example_pin 1 [2, 3, 4, 5, 6, 7] empty_space"
    using d by (auto simp: vm_inv_def z c f vm_example_pin_def)
  show "isolated 1 empty_space" by (simp add: isolated_def c)
qed

definition program_image :: bmem where
  "program_image = (\<lambda>_. 0)(
     0xF0300000 := 0x7F, 0xF0300001 := 0x45, 0xF0300002 := 0x4C, 0xF0300003 := 0x46,
     0xF0300018 := 0x20, 0xF030001A := 0x80, 0xF030001C := 0x34, 0xF030002C := 1,
     0xF0300034 := 1, 0xF0300038 := 0x60, 0xF030003E := 0x80, 0xF0300044 := 2, 0xF0300048 := 4,
     0xF0300060 := 7, 0xF0300061 := 9)"

lemma program_image_fields:
  "e_magic program_image 0xF0300000 = ELF_MAGIC" "e_entry program_image 0xF0300000 = 0x800020"
  "e_phoff program_image 0xF0300000 = 0x34" "e_phnum program_image 0xF0300000 = 1"
  "loadable program_image 0xF0300000 0"
  "segment_of program_image 0xF0300000 0 = \<lparr>segment_start = 0xF0300060, size_in_file = 2, size_in_memory = 4,
    segment_va = 0x800000, segment_id = 0\<rparr>"
  by (simp_all add: e_magic_def e_entry_def e_phoff_def e_phnum_def loadable_def segment_of_def proghdr_def p_type_def p_offset_def
      p_va_def p_filesz_def p_memsz_def load32_def load16_def program_image_def Let_def)

lemma program_image_segments: "image_segments program_image 0xF0300000 = [segment_of program_image 0xF0300000 0]"
proof -
  have "header_count program_image 0xF0300000 = 1" by (simp add: header_count_def program_image_fields)
  moreover have "word_range 0 1 = [0 :: u32]" by (simp add: word_range_Cons word_range_Nil)
  ultimately show ?thesis by (simp add: image_segments_def program_image_fields(5))
qed

lemma high_address: "0xF0300000 \<le> a \<Longrightarrow> x < 0x1000 \<Longrightarrow> a < 0xF0301000 \<Longrightarrow> USER_TOP \<le> a + x"
  by (simp add: word_le_nat_alt word_less_nat_alt unat_word_ariths)

lemma program_image_ok: "image_ok program_image 0xF0300000"
proof -
  let ?p = "0xF0300000 :: u32"
  have small: "USER_TOP \<le> a + x" if "?p \<le> a" "a < 0xF0301000" "x < k" "k \<le> 0x1000" for a x k :: u32
    using high_address [OF that(1) less_le_trans [OF that(3,4)] that(2)] .
  have e: "\<forall>x < 52. USER_TOP \<le> ?p + x" by (intro allI impI small [of _ _ 52]) simp_all
  have h: "\<forall>x < 32. USER_TOP \<le> proghdr program_image ?p i + x" if "i \<le> 1" for i
  proof -
    have "i = 0 \<or> i = 1" using that by (simp add: word_le_nat_alt word_unat_eq_iff) arith
    then have "?p \<le> proghdr program_image ?p i" "proghdr program_image ?p i < 0xF0301000"
      by (auto simp: proghdr_def program_image_fields)
    then show ?thesis by (intro allI impI small [of _ _ 32]) simp_all
  qed
  have "\<forall>x < 2. USER_TOP \<le> 0xF0300060 + x" by (intro allI impI small [of _ _ 2]) simp_all
  then have "segment_ok (segment_of program_image ?p 0)" by (simp add: segment_ok_def program_image_fields)
  then show ?thesis
    using e h by (simp add: image_ok_def program_image_segments program_image_fields(1) header_count_def program_image_fields(4) del: USER_TOP_def)
qed

definition program_table_example :: "UserProgramInfo list" where
  "program_table_example = [\<lparr>name = 0, desc = 0, ptr_start = 0xF0300000, environment = None\<rparr>]"

definition create_example :: kernel where
  "create_example = (update_env 0 (\<lambda>en. en\<lparr>env_pgdir := kva 1\<rparr>) (env_init kernel_example))
     \<lparr>mm := empty_space, bytes := program_image, userPrograms := program_table_example\<rparr>"

lemma create_example_env: "env_inv (0 # word_range 1 NENV) create_example"
proof -
  have "env_inv (word_range 0 NENV) (env_init kernel_example)"
    by (rule env_init_inv) (simp_all add: kernel_example_def)
  moreover have "word_range 0 NENV = 0 # word_range 1 NENV" using word_range_Cons [of 0 NENV] by simp
  ultimately have "env_inv (0 # word_range 1 NENV) (env_init kernel_example)" by metis
  then show ?thesis by (auto simp: env_inv_def create_example_def)
qed


end
