(* ===== verification/FOS_KDebug.thy ===== *)
theory FOS_KDebug
  imports FOS_Mmu FOS_Printfmt "HOL-Library.Signed_Division"
begin

text \<open>
  The debug information of \<^verbatim>\<open>kern/kdebug.c\<close>: the search in a table of \<^verbatim>\<open>inc/stab.h\<close> for the entry that contains an
  instruction address, and \<^verbatim>\<open>debuginfo_eip\<close>. The indices are C \<^verbatim>\<open>int\<close>s below \<open>2 ^ 29\<close> (a table of larger
  index does not fit into memory), so they are \<open>int\<close> without wrap-around. The address is a \<^verbatim>\<open>uint32 *\<close>:
  \<^verbatim>\<open>addr++\<close> adds 4.
\<close>

section \<open>Tables\<close>

definition N_FUN :: u8 where [simp]: "N_FUN = 0x24"
definition N_SO :: u8 where [simp]: "N_SO = 0x64"
definition N_SOL :: u8 where [simp]: "N_SOL = 0x84"

record Stab =
  n_strx :: u32
  n_type :: u8
  n_other :: u8
  n_desc :: u16
  n_value :: u32

text \<open>Entry \<open>i\<close> of the table at \<open>stabs\<close>; an entry has 12 bytes.\<close>

definition stab :: "bmem \<Rightarrow> u32 \<Rightarrow> int \<Rightarrow> Stab" where
  "stab m stabs i =
    (let a = stabs + 12 * word_of_int i
     in \<lparr>n_strx = load32 m a, n_type = m (a + 4), n_other = m (a + 5), n_desc = load16 m (a + 6),
         n_value = load32 m (a + 8)\<rparr>)"

section \<open>The search\<close>

text \<open>\<^verbatim>\<open>while (m >= l && stabs[m].n_type != type) m--;\<close> \<open>T\<close> is the table.\<close>

function scan_down :: "(int \<Rightarrow> Stab) \<Rightarrow> u8 \<Rightarrow> int \<Rightarrow> int \<Rightarrow> int" where
  "scan_down T type l m = (if m \<ge> l \<and> n_type (T m) \<noteq> type then scan_down T type l (m - 1) else m)"
  by pat_completeness auto
termination by (relation "measure (\<lambda>(T, type, l, m). nat (m - l + 1))") auto

declare scan_down.simps [simp del]

lemma scan_down_le: "scan_down T type l m \<le> m"
proof (induction T type l m rule: scan_down.induct)
  case (1 T type l m)
  then show ?case by (subst scan_down.simps) (auto split: if_splits)
qed

lemma half_between: "l \<le> r \<Longrightarrow> l \<le> (l + r) sdiv 2 \<and> (l + r) sdiv 2 \<le> r" for l r :: int
  by (auto simp: signed_divide_int_def sgn_if)

text \<open>
  The binary search. The arguments are the local variables \<^verbatim>\<open>l\<close> and \<^verbatim>\<open>r\<close>, the two results, \<^verbatim>\<open>any_matches\<close>
  and \<^verbatim>\<open>addr\<close>, which an exact match moves on.
\<close>

definition exact_match :: "(int \<Rightarrow> Stab) \<Rightarrow> u8 \<Rightarrow> int \<Rightarrow> int \<Rightarrow> u32 \<Rightarrow> bool" where
  "exact_match T type l r addr \<longleftrightarrow>
    (let m = scan_down T type l ((l + r) sdiv 2) in l \<le> r \<and> l \<le> m \<and> n_value (T m) = addr)"

function search_loop :: "(int \<Rightarrow> Stab) \<Rightarrow> u8 \<Rightarrow> int \<Rightarrow> int \<Rightarrow> int \<Rightarrow> int \<Rightarrow> bool \<Rightarrow> u32 \<Rightarrow> int \<times> int \<times> bool" where
  "search_loop T type l r region_left region_right any_matches addr =
    (if l \<le> r then
       let true_m = (l + r) sdiv 2;
           m = scan_down T type l true_m
       in if m < l then search_loop T type (true_m + 1) r region_left region_right any_matches addr
          else if n_value (T m) < addr then search_loop T type (true_m + 1) r m region_right True addr
          else if n_value (T m) > addr then search_loop T type l (m - 1) region_left (m - 1) True addr
          else search_loop T type m r m region_right True (addr + 4)
     else (region_left, region_right, any_matches))"
  by pat_completeness auto

text \<open>
  The loop ends: every step but an exact match at \<^verbatim>\<open>l\<close> itself narrows the range, and after such a match the
  same entry does not match the moved address.
\<close>

termination
proof (relation "measure (\<lambda>(T, type, l, r, region_left, region_right, any_matches, addr).
    2 * nat (r - l + 1) + (if exact_match T type l r addr then 1 else 0))", goal_cases)
  case 1
  then show ?case by simp
next
  case (2 T type l r a b c d true_m m)
  then show ?case using half_between [of l r] by auto
next
  case (3 T type l r a b c d true_m m)
  then show ?case using half_between [of l r] by auto
next
  case (4 T type l r a b c d true_m m)
  then show ?case using half_between [of l r] scan_down_le [of T type l "(l + r) sdiv 2"] by auto
next
  case (5 T type l r a b c d true_m m)
  then have m: "m = scan_down T type l ((l + r) sdiv 2)" "l \<le> m" "n_value (T m) = d" "l \<le> r" by auto
  then have e: "exact_match T type l r d" by (simp add: exact_match_def Let_def)
  have "m \<le> r" using half_between [of l r] scan_down_le [of T type l "(l + r) sdiv 2"] m by linarith
  have "d \<noteq> d + 4" by simp
  then have n: "m = l \<Longrightarrow> \<not> exact_match T type m r (d + 4)"
    using m by (auto simp: exact_match_def Let_def)
  show ?case
  proof (cases "m = l")
    case True
    then show ?thesis using e n by simp
  next
    case False
    then have "nat (r - l + 1) = nat (r - m + 1) + nat (m - l)" "0 < nat (m - l)" using m(2) \<open>m \<le> r\<close> by arith+
    then have "2 * nat (r - m + 1) + (if exact_match T type m r (d + 4) then 1 else 0) < 2 * nat (r - l + 1) + 1" by simp
    then show ?thesis unfolding in_measure prod.case using e by (simp only: if_True)
  qed
qed

declare search_loop.simps [simp del]

definition stab_binsearch :: "(int \<Rightarrow> Stab) \<Rightarrow> int \<Rightarrow> int \<Rightarrow> u8 \<Rightarrow> u32 \<Rightarrow> int \<times> int" where
  "stab_binsearch T left right type addr =
    (let (region_left, region_right, any_matches) = search_loop T type left right left right False addr
     in if \<not> any_matches then (region_left, region_left - 1)
        else (scan_down T type (region_left + 1) region_right, region_right))"

section \<open>What the search finds\<close>

text \<open>The entries the search is about, and the order the table must have. Entries may be close together, but
  the entries behind one at \<open>addr\<close> itself must be more than 4 bytes away.\<close>

definition entry :: "(int \<Rightarrow> Stab) \<Rightarrow> u8 \<Rightarrow> int \<Rightarrow> int \<Rightarrow> int \<Rightarrow> bool" where
  "entry T type left right i \<longleftrightarrow> left \<le> i \<and> i \<le> right \<and> n_type (T i) = type"

definition address_of :: "(int \<Rightarrow> Stab) \<Rightarrow> int \<Rightarrow> nat" where
  "address_of T i = unat (n_value (T i))"

definition searchable :: "(int \<Rightarrow> Stab) \<Rightarrow> u8 \<Rightarrow> int \<Rightarrow> int \<Rightarrow> u32 \<Rightarrow> bool" where
  "searchable T type left right addr \<longleftrightarrow>
    (\<forall>i j. entry T type left right i \<and> entry T type left right j \<and> i < j \<longrightarrow>
      address_of T i + (if address_of T i = unat addr then 4 else 0) < address_of T j)"

text \<open>\<open>region\<close>: entry \<open>a\<close> is the last that starts at or before \<open>addr\<close>, and its region ends at \<open>b\<close>, just before
  the next entry or with the range.\<close>

definition region :: "(int \<Rightarrow> Stab) \<Rightarrow> u8 \<Rightarrow> int \<Rightarrow> int \<Rightarrow> u32 \<Rightarrow> int \<Rightarrow> int \<Rightarrow> bool" where
  "region T type left right addr a b \<longleftrightarrow>
    entry T type left right a \<and> address_of T a \<le> unat addr \<and> a \<le> b \<and>
    (b = right \<or> entry T type left right (b + 1) \<and> unat addr < address_of T (b + 1)) \<and>
    (\<forall>i. entry T type left right i \<longrightarrow> i \<le> a \<or> b < i)"

lemma searchable_less:
  "searchable T type left right addr \<Longrightarrow> entry T type left right i \<Longrightarrow> entry T type left right j \<Longrightarrow> i < j \<Longrightarrow>
   address_of T i < address_of T j"
  unfolding searchable_def by fastforce

lemma searchable_exact:
  "searchable T type left right addr \<Longrightarrow> entry T type left right i \<Longrightarrow> entry T type left right j \<Longrightarrow> i < j \<Longrightarrow>
   address_of T i = unat addr \<Longrightarrow> unat addr + 4 < address_of T j"
  unfolding searchable_def by fastforce

lemma scan_down_above: "scan_down T type l m < i \<Longrightarrow> i \<le> m \<Longrightarrow> n_type (T i) \<noteq> type"
proof (induction T type l m rule: scan_down.induct)
  case (1 T type l m)
  show ?case
  proof (cases "l \<le> m \<and> n_type (T m) \<noteq> type")
    case True
    then have "scan_down T type l m = scan_down T type l (m - 1)" by (subst scan_down.simps) simp
    then show ?thesis using 1 True by (cases "i = m") auto
  next
    case False
    then have "scan_down T type l m = m" by (subst scan_down.simps) auto
    then show ?thesis using 1(2,3) by simp
  qed
qed

lemma scan_down_hit: "l \<le> scan_down T type l m \<Longrightarrow> n_type (T (scan_down T type l m)) = type"
proof (induction T type l m rule: scan_down.induct)
  case (1 T type l m)
  show ?case
  proof (cases "l \<le> m \<and> n_type (T m) \<noteq> type")
    case True
    then have "scan_down T type l m = scan_down T type l (m - 1)" by (subst scan_down.simps) simp
    then show ?thesis using 1 True by simp
  next
    case False
    then have "scan_down T type l m = m" by (subst scan_down.simps) auto
    then show ?thesis using False "1.prems" by auto
  qed
qed

lemma scan_down_lower: "l \<le> m \<Longrightarrow> l - 1 \<le> scan_down T type l m"
proof (induction T type l m rule: scan_down.induct)
  case (1 T type l m)
  have "scan_down T type m (m - 1) = m - 1" by (subst scan_down.simps) simp
  then show ?case
    using 1 by (subst scan_down.simps) (cases "l = m", auto)
qed

lemma scan_down_none:
  assumes "\<And>i. l \<le> i \<Longrightarrow> i \<le> m \<Longrightarrow> n_type (T i) \<noteq> type"
  shows "scan_down T type l m = min (l - 1) m"
proof (cases "l \<le> m")
  case True
  have "\<not> l \<le> scan_down T type l m" using scan_down_hit [of l T type m] scan_down_le [of T type l m] assms by blast
  then show ?thesis using scan_down_lower [OF True, of T type] True by simp
next
  case False
  then show ?thesis by (subst scan_down.simps) simp
qed

text \<open>
  The invariant of the loop, for the table \<open>T\<close>, the whole range from \<open>L\<close> to \<open>R\<close> and the address \<open>a\<close>: nothing
  behind \<open>r\<close> is at or below the address, \<open>rl\<close> is the last entry found below it, and \<open>addr\<close> has moved on only after an exact match.
\<close>

definition search_inv :: "(int \<Rightarrow> Stab) \<Rightarrow> u8 \<Rightarrow> int \<Rightarrow> int \<Rightarrow> u32 \<Rightarrow> int \<Rightarrow> int \<Rightarrow> int \<Rightarrow> int \<Rightarrow> bool \<Rightarrow> u32 \<Rightarrow> bool" where
  "search_inv T type L R a l r rl rr matches addr \<longleftrightarrow>
    L \<le> l \<and> l \<le> r + 1 \<and> r \<le> R \<and> rr = r \<and> (r = R \<or> entry T type L R (r + 1)) \<and>
    (\<forall>i. entry T type L R i \<and> r < i \<longrightarrow> unat addr < address_of T i) \<and>
    (entry T type L R rl \<and> address_of T rl < unat addr \<and> rl \<le> l \<and> (\<forall>i. entry T type L R i \<and> rl < i \<longrightarrow> l \<le> i) \<or>
      rl = L \<and> (\<forall>i. entry T type L R i \<longrightarrow> l \<le> i)) \<and>
    (if matches then \<exists>i. entry T type L R i else r = R \<and> rl = L \<and> (\<forall>i. entry T type L R i \<longrightarrow> l \<le> i)) \<and>
    (addr = a \<or> unat addr = unat a + 4 \<and> (\<exists>e. entry T type L R e \<and> address_of T e = unat a))"

lemma search_inv_start: "L \<le> R + 1 \<Longrightarrow> search_inv T type L R a L R L R False a"
  by (auto simp: search_inv_def entry_def)

lemma search_inv_none:
  assumes "search_inv T type L R a l r rl rr matches addr" "l \<le> r" "l \<le> tm" "tm \<le> r"
    and "\<And>i. l \<le> i \<Longrightarrow> i \<le> tm \<Longrightarrow> n_type (T i) \<noteq> type"
  shows "search_inv T type L R a (tm + 1) r rl rr matches addr"
proof -
  have "l \<le> i \<Longrightarrow> entry T type L R i \<Longrightarrow> tm + 1 \<le> i" for i
    using assms(5) [of i] by (force simp: entry_def)
  then show ?thesis using assms(1-4) by (auto simp: search_inv_def)
qed

lemma search_inv_less:
  assumes "search_inv T type L R a l r rl rr matches addr" "l \<le> m" "m \<le> tm" "tm \<le> r" "n_type (T m) = type"
    and "\<And>i. m < i \<Longrightarrow> i \<le> tm \<Longrightarrow> n_type (T i) \<noteq> type" "address_of T m < unat addr"
  shows "search_inv T type L R a (tm + 1) r m rr True addr"
proof -
  have "m < i \<Longrightarrow> entry T type L R i \<Longrightarrow> tm + 1 \<le> i" for i
    using assms(6) [of i] by (force simp: entry_def)
  moreover have "entry T type L R m" using assms(1-5) by (simp add: search_inv_def entry_def)
  ultimately show ?thesis using assms(1-4,7) by (auto simp: search_inv_def)
qed

lemma search_inv_greater:
  assumes "search_inv T type L R a l r rl rr matches addr" "l \<le> m" "m \<le> r" "n_type (T m) = type"
    and "unat addr < address_of T m" "searchable T type L R a"
  shows "search_inv T type L R a l (m - 1) rl (m - 1) True addr"
proof -
  have m: "entry T type L R m" using assms(1-4) by (simp add: search_inv_def entry_def)
  then have "entry T type L R i \<Longrightarrow> m - 1 < i \<Longrightarrow> unat addr < address_of T i" for i
    using searchable_less [OF assms(6) m, of i] assms(5) by (cases "i = m") auto
  then show ?thesis using assms(1-3) m by (auto simp: search_inv_def)
qed

lemma search_inv_exact:
  assumes inv: "search_inv T type L R a l r rl rr matches addr" and "l \<le> m" "m \<le> r" "n_type (T m) = type"
    and v: "address_of T m = unat addr" and s: "searchable T type L R a" "unat a + 4 < 2 ^ 32"
  shows "search_inv T type L R a m r m rr True (addr + 4)"
proof -
  have m: "entry T type L R m" using assms(1-4) by (simp add: search_inv_def entry_def)
  have "addr = a"
  proof (rule ccontr)
    assume "addr \<noteq> a"
    then obtain e where e: "unat addr = unat a + 4" "entry T type L R e" "address_of T e = unat a"
      using inv by (auto simp: search_inv_def)
    show False
      using searchable_exact [OF s(1) e(2) m _ e(3)] searchable_less [OF s(1) m e(2)] e(1,3) v
      by (cases e m rule: linorder_cases) auto
  qed
  moreover have u: "unat (a + 4) = unat a + 4" using s(2) by (simp add: unat_plus_simple [THEN iffD1] no_olen_add_nat)
  moreover have "unat a + 4 < address_of T i" if "entry T type L R i" "r < i" for i
    using searchable_exact [OF s(1) m that(1)] that(2) \<open>m \<le> r\<close> v \<open>addr = a\<close> by simp
  ultimately show ?thesis using inv m v \<open>l \<le> m\<close> \<open>m \<le> r\<close> by (auto simp: search_inv_def)
qed

lemma search_loop_inv:
  assumes "search_inv T type L R a l r rl rr matches addr" "searchable T type L R a" "unat a + 4 < 2 ^ 32"
  shows "\<exists>l' addr'. case search_loop T type l r rl rr matches addr of (rl', r', matches') \<Rightarrow>
    search_inv T type L R a l' r' rl' r' matches' addr' \<and> r' < l'"
  using assms(1,2)
proof (induction T type l r rl rr matches addr rule: search_loop.induct)
  case (1 T type l r rl rr matches addr)
  note inv = "1.prems"(1) and s = "1.prems"(2)
  let ?tm = "(l + r) sdiv 2" let ?m = "scan_down T type l ?tm"
  show ?case
  proof (cases "l \<le> r")
    case False
    then have "search_loop T type l r rl rr matches addr = (rl, rr, matches)" by (subst search_loop.simps) simp
    moreover have "rr = r" using inv by (simp add: search_inv_def)
    ultimately show ?thesis using False inv by (intro exI [of _ l] exI [of _ addr]) simp
  next
    case True
    note tm = half_between [OF True] and m = scan_down_above [of T type l ?tm] scan_down_hit [of l T type ?tm] scan_down_le [of T type l ?tm]
    note step = search_loop.simps [of T type l r rl rr matches addr]
    consider "?m < l" | "l \<le> ?m" "n_value (T ?m) < addr" | "l \<le> ?m" "addr < n_value (T ?m)" | "l \<le> ?m" "n_value (T ?m) = addr"
      by force
    then show ?thesis
    proof cases
      case 1
      have "search_inv T type L R a (?tm + 1) r rl rr matches addr"
        by (rule search_inv_none [OF inv True]) (use tm m 1 in auto)
      from "1.IH"(1) [OF True refl refl 1 this s] show ?thesis using 1 True by (simp add: step Let_def)
    next
      case 2
      have "search_inv T type L R a (?tm + 1) r ?m rr True addr"
        by (rule search_inv_less [OF inv]) (use tm m 2 in \<open>auto simp: address_of_def word_less_nat_alt\<close>)
      from "1.IH"(2) [OF True refl refl _ 2(2) this s] show ?thesis using 2 True by (simp add: step Let_def)
    next
      case 3
      have "search_inv T type L R a l (?m - 1) rl (?m - 1) True addr"
        by (rule search_inv_greater [OF inv _ _ _ _ s]) (use tm m 3 in \<open>auto simp: address_of_def word_less_nat_alt\<close>)
      moreover have "\<not> n_value (T ?m) < addr" using 3 by simp
      ultimately show ?thesis using "1.IH"(3) [OF True refl refl _ _ _ _ s] 3 True by (simp add: step Let_def)
    next
      case 4
      have "search_inv T type L R a ?m r ?m rr True (addr + 4)"
        by (rule search_inv_exact [OF inv _ _ _ _ s assms(3)]) (use tm m 4 in \<open>auto simp: address_of_def\<close>)
      from "1.IH"(4) [OF True refl refl _ _ _ this s] show ?thesis using 4 True by (simp add: step Let_def)
    qed
  qed
qed

lemma stab_binsearch_result:
  assumes "searchable T type left right addr" "left \<le> right + 1" "unat addr + 4 < 2 ^ 32"
    and "stab_binsearch T left right type addr = (a, b)"
  shows "if \<exists>i. entry T type left right i \<and> address_of T i \<le> unat addr then region T type left right addr a b
    else if \<exists>i. entry T type left right i then
      entry T type left right (b + 1) \<and> (\<forall>i. entry T type left right i \<longrightarrow> b + 1 \<le> i) \<and> a = min left b
    else a = left \<and> b = left - 1"
proof -
  obtain rl r matches where loop: "search_loop T type left right left right False addr = (rl, r, matches)"
    by (rule prod_cases3)
  then obtain l addr' where inv: "search_inv T type left right addr l r rl r matches addr'" and "r < l"
    using search_loop_inv [OF search_inv_start [OF assms(2)] assms(1,3)] by auto
  then have "l = r + 1" by (auto simp: search_inv_def)
  note inv = inv [unfolded this]
  have beyond: "unat addr < address_of T i" if "entry T type left right i" "r < i" for i
    using inv that by (auto simp: search_inv_def)
  show ?thesis
  proof (cases matches)
    case False
    then have "\<not> entry T type left right i" for i
      using inv by (auto simp: search_inv_def entry_def)
    moreover have "a = left" "b = left - 1"
      using assms(4) inv False by (auto simp: stab_binsearch_def loop search_inv_def)
    ultimately show ?thesis by simp
  next
    case True
    then have ab: "a = scan_down T type (rl + 1) r" "b = r" using assms(4) by (auto simp: stab_binsearch_def loop)
    have r: "r \<le> right" "r = right \<or> entry T type left right (r + 1)" and some: "\<exists>i. entry T type left right i"
      using inv True by (auto simp: search_inv_def)
    have least: "unat addr \<le> unat addr'" using inv by (auto simp: search_inv_def)
    have "r + 1 \<le> i \<longleftrightarrow> r < i" for i by arith
    then consider "entry T type left right rl" "address_of T rl < unat addr'" "\<forall>i. entry T type left right i \<and> rl < i \<longrightarrow> r < i"
      | "rl = left" "\<forall>i. entry T type left right i \<longrightarrow> r < i"
      using inv unfolding search_inv_def by metis
    then show ?thesis
    proof cases
      case 1
      have "unat addr' < address_of T i" if "entry T type left right i" "r < i" for i
        using inv that by (auto simp: search_inv_def)
      then have "rl \<le> r" using 1(1,2) by fastforce
      moreover have "n_type (T i) \<noteq> type" if "rl + 1 \<le> i" "i \<le> r" for i
      proof
        assume "n_type (T i) = type"
        then have "entry T type left right i" using that r(1) 1(1) by (simp add: entry_def)
        then show False using 1(3) that by fastforce
      qed
      ultimately have a: "a = rl" using scan_down_none [of "rl + 1" r T type] ab(1) by simp
      have "address_of T rl \<le> unat addr"
      proof (rule ccontr)
        assume "\<not> address_of T rl \<le> unat addr"
        then have n: "unat addr < address_of T rl" by simp
        then obtain e where e: "unat addr' = unat addr + 4" "entry T type left right e" "address_of T e = unat addr"
          using inv 1(2) by (auto simp: search_inv_def)
        show False
          using searchable_exact [OF assms(1) e(2) 1(1) _ e(3)] searchable_less [OF assms(1) 1(1) e(2)] e(1,3) 1(2) n
          by (cases e rl rule: linorder_cases) auto
      qed
      note le = this
      then have "\<exists>i. entry T type left right i \<and> address_of T i \<le> unat addr" using 1(1) by blast
      moreover have "r = right \<or> entry T type left right (r + 1) \<and> unat addr < address_of T (r + 1)"
        using r(2) beyond [of "r + 1"] by auto
      moreover have "\<forall>i. entry T type left right i \<longrightarrow> i \<le> rl \<or> r < i" using 1(3) by (auto simp: not_le)
      ultimately show ?thesis using 1(1) le \<open>rl \<le> r\<close> by (simp only: region_def a ab(2) if_True simp_thms)
    next
      case 2
      have "\<not> (\<exists>i. entry T type left right i \<and> address_of T i \<le> unat addr)" using 2(2) beyond by force
      moreover have "entry T type left right (r + 1)"
        using r some 2(2) by (force simp: entry_def)
      moreover have "n_type (T i) \<noteq> type" if "left + 1 \<le> i" "i \<le> r" for i
      proof
        assume "n_type (T i) = type"
        then have "entry T type left right i" using that r(1) by (simp add: entry_def)
        then show False using 2(2) that by fastforce
      qed
      then have "a = min left r" using 2(1) ab(1) scan_down_none [of "left + 1" r T type] by simp
      moreover have "\<forall>i. entry T type left right i \<longrightarrow> r + 1 \<le> i" using 2(2) by fastforce
      ultimately show ?thesis using some by (simp only: ab(2) if_True if_False simp_thms)
    qed
  qed
qed

lemma region_unique:
  assumes "region T type left right addr a b" "region T type left right addr c d" "searchable T type left right addr"
  shows "c = a \<and> d = b"
proof -
  have less: "\<not> a < c" if r: "region T type left right addr a b" "region T type left right addr c d" for a b c d
  proof
    assume "a < c"
    then have "b < c" using r by (auto simp: region_def)
    then have n: "entry T type left right (b + 1)" "unat addr < address_of T (b + 1)"
      using r by (auto simp: region_def entry_def)
    then show False
      using searchable_less [OF assms(3) n(1), of c] \<open>b < c\<close> r(2) by (cases "c = b + 1") (auto simp: region_def)
  qed
  have "a = c" using less [OF assms(1,2)] less [OF assms(2,1)] by simp
  moreover have "\<not> b < d" if r: "region T type left right addr a b" "region T type left right addr a d" for b d
  proof
    assume "b < d"
    moreover have "d \<le> right" using r(2) by (auto simp: region_def entry_def)
    ultimately have "entry T type left right (b + 1)" using r(1) by (auto simp: region_def)
    then show False using r \<open>b < d\<close> by (fastforce simp: region_def)
  qed
  ultimately show ?thesis using assms(1,2) by (metis linorder_neqE)
qed


text \<open>The table of the example in the comment.\<close>

definition stab_example :: "int \<Rightarrow> Stab" where
  "stab_example i =
    (case map_of [(0, 0xF0100000), (13, 0xF0100040), (117, 0xF0100176), (118, 0xF0100178), (555, 0xF0100652),
         (556, 0xF0100654), (657, 0xF0100849)] i of
       Some v \<Rightarrow> \<lparr>n_strx = 0, n_type = N_SO, n_other = 0, n_desc = 0, n_value = v\<rparr>
     | None \<Rightarrow> \<lparr>n_strx = 0, n_type = N_FUN, n_other = 0, n_desc = 0, n_value = 0\<rparr>)"

lemma stab_example_entries:
  "entry stab_example N_SO 0 657 i \<longleftrightarrow> i \<in> {0, 13, 117, 118, 555, 556, 657}"
  by (auto simp: entry_def stab_example_def split: if_splits)

lemma stab_example_searchable: "searchable stab_example N_SO 0 657 0xF0100184"
  unfolding searchable_def stab_example_entries by (auto simp: address_of_def stab_example_def)

lemma stab_example_region: "region stab_example N_SO 0 657 0xF0100184 118 554"
  unfolding region_def stab_example_entries by (auto simp: address_of_def stab_example_def)


section \<open>Looking up an address\<close>

definition USTABDATA :: u32 where [simp]: "USTABDATA = PTSIZE div 2"

record UserStabData =
  stabs :: u32
  stab_end :: u32
  stabstr :: u32
  stabstr_end :: u32

record Eipdebuginfo =
  eip_file :: u32
  eip_line :: int
  eip_fn_name :: u32
  eip_fn_namelen :: int
  eip_fn_addr :: u32
  eip_fn_narg :: int

text \<open>\<open>kern\<close> has the four symbols of the linker, \<open>unknown\<close> is the address of the literal \<^verbatim>\<open>"<unknown>"\<close>.\<close>

definition stab_data :: "UserStabData \<Rightarrow> bmem \<Rightarrow> u32 \<Rightarrow> UserStabData" where
  "stab_data kern m addr =
    (if addr \<ge> USER_LIMIT then kern
     else \<lparr>stabs = load32 m USTABDATA, stab_end = load32 m (USTABDATA + 4), stabstr = load32 m (USTABDATA + 8),
       stabstr_end = load32 m (USTABDATA + 12)\<rparr>)"

function find_source :: "(int \<Rightarrow> Stab) \<Rightarrow> int \<Rightarrow> int \<Rightarrow> int" where
  "find_source T lfile lline =
    (if lline \<ge> lfile \<and> n_type (T lline) \<noteq> N_SOL \<and> (n_type (T lline) \<noteq> N_SO \<or> n_value (T lline) = 0)
     then find_source T lfile (lline - 1) else lline)"
  by pat_completeness auto
termination by (relation "measure (\<lambda>(T, lfile, lline). nat (lline - lfile + 1))") auto

declare find_source.simps [simp del]

definition debuginfo_eip :: "UserStabData \<Rightarrow> u32 \<Rightarrow> bmem \<Rightarrow> u32 \<Rightarrow> (int \<times> Eipdebuginfo) option" where
  "debuginfo_eip kern unknown m addr =
    (let info = \<lparr>eip_file = unknown, eip_line = 0, eip_fn_name = unknown, eip_fn_namelen = 9, eip_fn_addr = addr, eip_fn_narg = 0\<rparr>;
         d = stab_data kern m addr;
         T = stab m (stabs d);
         n = stabstr_end d - stabstr d
     in if stabstr_end d \<le> stabstr d \<or> m (stabstr_end d - 1) \<noteq> 0 then Some (-1, info)
        else let (lfile, rfile) = stab_binsearch T 0 (sint (stab_end d - stabs d) sdiv 12 - 1) N_SO addr
        in if lfile = 0 then Some (-1, info)
        else let (lfun, rfun) = stab_binsearch T lfile rfile N_FUN addr;
                 (info, lline) =
                   (if lfun \<le> rfun then
                      (info\<lparr>eip_fn_name := if n_strx (T lfun) < n then stabstr d + n_strx (T lfun) else eip_fn_name info,
                         eip_fn_addr := n_value (T lfun)\<rparr>, lfun)
                    else (info\<lparr>eip_fn_addr := addr\<rparr>, lfile))
        in Option.bind (strfind m (eip_fn_name info) (of_char CHR '':'')) (\<lambda>p.
           let info = info\<lparr>eip_fn_namelen := sint (p - eip_fn_name info)\<rparr>;
               lline = find_source T lfile lline
           in Some (0, if lline \<ge> lfile \<and> n_strx (T lline) < n then info\<lparr>eip_file := stabstr d + n_strx (T lline)\<rparr> else info)))"

lemma strfind_str_at: "str_at m p xs \<Longrightarrow> strfind m p c = Some (p + of_nat (length (takeWhile (\<lambda>x. x \<noteq> c) xs)))"
proof (induction xs arbitrary: p)
  case Nil
  then show ?case by (subst strfind.simps) simp
next
  case (Cons x xs)
  then show ?case by (subst strfind.simps) (auto simp: add.assoc)
qed

lemma stab_binsearch_region:
  assumes "region T type left right addr a b" "searchable T type left right addr" "unat addr + 4 < 2 ^ 32"
  shows "stab_binsearch T left right type addr = (a, b)"
proof -
  obtain c d where cd: "stab_binsearch T left right type addr = (c, d)" by force
  have "left \<le> right + 1" "\<exists>i. entry T type left right i \<and> address_of T i \<le> unat addr"
    using assms(1) by (auto simp: region_def entry_def)
  with stab_binsearch_result [OF assms(2) _ assms(3) cd] have "region T type left right addr c d" by simp
  then show ?thesis using region_unique [OF assms(1) _ assms(2)] cd by blast
qed

text \<open>The entries at which the backward search stops: a source file, or an included one.\<close>

definition is_source :: "Stab \<Rightarrow> bool" where
  "is_source t \<longleftrightarrow> n_type t = N_SOL \<or> n_type t = N_SO \<and> n_value t \<noteq> 0"

lemma find_source_eq:
  assumes "f \<le> j" "j \<le> k" "is_source (T j)" "\<forall>i. j < i \<and> i \<le> k \<longrightarrow> \<not> is_source (T i)"
  shows "find_source T f k = j"
  using assms
proof (induction T f k rule: find_source.induct)
  case (1 T f k)
  show ?case
  proof (cases "j = k")
    case True
    then show ?thesis using "1.prems" by (subst find_source.simps) (auto simp: is_source_def)
  next
    case False
    then have "\<not> is_source (T k)" using "1.prems"(2,4) by simp
    then show ?thesis using 1 False by (subst find_source.simps) (auto simp: is_source_def)
  qed
qed


text \<open>A table of four entries with its strings behind it: the file \<^verbatim>\<open>a.c\<close> and the functions \<^verbatim>\<open>f:F\<close> and \<^verbatim>\<open>g\<close>.\<close>

definition debug_data :: "u8 list" where
  "debug_data =
    [0, 0, 0, 0, 0, 0, 0, 0, 0, 0, 0, 0,
     1, 0, 0, 0, 0x64, 0, 0, 0, 0x00, 0x00, 0x10, 0xF0,
     5, 0, 0, 0, 0x24, 0, 0, 0, 0x10, 0x00, 0x10, 0xF0,
     9, 0, 0, 0, 0x24, 0, 0, 0, 0x40, 0x00, 0x10, 0xF0,
     0, 97, 46, 99, 0, 102, 58, 70, 0, 103, 0]"

definition debug_memory :: bmem where
  "debug_memory a = (let i = unat (a - 0xF0200000) in if i < length debug_data then debug_data ! i else 0)"

definition debug_symbols :: UserStabData where
  "debug_symbols = \<lparr>stabs = 0xF0200000, stab_end = 0xF0200030, stabstr = 0xF0200030, stabstr_end = 0xF020003B\<rparr>"

lemma debug_stab:
  "stab debug_memory 0xF0200000 0 = \<lparr>n_strx = 0, n_type = 0, n_other = 0, n_desc = 0, n_value = 0\<rparr>"
  "stab debug_memory 0xF0200000 1 = \<lparr>n_strx = 1, n_type = N_SO, n_other = 0, n_desc = 0, n_value = 0xF0100000\<rparr>"
  "stab debug_memory 0xF0200000 2 = \<lparr>n_strx = 5, n_type = N_FUN, n_other = 0, n_desc = 0, n_value = 0xF0100010\<rparr>"
  "stab debug_memory 0xF0200000 3 = \<lparr>n_strx = 9, n_type = N_FUN, n_other = 0, n_desc = 0, n_value = 0xF0100040\<rparr>"
  by (simp_all add: stab_def Let_def load32_def load16_def debug_memory_def debug_data_def)

lemma debug_entries:
  "entry (stab debug_memory 0xF0200000) N_SO 0 3 i \<longleftrightarrow> i = 1"
  "entry (stab debug_memory 0xF0200000) N_FUN 1 3 i \<longleftrightarrow> i = 2 \<or> i = 3"
proof -
  have "0 \<le> i \<and> i \<le> 3 \<Longrightarrow> i = 0 \<or> i = 1 \<or> i = 2 \<or> i = 3" by arith
  then show "entry (stab debug_memory 0xF0200000) N_SO 0 3 i \<longleftrightarrow> i = 1"
    by (auto simp: entry_def debug_stab)
  have "1 \<le> i \<and> i \<le> 3 \<Longrightarrow> i = 1 \<or> i = 2 \<or> i = 3" by arith
  then show "entry (stab debug_memory 0xF0200000) N_FUN 1 3 i \<longleftrightarrow> i = 2 \<or> i = 3"
    by (auto simp: entry_def debug_stab)
qed


text \<open>
  \<^verbatim>\<open>debuginfo_eip\<close> always ends, whatever bytes lie in the tables. It returns 0 or \<open>-1\<close>; with \<open>-1\<close> the record says unknown.
  It never finds a line number or an argument count: both stay 0.
\<close>

theorem debuginfo_eip_total:
  "\<exists>r info. debuginfo_eip kern unknown m addr = Some (r, info) \<and> eip_line info = 0 \<and> eip_fn_narg info = 0 \<and>
    (r = 0 \<or> r = -1 \<and> info = \<lparr>eip_file = unknown, eip_line = 0, eip_fn_name = unknown, eip_fn_namelen = 9, eip_fn_addr = addr, eip_fn_narg = 0\<rparr>)"
proof -
  let ?d = "stab_data kern m addr"
  have "\<exists>q. strfind m p c = Some q" if "m (stabstr_end ?d - 1) = 0" for p c
    using terminated [of m "stabstr_end ?d - 1" p, OF that] strfind_str_at by blast
  then obtain q where q: "\<And>p c. m (stabstr_end ?d - 1) = 0 \<Longrightarrow> strfind m p c = Some (q p c)" by metis
  show ?thesis
  proof (cases "stabstr_end ?d \<le> stabstr ?d \<or> m (stabstr_end ?d - 1) \<noteq> 0")
    case True
    then show ?thesis by (simp add: debuginfo_eip_def Let_def)
  next
    case False
    then show ?thesis using q by (simp add: debuginfo_eip_def Let_def split: prod.split)
  qed
qed

end
