(* ===== verification/FOS_Loader.thy ===== *)
theory FOS_Loader
  imports FOS_Env
begin

text \<open>
  The boot loader \<^verbatim>\<open>boot/main.c\<close>: it reads the ELF image of the kernel from the first IDE disk and jumps to its entry point.
  The disk controller is a parameter: \<open>drive p ws i\<close> is byte \<open>i\<close> of what port \<open>p\<close> delivers after the
  outputs \<open>ws\<close>, the latest first. Its documented behaviour is the predicate \<open>serves\<close>. A loop that waits for the disk need not end.
\<close>

section \<open>The machine\<close>

record loader = io +
  memory :: bmem
  words_out :: "(u16 \<times> u16) list"

type_synonym drive = "u16 \<Rightarrow> (u16 \<times> u8) list \<Rightarrow> nat \<Rightarrow> u8"

definition outw :: "u16 \<Rightarrow> u16 \<Rightarrow> loader \<Rightarrow> loader" where
  "outw port data s = s\<lparr>words_out := (port, data) # words_out s\<rparr>"

text \<open>\<^verbatim>\<open>insl\<close> reads \<open>n\<close> words of four bytes from the port to \<open>addr\<close>.\<close>

definition insl :: "drive \<Rightarrow> u16 \<Rightarrow> u32 \<Rightarrow> nat \<Rightarrow> loader \<Rightarrow> loader" where
  "insl drive port addr n s =
    s\<lparr>memory := (\<lambda>a. if unat (a - addr) < 4 * n then drive port (writes s) (unat (a - addr)) else memory s a)\<rparr>"

section \<open>Reading from the disk\<close>

definition SECTSIZE :: u32 where [simp]: "SECTSIZE = 512"
definition ELFHDR :: u32 where [simp]: "ELFHDR = 0x10000"

partial_function (option) waitdisk :: "loader \<Rightarrow> loader option" where
  "waitdisk s = (let (v, s) = inb 0x1F7 s in if v AND 0xC0 \<noteq> 0x40 then waitdisk s else Some s)"

definition readsect :: "drive \<Rightarrow> u32 \<Rightarrow> u32 \<Rightarrow> loader \<Rightarrow> loader option" where
  "readsect drive dst offset s =
    Option.bind (waitdisk s) (\<lambda>s.
      let s = outb 0x1F2 1 s;
          s = outb 0x1F3 (ucast offset) s;
          s = outb 0x1F4 (ucast (drop_bit 8 offset)) s;
          s = outb 0x1F5 (ucast (drop_bit 16 offset)) s;
          s = outb 0x1F6 (ucast (drop_bit 24 offset OR 0xE0)) s;
          s = outb 0x1F7 0x20 s
      in Option.bind (waitdisk s) (\<lambda>s. Some (insl drive 0x1F0 dst (unat (SECTSIZE div 4)) s)))"

partial_function (option) readseg_loop :: "drive \<Rightarrow> u32 \<Rightarrow> u32 \<Rightarrow> u32 \<Rightarrow> loader \<Rightarrow> loader option" where
  "readseg_loop drive va end_va offset s =
    (if va < end_va
     then Option.bind (readsect drive va offset s) (readseg_loop drive (va + SECTSIZE) end_va (offset + 1))
     else Some s)"

definition readseg :: "drive \<Rightarrow> u32 \<Rightarrow> u32 \<Rightarrow> u32 \<Rightarrow> loader \<Rightarrow> loader option" where
  "readseg drive va count offset s =
    (let va = va AND 0xFFFFFF;
         end_va = va + count;
         va = va AND NOT (SECTSIZE - 1);
         offset = offset div SECTSIZE + 1
     in readseg_loop drive va end_va offset s)"

section \<open>Starting the kernel\<close>

partial_function (option) load_segments :: "drive \<Rightarrow> u32 \<Rightarrow> u32 \<Rightarrow> loader \<Rightarrow> loader option" where
  "load_segments drive ph eph s =
    (if ph < eph
     then Option.bind (readseg drive (p_va (memory s) ph) (p_memsz (memory s) ph) (p_offset (memory s) ph) s)
       (load_segments drive (ph + 32) eph)
     else Some s)"

text \<open>The loader calls the entry point or, at \<^verbatim>\<open>bad\<close>, loops for ever.\<close>

datatype boot_outcome = Called u32 loader | Halted loader

definition cmain :: "drive \<Rightarrow> loader \<Rightarrow> boot_outcome option" where
  "cmain drive s =
    Option.bind (readseg drive ELFHDR (SECTSIZE * 8) 0 s) (\<lambda>s.
      if e_magic (memory s) ELFHDR \<noteq> ELF_MAGIC then Some (Halted (outw 0x8A00 0x8E00 (outw 0x8A00 0x8A00 s)))
      else
        let ph = ELFHDR + e_phoff (memory s) ELFHDR;
            eph = ph + 32 * ucast (e_phnum (memory s) ELFHDR)
        in Option.bind (load_segments drive ph eph s) (\<lambda>s.
             Some (Called (e_entry (memory s) ELFHDR AND 0xFFFFFF) s)))"

section \<open>What the disk promises\<close>

text \<open>\<open>disk n i\<close> is byte \<open>i\<close> of sector \<open>n\<close>.\<close>

definition serves :: "drive \<Rightarrow> (nat \<Rightarrow> nat \<Rightarrow> u8) \<Rightarrow> bool" where
  "serves drive disk \<longleftrightarrow>
    (\<forall>n ws i. n < 2 ^ 28 \<and> i < 512 \<longrightarrow>
      drive 0x1F0 ((0x1F7, 0x20) # (0x1F6, ucast (drop_bit 24 n OR 0xE0)) # (0x1F5, ucast (drop_bit 16 n)) #
        (0x1F4, ucast (drop_bit 8 n)) # (0x1F3, ucast n) # (0x1F2, 1) # ws) i = disk (unat (n :: u32)) i)"

definition ready :: "loader \<Rightarrow> bool" where
  "ready s \<longleftrightarrow> (\<forall>n. \<exists>k \<ge> n. script s 0x1F7 k AND 0xC0 = 0x40)"

lemma waitdisk_ready:
  assumes "ready s"
  obtains n where "waitdisk s = Some (s\<lparr>reads := (reads s)(0x1F7 := n)\<rparr>)"
proof -
  obtain k where "reads s 0x1F7 \<le> k" "script s 0x1F7 k AND 0xC0 = 0x40" using assms by (auto simp: ready_def)
  then have "\<exists>n. waitdisk s = Some (s\<lparr>reads := (reads s)(0x1F7 := n)\<rparr>)"
  proof (induction "k - reads s 0x1F7" arbitrary: s rule: less_induct)
    case less
    show ?case
    proof (cases "script s 0x1F7 (reads s 0x1F7) AND 0xC0 = 0x40")
      case True
      then show ?thesis by (subst waitdisk.simps) (auto simp: inb_def)
    next
      case False
      let ?s = "s\<lparr>reads := (reads s)(0x1F7 := reads s 0x1F7 + 1)\<rparr>"
      have "reads s 0x1F7 \<noteq> k" using False less.prems(2) by auto
      then have "\<exists>n. waitdisk ?s = Some (?s\<lparr>reads := (reads ?s)(0x1F7 := n)\<rparr>)"
        using less.prems by (intro less.hyps) simp_all
      then show ?thesis using False by (subst waitdisk.simps) (simp add: inb_def)
    qed
  qed
  then show thesis using that by blast
qed

text \<open>\<open>sector\<close>: the memory with sector \<open>n\<close> at \<open>dst\<close>.\<close>

definition sector :: "(nat \<Rightarrow> nat \<Rightarrow> u8) \<Rightarrow> nat \<Rightarrow> u32 \<Rightarrow> bmem \<Rightarrow> bmem" where
  "sector disk n dst m = (\<lambda>a. if unat (a - dst) < 512 then disk n (unat (a - dst)) else m a)"

lemma readsect_ready:
  assumes "ready s" "serves drive disk" "n < 2 ^ 28"
  obtains t where "readsect drive dst n s = Some t" "ready t" "memory t = sector disk (unat n) dst (memory s)"
    "words_out t = words_out s"
proof -
  obtain j where j: "waitdisk s = Some (s\<lparr>reads := (reads s)(0x1F7 := j)\<rparr>)" by (rule waitdisk_ready [OF assms(1)])
  define u where "u = outb 0x1F7 0x20 (outb 0x1F6 (ucast (drop_bit 24 n OR 0xE0)) (outb 0x1F5 (ucast (drop_bit 16 n))
    (outb 0x1F4 (ucast (drop_bit 8 n)) (outb 0x1F3 (ucast n) (outb 0x1F2 1 (s\<lparr>reads := (reads s)(0x1F7 := j)\<rparr>))))))"
  have u: "ready u" "memory u = memory s" "words_out u = words_out s"
    "writes u = (0x1F7, 0x20) # (0x1F6, ucast (drop_bit 24 n OR 0xE0)) # (0x1F5, ucast (drop_bit 16 n)) #
        (0x1F4, ucast (drop_bit 8 n)) # (0x1F3, ucast n) # (0x1F2, 1) # writes s"
    using assms(1) by (simp_all add: u_def outb_def ready_def)
  obtain k where k: "waitdisk u = Some (u\<lparr>reads := (reads u)(0x1F7 := k)\<rparr>)" by (rule waitdisk_ready [OF u(1)])
  let ?t = "insl drive 0x1F0 dst 128 (u\<lparr>reads := (reads u)(0x1F7 := k)\<rparr>)"
  have "readsect drive dst n s = Some ?t" using j k by (simp add: readsect_def Let_def flip: u_def)
  moreover have "ready ?t" "words_out ?t = words_out s" using u by (simp_all add: insl_def ready_def)
  moreover have "memory ?t = sector disk (unat n) dst (memory s)"
    using assms(2,3) u(2,4) by (auto simp: insl_def sector_def serves_def)
  ultimately show thesis using that by blast
qed

text \<open>Byte \<open>j\<close> of the kernel image, which starts at the second sector.\<close>

definition kernel_byte :: "(nat \<Rightarrow> nat \<Rightarrow> u8) \<Rightarrow> nat \<Rightarrow> u8" where
  "kernel_byte disk j = disk (1 + j div 512) (j mod 512)"

text \<open>The memory with \<open>k\<close> sectors of the image from sector \<open>q\<close> on, at the address \<open>b\<close>.\<close>

definition image_at :: "(nat \<Rightarrow> nat \<Rightarrow> u8) \<Rightarrow> nat \<Rightarrow> nat \<Rightarrow> nat \<Rightarrow> bmem \<Rightarrow> bmem" where
  "image_at disk b k q m = (\<lambda>a. if b \<le> unat a \<and> unat a < b + 512 * k then kernel_byte disk (512 * q + (unat a - b)) else m a)"

lemma sector_offset:
  fixes a va :: u32
  assumes "unat va + 512 \<le> 2 ^ 32"
  shows "unat (a - va) < 512 \<longleftrightarrow> unat va \<le> unat a \<and> unat a < unat va + 512"
    and "unat va \<le> unat a \<Longrightarrow> unat (a - va) = unat a - unat va"
proof -
  show e: "unat va \<le> unat a \<Longrightarrow> unat (a - va) = unat a - unat va" by (simp add: unat_sub word_le_nat_alt)
  have "unat (a - va) = 2 ^ 32 + unat a - unat va" if "unat a < unat va"
    using that unat_u32_less [of va] by (simp add: unat_sub_if')
  then show "unat (a - va) < 512 \<longleftrightarrow> unat va \<le> unat a \<and> unat a < unat va + 512"
    using e assms by (cases "unat va \<le> unat a") auto
qed

lemma image_at_0: "image_at disk b 0 q m = m"
  unfolding image_at_def by (rule ext, rule if_not_P) auto

lemma image_at_Suc:
  assumes "unat va + 512 \<le> 2 ^ 32"
  shows "image_at disk (unat va) (Suc k) q m = image_at disk (unat va + 512) k (q + 1) (sector disk (q + 1) va m)"
proof
  fix a :: u32
  note o = sector_offset [OF assms, of a]
  consider "unat a < unat va" | "unat va \<le> unat a" "unat a < unat va + 512" | "unat va + 512 \<le> unat a" by linarith
  then show "image_at disk (unat va) (Suc k) q m a = image_at disk (unat va + 512) k (q + 1) (sector disk (q + 1) va m) a"
  proof cases
    case 1
    then show ?thesis using o by (auto simp: image_at_def sector_def)
  next
    case 2
    then have "kernel_byte disk (512 * q + (unat a - unat va)) = disk (q + 1) (unat a - unat va)"
      by (simp add: kernel_byte_def del: add_diff_assoc add_diff_assoc2)
    then show ?thesis using 2 o by (auto simp: image_at_def sector_def)
  next
    case 3
    then have "512 * q + (unat a - unat va) = 512 * (q + 1) + (unat a - (unat va + 512))" by simp
    then show ?thesis using 3 o by (auto simp: image_at_def sector_def)
  qed
qed

lemma readseg_loop_image:
  assumes "ready s" "serves drive disk" "unat end_va + 511 < 2 ^ 32" "unat offset = q + 1"
    and "k = (unat end_va - unat va + 511) div 512" "unat offset + k \<le> 2 ^ 28"
  shows "\<exists>t. readseg_loop drive va end_va offset s = Some t \<and> ready t \<and>
    memory t = image_at disk (unat va) k q (memory s) \<and> words_out t = words_out s"
  using assms
proof (induction k arbitrary: s va offset q)
  case 0
  then have "\<not> va < end_va" by (auto simp: word_less_nat_alt div_eq_0_iff)
  then show ?case using 0 by (subst readseg_loop.simps) (simp add: image_at_0)
next
  case (Suc k)
  have "unat end_va - unat va \<noteq> 0"
  proof
    assume "unat end_va - unat va = 0"
    then show False using Suc.prems(5) by simp
  qed
  then have lt: "va < end_va" by (simp add: word_less_nat_alt)
  have room: "unat va + 512 < 2 ^ 32" using lt Suc.prems(3) by (simp add: word_less_nat_alt)
  have va: "unat (va + 512) = unat va + 512"
    using room by (simp add: unat_word_ariths)
  have "unat offset + 1 < 2 ^ 32" using Suc.prems(6) by simp
  then have off: "unat (offset + 1) = (q + 1) + 1" using Suc.prems(4) by (simp add: unat_word_ariths)
  have k: "k = (unat end_va - unat (va + 512) + 511) div 512" using Suc.prems(5) unfolding va by arith
  have "offset < 2 ^ 28" using Suc.prems(6) by (simp add: word_less_nat_alt)
  then obtain t where t: "readsect drive va offset s = Some t" "ready t"
    "memory t = sector disk (unat offset) va (memory s)" "words_out t = words_out s"
    by (rule readsect_ready [OF Suc.prems(1,2)])
  have "unat (offset + 1) + k \<le> 2 ^ 28" using Suc.prems(4,6) off by simp
  from Suc.IH [OF t(2) Suc.prems(2,3) off k this] obtain u where
    u: "readseg_loop drive (va + 512) end_va (offset + 1) t = Some u" "ready u"
      "memory u = image_at disk (unat va + 512) k (q + 1) (memory t)" "words_out u = words_out t"
    unfolding va by blast
  have "readseg_loop drive va end_va offset s = Some u"
    using lt t(1) u(1) by (subst readseg_loop.simps) simp
  then show ?case using u t image_at_Suc [of va disk k q "memory s"] room Suc.prems(4) by auto
qed

text \<open>
  The memory after the segment of \<open>count\<close> bytes at \<open>offset\<close> in the image was loaded to \<open>va\<close>: whole sectors, from the one
  with the first byte on.
\<close>

definition loaded :: "(nat \<Rightarrow> nat \<Rightarrow> u8) \<Rightarrow> u32 \<Rightarrow> u32 \<Rightarrow> u32 \<Rightarrow> bmem \<Rightarrow> bmem" where
  "loaded disk va count offset =
    (let v = unat (va AND 0xFFFFFF)
     in image_at disk (v - v mod 512) ((unat count + v mod 512 + 511) div 512) (unat offset div 512))"

definition fits :: "u32 \<Rightarrow> u32 \<Rightarrow> bool" where
  "fits va count \<longleftrightarrow> unat (va AND 0xFFFFFF) + unat count + 511 < 2 ^ 32"

lemma readseg_loaded:
  assumes "ready s" "serves drive disk" "fits va count"
  obtains t where "readseg drive va count offset s = Some t" "ready t" "memory t = loaded disk va count offset (memory s)"
    "words_out t = words_out s"
proof -
  let ?v = "va AND 0xFFFFFF"
  have m: "(511 :: u32) = mask 9" "(0xFFFFFF :: u32) = mask 24" by (simp_all add: mask_eq_exp_minus_1)
  have b: "unat (?v AND NOT 511) = unat ?v - unat ?v mod 512" unfolding m(1) by (simp add: unat_and_not_mask)
  have "unat ?v < 2 ^ 24" unfolding m(2) by (simp add: unat_and_mask)
  have e: "unat (?v + count) = unat ?v + unat count"
    using assms(3) by (simp add: fits_def unat_word_ariths)
  have q: "unat (offset div 512 + 1) = unat offset div 512 + 1"
    using unat_u32_less [of offset] by (simp add: unat_word_ariths unat_div)
  have "(unat (?v + count) - unat (?v AND NOT 511) + 511) div 512 \<le> (2 ^ 32 - 1) div 512"
    using assms(3) unfolding e fits_def by (intro div_le_mono) simp
  moreover have "unat offset div 512 \<le> (2 ^ 32 - 1) div 512" using unat_u32_less [of offset] by (intro div_le_mono) simp
  ultimately have "unat (offset div 512 + 1) + (unat (?v + count) - unat (?v AND NOT 511) + 511) div 512 \<le> 2 ^ 28"
    unfolding q by simp
  note room = this
  have f: "unat (?v + count) + 511 < 2 ^ 32" using assms(3) unfolding e fits_def .
  obtain t where "readseg_loop drive (?v AND NOT 511) (?v + count) (offset div 512 + 1) s = Some t" "ready t"
    "memory t = image_at disk (unat (?v AND NOT 511)) ((unat (?v + count) - unat (?v AND NOT 511) + 511) div 512)
      (unat offset div 512) (memory s)" "words_out t = words_out s"
    using readseg_loop_image [OF assms(1,2) f q refl room] by blast
  moreover have "readseg drive va count offset s =
      readseg_loop drive (?v AND NOT 511) (?v + count) (offset div 512 + 1) s" by (simp add: readseg_def Let_def)
  moreover have "unat ?v + unat count - (unat ?v - unat ?v mod 512) = unat count + unat ?v mod 512"
    using mod_less_eq_dividend [of "unat ?v" 512] by linarith
  ultimately show thesis using that by (simp only: loaded_def Let_def e b)
qed

section \<open>What the loader loads\<close>

lemma loaded_inside:
  assumes "fits va count" "unat (va AND 0xFFFFFF) mod 512 = unat offset mod 512" "k < unat count"
  shows "loaded disk va count offset m ((va AND 0xFFFFFF) + of_nat k) = kernel_byte disk (unat offset + k)"
proof -
  let ?v = "unat (va AND 0xFFFFFF)"
  define r where "r = ?v mod 512"
  have r: "r \<le> ?v" "unat offset = 512 * (unat offset div 512) + r" "r < 512"
    using assms(2) by (simp_all add: r_def)
  have a: "unat ((va AND 0xFFFFFF) + of_nat k) = ?v + k"
    using assms(1,3) by (simp add: fits_def unat_word_ariths unat_of_nat)
  have "k + r < 512 * ((unat count + r + 511) div 512)" using assms(3) by arith
  then have "?v - r \<le> ?v + k \<and> ?v + k < ?v - r + 512 * ((unat count + r + 511) div 512)" using r(1) by linarith
  moreover have "512 * (unat offset div 512) + (?v + k - (?v - r)) = unat offset + k" using r(1,2) by linarith
  ultimately show ?thesis by (simp only: loaded_def image_at_def Let_def a r_def [symmetric] if_True simp_thms)
qed

lemma loaded_outside:
  fixes va count a :: u32
  defines "v \<equiv> unat (va AND 0xFFFFFF)"
  assumes "unat a + 512 \<le> v \<or> v + unat count + 511 \<le> unat a"
  shows "loaded disk va count offset m a = m a"
proof -
  define r where "r = v mod 512"
  have r: "r \<le> v" "r < 512" by (simp_all add: r_def)
  have "512 * ((unat count + r + 511) div 512) \<le> unat count + r + 511" by simp
  then have "\<not> (v - r \<le> unat a \<and> unat a < v - r + 512 * ((unat count + r + 511) div 512))"
    using assms(2) r by linarith
  then show ?thesis unfolding loaded_def image_at_def Let_def v_def [symmetric] r_def [symmetric] by (simp only: if_False)
qed

text \<open>
  \<^verbatim>\<open>readseg\<close> loads a segment. With a disk that keeps its promise and becomes ready again and again, \<^verbatim>\<open>readseg\<close> ends. When
  the address and the offset agree modulo the sector size, the bytes from \<^verbatim>\<open>va\<close> on are the bytes of the kernel image from
  \<^verbatim>\<open>offset\<close> on; memory more than 511 bytes away from the segment is kept.
\<close>

theorem readseg_correct:
  assumes "ready s" "serves drive disk" "fits va count" "unat (va AND 0xFFFFFF) mod 512 = unat offset mod 512"
  shows "\<exists>t. readseg drive va count offset s = Some t \<and>
    (\<forall>k < unat count. memory t ((va AND 0xFFFFFF) + of_nat k) = kernel_byte disk (unat offset + k)) \<and>
    (\<forall>a. unat a + 512 \<le> unat (va AND 0xFFFFFF) \<or> unat (va AND 0xFFFFFF) + unat count + 511 \<le> unat a \<longrightarrow>
      memory t a = memory s a)"
proof -
  obtain t where "readseg drive va count offset s = Some t" "memory t = loaded disk va count offset (memory s)"
    by (rule readseg_loaded [OF assms(1-3)])
  then show ?thesis using loaded_inside [OF assms(3,4)] loaded_outside by (intro exI [of _ t]) simp
qed

text \<open>The program headers are read again from memory for every segment, so no segment may be loaded over them.\<close>

definition header_kept :: "u32 \<Rightarrow> u32 \<Rightarrow> bool" where
  "header_kept va count \<longleftrightarrow>
    0x11000 + 511 \<le> unat (va AND 0xFFFFFF) \<or> unat (va AND 0xFFFFFF) + unat count + 511 \<le> 0x10000"

lemma loaded_header:
  assumes "header_kept va count" "0x10000 \<le> a" "a < 0x11000"
  shows "loaded disk va count offset m a = m a"
  by (rule loaded_outside) (use assms in \<open>auto simp: header_kept_def word_le_nat_alt word_less_nat_alt\<close>)

lemma load32_cong: "(\<And>i. i < 4 \<Longrightarrow> m (a + of_nat i) = m' (a + of_nat i)) \<Longrightarrow> load32 m a = load32 m' a"
proof -
  assume *: "\<And>i. i < 4 \<Longrightarrow> m (a + of_nat i) = m' (a + of_nat i)"
  from * [of 0] * [of 1] * [of 2] * [of 3] show ?thesis by (simp add: load32_def load16_def add.commute [of 3])
qed

definition same_header :: "bmem \<Rightarrow> bmem \<Rightarrow> bool" where
  "same_header m m' \<longleftrightarrow> (\<forall>a. 0x10000 \<le> a \<and> a < 0x11000 \<longrightarrow> m a = m' a)"

lemma same_header_load:
  assumes "same_header m m'" "0x10000 \<le> unat p" "unat p + unat k + 4 \<le> 0x11000"
  shows "load32 m (p + k) = load32 m' (p + k)"
proof (rule load32_cong)
  fix i :: nat assume "i < 4"
  then have "unat (p + k + of_nat i) = unat p + unat k + i"
    using assms(3) by (simp add: unat_word_ariths unat_of_nat)
  then show "m (p + k + of_nat i) = m' (p + k + of_nat i)"
    using assms \<open>i < 4\<close> by (simp add: same_header_def word_le_nat_alt word_less_nat_alt)
qed

lemma same_header_fields:
  assumes "same_header m m'" "0x10000 \<le> unat ph" "unat ph + 32 \<le> 0x11000"
  shows "p_va m ph = p_va m' ph" "p_memsz m ph = p_memsz m' ph" "p_offset m ph = p_offset m' ph"
    and "e_entry m 0x10000 = e_entry m' 0x10000"
proof -
  note s = same_header_load [OF assms(1)]
  show "p_va m ph = p_va m' ph" "p_memsz m ph = p_memsz m' ph" "p_offset m ph = p_offset m' ph"
    using assms(2,3) by (simp_all add: p_va_def p_memsz_def p_offset_def s)
  show "e_entry m 0x10000 = e_entry m' 0x10000" using s [of "0x10000" 24] by (simp add: e_entry_def)
qed

text \<open>The addresses of \<open>n\<close> program headers, and what loading the segment of one of them does.\<close>

fun header_list :: "u32 \<Rightarrow> nat \<Rightarrow> u32 list" where
  "header_list ph 0 = []"
| "header_list ph (Suc n) = ph # header_list (ph + 32) n"

definition segment :: "(nat \<Rightarrow> nat \<Rightarrow> u8) \<Rightarrow> bmem \<Rightarrow> u32 \<Rightarrow> bmem \<Rightarrow> bmem" where
  "segment disk h ph = loaded disk (p_va h ph) (p_memsz h ph) (p_offset h ph)"

definition loadable :: "bmem \<Rightarrow> u32 \<Rightarrow> bool" where
  "loadable h ph \<longleftrightarrow> fits (p_va h ph) (p_memsz h ph) \<and> header_kept (p_va h ph) (p_memsz h ph)"

lemma load_segments_all:
  assumes "ready s" "serves drive disk" "same_header (memory s) h" "0x10000 \<le> unat ph" "unat ph + 32 * n \<le> 0x11000"
    and "\<forall>p \<in> set (header_list ph n). loadable h p"
  shows "\<exists>t. load_segments drive ph (ph + 32 * of_nat n) s = Some t \<and> same_header (memory t) h \<and>
    memory t = fold (segment disk h) (header_list ph n) (memory s)"
  using assms
proof (induction n arbitrary: s ph)
  case 0
  then show ?case by (subst load_segments.simps) simp
next
  case (Suc n)
  let ?stop = "ph + 32 * of_nat (Suc n)"
  have "unat (of_nat (Suc n) :: u32) = Suc n" using Suc.prems(4,5) by (simp add: unat_of_nat del: of_nat_Suc)
  then have "unat ?stop = unat ph + 32 * Suc n" using Suc.prems(4,5) by (simp add: unat_word_ariths del: of_nat_Suc)
  then have lt: "ph < ?stop" by (simp add: word_less_nat_alt del: of_nat_Suc)
  have ph: "unat (ph + 32) = unat ph + 32" using Suc.prems(5) by (simp add: unat_word_ariths)
  have "unat ph + 32 \<le> 0x11000" using Suc.prems(5) by simp
  note f = same_header_fields [OF Suc.prems(3,4) this]
  have l: "loadable h ph" using Suc.prems(6) by simp
  then have "fits (p_va (memory s) ph) (p_memsz (memory s) ph)" by (simp add: loadable_def f)
  then obtain t where t: "readseg drive (p_va (memory s) ph) (p_memsz (memory s) ph) (p_offset (memory s) ph) s = Some t"
    "ready t" "memory t = segment disk h ph (memory s)"
    using readseg_loaded [OF Suc.prems(1,2)] unfolding segment_def f by metis
  have "same_header (memory t) h"
    using l Suc.prems(3) by (simp add: same_header_def t(3) segment_def loadable_def loaded_header)
  then have "\<exists>u. load_segments drive (ph + 32) (ph + 32 + 32 * of_nat n) t = Some u \<and> same_header (memory u) h \<and>
      memory u = fold (segment disk h) (header_list (ph + 32) n) (memory t)"
    using Suc.prems by (intro Suc.IH [OF t(2)]) (simp_all add: ph)
  moreover have "ph + 32 + 32 * of_nat n = ?stop" by (simp add: algebra_simps)
  moreover have "load_segments drive ph ?stop s = load_segments drive (ph + 32) ?stop t"
    using lt t(1) by (subst load_segments.simps) (simp del: of_nat_Suc)
  ultimately show ?case by (auto simp: t(3))
qed

text \<open>
  C21: the boot loader starts the kernel. On a machine whose disk works, \<^verbatim>\<open>cmain\<close> reads the first page of the image; if it is
  no ELF header the loader halts. Otherwise, if the headers lie in that page, the segments fit into the address space and none is
  loaded over the headers, it loads the segments in order and calls the entry point with its upper eight bits cleared.
\<close>

theorem cmain_correct:
  fixes s :: loader and disk :: "nat \<Rightarrow> nat \<Rightarrow> u8"
  defines "h \<equiv> loaded disk ELFHDR 0x1000 0 (memory s)"
  defines "ph \<equiv> ELFHDR + e_phoff h ELFHDR" and "n \<equiv> unat (e_phnum h ELFHDR)"
  assumes "ready s" "serves drive disk"
    and "e_magic h ELFHDR = ELF_MAGIC \<longrightarrow>
      unat (e_phoff h ELFHDR) + 32 * n \<le> 0x1000 \<and> (\<forall>p \<in> set (header_list ph n). loadable h p)"
  shows "\<exists>t. if e_magic h ELFHDR = ELF_MAGIC
    then cmain drive s = Some (Called (e_entry h ELFHDR AND 0xFFFFFF) t) \<and>
      memory t = fold (segment disk h) (header_list ph n) h
    else cmain drive s = Some (Halted t) \<and> memory t = h \<and>
      words_out t = [(0x8A00, 0x8E00), (0x8A00, 0x8A00)] @ words_out s"
proof -
  have "fits ELFHDR 0x1000" by (simp add: fits_def)
  then obtain u where u: "readseg drive ELFHDR 0x1000 0 s = Some u" "ready u" "memory u = loaded disk ELFHDR 0x1000 0 (memory s)"
      "words_out u = words_out s"
    by (rule readseg_loaded [OF assms(4,5)])
  note u = this(1,2) this(3) [folded h_def] this(4)
  show ?thesis
  proof (cases "e_magic h ELFHDR = ELF_MAGIC")
    case False
    then show ?thesis using u by (simp add: cmain_def outw_def)
  next
    case True
    then have "unat (e_phoff h ELFHDR) + 32 * n \<le> 0x1000" and l: "\<forall>p \<in> set (header_list ph n). loadable h p"
      using assms(6) by simp_all
    then have b: "0x10000 \<le> unat ph" "unat ph + 32 * n \<le> 0x11000"
      by (simp_all add: ph_def unat_word_ariths)
    have "same_header (memory u) h" by (simp add: same_header_def u(3))
    from load_segments_all [OF u(2) assms(5) this b l] obtain t where
      t: "load_segments drive ph (ph + 32 * of_nat n) u = Some t" "same_header (memory t) h"
        "memory t = fold (segment disk h) (header_list ph n) h" by (auto simp: u(3))
    have "ucast (e_phnum h ELFHDR) = (of_nat n :: u32)" by (simp add: n_def)
    moreover have "0x10000 + e_phoff h 0x10000 = ph" by (simp add: ph_def)
    moreover have "e_entry (memory t) ELFHDR = e_entry h ELFHDR"
      using same_header_fields(4) [OF t(2), of "0x10000"] by simp
    ultimately show ?thesis
      using True u(1,3) t(1,3) by (intro exI [of _ t]) (simp add: cmain_def Let_def)
  qed
qed

text \<open>A disk drive that decodes the sector number, and a disk with an image of one segment.\<close>

definition lba :: "(u16 \<times> u8) list \<Rightarrow> u32" where
  "lba ws =
    (case ws of _ # (_, d3) # (_, d2) # (_, d1) # (_, d0) # _ \<Rightarrow>
       ucast d0 OR push_bit 8 (ucast d1) OR push_bit 16 (ucast d2) OR push_bit 24 (ucast (d3 AND 0x0F))
     | _ \<Rightarrow> 0)"

definition drive_of :: "(nat \<Rightarrow> nat \<Rightarrow> u8) \<Rightarrow> drive" where
  "drive_of disk p ws i = disk (unat (lba ws)) i"

lemma serves_drive_of: "serves (drive_of disk) disk"
proof -
  have m: "(0x0F :: u8) = mask 4" "(0xE0 :: u32) = push_bit 5 (mask 3)"
    by (simp_all add: mask_eq_exp_minus_1 push_bit_eq_mult)
  have "ucast (ucast n :: u8) OR push_bit 8 (ucast (ucast (drop_bit 8 n) :: u8)) OR push_bit 16 (ucast (ucast (drop_bit 16 n) :: u8)) OR
      push_bit 24 (ucast (ucast (drop_bit 24 n OR 0xE0) AND 0x0F :: u8)) = n" if "n < 2 ^ 28" for n :: u32
  proof (rule bit_word_eqI)
    fix k assume "k < LENGTH(32)"
    have "bit n k \<Longrightarrow> k < 28" using that bit_less_exp [of n 28 k] by (simp add: word_less_nat_alt)
    then show "bit (ucast (ucast n :: u8) OR push_bit 8 (ucast (ucast (drop_bit 8 n) :: u8)) OR
        push_bit 16 (ucast (ucast (drop_bit 16 n) :: u8)) OR
        push_bit 24 (ucast (ucast (drop_bit 24 n OR 0xE0) AND 0x0F :: u8)) :: u32) k = bit n k"
      unfolding m by (auto simp: bit_simps)
  qed
  then show ?thesis by (simp add: serves_def drive_of_def lba_def)
qed

definition image_header :: "u8 list" where
  "image_header =
    [0x7F, 0x45, 0x4C, 0x46, 0, 0, 0, 0, 0, 0, 0, 0, 0, 0, 0, 0, 2, 0, 3, 0, 1, 0, 0, 0,
     0x0C, 0x00, 0x10, 0xF0, 52, 0, 0, 0, 0, 0, 0, 0, 0, 0, 0, 0, 52, 0, 32, 0, 1, 0, 0, 0, 0, 0, 0, 0,
     1, 0, 0, 0, 0x00, 0x10, 0, 0, 0x00, 0x00, 0x10, 0xF0, 0x00, 0x00, 0x10, 0xF0, 0, 2, 0, 0, 0, 2, 0, 0, 7, 0, 0, 0, 0, 0x10, 0, 0]"

definition disk_example :: "nat \<Rightarrow> nat \<Rightarrow> u8" where
  "disk_example n i = (if n = 1 \<and> i < 84 then image_header ! i else if n = 9 then 0xAA else 0)"

definition loader_example :: loader where
  "loader_example = \<lparr>script = (\<lambda>_ n. if n mod 3 = 2 then 0x40 else 0x80), reads = (\<lambda>_. 0), writes = [], memory = (\<lambda>_. 0), words_out = []\<rparr>"

lemma loader_example_ready: "ready loader_example"
  unfolding ready_def
proof
  fix n :: nat
  have "n \<le> 3 * n + 2" "(3 * n + 2) mod 3 = 2" by presburger+
  then show "\<exists>k \<ge> n. script loader_example 0x1F7 k AND 0xC0 = 0x40"
    by (intro exI [of _ "3 * n + 2"]) (simp add: loader_example_def)
qed

lemma header_example:
  "i < 84 \<Longrightarrow> loaded disk_example 0x10000 0x1000 0 m (0x10000 + of_nat i) = image_header ! i"
proof -
  assume "i < 84"
  then have "loaded disk_example 0x10000 0x1000 0 m ((0x10000 AND 0xFFFFFF) + of_nat i) = kernel_byte disk_example (unat (0 :: u32) + i)"
    by (intro loaded_inside) (simp_all add: fits_def)
  then show ?thesis using \<open>i < 84\<close> by (simp add: kernel_byte_def disk_example_def)
qed

lemma header_example_fields:
  defines "h \<equiv> loaded disk_example ELFHDR 0x1000 0 (memory loader_example)"
  shows "e_magic h ELFHDR = ELF_MAGIC" "e_entry h ELFHDR = 0xF010000C" "e_phoff h ELFHDR = 52" "e_phnum h ELFHDR = 1"
    "p_va h 0x10034 = 0xF0100000" "p_memsz h 0x10034 = 0x200" "p_offset h 0x10034 = 0x1000"
proof -
  have e: "h (0x10000 + of_nat i) = image_header ! i" if "i < 84" for i
    using header_example [OF that, of "memory loader_example"] by (simp add: h_def)
  have l: "load16 h (0x10000 + of_nat i) = ucast (image_header ! i) OR push_bit 8 (ucast (image_header ! Suc i))" if "i < 83" for i
    using e [of i] e [of "Suc i"] that by (simp add: load16_def add.assoc add.commute)
  show "e_magic h ELFHDR = ELF_MAGIC" "e_entry h ELFHDR = 0xF010000C" "e_phoff h ELFHDR = 52" "e_phnum h ELFHDR = 1"
    "p_va h 0x10034 = 0xF0100000" "p_memsz h 0x10034 = 0x200" "p_offset h 0x10034 = 0x1000"
    using l [of 0] l [of 2] l [of 24] l [of 26] l [of 28] l [of 30] l [of 44] l [of 60] l [of 62] l [of 72] l [of 74] l [of 56] l [of 58]
    by (simp_all add: e_magic_def e_entry_def e_phoff_def e_phnum_def p_va_def p_memsz_def p_offset_def load32_def image_header_def)
qed

theorem cmain_correct_witness:
  "\<exists>t. cmain (drive_of disk_example) loader_example = Some (Called 0x10000C t) \<and> memory t 0x1001FF = 0xAA"
proof -
  note f = header_example_fields
  have l: "loadable (loaded disk_example ELFHDR 0x1000 0 (memory loader_example)) 0x10034"
    using f(5,6) by (simp add: loadable_def fits_def header_kept_def)
  obtain t where "cmain (drive_of disk_example) loader_example = Some (Called 0x10000C t)"
    "memory t = loaded disk_example 0xF0100000 0x200 0x1000 (loaded disk_example ELFHDR 0x1000 0 (memory loader_example))"
    using cmain_correct [OF loader_example_ready serves_drive_of [of disk_example]] f l
    by (auto simp: segment_def)
  moreover have "loaded disk_example 0xF0100000 0x200 0x1000 m ((0xF0100000 AND 0xFFFFFF) + of_nat 511) = kernel_byte disk_example (unat (0x1000 :: u32) + 511)"
    for m by (intro loaded_inside) (simp_all add: fits_def)
  ultimately show ?thesis by (auto simp: kernel_byte_def disk_example_def)
qed

theorem readseg_correct_witness:
  "\<exists>t. readseg (drive_of disk_example) 0xF0100000 0x200 0x1000 loader_example = Some t \<and> memory t 0x1001FF = 0xAA \<and> memory t 0x100500 = 0"
proof -
  have h: "fits 0xF0100000 0x200" "unat (0xF0100000 AND 0xFFFFFF :: u32) mod 512 = unat (0x1000 :: u32) mod 512"
    by (simp_all add: fits_def)
  from readseg_correct [OF loader_example_ready serves_drive_of [of disk_example] h] obtain t where
    t: "readseg (drive_of disk_example) 0xF0100000 0x200 0x1000 loader_example = Some t"
    and inside: "\<forall>k < unat (0x200 :: u32). memory t ((0xF0100000 AND 0xFFFFFF) + of_nat k) = kernel_byte disk_example (unat (0x1000 :: u32) + k)"
    and outside: "\<forall>a. unat a + 512 \<le> unat (0xF0100000 AND 0xFFFFFF :: u32) \<or> unat (0xF0100000 AND 0xFFFFFF :: u32) + unat (0x200 :: u32) + 511 \<le> unat a \<longrightarrow>
      memory t a = memory loader_example a" by blast
  show ?thesis
    using t inside [rule_format, of 511] outside [rule_format, of "0x100500"]
    by (intro exI [of _ t]) (simp add: kernel_byte_def disk_example_def loader_example_def)
qed

end
