(* ===== verification/FOS_Readline.thy ===== *)
theory FOS_Readline
  imports FOS_Kernel
begin

text \<open>
  Reading a line: \<^verbatim>\<open>lib/readline.c\<close>, which the kernel and user programs share. The loop is parametric in the
  functions it calls; the kernel's are those of \<open>FOS_Console\<close>.
\<close>

section \<open>The loop\<close>

definition BUFLEN :: nat where [simp]: "BUFLEN = 1024"

text \<open>
  The functions of the terminal: \<^verbatim>\<open>getchar\<close>, \<^verbatim>\<open>cputchar\<close> and the \<^verbatim>\<open>cprintf\<close> of the message for a read
  error. \<open>m\<close> is the memory with the buffer.
\<close>

record 's terminal_ops =
  t_get :: "'s \<Rightarrow> (int \<times> 's) option"
  t_put :: "int \<Rightarrow> 's \<Rightarrow> 's"
  t_err :: "bmem \<Rightarrow> int \<Rightarrow> 's \<Rightarrow> 's option"

partial_function (option) readline_loop ::
    "'s terminal_ops \<Rightarrow> u32 \<Rightarrow> bool \<Rightarrow> nat \<Rightarrow> bmem \<Rightarrow> 's \<Rightarrow> (bmem \<times> 's) option" where
  "readline_loop ops dst echoing i m s =
    Option.bind (t_get ops s) (\<lambda>(c, s).
      if c < 0 then
        (if c \<noteq> - E_EOF then Option.bind (t_err ops m c s) (\<lambda>s. Some (m, s)) else Some (m, s))
      else if 0x20 \<le> c \<and> i < BUFLEN - 1 then
        readline_loop ops dst echoing (i + 1) (m(dst + of_nat i := word_of_int c))
          (if echoing then t_put ops c s else s)
      else if c = 0x08 \<and> 0 < i then
        readline_loop ops dst echoing (i - 1) m (if echoing then t_put ops c s else s)
      else if c = 0x0A \<or> c = 0x0D then
        Some (m(dst + of_nat i := 0), if echoing then t_put ops c s else s)
      else readline_loop ops dst echoing i m s)"

text \<open>The kernel's \<^verbatim>\<open>readline\<close>; no prompt is printed for a null pointer.\<close>

definition kernel_get :: "console \<Rightarrow> (int \<times> console) option" where
  "kernel_get s = map_option (\<lambda>(c, s). (uint c, s)) (getchar s)"

definition kernel_put :: "int \<Rightarrow> console \<Rightarrow> console" where
  "kernel_put c = cputchar (word_of_int c)"

definition kernel_read_error :: "bmem \<Rightarrow> int \<Rightarrow> console \<Rightarrow> console option" where
  "kernel_read_error m c s =
    map_option snd (kern_vcprintf cputchar m (ascii (''read error: %e'' @ [CHR 0x0A]))
      (\<lambda>i. if i = 0 then word_of_int c else 0) s)"

definition kernel_terminal :: "console terminal_ops" where
  "kernel_terminal = \<lparr>t_get = kernel_get, t_put = kernel_put, t_err = kernel_read_error\<rparr>"

definition readline :: "u32 \<Rightarrow> u32 \<Rightarrow> kernel \<Rightarrow> kernel res" where
  "readline prompt dst s =
    bind_res (if prompt \<noteq> 0 then cprintf ''%s'' [prompt] s else Inr s) (\<lambda>s.
      bind_res (loop_res (readline_loop kernel_terminal dst (iscons 0 \<noteq> 0) 0
        (bytes s) (con s))) (\<lambda>(m, c). Inr (s\<lparr>bytes := m, con := c\<rparr>)))"

section \<open>The line that is typed\<close>

text \<open>
  What the keys mean: the line so far is \<open>acc\<close>; the result is the line, what is echoed after this, and the keys that are
  left. A line without an end has no result.
\<close>

fun edit_line :: "u8 list \<Rightarrow> u8 list \<Rightarrow> (u8 list \<times> u8 list \<times> u8 list) option" where
  "edit_line acc [] = None"
| "edit_line acc (c # cs) =
    (if 0x20 \<le> c \<and> length acc < 1023 then map_option (\<lambda>(l, es, rest). (l, c # es, rest)) (edit_line (acc @ [c]) cs)
     else if c = 0x08 \<and> acc \<noteq> [] then map_option (\<lambda>(l, es, rest). (l, c # es, rest)) (edit_line (butlast acc) cs)
     else if c = 0x0A \<or> c = 0x0D then Some (acc, [c], cs)
     else edit_line acc cs)"

lemma edit_line_length: "edit_line acc cs = Some (l, es, rest) \<Longrightarrow> length acc \<le> 1023 \<Longrightarrow> length l \<le> 1023"
  by (induction acc cs arbitrary: l es rest rule: edit_line.induct) (auto split: if_splits)

lemma slot_inj: "k < i \<Longrightarrow> i \<le> 1023 \<Longrightarrow> dst + of_nat k \<noteq> dst + (of_nat i :: u32)"
proof -
  assume "k < i" "i \<le> 1023"
  then have "unat (of_nat k :: u32) \<noteq> unat (of_nat i :: u32)" by (simp add: unat_of_nat)
  then show ?thesis by auto
qed

lemma slot_in_block: "i \<le> 1023 \<Longrightarrow> dst + of_nat i \<in> block dst 1024"
  by (simp add: not_in_block unat_of_nat)

text \<open>
  What the loop relies on: \<open>typed\<close> are the characters that wait, \<open>shown\<close> those that were echoed.
\<close>

locale terminal =
  fixes ops :: "'s terminal_ops"
    and typed :: "'s \<Rightarrow> u8 list" and shown :: "'s \<Rightarrow> u8 list" and ok :: "'s \<Rightarrow> bool"
  assumes get_law: "ok s \<Longrightarrow> typed s = c # cs \<Longrightarrow>
      \<exists>t. t_get ops s = Some (uint c, t) \<and> ok t \<and> typed t = cs \<and> shown t = shown s"
    and put_law: "ok s \<Longrightarrow> 0x20 \<le> c \<or> c = 0x08 \<or> c = 0x0A \<or> c = 0x0D \<Longrightarrow>
      ok (t_put ops (uint c) s) \<and> typed (t_put ops (uint c) s) = typed s \<and> shown (t_put ops (uint c) s) = shown s @ [c]"
begin

lemma loop_edits:
  assumes "edit_line acc cs = Some (l, es, rest)" "ok s" "typed s = cs" "length acc \<le> 1023" "length acc = i"
    and "\<forall>k < length acc. m (dst + of_nat k) = acc ! k"
  shows "\<exists>m' t. readline_loop ops dst True i m s = Some (m', t) \<and> ok t \<and> typed t = rest \<and>
    shown t = shown s @ es \<and> (\<forall>k < length l. m' (dst + of_nat k) = l ! k) \<and> m' (dst + of_nat (length l)) = 0 \<and>
    (\<forall>a. m' a = m a \<or> a \<in> block dst 1024)"
  using assms
proof (induction acc cs arbitrary: i m s l es rest rule: edit_line.induct)
  case (2 acc c cs)
  obtain t where t: "t_get ops s = Some (uint c, t)" "ok t" "typed t = cs" "shown t = shown s"
    using get_law [of s c cs] 2 by blast
  have c0: "\<not> uint c < 0" using uint_nonnegative [of c] by linarith
  have cmp: "0x20 \<le> uint c \<longleftrightarrow> 0x20 \<le> c" "uint c = 0x08 \<longleftrightarrow> c = 0x08" "uint c = 0x0A \<longleftrightarrow> c = 0x0A" "uint c = 0x0D \<longleftrightarrow> c = 0x0D"
    by (simp_all add: word_le_def word_uint_eq_iff)
  let ?run = "readline_loop ops dst True"
  have i: "i \<le> 1023" "i = length acc" using 2(7,8) by simp_all
  note unf = readline_loop.simps [of ops dst True i m s]
  consider (add) "0x20 \<le> c" "length acc < 1023" | (del) "\<not> (0x20 \<le> c \<and> length acc < 1023)" "c = 0x08" "acc \<noteq> []"
    | (stop) "\<not> (0x20 \<le> c \<and> length acc < 1023)" "\<not> (c = 0x08 \<and> acc \<noteq> [])" "c = 0x0A \<or> c = 0x0D"
    | (skip) "\<not> (0x20 \<le> c \<and> length acc < 1023)" "\<not> (c = 0x08 \<and> acc \<noteq> [])" "c \<noteq> 0x0A" "c \<noteq> 0x0D" by blast
  then show ?case
  proof cases
    case add
    then obtain es' where e: "edit_line (acc @ [c]) cs = Some (l, es', rest)" "es = c # es'" using 2(4) by auto
    define m1 where "m1 = m(dst + of_nat i := c)"
    let ?t = "t_put ops (uint c) t"
    have p: "ok ?t" "typed ?t = cs" "shown ?t = shown s @ [c]" using put_law [OF t(2)] t(3,4) add(1) by simp_all
    have "\<forall>k < length (acc @ [c]). m1 (dst + of_nat k) = (acc @ [c]) ! k"
      using 2(9) i slot_inj by (auto simp: m1_def nth_append less_Suc_eq)
    from "2.IH"(1) [OF _ e(1) p(1,2) _ _ this] add i
    obtain m' u where u: "?run (i + 1) m1 ?t = Some (m', u)" "ok u" "typed u = rest" "shown u = shown ?t @ es'"
      "\<forall>k < length l. m' (dst + of_nat k) = l ! k" "m' (dst + of_nat (length l)) = 0"
      "\<forall>a. m' a = m1 a \<or> a \<in> block dst 1024" by auto
    have "?run i m s = Some (m', u)" using t(1) c0 cmp add i u(1) unfolding unf m1_def by simp
    moreover have "\<forall>a. m' a = m a \<or> a \<in> block dst 1024" using u(7) slot_in_block [of i dst] i(1) unfolding m1_def by (metis fun_upd_other)
    ultimately show ?thesis using u p(3) e(2) by auto
  next
    case del
    then obtain es' where e: "edit_line (butlast acc) cs = Some (l, es', rest)" "es = c # es'" using 2(4) by auto
    let ?t = "t_put ops (uint c) t"
    have p: "ok ?t" "typed ?t = cs" "shown ?t = shown s @ [c]"
      using put_law [OF t(2), of c] t(3,4) disjI2 [OF disjI1 [OF del(2)]] by metis+
    have "\<forall>k < length (butlast acc). m (dst + of_nat k) = butlast acc ! k"
      using 2(9) by (auto simp: nth_butlast)
    moreover have "length (butlast acc) \<le> 1023" "length (butlast acc) = i - 1" using i by simp_all
    ultimately obtain m' u where u: "?run (i - 1) m ?t = Some (m', u)" "ok u" "typed u = rest" "shown u = shown ?t @ es'"
      "\<forall>k < length l. m' (dst + of_nat k) = l ! k" "m' (dst + of_nat (length l)) = 0"
      "\<forall>a. m' a = m a \<or> a \<in> block dst 1024"
      using "2.IH"(2) [OF del(1) conjI [OF del(2,3)] e(1) p(1,2)] by blast
    have "?run i m s = Some (m', u)" using t(1) c0 cmp del i u(1) unfolding unf by auto
    then show ?thesis using u p(3) e(2) by auto
  next
    case stop
    then have e: "l = acc" "es = [c]" "rest = cs" using 2(4) by (auto split: if_splits)
    let ?t = "t_put ops (uint c) t"
    have p: "ok ?t" "typed ?t = cs" "shown ?t = shown s @ [c]" using put_law [OF t(2), of c] t(3,4) stop(3) by auto
    have "?run i m s = Some (m(dst + of_nat i := 0), ?t)" using t(1) c0 cmp stop i unfolding unf by auto
    moreover have "\<forall>k < length l. (m(dst + of_nat i := 0)) (dst + of_nat k) = l ! k"
      using 2(9) i e(1) slot_inj by auto
    ultimately show ?thesis using p e i slot_in_block [of i] by auto
  next
    case skip
    then have e: "edit_line acc cs = Some (l, es, rest)" using 2(4) by (auto split: if_splits)
    have "?run i m s = ?run i m t" using skip t(1) c0 cmp i(2) unfolding unf by auto
    then show ?thesis using "2.IH"(3) [OF _ _ _ e t(2,3) 2(7,8,9)] skip t(4) by auto
  qed
qed simp

end

section \<open>The console as a terminal\<close>

text \<open>What the parallel port was given; with no data at the devices, what is printed does not change what is typed.\<close>

definition printed :: "console \<Rightarrow> u8 list" where
  "printed s = map snd (filter (\<lambda>w. fst w = 0x378) (rev (writes s)))"

definition prints :: "u8 list \<Rightarrow> console \<Rightarrow> console \<Rightarrow> bool" where
  "prints cs s t \<longleftrightarrow> cons_buf t = cons_buf s \<and> rpos t = rpos s \<and> wpos t = wpos s \<and> script t = script s \<and>
    serial_exists t = serial_exists s \<and> addr_6845 t = addr_6845 s \<and>
    reads t 0x64 = reads s 0x64 \<and> reads t 0x3FD = reads s 0x3FD \<and> printed t = printed s @ cs"

lemma prints_refl [simp]: "prints [] s s"
  by (simp add: prints_def)

lemma prints_trans: "prints cs s t \<Longrightarrow> prints ds t u \<Longrightarrow> prints (cs @ ds) s u"
  by (simp add: prints_def)

lemma prints_none: "prints [] s t \<Longrightarrow> prints ds t u \<Longrightarrow> prints ds s u"
  using prints_trans by force

lemma lpt_wait_prints: "prints [] s (lpt_wait i s)"
proof (induction i s rule: lpt_wait.induct)
  case (1 i s)
  let ?t = "snd (inb 0x379 s)"
  have d: "prints [] s ?t" "prints [] ?t (delay ?t)" by (simp_all add: inb_def delay_def prints_def printed_def)
  show ?case
  proof (cases "fst (inb 0x379 s) AND 0x80 = 0 \<and> i < 2800")
    case True
    then have "prints [] (delay ?t) (lpt_wait (i + 1) (delay ?t))" using 1 by (simp add: prod_eq_iff)
    then show ?thesis
      using True prints_none [OF d(1) prints_none [OF d(2)]] by (subst lpt_wait.simps) (simp add: case_prod_unfold Let_def)
  next
    case False
    then show ?thesis using d(1) by (subst lpt_wait.simps) (auto simp: case_prod_unfold Let_def)
  qed
qed

lemma lpt_putc_prints: "prints [ucast c] s (lpt_putc c s)"
  using lpt_wait_prints [of s 0] by (simp add: lpt_putc_def outb_def prints_def printed_def)

lemma put_cell_prints: "prints [] s (put_cell i v s)" "prints [] s (s\<lparr>crt_pos := p\<rparr>)"
  by (simp_all add: put_cell_def write_cell_def prints_def printed_def)

lemma fold_prints: "(\<And>x t. prints [] t (f x t)) \<Longrightarrow> prints [] s (fold f xs s)"
proof (induction xs arbitrary: s)
  case (Cons x xs)
  show ?case using prints_none [OF Cons.prems Cons.IH [OF Cons.prems]] by simp
qed simp

lemma scroll_prints: "prints [] s (scroll s)"
proof -
  have c: "prints [] t (scroll_copy t)" "prints [] t (scroll_blank t)" for t
    unfolding scroll_copy_def scroll_blank_def by (rule fold_prints, rule put_cell_prints)+
  show ?thesis
    using prints_none [OF c(1) prints_none [OF c(2) put_cell_prints(2)]] by (simp add: scroll_def Let_def)
qed

lemma cga_char_prints: "prints [] s (cga_char c s)"
  using prints_none [OF put_cell_prints(2) put_cell_prints(1)] prints_none [OF put_cell_prints(1) put_cell_prints(2)]
    prints_none [OF put_cell_prints(2) put_cell_prints(2)] put_cell_prints(2) by (simp add: cga_char_def Let_def)

definition crt_port :: "console \<Rightarrow> bool" where
  "crt_port s \<longleftrightarrow> addr_6845 s = MONO_BASE \<or> addr_6845 s = CGA_BASE"

lemma move_cursor_prints: "crt_port s \<Longrightarrow> prints [] s (move_cursor s)"
  by (auto simp: move_cursor_def outb_def prints_def printed_def crt_port_def Let_def)

lemma byte_back: "ucast (ucast c :: u32) = (c :: u8)"
  by (rule bit_word_eqI) (simp add: bit_simps)

lemma cputchar_word_prints:
  assumes "crt_port s" "c AND 0xFF \<noteq> 9"
  shows "prints [ucast c] s (cputchar c s)"
proof -
  let ?s = "lpt_putc c s"
  have "with_attribute c AND 0xFF = c AND 0xFF" by (simp add: with_attribute_def bit.conj_disj_distrib2)
  then have e: "cputchar c s = move_cursor (scroll (cga_char (with_attribute c) ?s))"
    using assms(2) by (simp add: cputchar_def cons_putc_def cga_putc.simps [of c])
  from prints_trans [OF lpt_putc_prints prints_none [OF cga_char_prints scroll_prints]]
  have p: "prints [ucast c] s (scroll (cga_char (with_attribute c) ?s))" by simp
  then have "crt_port (scroll (cga_char (with_attribute c) ?s))" using assms(1) by (simp add: crt_port_def prints_def)
  from prints_trans [OF p move_cursor_prints [OF this]] show ?thesis unfolding e by simp
qed

lemma low_byte:
  assumes "c \<noteq> (9 :: u8)" "ucast w = c"
  shows "w AND 0xFF \<noteq> (9 :: u32)"
proof
  assume "w AND 0xFF = 9"
  then have "ucast (w AND 0xFF) = (9 :: u8)" by simp
  moreover have "ucast (w AND 0xFF) = (ucast w :: u8)" by (rule bit_word_eqI) (auto simp: masks bit_simps)
  ultimately show False using assms by simp
qed

lemma cputchar_prints:
  assumes "crt_port s" "c \<noteq> 9"
  shows "prints [c] s (cputchar (ucast (c :: u8)) s)"
  using cputchar_word_prints [OF assms(1) low_byte [OF assms(2), of "ucast c"]] by (simp add: byte_back)

text \<open>The console with characters in its input buffer and nothing more from the devices.\<close>

definition quiet :: "console \<Rightarrow> bool" where
  "quiet s \<longleftrightarrow> (\<forall>n \<ge> reads s 0x64. script s 0x64 n AND 1 = 0) \<and>
    (serial_exists s \<longrightarrow> (\<forall>n \<ge> reads s 0x3FD. script s 0x3FD n AND 1 = 0))"

definition type_ahead :: "console \<Rightarrow> bool" where
  "type_ahead s \<longleftrightarrow> ring_ok s \<and> crt_port s \<and> quiet s \<and> 0 \<notin> set (pending s)"

lemma quiet_interrupts:
  assumes "quiet s"
  obtains t where "serial_intr s = Some t" "prints [] s (t\<lparr>reads := reads s\<rparr>)" "quiet t"
    "reads t 0x64 = reads s 0x64"
proof (cases "serial_exists s")
  case False
  show thesis by (rule that [of s]) (use False assms in \<open>simp_all add: serial_intr_def\<close>)
next
  case True
  let ?t = "snd (inb 0x3FD s)"
  have "script s 0x3FD (reads s 0x3FD) AND 1 = 0" using assms True by (simp add: quiet_def)
  then have "serial_proc_data s = (-1, ?t)" by (simp add: serial_proc_data_def inb_def)
  then have "serial_intr s = Some ?t" using True by (simp add: serial_intr_def cons_intr.simps [of serial_proc_data s])
  moreover have "prints [] s (?t\<lparr>reads := reads s\<rparr>)" "quiet ?t" "reads ?t 0x64 = reads s 0x64"
    using assms by (auto simp: prints_def printed_def inb_def quiet_def)
  ultimately show thesis by (rule that)
qed

lemma cons_getc_quiet:
  assumes "quiet s"
  obtains t where "cons_getc s = Some (cons_take t)" "prints [] s (t\<lparr>reads := reads s\<rparr>)" "quiet t"
proof -
  obtain u where u: "serial_intr s = Some u" "prints [] s (u\<lparr>reads := reads s\<rparr>)" "quiet u"
    by (rule quiet_interrupts [OF assms])
  let ?t = "snd (inb 0x64 u)"
  have "script u 0x64 (reads u 0x64) AND 1 = 0" using u(3) by (simp add: quiet_def)
  then have "kbd_proc_data u = (-1, ?t)" by (simp add: kbd_proc_data_def inb_def)
  then have "kbd_intr u = Some ?t" by (simp add: kbd_intr_def cons_intr.simps [of kbd_proc_data u])
  then have "cons_getc s = Some (cons_take ?t)" using u(1) by (simp add: cons_getc_def)
  moreover have "prints [] s (?t\<lparr>reads := reads s\<rparr>)" "quiet ?t"
    using u(2,3) by (auto simp: prints_def printed_def inb_def quiet_def)
  ultimately show thesis by (rule that)
qed

lemma pending_cong: "cons_buf t = cons_buf s \<Longrightarrow> rpos t = rpos s \<Longrightarrow> wpos t = wpos s \<Longrightarrow>
    pending t = pending s \<and> ring_ok t = ring_ok s"
  by (simp add: pending_def ring_ok_def)

lemma cons_take_frame:
  "cons_take s = (c, t) \<Longrightarrow> script t = script s \<and> reads t = reads s \<and> serial_exists t = serial_exists s \<and>
    addr_6845 t = addr_6845 s \<and> writes t = writes s"
  by (auto simp: cons_take_def Let_def split: if_splits)

lemma getchar_type_ahead:
  assumes "type_ahead s" "pending s = c # cs"
  shows "\<exists>t. kernel_get s = Some (uint c, t) \<and> type_ahead t \<and> pending t = cs \<and> printed t = printed s"
proof -
  obtain u where u: "cons_getc s = Some (cons_take u)" "prints [] s (u\<lparr>reads := reads s\<rparr>)" "quiet u"
    using cons_getc_quiet assms(1) unfolding type_ahead_def by blast
  have p: "pending u = c # cs" "ring_ok u"
    using pending_cong [of u s] u(2) assms by (auto simp: prints_def type_ahead_def)
  obtain t where t: "cons_take u = (c, t)" "ring_ok t" "pending t = cs" using cons_take_ring [OF p(2,1)] by blast
  note f = cons_take_frame [OF t(1)]
  have "c \<noteq> 0" "0 \<notin> set cs" using assms by (auto simp: type_ahead_def)
  then have "kernel_get s = Some (uint c, t)" using u(1) t(1) by (simp add: kernel_get_def getchar.simps [of s])
  moreover have "type_ahead t" "printed t = printed s"
    using t f u assms(1) \<open>0 \<notin> set cs\<close> by (simp_all add: type_ahead_def prints_def crt_port_def quiet_def printed_def)
  ultimately show ?thesis using t(3) by blast
qed

lemma kernel_put_type_ahead:
  assumes "type_ahead s" "c \<noteq> 9"
  shows "type_ahead (kernel_put (uint c) s)" "pending (kernel_put (uint c) s) = pending s"
    "printed (kernel_put (uint c) s) = printed s @ [c]"
proof -
  have "word_of_int (uint c) = (ucast c :: u32)" by simp
  then have "prints [c] s (kernel_put (uint c) s)"
    using cputchar_prints [of s c] assms by (simp add: kernel_put_def type_ahead_def)
  then show "type_ahead (kernel_put (uint c) s)" "pending (kernel_put (uint c) s) = pending s"
    "printed (kernel_put (uint c) s) = printed s @ [c]"
    using assms(1) pending_cong [of "kernel_put (uint c) s" s]
    by (auto simp: prints_def type_ahead_def crt_port_def quiet_def)
qed

interpretation kt: terminal kernel_terminal pending printed type_ahead
proof unfold_locales
  fix s c cs assume "type_ahead s" "pending s = c # cs"
  then show "\<exists>t. t_get kernel_terminal s = Some (uint c, t) \<and> type_ahead t \<and> pending t = cs \<and> printed t = printed s"
    using getchar_type_ahead by (simp add: kernel_terminal_def)
next
  fix s and c :: u8 assume s: "type_ahead s" and c: "0x20 \<le> c \<or> c = 0x08 \<or> c = 0x0A \<or> c = 0x0D"
  have "c \<noteq> 9" using c by auto
  from kernel_put_type_ahead [OF s this]
  show "type_ahead (t_put kernel_terminal (uint c) s) \<and> pending (t_put kernel_terminal (uint c) s) = pending s \<and>
      printed (t_put kernel_terminal (uint c) s) = printed s @ [c]"
    by (simp add: kernel_terminal_def)
qed

lemma readline_edits:
  assumes "type_ahead (con s)" "edit_line [] (pending (con s)) = Some (l, es, rest)"
  shows "\<exists>m c. readline 0 dst s = Inr (s\<lparr>bytes := m, con := c\<rparr>) \<and> length l \<le> 1023 \<and>
    (\<forall>k < length l. m (dst + of_nat k) = l ! k) \<and> m (dst + of_nat (length l)) = 0 \<and>
    (\<forall>a. m a = bytes s a \<or> a \<in> block dst 1024) \<and>
    pending c = rest \<and> printed c = printed (con s) @ es"
proof -
  obtain m c where "readline_loop kernel_terminal dst True 0 (bytes s) (con s) = Some (m, c)"
    "pending c = rest" "printed c = printed (con s) @ es" "\<forall>k < length l. m (dst + of_nat k) = l ! k"
    "m (dst + of_nat (length l)) = 0" "\<forall>a. m a = bytes s a \<or> a \<in> block dst 1024"
    using kt.loop_edits [where i = 0 and m = "bytes s" and dst = dst, OF assms(2,1) refl] by fastforce
  moreover have "length l \<le> 1023" using edit_line_length [OF assms(2)] by simp
  ultimately show ?thesis by (intro exI [of _ m] exI [of _ c]) (simp add: readline_def iscons_def)
qed


text \<open>A console without a serial port whose buffer got the keys \<open>ab\<close>, backspace, \<open>c\<close>, return, \<open>z\<close>.\<close>

definition typing_example :: console where
  "typing_example = fold cons_put [0x61, 0x62, 0x08, 0x63, 0x0D, 0x7A] (console_example\<lparr>script := (\<lambda>_ _. 0)\<rparr>)"

lemma typing_example_ok: "type_ahead typing_example" "pending typing_example = [0x61, 0x62, 0x08, 0x63, 0x0D, 0x7A]"
proof -
  let ?s = "console_example\<lparr>script := (\<lambda>_ _. 0)\<rparr>"
  have "ring_ok ?s" "pending ?s = []"
    by (simp_all add: ring_ok_def pending_def ring_length_def console_example_def)
  with ring.put_all [of ?s "[0x61, 0x62, 0x08, 0x63, 0x0D, 0x7A]"]
  have p: "pending typing_example = [0x61, 0x62, 0x08, 0x63, 0x0D, 0x7A]" and r: "ring_ok typing_example"
    by (simp_all only: typing_example_def) simp_all
  then show "pending typing_example = [0x61, 0x62, 0x08, 0x63, 0x0D, 0x7A]" by (simp only:)
  have "addr_6845 (cons_put c t) = addr_6845 t" "script (cons_put c t) = script t" "serial_exists (cons_put c t) = serial_exists t" for c t
    by (simp_all add: cons_put_def Let_def)
  then have "crt_port typing_example" "quiet typing_example"
    by (simp_all add: typing_example_def crt_port_def quiet_def console_example_def)
  then show "type_ahead typing_example" using p r by (simp add: type_ahead_def)
qed


end
