(* ===== verification/FOS_Prompt.thy ===== *)
theory FOS_Prompt
  imports FOS_Env FOS_Readline
begin

text \<open>
  The command prompt: \<^verbatim>\<open>kern/command_prompt.c\<close>. A command gets the number of its arguments and the array of
  pointers to them, and returns, enters user mode (\<^verbatim>\<open>run\<close>) or stops in a panic.
\<close>

section \<open>The commands\<close>

text \<open>
  What the linker and the stack decide: where a string literal lies, the four symbols of the kernel's image, and
  what the uninitialised variables on the stack hold.
\<close>

record image =
  lit :: "string \<Rightarrow> u32"
  start_of_kernel :: u32
  end_of_kernel_code_section :: u32
  start_of_uninitialized_data_section :: u32
  end_of_kernel :: u32
  command_line :: u32
  stack_arguments :: "nat \<Rightarrow> u32"
  stack_frame_info :: u32

type_synonym command = "nat \<Rightarrow> (nat \<Rightarrow> u32) \<Rightarrow> kernel \<Rightarrow> int outcome"

text \<open>A handler that ends in \<^verbatim>\<open>return 0\<close>.\<close>

definition return_0 :: "kernel res \<Rightarrow> int outcome" where
  "return_0 r = (case r of Inl e \<Rightarrow> Stopped e | Inr s \<Rightarrow> Returned 0 s)"

lemma return_0_simps [simp]: "return_0 (Inl e) = Stopped e" "return_0 (Inr s) = Returned 0 s"
  by (simp_all add: return_0_def)

text \<open>The names and descriptions of \<^verbatim>\<open>commands\<close>.\<close>

definition command_texts :: "(string \<times> string) list" where
  "command_texts =
   [(''help'', ''Display this list of commands''),
    (''kernel_info'', ''Display information about the kernel''),
    (''wum'', ''writes one byte to specific location''),
    (''rum'', ''reads one byte from specific location''),
    (''meminfo'', ''Display number of free frames''),
    (''ikb'', ''Lab3.Example: shows mapping info of KERNEL_BASE''),
    (''dkb'', ''Lab3.Example: delete the mapping of KERNEL_BASE''),
    (''shr'', ''Lab3.Example: share one page on another''),
    (''sm'', ''Lab4.HandsOn: display the mapping info for the given virtual address''),
    (''sp'', ''Lab4.HandsOn: set the desired permission to a given virtual address page''),
    (''sr'', ''Lab4.HandsOn: shares the physical frames of the first virtual range with the 2nd virtual range''),
    (''nr'', ''Lab5.Example: show the number of references of the physical frame''),
    (''ap'', ''Lab5.Example: allocate one page [if not exists] in the user space at the given virtual address''),
    (''fp'', ''Lab5.Example: free one page in the user space at the given virtual address''),
    (''asp'', ''Lab5.HandsOn: allocate 2 shared pages with the given virtual addresses''),
    (''cfp'', ''Lab5.HandsOn: count the number of free pages in the given range''),
    (''ft'', ''Lab6.Example: Free table''),
    (''run'', ''Lab6.Example: Load and Run User Program''),
    (''kill'', ''Lab6.Example: Kill User Program'')]"

abbreviation newline :: string where "newline \<equiv> [CHR 0x0A]"
abbreviation tab :: string where "tab \<equiv> [CHR 0x09]"

definition command_help :: "image \<Rightarrow> command" where
  "command_help im argc arguments s = return_0
    (bind_res (for_each (\<lambda>(n, d). cprintf (''%s - %s'' @ newline) [lit im n, lit im d]) command_texts s)
      (cprintf (''-------------------'' @ newline) []))"

text \<open>The quotient of the last line is a signed division.\<close>

definition command_kernel_info :: "image \<Rightarrow> command" where
  "command_kernel_info im argc arguments s =
    (let line = (\<lambda>text a. cprintf (text @ ''%08x (virt)  %08x (phys)'' @ newline) [a, a - KERNEL_BASE]);
         n = sint (end_of_kernel im - start_of_kernel im + 1023)
     in return_0 (bind_res (cprintf (''Special kernel symbols:'' @ newline) [] s) (\<lambda>s.
        bind_res (line (''  Start Address of the kernel '' @ tab @ tab @ tab) (start_of_kernel im) s) (\<lambda>s.
        bind_res (line (''  End address of kernel code  '' @ tab @ tab @ tab) (end_of_kernel_code_section im) s) (\<lambda>s.
        bind_res (line (''  Start addr. of uninitialized data section '' @ tab)
          (start_of_uninitialized_data_section im) s) (\<lambda>s.
        bind_res (line (''  End address of the kernel   '' @ tab @ tab @ tab) (end_of_kernel im) s) (\<lambda>s.
        cprintf (''Kernel executable memory footprint: %d KB'' @ newline)
          [word_of_int (if 0 \<le> n then n div 1024 else - (- n div 1024))] s)))))))"

text \<open>\<^verbatim>\<open>strtol(arguments[i], NULL, 16)\<close>; the pointer after the last argument is null.\<close>

definition address_argument :: "(nat \<Rightarrow> u32) \<Rightarrow> nat \<Rightarrow> kernel \<Rightarrow> u32 res" where
  "address_argument arguments i s =
    (if arguments i = 0 then Inl Null_deref
     else bind_res (loop_res (strtol (bytes s) (arguments i) 16)) (\<lambda>(v, e). Inr v))"

definition command_readmem :: command where
  "command_readmem argc arguments s = return_0
    (bind_res (address_argument arguments 1 s) (\<lambda>address.
      cprintf (''value at address %x = %c'' @ newline) [address, ucast (bytes s address)] s))"

definition command_writemem :: command where
  "command_writemem argc arguments s = return_0
    (bind_res (address_argument arguments 1 s) (\<lambda>address.
      if arguments 2 = 0 then Inl Null_deref
      else Inr (s\<lparr>bytes := (bytes s)(address := bytes s (arguments 2))\<rparr>)))"

definition command_meminfo :: command where
  "command_meminfo argc arguments s = return_0
    (bind_res (loop_res (calculate_free_frames (mm s))) (\<lambda>n.
      cprintf (''Free frames = %d'' @ newline) [n] s))"

definition not_implemented :: command where
  "not_implemented argc arguments s = Stopped (Panic ''Function is not implemented yet!'')"

definition command_kernel_base_info :: command where "command_kernel_base_info = not_implemented"
definition command_del_kernel_base :: command where "command_del_kernel_base = not_implemented"
definition command_share_page :: command where "command_share_page = not_implemented"
definition command_show_mapping :: command where "command_show_mapping = not_implemented"
definition command_set_permission :: command where "command_set_permission = not_implemented"
definition command_share_range :: command where "command_share_range = not_implemented"
definition command_nr :: command where "command_nr = not_implemented"
definition command_asp :: command where "command_asp = not_implemented"
definition command_cfp :: command where "command_cfp = not_implemented"

text \<open>The result of \<^verbatim>\<open>allocate_frame\<close> is not looked at: without a frame the pointer is what the stack holds.\<close>

definition command_ap :: "image \<Rightarrow> command" where
  "command_ap im argc arguments s = return_0
    (bind_res (address_argument arguments 1 s) (\<lambda>va.
     bind_res (allocate_frame (mm s)) (\<lambda>((ret, ptr_frame_info), m).
     bind_res (map_frame (ptr_page_directory s)
         (case ptr_frame_info of None \<Rightarrow> stack_frame_info im | Some f \<Rightarrow> f) va (PERM_USER OR PERM_WRITEABLE) m)
       (\<lambda>(r, m). Inr (s\<lparr>mm := m\<rparr>)))))"

definition command_fp :: command where
  "command_fp argc arguments s = return_0
    (bind_res (address_argument arguments 1 s) (\<lambda>va.
     bind_res (unmap_frame (ptr_page_directory s) va (mm s)) (\<lambda>m. Inr (s\<lparr>mm := m\<rparr>))))"

definition command_run :: command where
  "command_run argc arguments s =
    (if arguments 1 = 0 then Stopped Null_deref
     else case env_create (arguments 1) s of
       Inl e \<Rightarrow> Stopped e
     | Inr (None, s) \<Rightarrow> Returned 0 s
     | Inr (Some i, s) \<Rightarrow>
         (case environment (userPrograms s ! i) of
            None \<Rightarrow> Stopped Null_deref
          | Some e \<Rightarrow> (case env_run e s of (tf, s) \<Rightarrow> Entered_user tf s)))"

definition command_kill :: command where
  "command_kill argc arguments s =
    (if arguments 1 = 0 then Stopped Null_deref
     else return_0 (bind_res (get_user_program_info (arguments 1) s) (\<lambda>(u, s).
       case u of
         None \<Rightarrow> Inr s
       | Some i \<Rightarrow> bind_res (env_free (environment (userPrograms s ! i)) s) (\<lambda>s.
           Inr (s\<lparr>userPrograms := (userPrograms s)[i := (userPrograms s ! i)\<lparr>environment := None\<rparr>]\<rparr>)))))"

definition command_ft :: command where
  "command_ft argc arguments s = Returned 0 s"

definition handlers :: "image \<Rightarrow> command list" where
  "handlers im = [command_help im, command_kernel_info im, command_writemem, command_readmem, command_meminfo,
    command_kernel_base_info, command_del_kernel_base, command_share_page, command_show_mapping,
    command_set_permission, command_share_range, command_nr, command_ap im, command_fp, command_asp,
    command_cfp, command_ft, command_run, command_kill]"

definition commands :: "image \<Rightarrow> (string \<times> command) list" where
  "commands im = zip (map fst command_texts) (handlers im)"

section \<open>The interpreter\<close>

definition WHITESPACE :: string where
  "WHITESPACE = tab @ [CHR 0x0D, CHR 0x0A, CHR 0x20]"

fun find_command :: "image \<Rightarrow> bmem \<Rightarrow> u32 \<Rightarrow> (string \<times> command) list \<Rightarrow> command option option" where
  "find_command im m a [] = Some None"
| "find_command im m a ((n, f) # cs) =
     Option.bind (strcmp m a (lit im n)) (\<lambda>d. if d = 0 then Some (Some f) else find_command im m a cs)"

definition execute_command :: "image \<Rightarrow> u32 \<Rightarrow> kernel \<Rightarrow> int outcome" where
  "execute_command im command_string s =
    (case strsplit (bytes s) command_string (lit im WHITESPACE) (stack_arguments im) of
       None \<Rightarrow> Stopped Endless
     | Some (r, number_of_arguments, arguments, m) \<Rightarrow>
         let s = s\<lparr>bytes := m\<rparr>
         in if number_of_arguments = 0 then Returned 0 s
            else (case find_command im m (arguments 0) (commands im) of
                None \<Rightarrow> Stopped Endless
              | Some (Some f) \<Rightarrow> f number_of_arguments arguments s
              | Some None \<Rightarrow> return_0 (cprintf (''Unknown command '' @ [CHR 0x27] @ ''%s'' @ [CHR 0x27] @ newline)
                  [arguments 0] s)))"

partial_function (option) run_command_prompt :: "image \<Rightarrow> kernel \<Rightarrow> unit outcome option" where
  "run_command_prompt im s =
    (case readline (lit im ''FOS> '') (command_line im) s of
       Inl e \<Rightarrow> Some (Stopped e)
     | Inr s \<Rightarrow> (case execute_command im (command_line im) s of
         Returned r s \<Rightarrow> if r < 0 then Some (Returned () s) else run_command_prompt im s
       | Entered_user tf s \<Rightarrow> Some (Entered_user tf s)
       | Entered_prompt s \<Rightarrow> Some (Entered_prompt s)
       | Stopped e \<Rightarrow> Some (Stopped e)))"

section \<open>Every command returns 0 and none enters user mode\<close>

lemma return_0_Returned: "return_0 q = Returned r t \<Longrightarrow> r = 0" "return_0 q \<noteq> Entered_user tf t"
  by (cases q; auto)+

lemma env_create_no_program: "env_create n s \<noteq> Inr (Some i, t)"
  by (auto simp: env_create_def bind_res_def split: sum.splits option.splits prod.splits if_splits)

definition always_0 :: "command \<Rightarrow> bool" where
  "always_0 f \<longleftrightarrow> (\<forall>argc argv s r t tf. (f argc argv s = Returned r t \<longrightarrow> r = 0) \<and> f argc argv s \<noteq> Entered_user tf t)"

lemma always_0_return: "(\<And>argc argv s. \<exists>q. f argc argv s = return_0 q) \<Longrightarrow> always_0 f"
  unfolding always_0_def using return_0_Returned by metis

lemma always_0_commands:
  "always_0 (command_help im)" "always_0 (command_kernel_info im)" "always_0 command_writemem"
  "always_0 command_readmem" "always_0 command_meminfo" "always_0 (command_ap im)" "always_0 command_fp"
  unfolding command_help_def command_kernel_info_def command_writemem_def command_readmem_def
    command_meminfo_def command_ap_def command_fp_def Let_def
  by (rule always_0_return, rule exI, rule refl)+

lemma always_0_others:
  "always_0 not_implemented" "always_0 command_ft" "always_0 command_run" "always_0 command_kill"
proof -
  show "always_0 not_implemented" "always_0 command_ft"
    by (simp_all add: always_0_def not_implemented_def command_ft_def)
  show "always_0 command_run"
    unfolding always_0_def command_run_def using env_create_no_program
    by (auto split: if_splits sum.splits option.splits prod.splits)
  show "always_0 command_kill"
    unfolding always_0_def command_kill_def by (auto dest: return_0_Returned(1) simp: return_0_Returned(2) split: if_splits)
qed

lemma handlers_always_0: "f \<in> set (handlers im) \<Longrightarrow> always_0 f"
  unfolding handlers_def command_kernel_base_info_def command_del_kernel_base_def command_share_page_def
    command_show_mapping_def command_set_permission_def command_share_range_def command_nr_def command_asp_def
    command_cfp_def list.set insert_iff empty_iff
  by (elim disjE FalseE) (simp_all only: always_0_commands always_0_others)

lemma handlers_return_0:
  "f \<in> set (handlers im) \<Longrightarrow> f argc argv s = Returned r t \<Longrightarrow> r = 0"
  "f \<in> set (handlers im) \<Longrightarrow> f argc argv s \<noteq> Entered_user tf t"
  using handlers_always_0 unfolding always_0_def by blast+

lemma find_command_member: "find_command im m a cs = Some (Some f) \<Longrightarrow> f \<in> snd ` set cs"
proof (induction cs)
  case (Cons c cs)
  then show ?case by (cases c) (force split: Option.bind_splits if_splits)
qed simp

text \<open>What \<^verbatim>\<open>execute_command\<close> can do with a line.\<close>

lemma execute_command_cases:
  obtains "execute_command im p s = Stopped Endless"
  | r n argv m where "strsplit (bytes s) p (lit im WHITESPACE) (stack_arguments im) = Some (r, n, argv, m)"
      "n = 0" "execute_command im p s = Returned 0 (s\<lparr>bytes := m\<rparr>)"
  | r n argv m where "strsplit (bytes s) p (lit im WHITESPACE) (stack_arguments im) = Some (r, n, argv, m)"
      "n \<noteq> 0" "find_command im m (argv 0) (commands im) = Some None"
      "execute_command im p s = return_0 (cprintf (''Unknown command '' @ [CHR 0x27] @ ''%s'' @ [CHR 0x27] @ newline)
         [argv 0] (s\<lparr>bytes := m\<rparr>))"
  | r n argv m f where "strsplit (bytes s) p (lit im WHITESPACE) (stack_arguments im) = Some (r, n, argv, m)"
      "n \<noteq> 0" "find_command im m (argv 0) (commands im) = Some (Some f)" "f \<in> set (handlers im)"
      "execute_command im p s = f n argv (s\<lparr>bytes := m\<rparr>)"
proof (cases "strsplit (bytes s) p (lit im WHITESPACE) (stack_arguments im)")
  case None
  then show thesis using that(1) by (simp add: execute_command_def)
next
  case (Some q)
  obtain r n argv m where "q = (r, n, argv, m)" by (cases q)
  with Some have q: "strsplit (bytes s) p (lit im WHITESPACE) (stack_arguments im) = Some (r, n, argv, m)" by simp
  consider "n = 0" | "n \<noteq> 0" "find_command im m (argv 0) (commands im) = None"
    | "n \<noteq> 0" "find_command im m (argv 0) (commands im) = Some None"
    | f where "n \<noteq> 0" "find_command im m (argv 0) (commands im) = Some (Some f)" by (metis option.exhaust)
  then show thesis
  proof cases
    case (4 f)
    moreover from this have "f \<in> set (handlers im)"
      using find_command_member by (fastforce simp: commands_def dest: set_zip_rightD)
    ultimately show thesis using that(4) q by (simp add: execute_command_def)
  qed (use that(1-3) q in \<open>simp_all add: execute_command_def\<close>)
qed

lemma execute_command_return_0:
  "execute_command im p s = Returned r t \<Longrightarrow> r = 0" "execute_command im p s \<noteq> Entered_user tf t"
proof -
  have "(execute_command im p s = Returned r t \<longrightarrow> r = 0) \<and> execute_command im p s \<noteq> Entered_user tf t"
  proof (cases rule: execute_command_cases [of im p s])
    case 3
    show ?thesis unfolding 3(4) using return_0_Returned by metis
  next
    case 4
    show ?thesis unfolding 4(5) using handlers_return_0 [OF 4(4)] by metis
  qed simp_all
  then show "execute_command im p s = Returned r t \<Longrightarrow> r = 0" "execute_command im p s \<noteq> Entered_user tf t"
    by simp_all
qed

lemma run_command_prompt_no_return:
  "run_command_prompt im s \<noteq> Some (Returned () t)" "run_command_prompt im s \<noteq> Some (Entered_user tf t)"
proof -
  have "y \<noteq> Returned () t \<and> y \<noteq> Entered_user tf t" if "run_command_prompt im s = Some y" for y
  proof (rule run_command_prompt.raw_induct [where P = "\<lambda>im s y. y \<noteq> Returned () t \<and> y \<noteq> Entered_user tf t", OF _ that])
    fix prompt im s y
    assume IH: "\<And>im s y. prompt im s = Some y \<Longrightarrow> y \<noteq> Returned () t \<and> y \<noteq> Entered_user tf t"
      and run: "(case readline (lit im ''FOS> '') (command_line im) s of
        Inl e \<Rightarrow> Some (Stopped e)
      | Inr s \<Rightarrow> (case execute_command im (command_line im) s of
          Returned r s \<Rightarrow> if r < 0 then Some (Returned () s) else prompt im s
        | Entered_user tf s \<Rightarrow> Some (Entered_user tf s)
        | Entered_prompt s \<Rightarrow> Some (Entered_prompt s)
        | Stopped e \<Rightarrow> Some (Stopped e))) = Some y"
    show "y \<noteq> Returned () t \<and> y \<noteq> Entered_user tf t"
    proof (cases "readline (lit im ''FOS> '') (command_line im) s")
      case (Inr u)
      show ?thesis
      proof (cases "execute_command im (command_line im) u")
        case (Returned r v)
        then show ?thesis using run Inr execute_command_return_0(1) [OF Returned] IH by simp
      qed (use run Inr execute_command_return_0(2) in auto)
    qed (use run in auto)
  qed
  then show "run_command_prompt im s \<noteq> Some (Returned () t)" "run_command_prompt im s \<noteq> Some (Entered_user tf t)" by blast+
qed

section \<open>Finding the command\<close>

text \<open>The literals of the prompt lie in memory as strings, apart from the bytes \<open>R\<close>.\<close>

definition literals_at :: "image \<Rightarrow> bmem \<Rightarrow> u32 set \<Rightarrow> bool" where
  "literals_at im m R \<longleftrightarrow> 0 \<notin> block (lit im WHITESPACE) (length WHITESPACE) \<and>
    (\<forall>n \<in> insert WHITESPACE (set (map fst command_texts)).
      str_at m (lit im n) (ascii n) \<and> block (lit im n) (Suc (length n)) \<inter> R = {})"

lemma length_ascii [simp]: "length (ascii n) = length n"
  by (simp add: ascii_def)

definition command_named :: "image \<Rightarrow> u8 list \<Rightarrow> command option" where
  "command_named im w = map_of (map (\<lambda>(n, f). (ascii n, f)) (commands im)) w"

lemma find_command_named:
  "str_at m a w \<Longrightarrow> \<forall>(n, f) \<in> set cs. str_at m (lit im n) (ascii n) \<Longrightarrow>
    find_command im m a cs = Some (map_of (map (\<lambda>(n, f). (ascii n, f)) cs) w)"
proof (induction cs)
  case (Cons c cs)
  obtain n f where c: "c = (n, f)" by (cases c)
  obtain d where "strcmp m a (lit im n) = Some d" "d = 0 \<longleftrightarrow> w = ascii n"
    using strcmp_str_at [OF Cons.prems(1), of "lit im n" "ascii n"] Cons.prems(2) c by auto
  then show ?case using Cons c by auto
qed simp

text \<open>
  C18: \<^verbatim>\<open>execute_command\<close> runs the command that the line names. On a terminated line of fewer than sixteen words, it ends
  its own work: an empty line does nothing; otherwise the first command whose name is the first word is run with
  the words as its arguments, each a string of its own and a null pointer after the last; without one, the message of an unknown
  command is printed. Only the line is overwritten.
\<close>

theorem execute_command_dispatch:
  assumes "str_at (bytes s) p xs" "literals_at im (bytes s) (block p (length xs))" "length xs < 2 ^ 32"
    and "length (split_words (set (ascii WHITESPACE)) xs) < 16"
  shows "let ws = split_words (set (ascii WHITESPACE)) xs in \<exists>m argv.
    (\<forall>i < length ws. str_at m (argv i) (ws ! i)) \<and> argv (length ws) = 0 \<and>
    (\<forall>a. m a = bytes s a \<or> a \<in> block p (length xs)) \<and>
    execute_command im p s =
      (if ws = [] then Returned 0 (s\<lparr>bytes := m\<rparr>)
       else case command_named im (hd ws) of
          Some f \<Rightarrow> f (length ws) argv (s\<lparr>bytes := m\<rparr>)
        | None \<Rightarrow> return_0 (cprintf (''Unknown command '' @ [CHR 0x27] @ ''%s'' @ [CHR 0x27] @ newline)
            [argv 0] (s\<lparr>bytes := m\<rparr>)))"
proof -
  let ?ws = "split_words (set (ascii WHITESPACE)) xs" and ?d = "lit im WHITESPACE"
  have W: "str_at (bytes s) ?d (ascii WHITESPACE)" "0 \<notin> block ?d (length (ascii WHITESPACE))"
    "block ?d (Suc (length (ascii WHITESPACE))) \<inter> block p (length xs) = {}"
    using assms(2) by (simp_all add: literals_at_def)
  from strsplit_splits [OF assms(1) W assms(3), of "stack_arguments im"] assms(4)
  obtain argv m where m: "strsplit (bytes s) p ?d (stack_arguments im) = Some (1, length ?ws, argv, m)"
    "argv (length ?ws) = 0" "\<forall>i < length ?ws. str_at m (argv i) (?ws ! i)"
    "\<forall>a. m a = bytes s a \<or> a \<in> block p (length xs)"
    by (auto simp: MAX_ARGUMENTS_def)
  have "str_at m (lit im n) (ascii n)" if "n \<in> set (map fst command_texts)" for n
  proof -
    note L = bspec [OF conjunct2 [OF assms(2) [unfolded literals_at_def]] insertI2 [OF that]]
    have "bytes s a = m a" if "a \<in> block (lit im n) (Suc (length (ascii n)))" for a
      using that m(4) conjunct2 [OF L] unfolding length_ascii by (metis IntI empty_iff)
    then have "str_at (bytes s) (lit im n) (ascii n) = str_at m (lit im n) (ascii n)" by (rule str_at_cong)
    then show ?thesis using conjunct1 [OF L] by (simp only:)
  qed
  then have "\<forall>(n, f) \<in> set (commands im). str_at m (lit im n) (ascii n)"
    by (auto simp: commands_def dest: set_zip_leftD)
  then have "find_command im m (argv 0) (commands im) = Some (command_named im (hd ?ws))" if "?ws \<noteq> []"
    unfolding command_named_def using that m(3) by (intro find_command_named) (auto simp: hd_conv_nth)
  then have "execute_command im p s =
      (if ?ws = [] then Returned 0 (s\<lparr>bytes := m\<rparr>)
       else case command_named im (hd ?ws) of
          Some f \<Rightarrow> f (length ?ws) argv (s\<lparr>bytes := m\<rparr>)
        | None \<Rightarrow> return_0 (cprintf (''Unknown command '' @ [CHR 0x27] @ ''%s'' @ [CHR 0x27] @ newline)
            [argv 0] (s\<lparr>bytes := m\<rparr>)))"
    using m(1) by (simp add: execute_command_def Let_def split: option.split)
  then show ?thesis using m(2-4) unfolding Let_def by blast
qed

text \<open>A memory with the literals in slots of 32 bytes from \<open>0x10000\<close> on, and a line at \<open>0x1000\<close>.\<close>

definition example_texts :: "string list" where
  "example_texts = WHITESPACE # map fst command_texts"

definition example_image :: image where
  "example_image = \<lparr>lit = (\<lambda>n. 0x10000 + 32 * of_nat (length (takeWhile (\<lambda>x. x \<noteq> n) example_texts))),
     start_of_kernel = 0xF0100000, end_of_kernel_code_section = 0xF0110000,
     start_of_uninitialized_data_section = 0xF0120000, end_of_kernel = 0xF0180000, command_line = 0x1000,
     stack_arguments = (\<lambda>_. 0), stack_frame_info = 0\<rparr>"

definition example_bytes :: "u8 list \<Rightarrow> bmem" where
  "example_bytes xs a =
    (let k = unat (a - 0x10000); t = ascii (example_texts ! (k div 32)) in
     if k < 640 then (if k mod 32 < length t then t ! (k mod 32) else 0)
     else if unat (a - 0x1000) < length xs then xs ! unat (a - 0x1000) else 0)"

lemma str_at_iff: "str_at m p xs \<longleftrightarrow> (\<forall>k < length xs. m (p + of_nat k) = xs ! k \<and> xs ! k \<noteq> 0) \<and> m (p + of_nat (length xs)) = 0"
proof (induction xs arbitrary: p)
  case (Cons x xs)
  have "p + 1 + of_nat k = p + of_nat (Suc k)" for k by simp
  then show ?case unfolding str_at.simps Cons.IH by (simp only: All_less_Suc2 length_Cons nth_Cons_0 nth_Cons_Suc) auto
qed simp

lemma example_texts_short: "n \<in> set example_texts \<Longrightarrow> length n < 32 \<and> 0 \<notin> set (ascii n)"
  by (auto simp: example_texts_def command_texts_def WHITESPACE_def ascii_def)

lemma index_less: "n \<in> set xs \<Longrightarrow> length (takeWhile (\<lambda>x. x \<noteq> n) xs) < length xs"
  by (induction xs) auto

lemma example_texts_slot:
  assumes "n \<in> set example_texts"
  obtains i where "i < 20" "lit example_image n = 0x10000 + 32 * of_nat i" "example_texts ! i = n"
proof -
  let ?i = "length (takeWhile (\<lambda>x. x \<noteq> n) example_texts)"
  have l: "length example_texts = 20" by (simp add: example_texts_def command_texts_def)
  have "?i < 20" using index_less [OF assms] l by simp
  moreover have "example_texts ! ?i = n"
    using nth_length_takeWhile [of "\<lambda>x. x \<noteq> n" example_texts] \<open>?i < 20\<close> l by simp
  ultimately show thesis using that by (simp add: example_image_def)
qed

lemma example_literal:
  assumes "n \<in> set example_texts"
  shows "str_at (example_bytes xs) (lit example_image n) (ascii n)"
    "a \<in> block (lit example_image n) (Suc (length n)) \<Longrightarrow> 0x10000 \<le> unat a \<and> unat a < 0x10280"
proof -
  obtain i where i: "i < 20" "lit example_image n = 0x10000 + 32 * of_nat i" "example_texts ! i = n"
    by (rule example_texts_slot [OF assms])
  note short = example_texts_short [OF assms]
  have u: "unat (0x10000 + 32 * of_nat i + of_nat k :: u32) = 0x10000 + 32 * i + k" if "k < 32" for k
    using i(1) that by (simp add: unat_word_ariths unat_of_nat)
  have k: "unat (0x10000 + 32 * of_nat i + of_nat k - 0x10000 :: u32) = 32 * i + k" if "k < 32" for k
    using i(1) that by (simp add: unat_word_ariths unat_of_nat)
  have "example_bytes xs (0x10000 + 32 * of_nat i + of_nat k) = (if k < length n then ascii n ! k else 0)" if "k < 32" for k
    using that i k [OF that] by (simp add: example_bytes_def Let_def)
  then show "str_at (example_bytes xs) (lit example_image n) (ascii n)"
    unfolding str_at_iff i(2) using short by (auto simp: in_set_conv_nth)
  show "0x10000 \<le> unat a \<and> unat a < 0x10280" if "a \<in> block (lit example_image n) (Suc (length n))"
    using that short i(1,2) u by (auto simp: block_def)
qed

lemma example_literals_at:
  "length xs < 0x1000 \<Longrightarrow> literals_at example_image (example_bytes xs) (block 0x1000 (length xs))"
proof -
  assume len: "length xs < 0x1000"
  have R: "a \<in> block 0x1000 (length xs) \<Longrightarrow> unat a < 0x2000" for a
    using len by (auto simp: block_def unat_word_ariths unat_of_nat)
  have w: "WHITESPACE \<in> set example_texts" by (simp add: example_texts_def)
  have "block p k \<subseteq> block p (Suc k)" for p k by (auto simp: block_def)
  then have "0 \<notin> block (lit example_image WHITESPACE) (length WHITESPACE)" using example_literal(2) [OF w, of 0] by auto
  moreover have "str_at (example_bytes xs) (lit example_image n) (ascii n) \<and>
      block (lit example_image n) (Suc (length n)) \<inter> block 0x1000 (length xs) = {}"
    if "n \<in> insert WHITESPACE (set (map fst command_texts))" for n
  proof -
    have "n \<in> set example_texts" using that by (simp add: example_texts_def)
    note e = example_literal [OF this]
    have "a \<notin> block 0x1000 (length xs)" if "a \<in> block (lit example_image n) (Suc (length n))" for a
      using e(2) [OF that] R [of a] by auto
    then show ?thesis using e(1) by blast
  qed
  ultimately show ?thesis by (simp only: literals_at_def) blast
qed

lemma example_line:
  assumes "length xs < 0x1000" "0 \<notin> set xs"
  shows "str_at (example_bytes xs) 0x1000 xs"
proof -
  have "\<not> unat (0x1000 + of_nat k - 0x10000 :: u32) < 640" "unat (0x1000 + of_nat k - 0x1000 :: u32) = k"
    if "k \<le> length xs" for k
    using that assms(1) by (simp_all add: unat_word_ariths unat_of_nat unat_sub_if')
  then show ?thesis using assms(2) by (auto simp: str_at_iff example_bytes_def Let_def in_set_conv_nth)
qed

theorem execute_command_dispatch_witness:
  "\<exists>m. execute_command example_image 0x1000 (kernel_example\<lparr>bytes := example_bytes [0x20, 0x66, 0x74, 0x20, 0x31]\<rparr>) =
     Returned 0 (kernel_example\<lparr>bytes := m\<rparr>)"
proof -
  let ?xs = "[0x20, 0x66, 0x74, 0x20, 0x31] :: u8 list" let ?s = "kernel_example\<lparr>bytes := example_bytes ?xs\<rparr>"
  have w: "set (ascii WHITESPACE) = {9, 13, 10, 0x20}" by (simp add: ascii_def WHITESPACE_def)
  have ws: "split_words (set (ascii WHITESPACE)) ?xs = [[0x66, 0x74], [0x31]]"
    unfolding w by (simp add: split_words.simps)
  have f: "command_named example_image [0x66, 0x74] = Some command_ft"
    by (simp add: command_named_def commands_def command_texts_def handlers_def ascii_def)
  have h: "str_at (bytes ?s) 0x1000 ?xs" "literals_at example_image (bytes ?s) (block 0x1000 (length ?xs))"
    "length ?xs < 2 ^ 32" "length (split_words (set (ascii WHITESPACE)) ?xs) < 16"
    using example_line [of ?xs] example_literals_at [of ?xs] by (simp_all add: ws)
  from execute_command_dispatch [OF h] show ?thesis
    unfolding ws Let_def by (auto simp: f command_ft_def)
qed

section \<open>Allocating and freeing a page by hand\<close>

lemma command_ap_run:
  assumes "argv 1 \<noteq> 0" "strtol (bytes s) (argv 1) 16 = Some (va, e)"
    and "ptr_page_directory s = kva F" "vm_inv pin F (f # fs) (mm s)"
  obtains s1 where "command_ap im argc argv s = return_0 (bind_res (map_frame (kva F) f va (PERM_USER OR PERM_WRITEABLE) s1)
      (\<lambda>(r, m). Inr (s\<lparr>mm := m\<rparr>)))"
    "vm_inv pin F fs s1" "references s1 f = 0" "f < number_of_frames s1" "f \<notin> set fs" "kmem s1 = kmem (mm s)"
    "number_of_frames s1 = number_of_frames (mm s)"
proof -
  have arg: "address_argument argv 1 t = Inr va" if "bytes t = bytes s" for t
    using assms(1,2) that by (simp add: address_argument_def)
  obtain s1 where a: "allocate_frame (mm s) = Inr ((0, Some f), s1)" "vm_inv pin F fs s1" "references s1 f = 0"
    "f < number_of_frames s1" "f \<notin> set fs" "kmem s1 = kmem (mm s)" "number_of_frames s1 = number_of_frames (mm s)"
    by (rule allocate_page_frame [OF assms(4)])
  show thesis
    by (rule that [OF _ a(2-7)]) (simp add: command_ap_def arg [unfolded One_nat_def] a(1) assms(3))
qed

lemma commands_ap:
  assumes "argv 1 \<noteq> 0" "strtol (bytes s) (argv 1) 16 = Some (va, e)" "va < USER_TOP"
    and "ptr_page_directory s = kva F" "vm_inv pin F (f # fs) (mm s)"
  shows "if pde (mm s) F (PDX va) = 0 \<and> fs = []
    then \<exists>t. command_ap im argc argv s = Returned 0 (s\<lparr>mm := t\<rparr>) \<and> lookup F t va = None \<and> vm_inv pin F [] t
    else \<exists>t u gs hs. command_ap im argc argv s = Returned 0 (s\<lparr>mm := t\<rparr>) \<and> vm_inv pin F gs t \<and>
      (\<forall>va' < USER_TOP. lookup F t va' = (if PPN va' = PPN va then Some f else lookup F (mm s) va')) \<and>
      command_fp argc argv (s\<lparr>mm := t\<rparr>) = Returned 0 (s\<lparr>mm := u\<rparr>) \<and> vm_inv pin F hs u \<and>
      (\<forall>va' < USER_TOP. lookup F u va' = (if PPN va' = PPN va then None else lookup F (mm s) va'))"
proof -
  have arg: "address_argument argv 1 t = Inr va" if "bytes t = bytes s" for t
    using assms(1,2) that by (simp add: address_argument_def)
  obtain s1 where ap: "command_ap im argc argv s = return_0 (bind_res (map_frame (kva F) f va (PERM_USER OR PERM_WRITEABLE) s1)
      (\<lambda>(r, m). Inr (s\<lparr>mm := m\<rparr>)))"
    and a: "vm_inv pin F fs s1" "references s1 f = 0" "f < number_of_frames s1" "f \<notin> set fs" "kmem s1 = kmem (mm s)"
    by (rule command_ap_run [where argv = argv and s = s, OF assms(1,2,4,5), of im argc])
  have same: "pde s1 F i = pde (mm s) F i" "lookup F s1 va' = lookup F (mm s) va'" for i va'
    using a(5) by (simp_all add: pde_def pte_def lookup_def word_at_def)
  have fp: "command_fp argc argv (s\<lparr>mm := t\<rparr>) = return_0 (bind_res (unmap_frame (kva F) va t) (\<lambda>m. Inr (s\<lparr>mm := m\<rparr>)))" for t
    by (simp add: command_fp_def arg [unfolded One_nat_def] assms(4))
  show ?thesis
  proof (cases "pde (mm s) F (PDX va) = 0 \<and> fs = []")
    case True
    then have "map_frame (kva F) f va (PERM_USER OR PERM_WRITEABLE) s1 = Inr (E_NO_MEM, s1)"
      using map_frame_no_mem [of pin F s1 va] a(1) same(1) by simp
    moreover have "lookup F s1 va = None" using True same by (simp add: lookup_def pte_def)
    ultimately show ?thesis using True ap a(1) by auto
  next
    case False
    then have "map_ready F (PERM_USER OR PERM_WRITEABLE) s1 fs f va" using a same by (auto simp: map_ready_def)
    from va.map_law [OF a(1) assms(3) this] obtain t gs where
      t: "map_frame (kva F) f va (PERM_USER OR PERM_WRITEABLE) s1 = Inr (0, t)" "vm_inv pin F gs t"
        "\<forall>va' < USER_TOP. lookup F t va' = (if PPN va' = PPN va then Some f else lookup F s1 va')" by blast
    from va.unmap_law [OF t(2) assms(3)] obtain u hs where
      u: "unmap_frame (kva F) va t = Inr u" "vm_inv pin F hs u"
        "\<forall>va' < USER_TOP. lookup F u va' = (if PPN va' = PPN va then None else lookup F t va')" by blast
    show ?thesis unfolding if_not_P [OF False]
      by (intro exI [of _ t] exI [of _ u] exI [of _ gs] exI [of _ hs])
        (use t u same(2) in \<open>simp add: ap fp\<close>)
  qed
qed



end
