(* ===== verification/FOS_PageCheck.thy ===== *)
theory FOS_PageCheck
  imports FOS_Kernel
begin

text \<open>
  \<^verbatim>\<open>page_check\<close> of \<^verbatim>\<open>kern/helpers.c\<close>, the kernel's own test of the frame pool and the page
  tables at boot, and the proof that none of its assertions fails and that it leaves the
  address space and the set of free frames as they were.
\<close>

section \<open>The statements of the test\<close>

text \<open>Each statement is a step with the source line of its assertion.\<close>

primrec run_steps :: "('s \<Rightarrow> 's res) list \<Rightarrow> 's \<Rightarrow> 's res" where
  "run_steps [] s = Inr s"
| "run_steps (f # fs) s = bind_res (f s) (run_steps fs)"

definition assert_no_frame :: "nat \<Rightarrow> mm_state \<Rightarrow> mm_state res" where
  "assert_no_frame line s = bind_res (allocate_frame s) (\<lambda>((r, pp), s). check line (r = E_NO_MEM) (Inr s))"

definition assert_frame :: "nat \<Rightarrow> u32 \<Rightarrow> mm_state \<Rightarrow> mm_state res" where
  "assert_frame line p s =
    bind_res (allocate_frame s) (\<lambda>((r, pp), s). check line (r = 0 \<and> pp = Some p) (Inr s))"

definition assert_map_fails :: "nat \<Rightarrow> u32 \<Rightarrow> u32 \<Rightarrow> u32 \<Rightarrow> mm_state \<Rightarrow> mm_state res" where
  "assert_map_fails line d p va s = bind_res (map_frame d p va 0 s) (\<lambda>(r, s). check line (r < 0) (Inr s))"

definition assert_map :: "nat \<Rightarrow> u32 \<Rightarrow> u32 \<Rightarrow> u32 \<Rightarrow> mm_state \<Rightarrow> mm_state res" where
  "assert_map line d p va s = bind_res (map_frame d p va 0 s) (\<lambda>(r, s). check line (r = 0) (Inr s))"

definition assert_table :: "nat \<Rightarrow> u32 \<Rightarrow> u32 \<Rightarrow> mm_state \<Rightarrow> mm_state res" where
  "assert_table line d p s = check line (EXTRACT_ADDRESS (kmem s d) = to_physical_address p) (Inr s)"

definition assert_references :: "nat \<Rightarrow> u32 \<Rightarrow> u16 \<Rightarrow> mm_state \<Rightarrow> mm_state res" where
  "assert_references line p n s = check line (references s p = n) (Inr s)"

text \<open>The statements after the three allocations; \<open>d\<close> is the page directory.\<close>

definition map_steps :: "u32 \<Rightarrow> u32 \<Rightarrow> u32 \<Rightarrow> u32 \<Rightarrow> (mm_state \<Rightarrow> mm_state res) list" where
  "map_steps d pp0 pp1 pp2 =
   [assert_no_frame 171,
    assert_map_fails 174 d pp1 0,
    (\<lambda>s. Inr (free_frame pp0 s)),
    assert_map 178 d pp1 0,
    assert_table 179 d pp0,
    assert_va2pa 180 d 0 (to_physical_address pp1),
    assert_references 181 pp1 1,
    assert_references 182 pp0 1,
    assert_map 185 d pp2 PAGE_SIZE,
    assert_va2pa 186 d PAGE_SIZE (to_physical_address pp2),
    assert_references 187 pp2 1,
    assert_no_frame 190,
    assert_map 193 d pp2 PAGE_SIZE,
    assert_va2pa 194 d PAGE_SIZE (to_physical_address pp2),
    assert_references 195 pp2 1,
    assert_no_frame 199,
    assert_map_fails 202 d pp0 PTSIZE]"

definition unmap_steps :: "u32 \<Rightarrow> u32 \<Rightarrow> u32 \<Rightarrow> u32 \<Rightarrow> (mm_state \<Rightarrow> mm_state res) list" where
  "unmap_steps d pp0 pp1 pp2 =
   [assert_map 205 d pp1 PAGE_SIZE,
    assert_va2pa 208 d 0 (to_physical_address pp1),
    assert_va2pa 209 d PAGE_SIZE (to_physical_address pp1),
    assert_references 211 pp1 2,
    assert_references 212 pp2 0,
    assert_frame 215 pp2,
    unmap_frame d 0,
    assert_va2pa 219 d 0 (NOT 0),
    assert_va2pa 220 d PAGE_SIZE (to_physical_address pp1),
    assert_references 221 pp1 1,
    assert_references 222 pp2 0,
    unmap_frame d PAGE_SIZE,
    assert_va2pa 226 d 0 (NOT 0),
    assert_va2pa 227 d PAGE_SIZE (NOT 0),
    assert_references 228 pp1 0,
    assert_references 229 pp2 0,
    assert_frame 232 pp1,
    assert_no_frame 235,
    assert_table 238 d pp0]"

text \<open>\<open>fl\<close> is the head of the free list that was put aside.\<close>

definition restore_steps :: "u32 option \<Rightarrow> u32 \<Rightarrow> u32 \<Rightarrow> u32 \<Rightarrow> u32 \<Rightarrow> (mm_state \<Rightarrow> mm_state res) list" where
  "restore_steps fl d pp0 pp1 pp2 =
   [(\<lambda>s. Inr (store_word d 0 s)),
    assert_references 240 pp0 1,
    (\<lambda>s. Inr (s\<lparr>references := (references s)(pp0 := 0)\<rparr>)),
    (\<lambda>s. Inr (s\<lparr>free_frame_list := (free_frame_list s)\<lparr>lh_first := fl\<rparr>\<rparr>)),
    (\<lambda>s. Inr (free_frame pp0 s)),
    (\<lambda>s. Inr (free_frame pp1 s)),
    (\<lambda>s. Inr (free_frame pp2 s))]"

definition check_frames :: "u32 \<Rightarrow> mm_state \<Rightarrow> mm_state res" where
  "check_frames d s =
    bind_res (allocate_frame s) (\<lambda>((r, pp0), s). check 158 (r = 0) (
    bind_res (allocate_frame s) (\<lambda>((r, pp1), s). check 159 (r = 0) (
    bind_res (allocate_frame s) (\<lambda>((r, pp2), s). check 160 (r = 0) (
    check 162 (pp0 \<noteq> None) (
    check 163 (pp1 \<noteq> None \<and> pp1 \<noteq> pp0) (
    check 164 (pp2 \<noteq> None \<and> pp2 \<noteq> pp1 \<and> pp2 \<noteq> pp0) (
    case (pp0, pp1, pp2) of
      (Some p0, Some p1, Some p2) \<Rightarrow>
        let fl = lh_first (free_frame_list s)
        in run_steps (map_steps d p0 p1 p2 @ unmap_steps d p0 p1 p2 @ restore_steps fl d p0 p1 p2)
             (s\<lparr>free_frame_list := LIST_INIT (free_frame_list s)\<rparr>)
    | _ \<Rightarrow> Inl Null_deref)))))))))"

definition page_check :: "kernel \<Rightarrow> kernel res" where
  "page_check s =
    bind_res (check_frames (ptr_page_directory s) (mm s)) (\<lambda>m.
      cprintf (''[Page Check] Success'' @ [CHR 0x0A]) [] (s\<lparr>mm := m\<rparr>))"

section \<open>The states the test goes through\<close>

text \<open>
  \<open>stage\<close>: the state differs from \<open>s0\<close> only in directory entry 0, in the first two entries of its
  table, and in the links and counts of the three frames; what the kernel relies on is kept.
\<close>

definition stage :: "(u32 \<Rightarrow> nat) \<Rightarrow> u32 \<Rightarrow> u32 \<Rightarrow> u32 \<Rightarrow> u32 \<Rightarrow> mm_state \<Rightarrow>
    u32 list \<Rightarrow> u32 \<Rightarrow> u32 \<Rightarrow> u32 \<Rightarrow> u16 \<Rightarrow> u16 \<Rightarrow> u16 \<Rightarrow> mm_state \<Rightarrow> bool" where
  "stage pin F p0 p1 p2 s0 fs t a b r0 r1 r2 s \<longleftrightarrow>
    vm_inv pin F fs s \<and> number_of_frames s = number_of_frames s0 \<and>
    references s = (references s0)(p0 := r0, p1 := r1, p2 := r2) \<and>
    (\<forall>k < 955. pde s F k = (if k = 0 then t else pde s0 F k)) \<and>
    (\<forall>k < 955. \<forall>l < 1024. pte s F k l =
      (if k = 0 \<and> l = 0 then a else if k = 0 \<and> l = 1 then b else pte s0 F k l)) \<and>
    agree_links {p0, p1, p2} (free_frame_list s0) (free_frame_list s) \<and> kernel_kept pin F s0 s"

lemma stage_entry:
  assumes "stage pin F p0 p1 p2 s0 fs t a b r0 r1 r2 s"
  shows "vm_inv pin F fs s" "pde s F 0 = t" "pde s F 1 = pde s0 F 1" "pte s F 0 0 = a" "pte s F 0 1 = b"
    "kmem s (kva F) = t"
  using assms pde_read [of s F 0] by (simp_all add: stage_def)

lemma stage_links:
  "stage pin F p0 p1 p2 s0 fs t a b r0 r1 r2 s \<Longrightarrow> agree_links {p0, p1, p2} (free_frame_list s0) (free_frame_list s)"
  by (simp add: stage_def)

lemma stage_references:
  assumes "stage pin F p0 p1 p2 s0 fs t a b r0 r1 r2 s" "p1 \<noteq> p0" "p2 \<noteq> p0" "p2 \<noteq> p1"
  shows "references s p0 = r0" "references s p1 = r1" "references s p2 = r2"
  using assms by (simp_all add: stage_def)

lemma addresses: "PDX 0 = 0" "PTX 0 = 0" "PDX PAGE_SIZE = 0" "PTX PAGE_SIZE = 1" "PDX PTSIZE = 1" "PTX PTSIZE = 0"
  by (simp_all add: PDX_def PTX_def)

lemma step_no_frame:
  assumes "stage pin F p0 p1 p2 s0 [] t a b r0 r1 r2 s"
  shows "assert_no_frame line s = Inr s"
  using vm_inv_frames(4) [OF stage_entry(1) [OF assms]] by (simp add: assert_no_frame_def allocate_frame_empty)

lemma step_frame:
  assumes "stage pin F p0 p1 p2 s0 [p] t a b r0 r1 r2 s" "p \<in> {p0, p1, p2}" "references s p = 0"
  obtains s' where "assert_frame line p s = Inr s'" "stage pin F p0 p1 p2 s0 [] t a b r0 r1 r2 s'"
proof -
  note inv = stage_entry(1) [OF assms(1)]
  from allocate_frame_cons [OF vm_inv_frames(4) [OF inv]] obtain l where l: "dlist l []" "allocate_frame s =
      Inr ((0, Some p), s\<lparr>free_frame_list := l, references := (references s)(p := 0)\<rparr>)" .
  define s' where "s' = s\<lparr>free_frame_list := l, references := (references s)(p := 0)\<rparr>"
  have s': "number_of_frames s' = number_of_frames s" "references s' = references s" "kmem s' = kmem s"
    "free_frame_list s' = l"
    using assms(3) by (auto simp: s'_def)
  have e: "pde s' = pde s" "pte s' = pte s" using s'(3) by (simp_all add: fun_eq_iff pde_def pte_def word_at_def)
  have 1: "agree_links (set [p]) (free_frame_list s) l"
    using allocate_frame_links [OF vm_inv_frames(4) [OF inv] l(2)] by simp
  have a: "agree_links {p0, p1, p2} (free_frame_list s0) (free_frame_list s')"
    unfolding s'(4) by (rule agree_links_trans [OF stage_links [OF assms(1)] 1]) (use assms(2) in auto)
  have "vm_inv pin F [] s'" by (rule vm_inv_cong [OF inv s'(1,2)]) (use l(1) s'(4) e in simp_all)
  then have "stage pin F p0 p1 p2 s0 [] t a b r0 r1 r2 s'"
    using assms(1) a kernel_kept_trans [OF _ kernel_kept_kmem [OF s'(3,1)]] by (simp add: stage_def s' e)
  then show thesis using that l(2) by (simp add: assert_frame_def s'_def)
qed

lemma step_map_fails:
  assumes "stage pin F p0 p1 p2 s0 [] t a b r0 r1 r2 s" "pde s F (PDX va) = 0"
  shows "assert_map_fails line (kva F) g va s = Inr s"
  using map_frame_no_mem [OF stage_entry(1) [OF assms(1)] assms(2)] by (simp add: assert_map_fails_def)

lemma step_translation:
  assumes "stage pin F p0 p1 p2 s0 fs t a b r0 r1 r2 s"
  shows "assert_va2pa line (kva F) 0 (if a = 0 then NOT 0 else push_bit 12 (PPN a)) s = Inr s"
    and "assert_va2pa line (kva F) PAGE_SIZE (if b = 0 then NOT 0 else push_bit 12 (PPN b)) s = Inr s"
  using check_va2pa_lookup [OF stage_entry(1) [OF assms], of 0]
    check_va2pa_lookup [OF stage_entry(1) [OF assms], of PAGE_SIZE] stage_entry(4,5) [OF assms]
  by (simp_all add: assert_va2pa_def lookup_def addresses [simplified])

lemma step_map:
  assumes st: "stage pin F p0 p1 p2 s0 fs t a b r0 r1 r2 s" and va: "PDX va = 0" "PTX va = j" "j = 0 \<or> j = 1"
    and e: "e = (if j = 0 then a else b)" "e = 0 \<or> PPN e \<in> {p0, p1, p2}"
    and g: "g \<in> {p0, p1, p2}" "g < number_of_frames s" "g \<notin> set fs" "references s g \<noteq> 0xFFFF"
    and fs: "t \<noteq> 0 \<or> fs \<noteq> []" "set fs \<subseteq> {p0, p1, p2}" and E: "E = (if e \<noteq> 0 \<and> PPN e = g then e else mapped_entry g 0)"
    and T: "T = (if t = 0 then (references s)(hd fs := 1) else references s)" and R: "R = map_refs e g T"
    and fs': "fs' = map_frames e g T (if t = 0 then tl fs else fs)"
    and t': "t' = (if t = 0 then table_entry (hd fs) else t)"
    and E2: "a' = (if j = 0 then E else a)" "b' = (if j = 1 then E else b)"
    and r': "r0' = R p0" "r1' = R p1" "r2' = R p2"
  obtains s' where "assert_map line (kva F) g va s = Inr s'" "stage pin F p0 p1 p2 s0 fs' t' a' b' r0' r1' r2' s'"
proof -
  note S = stage_entry [OF st]
  have i: "PDX va < 955" using va(1) by simp
  have mem: "pde s F (PDX va) \<noteq> 0 \<or> fs \<noteq> []" using fs(1) S(2) va(1) by simp
  have e': "pte s F (PDX va) (PTX va) = e" using S(4,5) va e(1) by auto
  have T': "table_refs s F (PDX va) fs = T" "table_frames s F (PDX va) fs = (if t = 0 then tl fs else fs)"
    using S(2) va(1) by (simp_all add: table_refs_def table_frames_def T)
  obtain s' where s': "map_frame (kva F) g va 0 s = Inr (0, s')" "vm_inv pin F fs' s'"
      "number_of_frames s' = number_of_frames s" "references s' = R"
      "agree_links (if e = 0 then set fs else insert (PPN e) (set fs)) (free_frame_list s) (free_frame_list s')"
    and d: "\<And>k. k < 955 \<Longrightarrow> pde s' F k = (if k = PDX va \<and> pde s F k = 0 then table_entry (hd fs) else pde s F k)"
    and p: "\<And>k l. k < 955 \<Longrightarrow> l < 1024 \<Longrightarrow> pte s' F k l =
      (if k = PDX va \<and> l = PTX va then
         (if pte s F k l \<noteq> 0 \<and> PPN (pte s F k l) = g then pte s F k l else mapped_entry g 0)
       else pte s F k l)"
    by (rule map_frame_step [OF S(1) i g(2-4) _ mem, unfolded e' T', folded R fs']) auto
  have d': "pde s' F k = (if k = 0 then t' else pde s0 F k)" if "k < 955" for k
    using d [OF that] st that va(1) unfolding stage_def t' by auto
  have p': "pte s' F k l = (if k = 0 \<and> l = 0 then a' else if k = 0 \<and> l = 1 then b' else pte s0 F k l)"
    if "k < 955" "l < 1024" for k l
    using p [OF that] st that va E e(1) unfolding stage_def E2 by auto
  have R': "R = (references s0)(p0 := R p0, p1 := R p1, p2 := R p2)"
  proof
    fix x
    have "references s x = references s0 x" if "x \<notin> {p0, p1, p2}" using st that by (simp add: stage_def)
    then show "R x = ((references s0)(p0 := R p0, p1 := R p1, p2 := R p2)) x"
      using e(2) g(1) fs by (cases fs) (auto simp: R T map_refs_def given_up_def Let_def)
  qed
  have "agree_links {p0, p1, p2} (free_frame_list s0) (free_frame_list s')"
    by (rule agree_links_trans [OF stage_links [OF st] s'(5)]) (use e(2) fs(2) in auto)
  moreover have "kernel_kept pin F s0 s'"
    using kernel_kept_trans [OF _ map_frame_kept [OF S(1) i g(2-4) _ s'(1)]] st by (simp add: stage_def)
  ultimately have "stage pin F p0 p1 p2 s0 fs' t' a' b' r0' r1' r2' s'"
    unfolding stage_def r' using s'(2-4) R' d' p' st by (auto simp: stage_def)
  then show thesis using that s'(1) by (simp add: assert_map_def)
qed

lemma step_unmap:
  assumes st: "stage pin F p0 p1 p2 s0 fs t a b r0 r1 r2 s" and va: "PDX va = 0" "PTX va = j" "j = 0 \<or> j = 1"
    and e: "e = (if j = 0 then a else b)" "e \<noteq> 0" "PPN e = g" "g \<in> {p0, p1, p2}" and fs: "set fs \<subseteq> {p0, p1, p2}"
    and R: "R = (references s)(g := references s g - 1)"
    and fs': "fs' = (if references s g = 1 then g # fs else fs)"
    and E2: "a' = (if j = 0 then 0 else a)" "b' = (if j = 1 then 0 else b)"
    and r': "r0' = R p0" "r1' = R p1" "r2' = R p2"
  obtains s' where "unmap_frame (kva F) va s = Inr s'" "stage pin F p0 p1 p2 s0 fs' t a' b' r0' r1' r2' s'"
proof -
  note S = stage_entry [OF st]
  have i: "PDX va < 955" using va(1) by simp
  have e': "pte s F (PDX va) (PTX va) = e" using S(4,5) va e(1) by auto
  obtain s' where s': "unmap_frame (kva F) va s = Inr s'" "vm_inv pin F fs' s'" "references s' = R"
      "number_of_frames s' = number_of_frames s"
      "agree_links (insert g (set fs)) (free_frame_list s) (free_frame_list s')"
    and d: "\<And>k. k < 955 \<Longrightarrow> pde s' F k = pde s F k"
    and p: "\<And>k l. k < 955 \<Longrightarrow> l < 1024 \<Longrightarrow> pte s' F k l = (if k = PDX va \<and> l = PTX va then 0 else pte s F k l)"
    by (rule unmap_frame_some [OF S(1) i, unfolded e', OF e(2) e(3) [symmetric], folded R fs']) blast
  have p': "pte s' F k l = (if k = 0 \<and> l = 0 then a' else if k = 0 \<and> l = 1 then b' else pte s0 F k l)"
    if "k < 955" "l < 1024" for k l
    using p [OF that] st that va unfolding stage_def E2 by auto
  have R': "R = (references s0)(p0 := R p0, p1 := R p1, p2 := R p2)"
    using st e(4) by (auto simp: R stage_def fun_eq_iff)
  have "agree_links {p0, p1, p2} (free_frame_list s0) (free_frame_list s')"
    by (rule agree_links_trans [OF stage_links [OF st] s'(5)]) (use e(4) fs in auto)
  moreover have "kernel_kept pin F s0 s'"
    using kernel_kept_trans [OF _ unmap_frame_kept [OF S(1) i s'(1)]] st by (simp add: stage_def)
  ultimately have "stage pin F p0 p1 p2 s0 fs' t a' b' r0' r1' r2' s'"
    unfolding stage_def r' using s'(2-4) R' d p' st by (auto simp: stage_def)
  then show thesis using that s'(1) by simp
qed

lemma free_frame_same:
  "pde (free_frame g s) = pde s" "pte (free_frame g s) = pte s" "references (free_frame g s) = references s"
  "number_of_frames (free_frame g s) = number_of_frames s" "kernel_kept pin F (free_frame g s) = kernel_kept pin F s"
  "kernel_kept pin F b (free_frame g s) = kernel_kept pin F b s"
  by (simp_all add: free_frame_def fun_eq_iff pde_def pte_def word_at_def kernel_kept_def)

lemma vm_inv_free_frame:
  assumes "vm_inv pin F fs s" "g < number_of_frames s" "g \<notin> set fs" "references s g = 0"
  shows "vm_inv pin F (g # fs) (free_frame g s)"
  using assms free_frame_holds [of s fs g] by (simp add: vm_inv_def free_frame_same)

lemma step_free:
  assumes st: "stage pin F p0 p1 p2 s0 [] t a b r0 r1 r2 s" and g: "g \<in> {p0, p1, p2}" "g < number_of_frames s"
    and "references s g = 0"
  shows "stage pin F p0 p1 p2 s0 [g] t a b r0 r1 r2 (free_frame g s)"
proof -
  note inv = stage_entry(1) [OF st]
  have "agree_links (insert g (set [])) (free_frame_list s) (free_frame_list (free_frame g s))"
    unfolding free_frame_def using agree_links_insert [OF vm_inv_frames(4) [OF inv], of g] by simp
  then have "agree_links {p0, p1, p2} (free_frame_list s0) (free_frame_list (free_frame g s))"
    by (rule agree_links_trans [OF stage_links [OF st]]) (use g(1) in auto)
  then show ?thesis
    using st vm_inv_free_frame [OF inv g(2) _ assms(4)] by (simp add: stage_def free_frame_same)
qed

section \<open>The test passes\<close>

lemma run_steps_append: "run_steps (fs @ gs) s = bind_res (run_steps fs s) (run_steps gs)"
proof (induction fs arbitrary: s)
  case (Cons f fs)
  then show ?case by (cases "f s") simp_all
qed simp

lemma entry_address: "g < 0x10000 \<Longrightarrow> EXTRACT_ADDRESS (table_entry g) = push_bit 12 g"
  by (simp add: EXTRACT_ADDRESS_PPN table_entry(1))

definition three_frames :: "u32 \<Rightarrow> u32 \<Rightarrow> u32 \<Rightarrow> mm_state \<Rightarrow> bool" where
  "three_frames p0 p1 p2 s \<longleftrightarrow> number_of_frames s \<le> 0x10000 \<and>
    p0 < number_of_frames s \<and> p1 < number_of_frames s \<and> p2 < number_of_frames s \<and> p1 \<noteq> p0 \<and> p2 \<noteq> p0 \<and> p2 \<noteq> p1"

lemma three_frames:
  assumes "three_frames p0 p1 p2 s"
  shows "p0 < number_of_frames s" "p1 < number_of_frames s" "p2 < number_of_frames s" "p1 \<noteq> p0" "p2 \<noteq> p0" "p2 \<noteq> p1"
    "p0 < 0x10000" "p1 < 0x10000" "p2 < 0x10000"
  using assms by (auto simp: three_frames_def)

lemma map_steps_pass:
  assumes st: "stage pin F p0 p1 p2 s0 [] 0 0 0 0 0 0 s" and z: "pde s0 F 1 = 0" and three: "three_frames p0 p1 p2 s0"
  obtains s' where "run_steps (map_steps (kva F) p0 p1 p2) s = Inr s'"
    "stage pin F p0 p1 p2 s0 [] (table_entry p0) (mapped_entry p1 0) (mapped_entry p2 0) 1 1 1 s'"
proof -
  have nf: "number_of_frames t = number_of_frames s0" if "stage pin F p0 p1 p2 s0 fs e a b r0 r1 r2 t" for fs e a b r0 r1 r2 t
    using that by (simp add: stage_def)
  note D = three_frames [OF three]
  note refs = stage_references [OF _ D(4-6)]
  note M = mapped_entry [OF D(8), of 0, simplified] mapped_entry [OF D(9), of 0, simplified]
  have p0: "references s p0 = 0" by (rule refs(1) [OF st])
  note s1 = step_free [OF st insertI1 _ p0, unfolded nf [OF st], OF D(1)]
  let ?te = "table_entry p0" and ?m1 = "mapped_entry p1 0" and ?m2 = "mapped_entry p2 0"
  obtain s2 where s2: "assert_map 178 (kva F) p1 0 (free_frame p0 s) = Inr s2"
    "stage pin F p0 p1 p2 s0 [] ?te ?m1 0 1 1 0 s2"
    by (rule step_map [OF s1 addresses(1,2) disjI1 [OF refl] refl, where g = p1 and line = 178])
      (use D nf [OF s1] refs [OF s1] in \<open>auto simp: map_refs_def map_frames_def given_up_def Let_def\<close>)
  obtain s3 where s3: "assert_map 185 (kva F) p2 PAGE_SIZE s2 = Inr s3"
    "stage pin F p0 p1 p2 s0 [] ?te ?m1 ?m2 1 1 1 s3"
    by (rule step_map [OF s2(2) addresses(3,4) disjI2 [OF refl] refl, where g = p2 and line = 185])
      (use D nf [OF s2(2)] refs [OF s2(2)] table_entry(3) in \<open>auto simp: map_refs_def map_frames_def given_up_def Let_def\<close>)
  obtain s4 where s4: "assert_map 193 (kva F) p2 PAGE_SIZE s3 = Inr s4"
    "stage pin F p0 p1 p2 s0 [] ?te ?m1 ?m2 1 1 1 s4"
    by (rule step_map [OF s3(2) addresses(3,4) disjI2 [OF refl] refl, where g = p2 and line = 193])
      (use D nf [OF s3(2)] refs [OF s3(2)] table_entry(3) M in \<open>auto simp: map_refs_def map_frames_def given_up_def Let_def\<close>)
  have fails: "assert_map_fails 202 (kva F) p0 PTSIZE s4 = Inr s4"
    by (rule step_map_fails [OF s4(2)]) (simp only: addresses stage_entry(3) [OF s4(2)] z)
  have run: "run_steps (map_steps (kva F) p0 p1 p2) s = Inr s4"
    using step_no_frame [OF st] step_map_fails [OF st, of 0] stage_entry [OF st] s2(1) s3(1) s4(1)
      step_translation [OF s2(2)] step_translation [OF s3(2)] step_translation [OF s4(2)]
      step_no_frame [OF s3(2)] step_no_frame [OF s4(2)] refs [OF s2(2)] refs [OF s3(2)] refs [OF s4(2)]
      fails stage_entry(6) [OF s2(2)] M D
    by (simp add: map_steps_def addresses assert_table_def assert_references_def to_physical_address_def to_frame_number_def
        entry_address)
  show thesis by (rule that [OF run s4(2)])
qed

lemma unmap_steps_pass:
  assumes st: "stage pin F p0 p1 p2 s0 [] (table_entry p0) (mapped_entry p1 0) (mapped_entry p2 0) 1 1 1 s"
    and three: "three_frames p0 p1 p2 s0"
  obtains s' where "run_steps (unmap_steps (kva F) p0 p1 p2) s = Inr s'"
    "stage pin F p0 p1 p2 s0 [] (table_entry p0) 0 0 1 0 0 s'"
proof -
  have nf: "number_of_frames t = number_of_frames s0" if "stage pin F p0 p1 p2 s0 fs e a b r0 r1 r2 t" for fs e a b r0 r1 r2 t
    using that by (simp add: stage_def)
  note D = three_frames [OF three]
  note refs = stage_references [OF _ D(4-6)]
  note M = mapped_entry [OF D(8), of 0, simplified] mapped_entry [OF D(9), of 0, simplified]
  let ?te = "table_entry p0" and ?m1 = "mapped_entry p1 0" and ?m2 = "mapped_entry p2 0"
  obtain s1 where s1: "assert_map 205 (kva F) p1 PAGE_SIZE s = Inr s1" "stage pin F p0 p1 p2 s0 [p2] ?te ?m1 ?m1 1 2 0 s1"
    by (rule step_map [OF st addresses(3,4) disjI2 [OF refl] refl, where g = p1 and line = 205])
      (use D nf [OF st] refs [OF st] table_entry(3) M in \<open>auto simp: map_refs_def map_frames_def given_up_def Let_def\<close>)
  obtain s2 where s2: "assert_frame 215 p2 s1 = Inr s2" "stage pin F p0 p1 p2 s0 [] ?te ?m1 ?m1 1 2 0 s2"
    by (rule step_frame [OF s1(2)]) (use refs [OF s1(2)] in auto)
  obtain s3 where s3: "unmap_frame (kva F) 0 s2 = Inr s3" "stage pin F p0 p1 p2 s0 [] ?te 0 ?m1 1 1 0 s3"
    by (rule step_unmap [OF s2(2) addresses(1,2) disjI1 [OF refl] refl, where g = p1])
      (use D refs [OF s2(2)] M in auto)
  obtain s4 where s4: "unmap_frame (kva F) PAGE_SIZE s3 = Inr s4" "stage pin F p0 p1 p2 s0 [p1] ?te 0 0 1 0 0 s4"
    by (rule step_unmap [OF s3(2) addresses(3,4) disjI2 [OF refl] refl, where g = p1])
      (use D refs [OF s3(2)] M in auto)
  obtain s5 where s5: "assert_frame 232 p1 s4 = Inr s5" "stage pin F p0 p1 p2 s0 [] ?te 0 0 1 0 0 s5"
    by (rule step_frame [OF s4(2)]) (use refs [OF s4(2)] in auto)
  have run: "run_steps (unmap_steps (kva F) p0 p1 p2) s = Inr s5"
    using s1(1) s2(1) s3(1) s4(1) s5(1) step_translation [OF s1(2)] step_translation [OF s3(2)] step_translation [OF s4(2)]
      step_no_frame [OF s5(2)] refs [OF s1(2)] refs [OF s3(2)] refs [OF s4(2)] stage_entry(6) [OF s5(2)] M D
    by (simp add: unmap_steps_def assert_table_def assert_references_def to_physical_address_def to_frame_number_def
        entry_address)
  show thesis by (rule that [OF run s5(2)])
qed

lemma restore_steps_pass:
  assumes st: "stage pin F p0 p1 p2 s0 [] (table_entry p0) 0 0 1 0 0 s" and three: "three_frames p0 p1 p2 b"
    and s0: "s0 = b\<lparr>free_frame_list := LIST_INIT (free_frame_list b)\<rparr>" and inv: "vm_inv pin F gs b"
    and z: "pde b F 0 = 0" and p: "{p0, p1, p2} \<inter> set gs = {}" "references b p0 = 0" "references b p1 = 0" "references b p2 = 0"
  obtains t where "run_steps (restore_steps (lh_first (free_frame_list b)) (kva F) p0 p1 p2) s = Inr t"
    "vm_inv pin F (p2 # p1 # p0 # gs) t" "references t = references b" "number_of_frames t = number_of_frames b"
    "\<forall>i < 955. pde t F i = pde b F i" "\<forall>i < 955. \<forall>j < 1024. pte t F i j = pte b F i j" "kernel_kept pin F b t"
proof -
  note D = three_frames [OF three]
  note S = stage_entry [OF st]
  define u where "u = (store_word (kva F) 0 s)\<lparr>references := (references s)(p0 := 0),
    free_frame_list := (free_frame_list s)\<lparr>lh_first := lh_first (free_frame_list b)\<rparr>\<rparr>"
  have same0: "pde s0 = pde b" "pte s0 = pte b" "references s0 = references b" "number_of_frames s0 = number_of_frames b"
    "agree_links {} (free_frame_list b) (free_frame_list s0)"
    by (simp_all add: s0 fun_eq_iff pde_def pte_def word_at_def agree_links_def LIST_INIT_def)
  have w: "word_at u g j = (if g = F \<and> j = 0 then 0 else word_at s g j)" if "g < 0x10000" "j < 1024" for g j
    using word_at_store [OF vm_inv_frames(3) [OF S(1)] that(1) _ that(2), of 0 0 s]
    by (auto simp: u_def word_at_def)
  have d: "pde u F k = pde b F k" if "k < 955" for k
    using w [OF vm_inv_frames(3) [OF inv] index_lt [OF that]] st that z by (auto simp: pde_def [of u] pde_def [of s, symmetric] stage_def same0)
  have t: "pte u F k l = pte b F k l" if k: "k < 955" and l: "l < 1024" for k l
  proof (cases "pde b F k = 0")
    case True
    then show ?thesis using d [OF k] by (simp add: pte_def)
  next
    case False
    then have "k \<noteq> 0" using z by auto
    then have e: "pde s F k = pde b F k" "pte s F k l = pte b F k l" using st k l by (auto simp: stage_def same0)
    note T = vm_inv_table [OF inv k False]
    show ?thesis using w [OF T(5) l] T(3) d [OF k] e False by (simp add: pte_def)
  qed
  have R: "references u = references b"
    using st p by (auto simp: u_def stage_def same0 fun_eq_iff)
  have "agree_links {p0, p1, p2} (free_frame_list b) (free_frame_list s)"
    by (rule agree_links_trans [OF same0(5) stage_links [OF st]]) simp
  then have l: "dlist (free_frame_list u) gs"
    using dlist_restore [OF vm_inv_frames(4) [OF inv] _ p(1)] by (simp add: u_def)
  have nf: "number_of_frames u = number_of_frames b" using st same0 by (simp add: u_def stage_def store_word_def)
  have k: "kernel_kept pin F b u"
    using st w nf by (auto simp: kernel_kept_def stage_def s0 word_at_def [of "b\<lparr>free_frame_list := _\<rparr>"] word_at_def [of b])
  have 0: "vm_inv pin F gs u" by (rule vm_inv_cong [OF inv nf R l]) (use d t in auto)
  have 1: "vm_inv pin F (p0 # gs) (free_frame p0 u)"
    by (rule vm_inv_free_frame [OF 0]) (use D p nf R in auto)
  have 2: "vm_inv pin F (p1 # p0 # gs) (free_frame p1 (free_frame p0 u))"
    by (rule vm_inv_free_frame [OF 1]) (use D p nf R in \<open>auto simp: free_frame_same\<close>)
  have 3: "vm_inv pin F (p2 # p1 # p0 # gs) (free_frame p2 (free_frame p1 (free_frame p0 u)))"
    by (rule vm_inv_free_frame [OF 2]) (use D p nf R in \<open>auto simp: free_frame_same\<close>)
  have run: "run_steps (restore_steps (lh_first (free_frame_list b)) (kva F) p0 p1 p2) s
      = Inr (free_frame p2 (free_frame p1 (free_frame p0 u)))"
    using stage_references(1) [OF st D(4-6)] by (simp add: restore_steps_def assert_references_def store_word_def u_def)
  show thesis by (rule that [OF run 3]) (use R nf d t k in \<open>simp_all add: free_frame_same\<close>)
qed

lemma take_frame:
  assumes "vm_inv pin F (f # fs) s"
  obtains t where "allocate_frame s = Inr ((0, Some f), t)" "vm_inv pin F fs t" "references t = references s"
    "number_of_frames t = number_of_frames s" "pde t = pde s" "pte t = pte s" "f < number_of_frames s" "references s f = 0"
    "kmem t = kmem s"
proof -
  note fr = vm_inv_frames [OF assms]
  have f: "f < number_of_frames s" "references s f = 0" using fr(6,7) by auto
  from allocate_frame_cons [OF fr(4)] obtain l where l: "dlist l fs" and a: "allocate_frame s =
      Inr ((0, Some f), s\<lparr>free_frame_list := l, references := (references s)(f := 0)\<rparr>)" .
  let ?t = "s\<lparr>free_frame_list := l, references := (references s)(f := 0)\<rparr>"
  have same: "references ?t = references s" "pde ?t = pde s" "pte ?t = pte s"
    using f(2) by (auto simp: fun_eq_iff pde_def pte_def word_at_def)
  have "vm_inv pin F fs ?t" by (rule vm_inv_cong [OF assms _ same(1)]) (use l same in auto)
  then show thesis using that [OF a] same f by simp
qed

lemma check_frames_pass:
  assumes inv: "vm_inv pin F (p0 # p1 # p2 # fs) s" and z: "pde s F 0 = 0" "pde s F 1 = 0"
  obtains t where "check_frames (kva F) s = Inr t" "vm_inv pin F (p2 # p1 # p0 # fs) t"
    "references t = references s" "number_of_frames t = number_of_frames s"
    "\<forall>i < 955. pde t F i = pde s F i" "\<forall>i < 955. \<forall>j < 1024. pte t F i j = pte s F i j" "kernel_kept pin F s t"
proof -
  obtain s1 where s1: "allocate_frame s = Inr ((0, Some p0), s1)" "vm_inv pin F (p1 # p2 # fs) s1" "references s1 = references s"
    "number_of_frames s1 = number_of_frames s" "pde s1 = pde s" "pte s1 = pte s" "p0 < number_of_frames s" "references s p0 = 0"
    "kmem s1 = kmem s" by (rule take_frame [OF inv])
  obtain s2 where s2: "allocate_frame s1 = Inr ((0, Some p1), s2)" "vm_inv pin F (p2 # fs) s2" "references s2 = references s1"
    "number_of_frames s2 = number_of_frames s1" "pde s2 = pde s1" "pte s2 = pte s1" "p1 < number_of_frames s1" "references s1 p1 = 0"
    "kmem s2 = kmem s1" by (rule take_frame [OF s1(2)])
  obtain b where b: "allocate_frame s2 = Inr ((0, Some p2), b)" "vm_inv pin F fs b" "references b = references s2"
    "number_of_frames b = number_of_frames s2" "pde b = pde s2" "pte b = pte s2" "p2 < number_of_frames s2" "references s2 p2 = 0"
    "kmem b = kmem s2" by (rule take_frame [OF s2(2)])
  have dis: "distinct (p0 # p1 # p2 # fs)" using vm_inv_frames(4) [OF inv] by (rule ll.holds_distinct)
  then have three: "three_frames p0 p1 p2 b"
    using vm_inv_frames(1) [OF inv] s1 s2 b by (auto simp: three_frames_def)
  define s0 where "s0 = b\<lparr>free_frame_list := LIST_INIT (free_frame_list b)\<rparr>"
  have same0: "pde s0 = pde s" "pte s0 = pte s" "references s0 = references s" "number_of_frames s0 = number_of_frames s"
    using s1 s2 b by (simp_all add: s0_def fun_eq_iff pde_def pte_def word_at_def)
  have "dlist (free_frame_list s0) []" by (simp add: s0_def dlist_init)
  then have inv0: "vm_inv pin F [] s0"
    by (intro vm_inv_cong [OF inv same0(4,3)]) (simp_all add: same0)
  have three0: "three_frames p0 p1 p2 s0" using three by (simp add: three_frames_def s0_def)
  have p: "pte s F 0 0 = 0" "pte s F 0 1 = 0" using z(1) by (simp_all add: pte_def)
  have r: "references s p0 = 0" "references s p1 = 0" "references s p2 = 0" using s1(3,8) s2(3,8) b(3,8) by simp_all
  have st: "stage pin F p0 p1 p2 s0 [] 0 0 0 0 0 0 s0"
    unfolding stage_def using inv0 r p z by (auto simp: same0 fun_eq_iff)
  obtain t1 where t1: "run_steps (map_steps (kva F) p0 p1 p2) s0 = Inr t1"
    "stage pin F p0 p1 p2 s0 [] (table_entry p0) (mapped_entry p1 0) (mapped_entry p2 0) 1 1 1 t1"
    by (rule map_steps_pass [OF st _ three0]) (use z(2) same0 in simp)
  obtain t2 where t2: "run_steps (unmap_steps (kva F) p0 p1 p2) t1 = Inr t2"
    "stage pin F p0 p1 p2 s0 [] (table_entry p0) 0 0 1 0 0 t2"
    by (rule unmap_steps_pass [OF t1(2) three0])
  obtain t where t: "run_steps (restore_steps (lh_first (free_frame_list b)) (kva F) p0 p1 p2) t2 = Inr t"
    "vm_inv pin F (p2 # p1 # p0 # fs) t" "references t = references b" "number_of_frames t = number_of_frames b"
    "\<forall>i < 955. pde t F i = pde b F i" "\<forall>i < 955. \<forall>j < 1024. pte t F i j = pte b F i j" "kernel_kept pin F b t"
    by (rule restore_steps_pass [OF t2(2) three s0_def b(2)]) (use dis z r s1 s2 b in auto)
  have "check_frames (kva F) s = Inr t"
    using s1(1) s2(1) b(1) three_frames(4-6) [OF three] t1(1) t2(1) t(1)
    by (simp add: check_frames_def run_steps_append s0_def Let_def)
  moreover have "kernel_kept pin F s t"
    by (rule kernel_kept_trans [OF kernel_kept_kmem t(7)]) (use s1(4,9) s2(4,9) b(4,9) in simp_all)
  ultimately show thesis using that [OF _ t(2)] t(3-6) s1 s2 b by simp
qed

lemma page_check_ok:
  assumes "vm_inv pin F (p0 # p1 # p2 # fs) (mm s)" "pde (mm s) F 0 = 0" "pde (mm s) F 1 = 0"
    and "ptr_page_directory s = kva F" "has_nul (bytes s)"
  shows "\<exists>m c. page_check s = Inr (s\<lparr>mm := m, con := c\<rparr>) \<and> vm_inv pin F (p2 # p1 # p0 # fs) m \<and>
    references m = references (mm s) \<and> number_of_frames m = number_of_frames (mm s) \<and>
    (\<forall>i < 955. pde m F i = pde (mm s) F i) \<and> (\<forall>va < USER_TOP. lookup F m va = lookup F (mm s) va) \<and>
    kernel_kept pin F (mm s) m"
proof -
  obtain m where m: "check_frames (kva F) (mm s) = Inr m" "vm_inv pin F (p2 # p1 # p0 # fs) m"
    "references m = references (mm s)" "number_of_frames m = number_of_frames (mm s)" "\<forall>i < 955. pde m F i = pde (mm s) F i"
    "\<forall>i < 955. \<forall>j < 1024. pte m F i j = pte (mm s) F i j" "kernel_kept pin F (mm s) m"
    by (rule check_frames_pass [OF assms(1-3)])
  have "has_nul (bytes (s\<lparr>mm := m\<rparr>))" using assms(5) by simp
  from cprintf_returns [OF this] obtain cs where
    "cprintf (''[Page Check] Success'' @ [CHR 0x0A]) [] (s\<lparr>mm := m\<rparr>) = Inr (s\<lparr>mm := m, con := fold cputchar cs (con s)\<rparr>)"
    by fastforce
  moreover have "lookup F m va = lookup F (mm s) va" if "va < USER_TOP" for va
    using m(6) that by (simp add: lookup_def PDX_user)
  ultimately show ?thesis using m assms(4) by (auto simp: page_check_def)
qed


lemma vm_inv_start:
  assumes "number_of_frames s \<le> 0x10000" "F < number_of_frames s" "references s F \<noteq> 0"
    and "dlist (free_frame_list s) fs" "\<forall>f \<in> set fs. f < number_of_frames s \<and> references s f = 0"
    and "\<forall>i < 955. pde s F i = 0"
  shows "vm_inv (\<lambda>f. unat (references s f)) F fs s"
proof -
  have "tabs (pde s F) g = {}" "maps (pte s F) g = {}" for g
    using assms(6) by (auto simp: tabs_def maps_def pte_def)
  then show ?thesis using assms by (simp add: vm_inv_def pte_def unat_gt_0)
qed

text \<open>A machine of 16 frames with an empty directory in frame 1 and three free frames.\<close>

definition check_example :: mm_state where
  "check_example = \<lparr>kmem = (\<lambda>_. 0), number_of_frames = 16, references = (\<lambda>f. if f = 2 \<or> f = 3 \<or> f = 4 then 0 else 1),
     free_frame_list = fold LIST_INSERT_HEAD [4, 3, 2] empty_list, ptr_free_mem = 0xF0200000, invlpgs = []\<rparr>"


end
