(* ===== verification/FOS_Init.thy ===== *)
theory FOS_Init
  imports FOS_Boot FOS_Trap FOS_Prompt FOS_PageCheck
begin

text \<open>
  The start of the kernel, \<^verbatim>\<open>kern/init.c\<close>: \<^verbatim>\<open>FOS_initialize\<close> brings up all components in turn and enters the
  command prompt for good, and \<^verbatim>\<open>_panic\<close> and \<^verbatim>\<open>_warn\<close>. The property of the start composes the components:
  whatever the devices answer, a machine with enough memory reaches the prompt in a state that satisfies
  the invariants of the page tables, the frame pool and the environment table.
\<close>

section \<open>The start\<close>

text \<open>What the linker and the assembly files decide, besides the image of the prompt.\<close>

record boot_image =
  kernel_image :: image
  ptr_stack_bottom :: u32
  page_fault_entry :: u32
  syscall_entry :: u32
  taskstate_address :: u32

text \<open>
  The \<^verbatim>\<open>memset\<close> over the uninitialised data. The global variables of the model that C leaves without
  initialiser, or initialises with zero, lie there too.
\<close>

definition clear_bss :: "image \<Rightarrow> kernel \<Rightarrow> kernel" where
  "clear_bss im s =
    (let start = start_of_uninitialized_data_section im
     in s\<lparr>bytes := snd (memset (bytes s) start 0 (end_of_kernel im - start)),
          mm := (mm s)\<lparr>number_of_frames := 0, ptr_free_mem := 0,
            free_frame_list := (free_frame_list (mm s))\<lparr>lh_first := None\<rparr>\<rparr>,
          con := (con s)\<lparr>serial_exists := False, addr_6845 := 0, crt_buf := 0, crt_pos := 0, shift := 0,
            cons_buf := (\<lambda>_. 0), rpos := 0, wpos := 0\<rparr>,
          env_free_list := (env_free_list s)\<lparr>lh_first := None\<rparr>, curenv := None,
          ptr_page_directory := 0, phys_page_directory := 0, frames_info := 0, envs_base := 0\<rparr>)"

primrec cprintf_texts :: "string list \<Rightarrow> kernel \<Rightarrow> kernel res" where
  "cprintf_texts [] s = Inr s"
| "cprintf_texts (fmt # fmts) s = bind_res (cprintf fmt [] s) (cprintf_texts fmts)"

definition print_welcome_message :: "kernel \<Rightarrow> kernel res" where
  "print_welcome_message = cprintf_texts
    [newline @ newline @ newline,
     ''FOSv2'' @ newline,
     ''A JOS-based educational operating system,'' @ newline,
     ''created at FCIS - ASU and maintained on GitHub:'' @ newline,
     ''https://github.com/YoussefRaafatNasry/fos-v2'' @ newline,
     newline @ newline @ newline]"

text \<open>\<^verbatim>\<open>detect_memory\<close> with the global variable it sets and what it prints.\<close>

definition detect_and_print_memory :: "kernel \<Rightarrow> kernel res" where
  "detect_and_print_memory s =
    (let ((size_of_base_mem, size_of_extended_mem, maxpa, n), c) = detect_memory (con s);
         s = s\<lparr>con := c, mm := (mm s)\<lparr>number_of_frames := n\<rparr>\<rparr>
     in bind_res (cprintf (''[Physical Memory] %dK'' @ newline) [maxpa div 1024] s) (\<lambda>s.
        bind_res (cprintf (''[Base] %dK'' @ newline) [size_of_base_mem div 1024] s) (\<lambda>s.
        cprintf (''[Extended] %dK'' @ newline) [size_of_extended_mem div 1024] s)))"

definition start_kernel :: "boot_image \<Rightarrow> kernel \<times> trap_tables \<Rightarrow> (kernel \<times> trap_tables) res" where
  "start_kernel bi st =
    (let (s, tt) = st; im = kernel_image bi;
         s = clear_bss im s;
         s = s\<lparr>con := console_initialize (con s)\<rparr>
     in bind_res (print_welcome_message s) (\<lambda>s.
        bind_res (detect_and_print_memory s) (\<lambda>s.
        bind_res (initialize_kernel_VM (end_of_kernel im) (ptr_stack_bottom bi) s) (\<lambda>s.
        bind_res (on_mm_unit (initialize_paging (mm s)) s) (\<lambda>s.
        bind_res (page_check s) (\<lambda>s.
        Inr (env_init s, idt_init (page_fault_entry bi) (syscall_entry bi) (taskstate_address bi) 104 tt)))))))"

partial_function (option) prompt_forever :: "image \<Rightarrow> kernel \<Rightarrow> unit outcome option" where
  "prompt_forever im s =
    (case cprintf_texts [newline @ newline @ newline @ newline @ newline, ''FOSv2 started successfully.'' @ newline,
        ''Type '' @ [CHR 0x27] @ ''help'' @ [CHR 0x27] @ '' to see commands...'' @ newline, newline @ newline] s of
       Inl e \<Rightarrow> Some (Stopped e)
     | Inr s \<Rightarrow> Option.bind (run_command_prompt im s) (\<lambda>r.
         case r of Returned u s \<Rightarrow> prompt_forever im s
         | Entered_user tf s \<Rightarrow> Some (Entered_user tf s)
         | Entered_prompt s \<Rightarrow> Some (Entered_prompt s)
         | Stopped e \<Rightarrow> Some (Stopped e)))"

definition FOS_initialize :: "boot_image \<Rightarrow> kernel \<times> trap_tables \<Rightarrow> unit outcome option" where
  "FOS_initialize bi st =
    (case start_kernel bi st of
       Inl e \<Rightarrow> Some (Stopped e)
     | Inr (s, tt) \<Rightarrow> prompt_forever (kernel_image bi) s)"

section \<open>Panic\<close>

partial_function (option) panic_loop :: "image \<Rightarrow> kernel \<Rightarrow> unit outcome option" where
  "panic_loop im s = Option.bind (run_command_prompt im s) (\<lambda>r.
     case r of Returned u s \<Rightarrow> panic_loop im s
     | Entered_user tf s \<Rightarrow> Some (Entered_user tf s)
     | Entered_prompt s \<Rightarrow> Some (Entered_prompt s)
     | Stopped e \<Rightarrow> Some (Stopped e))"

text \<open>\<open>panicked\<close>: \<^verbatim>\<open>panicstr\<close> is set, this is a panic within a panic.\<close>

definition kernel_warn :: "u32 \<Rightarrow> u32 \<Rightarrow> string \<Rightarrow> u32 list \<Rightarrow> kernel \<Rightarrow> kernel res" where
  "kernel_warn file line fmt args s =
    bind_res (cprintf ''kernel warning at %s:%d: '' [file, line] s) (\<lambda>s.
    bind_res (cprintf fmt args s) (\<lambda>s. cprintf newline [] s))"

definition kernel_panic :: "image \<Rightarrow> bool \<Rightarrow> u32 \<Rightarrow> u32 \<Rightarrow> string \<Rightarrow> u32 list \<Rightarrow> kernel \<Rightarrow> unit outcome option" where
  "kernel_panic im panicked file line fmt args s =
    (case (if panicked then Inr s
       else bind_res (cprintf ''kernel panic at %s:%d: '' [file, line] s) (\<lambda>s.
            bind_res (cprintf fmt args s) (\<lambda>s. cprintf newline [] s))) of
       Inl e \<Rightarrow> Some (Stopped e)
     | Inr s \<Rightarrow> panic_loop im s)"

section \<open>The kernel never returns\<close>

lemma panic_loop_unfold: "panic_loop im s = run_command_prompt im s"
  by (subst panic_loop.simps)
    (use run_command_prompt_no_return(1) [of im s] in \<open>auto split: option.splits outcome.splits bind_splits\<close>)

lemma prompt_forever_no_return:
  "prompt_forever im s \<noteq> Some (Returned () t)" "prompt_forever im s \<noteq> Some (Entered_user tf t)"
proof -
  have "r \<noteq> Returned () u" "r \<noteq> Entered_user tf u" if "run_command_prompt im s = Some r" for s r u
    using run_command_prompt_no_return [of im] that by auto
  then show "prompt_forever im s \<noteq> Some (Returned () t)" "prompt_forever im s \<noteq> Some (Entered_user tf t)"
    by (subst prompt_forever.simps, force split: sum.splits outcome.splits bind_splits)+
qed

lemma prompt_forever_unfold:
  "cprintf_texts [newline @ newline @ newline @ newline @ newline, ''FOSv2 started successfully.'' @ newline,
      ''Type '' @ [CHR 0x27] @ ''help'' @ [CHR 0x27] @ '' to see commands...'' @ newline, newline @ newline] s = Inr t \<Longrightarrow>
    prompt_forever im s = run_command_prompt im t"
  by (subst prompt_forever.simps)
    (use run_command_prompt_no_return(1) [of im t] in \<open>auto split: option.splits outcome.splits bind_splits\<close>)

text \<open>
  C28: control never leaves the kernel. \<^verbatim>\<open>FOS_initialize\<close> does not return to the boot loader, \<^verbatim>\<open>_panic\<close> does
  not return to the function that called it, and the loop of \<^verbatim>\<open>run_command_prompt\<close> is never left: each of the nineteen commands
  returns 0 if it returns, so the test for a negative result never succeeds, and the prompt after a panic is the same as the
  first one. Nor does any line that is typed start a program, because \<^verbatim>\<open>env_create\<close>, which \<^verbatim>\<open>run\<close> needs, panics whenever it finds
  the program and a free environment.
\<close>

theorem kernel_never_returns:
  "run_command_prompt im s \<noteq> Some (Returned () t) \<and> run_command_prompt im s \<noteq> Some (Entered_user tf t) \<and>
   FOS_initialize bi st \<noteq> Some (Returned () t) \<and> FOS_initialize bi st \<noteq> Some (Entered_user tf t) \<and>
   kernel_panic im panicked file line fmt args s \<noteq> Some (Returned () t) \<and>
   kernel_panic im panicked file line fmt args s \<noteq> Some (Entered_user tf t) \<and>
   kernel_panic im True file line fmt args s = run_command_prompt im s"
  using prompt_forever_no_return run_command_prompt_no_return [of im]
  by (auto simp: FOS_initialize_def kernel_panic_def panic_loop_unfold split: sum.splits)

section \<open>Printing does not read the clock chip\<close>

definition same_clock :: "console \<Rightarrow> console \<Rightarrow> bool" where
  "same_clock s t \<longleftrightarrow> script t = script s \<and> reads t 0x71 = reads s 0x71"

lemma same_clock_refl [simp]: "same_clock s s"
  by (simp add: same_clock_def)

lemma same_clock_trans: "same_clock s t \<Longrightarrow> same_clock t u \<Longrightarrow> same_clock s u"
  by (simp add: same_clock_def)

lemma same_clock_fold: "(\<And>x t. same_clock t (f x t)) \<Longrightarrow> same_clock s (fold f xs s)"
proof (induction xs arbitrary: s)
  case (Cons x xs)
  show ?case using same_clock_trans [OF Cons.prems Cons.IH [OF Cons.prems]] by simp
qed simp

lemma lpt_wait_clock: "same_clock s (lpt_wait i s)"
proof (induction i s rule: lpt_wait.induct)
  case (1 i s)
  let ?t = "snd (inb 0x379 s)"
  have d: "same_clock s ?t" "same_clock ?t (delay ?t)" by (simp_all add: inb_def delay_def same_clock_def)
  show ?case
  proof (cases "fst (inb 0x379 s) AND 0x80 = 0 \<and> i < 2800")
    case True
    then have "same_clock (delay ?t) (lpt_wait (i + 1) (delay ?t))" using 1 by (simp add: prod_eq_iff)
    then show ?thesis
      using True same_clock_trans [OF d(1) same_clock_trans [OF d(2)]]
      by (subst lpt_wait.simps) (simp add: case_prod_unfold Let_def)
  next
    case False
    then show ?thesis using d(1) by (subst lpt_wait.simps) (auto simp: case_prod_unfold Let_def)
  qed
qed

lemma lpt_putc_clock: "same_clock s (lpt_putc c s)"
  using lpt_wait_clock [of s 0] by (simp add: lpt_putc_def outb_def same_clock_def)

lemma put_cell_clock: "same_clock s (put_cell i v s)" "same_clock s (s\<lparr>crt_pos := p\<rparr>)" "same_clock s (move_cursor s)"
  by (simp_all add: put_cell_def write_cell_def move_cursor_def outb_def same_clock_def Let_def)

lemma scroll_clock: "same_clock s (scroll s)"
proof -
  have c: "same_clock t (scroll_copy t)" "same_clock t (scroll_blank t)" for t
    unfolding scroll_copy_def scroll_blank_def by (rule same_clock_fold, rule put_cell_clock)+
  show ?thesis
    using same_clock_trans [OF c(1) same_clock_trans [OF c(2) put_cell_clock(2)]] by (simp add: scroll_def Let_def)
qed

lemma cga_char_clock: "same_clock s (cga_char c s)"
  using same_clock_trans [OF put_cell_clock(2) put_cell_clock(1)] same_clock_trans [OF put_cell_clock(1) put_cell_clock(2)]
    same_clock_trans [OF put_cell_clock(2) put_cell_clock(2)] put_cell_clock(2) by (simp add: cga_char_def Let_def)

lemma funpow_clock: "(\<And>t. same_clock t (f t)) \<Longrightarrow> same_clock s ((f ^^ n) s)"
  by (induction n) (auto intro: same_clock_trans)

lemma cga_putc_clock: "same_clock s (cga_putc c s)"
proof (induction c s rule: cga_putc.induct)
  case (1 c s)
  let ?t = "if with_attribute c AND 0xFF = 0x09 then ((\<lambda>s. cga_putc 0x20 (lpt_putc 0x20 s)) ^^ 5) s
    else cga_char (with_attribute c) s"
  have "same_clock s ?t"
    using 1 lpt_putc_clock cga_char_clock by (auto intro!: funpow_clock intro: same_clock_trans)
  then have "same_clock s (move_cursor (scroll ?t))"
    using same_clock_trans [OF _ same_clock_trans [OF scroll_clock put_cell_clock(3)]] by blast
  then show ?case by (subst cga_putc.simps) simp
qed

lemma cputchar_clock: "same_clock s (cputchar c s)"
  unfolding cputchar_def cons_putc_def by (rule same_clock_trans [OF lpt_putc_clock cga_putc_clock])

lemma fold_cputchar_clock: "same_clock s (fold cputchar cs s)"
  by (rule same_clock_fold) (rule cputchar_clock)

lemma console_initialize_clock: "same_clock s (console_initialize s)"
proof -
  have 1: "same_clock s (serial_init (cga_init s))"
    by (simp add: serial_init_def cga_init_def same_clock_def inb_def outb_def write_cell_def Let_def)
  show ?thesis
    unfolding console_initialize_def Let_def
    by (split if_split) (blast intro: 1 same_clock_trans [OF 1 fold_cputchar_clock])
qed

lemma cprintf_clock:
  assumes "has_nul (bytes s)"
  obtains c where "cprintf fmt args s = Inr (s\<lparr>con := c\<rparr>)" "same_clock (con s) c"
  using cprintf_returns [OF assms, of fmt args] fold_cputchar_clock by blast

lemma cprintf_texts_clock:
  assumes "has_nul (bytes s)"
  shows "\<exists>c. cprintf_texts fmts s = Inr (s\<lparr>con := c\<rparr>) \<and> same_clock (con s) c"
  using assms
proof (induction fmts arbitrary: s)
  case Nil
  show ?case by (rule exI [of _ "con s"]) simp
next
  case (Cons fmt fmts)
  obtain c where c: "cprintf fmt [] s = Inr (s\<lparr>con := c\<rparr>)" "same_clock (con s) c"
    by (rule cprintf_clock [OF Cons.prems])
  with Cons.IH [of "s\<lparr>con := c\<rparr>"] Cons.prems show ?case by (auto intro: same_clock_trans)
qed

section \<open>From reset to the prompt\<close>

lemma detect_and_print_memory_ok:
  assumes "has_nul (bytes s)"
  defines "kb \<equiv> unat (script (con s) 0x71 (reads (con s) 0x71 + 2)) + 256 * unat (script (con s) 0x71 (reads (con s) 0x71 + 3))"
  obtains c where "detect_and_print_memory s =
    Inr (s\<lparr>mm := (mm s)\<lparr>number_of_frames := if kb < 4 then 0 else of_nat (256 + kb div 4)\<rparr>, con := c\<rparr>)"
proof -
  obtain b e m n c where d: "detect_memory (con s) = ((b, e, m, n), c)" by (metis prod_cases4 surj_pair)
  have n: "n = (if kb < 4 then 0 else of_nat (256 + kb div 4))"
    using detect_memory_count [of "con s"] by (simp add: d kb_def Let_def)
  let ?s = "\<lambda>c. s\<lparr>mm := (mm s)\<lparr>number_of_frames := n\<rparr>, con := c\<rparr>"
  have e: "s\<lparr>con := c, mm := (mm s)\<lparr>number_of_frames := n\<rparr>\<rparr> = ?s c" by simp
  have p: "\<exists>c'. cprintf fmt args (?s c) = Inr (?s c')" for fmt args c
  proof -
    have "has_nul (bytes (?s c))" using assms(1) by simp
    from cprintf_returns [OF this, of fmt args] obtain cs where
      "cprintf fmt args (?s c) = Inr ((?s c)\<lparr>con := fold cputchar cs (con (?s c))\<rparr>)" ..
    then show ?thesis by auto
  qed
  obtain c1 where 1: "cprintf (''[Physical Memory] %dK'' @ newline) [m div 1024] (?s c) = Inr (?s c1)" using p by blast
  obtain c2 where 2: "cprintf (''[Base] %dK'' @ newline) [b div 1024] (?s c1) = Inr (?s c2)" using p by blast
  obtain c3 where 3: "cprintf (''[Extended] %dK'' @ newline) [e div 1024] (?s c2) = Inr (?s c3)" using p by blast
  have "detect_and_print_memory s = Inr (?s c3)"
    by (simp only: detect_and_print_memory_def d prod.case Let_def e 1 2 3 bind_res_simps)
  then show thesis using that n by blast
qed

lemma env_init_keeps:
  "mm (env_init s) = mm s" "ptr_page_directory (env_init s) = ptr_page_directory s" "cr3 (env_init s) = cr3 s"
  "cr0 (env_init s) = cr0 s" "curenv (env_init s) = curenv s" "segment_regs (env_init s) = segment_regs s"
    "bytes (env_init s) = bytes s" "frames_info (env_init s) = frames_info s" "envs_base (env_init s) = envs_base s"
proof -
  have "mm (fold env_init_one es s) = mm s \<and> ptr_page_directory (fold env_init_one es s) = ptr_page_directory s \<and>
      cr3 (fold env_init_one es s) = cr3 s \<and> cr0 (fold env_init_one es s) = cr0 s \<and> curenv (fold env_init_one es s) = curenv s \<and>
      segment_regs (fold env_init_one es s) = segment_regs s \<and> bytes (fold env_init_one es s) = bytes s \<and>
      frames_info (fold env_init_one es s) = frames_info s \<and> envs_base (fold env_init_one es s) = envs_base s" for es
    by (induction es arbitrary: s) (simp_all add: env_init_one_def update_env_def Let_def)
  then show "mm (env_init s) = mm s" "ptr_page_directory (env_init s) = ptr_page_directory s" "cr3 (env_init s) = cr3 s"
    "cr0 (env_init s) = cr0 s" "curenv (env_init s) = curenv s" "segment_regs (env_init s) = segment_regs s"
    "bytes (env_init s) = bytes s" "frames_info (env_init s) = frames_info s" "envs_base (env_init s) = envs_base s"
    by (simp_all add: env_init_def)
qed

lemma clear_bss_ok:
  assumes "start_of_uninitialized_data_section im < end_of_kernel im"
    "unat (end_of_kernel im - start_of_uninitialized_data_section im) < 2 ^ 31"
  shows "has_nul (bytes (clear_bss im s))" "same_clock (con s) (con (clear_bss im s))"
    "ptr_free_mem (mm (clear_bss im s)) = 0" "dlist (env_free_list (clear_bss im s)) []" "curenv (clear_bss im s) = None"
proof -
  let ?b = "start_of_uninitialized_data_section im" and ?n = "end_of_kernel im - start_of_uninitialized_data_section im"
  have "0 < ?n" using assms(1) by (simp add: word_gt_0)
  moreover have "memset_loop (bytes s) ?b 0 ?n = (\<lambda>a. if a - ?b < ?n then 0 else bytes s a)"
    using assms(2) by (intro memset_loop_eq) simp
  ultimately have "snd (memset (bytes s) ?b 0 ?n) ?b = 0" by (simp add: memset_def)
  then show "has_nul (bytes (clear_bss im s))" by (auto simp: clear_bss_def has_nul_def Let_def)
qed (simp_all add: clear_bss_def same_clock_def dlist_def Let_def)

text \<open>The frames that hold the kernel's tables are neither base memory nor behind the end of the kernel.\<close>

lemma boot_tables_used:
  assumes "boot_inv F m" "256 \<le> unat F" "boot_tables F m" "i < 1024" "pde m F i \<noteq> 0" "PPN (pde m F i) \<noteq> F"
  shows "160 < unat (PPN (pde m F i))" "PPN (pde m F i) < number_of_frames m" "PPN (pde m F i) < 0x10000"
    "4096 * unat (PPN (pde m F i)) < unat (ptr_free_mem m) - 0xF0000000"
proof -
  have "F < PPN (pde m F i)" "unat (PPN (pde m F i)) < next_frame m"
    using assms(3-6) unfolding boot_tables_def by blast+
  moreover have "next_frame m < unat (number_of_frames m)" using assms(1) by (simp add: boot_inv_def)
  ultimately show "160 < unat (PPN (pde m F i))" "PPN (pde m F i) < number_of_frames m" "PPN (pde m F i) < 0x10000"
    "4096 * unat (PPN (pde m F i)) < unat (ptr_free_mem m) - 0xF0000000"
    using assms(2) boot_inv_frames(3) [OF assms(1)] unfolding next_frame_def by (simp_all add: word_less_nat_alt)
qed

lemma start_frames:
  assumes "boot_inv F m" "\<forall>i < 955. pde m F i = 0" "256 \<le> unat F" "boot_tables F m"
  obtains m' fs where "initialize_paging m = Inr m'" "vm_inv (\<lambda>f. unat (references m' f)) F fs m'" "\<forall>i < 955. pde m' F i = 0"
    "\<forall>f. 0 < f \<and> f < 160 \<longrightarrow> f \<in> set fs" "\<forall>f \<in> set fs. f < number_of_frames m \<and> (0 < f \<and> f < 160 \<or> F < f)"
    "number_of_frames m' = number_of_frames m" "kernel_tables (\<lambda>f. unat (references m' f)) F m'" "kmem m' = kmem m"
proof -
  note B = boot_inv_frames [OF assms(1)]
  let ?P = "unat (ptr_free_mem m) - 0xF0000000"
  have F: "unat F < next_frame m" "next_frame m < unat (number_of_frames m)" "0xF0000000 < unat (ptr_free_mem m)"
    using assms(1) by (simp_all add: boot_inv_def)
  then have P: "4096 * unat F < ?P" unfolding next_frame_def by linarith
  then have "0x100000 < ?P" using assms(3) by linarith
  then have "0xF0100000 \<le> ptr_free_mem m" "256 \<le> number_of_frames m"
    using F assms(3) by (simp_all add: word_le_nat_alt)
  from initialize_paging_list [OF this] obtain m' fs where init: "initialize_paging m = Inr m'" and fs: "dlist (free_frame_list m') fs"
    "\<forall>f. f \<in> set fs \<longleftrightarrow> f < number_of_frames m \<and> (0 < f \<and> f < 160 \<or> unat (ptr_free_mem m - KERNEL_BASE) \<le> 4096 * unat f)"
    "\<forall>f < number_of_frames m. references m' f = (if f \<in> set fs then 0 else 1)"
    "kmem m' = kmem m" "number_of_frames m' = number_of_frames m" by auto
  have K: "unat (ptr_free_mem m - KERNEL_BASE) = ?P" using F(3) by (simp add: unat_sub word_le_nat_alt)
  have above: "F < f" if "?P \<le> 4096 * unat f" for f using that P by (simp add: word_less_nat_alt)
  have "F \<notin> set fs"
  proof
    assume "F \<in> set fs"
    then have "F < 160 \<or> ?P \<le> 4096 * unat F" using fs(2) unfolding K by blast
    then show False using P assms(3) by (auto simp: word_less_nat_alt)
  qed
  then have r: "references m' F \<noteq> 0" using fs(3) B(2) by simp
  have p: "\<forall>i < 955. pde m' F i = 0" using assms(2) fs(4) by (simp add: pde_def word_at_def)
  have tables: "kernel_tables (\<lambda>f. unat (references m' f)) F m'"
    unfolding kernel_tables_def
  proof (intro allI impI)
    fix i assume i: "955 \<le> i \<and> i < 1024 \<and> pde m' F i AND PERM_PRESENT \<noteq> 0"
    have e: "pde m' F i = pde m F i" using fs(4) by (simp add: pde_def word_at_def)
    have z: "i < 1024" "pde m F i \<noteq> 0" using i e by auto
    show "PPN (pde m' F i) = F \<or> PPN (pde m' F i) < 0x10000 \<and> 0 < unat (references m' (PPN (pde m' F i)))"
    proof (cases "PPN (pde m F i) = F")
      case False
      note t = boot_tables_used [OF assms(1,3,4) z False]
      then have "PPN (pde m F i) \<notin> set fs" using fs(2) unfolding K by (auto simp: word_less_nat_alt)
      then show ?thesis using fs(3) t(2,3) by (simp add: e)
    qed (simp add: e)
  qed
  have "vm_inv (\<lambda>f. unat (references m' f)) F fs m'"
  proof (rule vm_inv_start [OF _ _ r fs(1) _ p])
    show "number_of_frames m' \<le> 0x10000" "F < number_of_frames m'" using B(2,5) fs(5) by simp_all
    show "\<forall>f \<in> set fs. f < number_of_frames m' \<and> references m' f = 0"
    proof
      fix f assume f: "f \<in> set fs"
      then have "f < number_of_frames m" using fs(2) by blast
      then show "f < number_of_frames m' \<and> references m' f = 0" using fs(3,5) f by simp
    qed
  qed
  then show thesis
  proof (rule that [OF init _ p])
    show "\<forall>f. 0 < f \<and> f < 160 \<longrightarrow> f \<in> set fs"
      using fs(2) F assms(3) by (auto simp: word_less_nat_alt)
    show "\<forall>f \<in> set fs. f < number_of_frames m \<and> (0 < f \<and> f < 160 \<or> F < f)" using fs(2) above K by auto
  qed (rule fs(5), rule tables, rule fs(4))
qed

lemma three_of_list:
  assumes "distinct fs" "{1, 2, 3} \<subseteq> set (fs :: u32 list)"
  obtains p0 p1 p2 gs where "fs = p0 # p1 # p2 # gs"
proof -
  have "card {1, 2, 3 :: u32} \<le> card (set fs)" by (rule card_mono) (use assms(2) in auto)
  then have "3 \<le> length fs" using distinct_card [OF assms(1)] by simp
  then show thesis using that by (cases fs rule: remdups_adj.cases; cases "tl (tl fs)") auto
qed

lemma bind_res_assoc: "bind_res (bind_res r f) g = bind_res r (\<lambda>x. bind_res (f x) g)"
  by (cases r) simp_all

text \<open>The first part of \<^verbatim>\<open>FOS_initialize\<close>, up to the size of memory.\<close>

lemma start_kernel_memory:
  fixes s :: kernel and bi :: boot_image
  defines "kb \<equiv> unat (script (con s) 0x71 (reads (con s) 0x71 + 2)) + 256 * unat (script (con s) 0x71 (reads (con s) 0x71 + 3))"
    and "im \<equiv> kernel_image bi"
  assumes "4 \<le> kb" "start_of_uninitialized_data_section im < end_of_kernel im"
      "unat (end_of_kernel im - start_of_uninitialized_data_section im) < 2 ^ 31"
  obtains u where "start_kernel bi (s, tt) =
      bind_res (initialize_kernel_VM (end_of_kernel im) (ptr_stack_bottom bi) u) (\<lambda>s.
      bind_res (bind_res (on_mm_unit (initialize_paging (mm s)) s) page_check) (\<lambda>s.
        Inr (env_init s, idt_init (page_fault_entry bi) (syscall_entry bi) (taskstate_address bi) 104 tt)))"
    "has_nul (bytes u)" "ptr_free_mem (mm u) = 0" "number_of_frames (mm u) = of_nat (256 + kb div 4)"
    "dlist (env_free_list u) []" "curenv u = None"
proof -
  define s0 where "s0 = clear_bss im s"
  note C = clear_bss_ok [OF assms(4,5), of s, folded s0_def]
  define s1 where "s1 = s0\<lparr>con := console_initialize (con s0)\<rparr>"
  have s1: "has_nul (bytes s1)" "same_clock (con s) (con s1)"
    using C(1) same_clock_trans [OF C(2) console_initialize_clock] by (simp_all add: s1_def)
  obtain c1 where c1: "print_welcome_message s1 = Inr (s1\<lparr>con := c1\<rparr>)" "same_clock (con s1) c1"
    unfolding print_welcome_message_def using cprintf_texts_clock [OF s1(1)] by blast
  define s2 where "s2 = s1\<lparr>con := c1\<rparr>"
  have clk: "same_clock (con s) (con s2)" using same_clock_trans [OF s1(2) c1(2)] by (simp add: s2_def)
  have kbs: "unat (script (con s2) 0x71 (reads (con s2) 0x71 + 2)) + 256 * unat (script (con s2) 0x71 (reads (con s2) 0x71 + 3)) = kb"
    using clk by (simp add: same_clock_def kb_def)
  have "has_nul (bytes s2)" using s1(1) by (simp add: s2_def)
  moreover have "\<not> kb < 4" using assms(3) by simp
  ultimately obtain c2 where
    c2: "detect_and_print_memory s2 = Inr (s2\<lparr>mm := (mm s2)\<lparr>number_of_frames := of_nat (256 + kb div 4)\<rparr>, con := c2\<rparr>)"
    using detect_and_print_memory_ok [of s2, unfolded kbs] by (simp only: if_False) blast
  define s3 where "s3 = s2\<lparr>mm := (mm s2)\<lparr>number_of_frames := of_nat (256 + kb div 4)\<rparr>, con := c2\<rparr>"
  show thesis
  proof (rule that)
    show "start_kernel bi (s, tt) =
      bind_res (initialize_kernel_VM (end_of_kernel im) (ptr_stack_bottom bi) s3) (\<lambda>s.
      bind_res (bind_res (on_mm_unit (initialize_paging (mm s)) s) page_check) (\<lambda>s.
        Inr (env_init s, idt_init (page_fault_entry bi) (syscall_entry bi) (taskstate_address bi) 104 tt)))"
      using c1(1) [folded s2_def] c2 [folded s3_def]
      by (simp add: start_kernel_def Let_def im_def [symmetric] s0_def [symmetric] s1_def [symmetric] bind_res_assoc)
  qed (use C in \<open>simp_all add: s3_def s2_def s1_def\<close>)
qed

text \<open>The last part: the frames go on the free list, and the self-test passes.\<close>

lemma start_frames_checked:
  assumes "boot_inv F (mm s)" "\<forall>i < 955. pde (mm s) F i = 0" "256 \<le> unat F" "ptr_page_directory s = kva F" "has_nul (bytes s)"
    and "boot_tables F (mm s)"
  obtains m c pin fs where "bind_res (on_mm_unit (initialize_paging (mm s)) s) page_check = Inr (s\<lparr>mm := m, con := c\<rparr>)"
    "vm_inv pin F fs m" "\<forall>va < USER_TOP. lookup F m va = None" "\<forall>f. 0 < f \<and> f < 160 \<longrightarrow> f \<in> set fs"
    "\<forall>f \<in> set fs. 0 < f \<and> f < 160 \<or> F < f" "number_of_frames m = number_of_frames (mm s)" "kernel_tables pin F m"
    "\<forall>g e stack. kernel_space F g e stack (mm s) \<longrightarrow> kernel_space F g e stack m"
proof -
  obtain m5 fs where m5: "initialize_paging (mm s) = Inr m5" and fs: "vm_inv (\<lambda>f. unat (references m5 f)) F fs m5" "\<forall>i < 955. pde m5 F i = 0"
    "\<forall>f. 0 < f \<and> f < 160 \<longrightarrow> f \<in> set fs"
    "\<forall>f \<in> set fs. f < number_of_frames (mm s) \<and> (0 < f \<and> f < 160 \<or> F < f)"
    "number_of_frames m5 = number_of_frames (mm s)" "kernel_tables (\<lambda>f. unat (references m5 f)) F m5"
    "kmem m5 = kmem (mm s)" by (rule start_frames [OF assms(1-3,6)])
  obtain p0 p1 p2 gs where p: "fs = p0 # p1 # p2 # gs"
    by (rule three_of_list [OF ll.holds_distinct [OF vm_inv_frames(4) [OF fs(1)]]]) (use fs(3) in auto)
  let ?s5 = "s\<lparr>mm := m5\<rparr>" and ?gs = "p2 # p1 # p0 # gs"
  have s5: "vm_inv (\<lambda>f. unat (references m5 f)) F (p0 # p1 # p2 # gs) (mm ?s5)" "pde (mm ?s5) F 0 = 0" "pde (mm ?s5) F 1 = 0"
    "ptr_page_directory ?s5 = kva F" "has_nul (bytes ?s5)"
    using fs(1,2) p assms(4,5) by simp_all
  from page_check_ok [OF s5] obtain m6 c6 where m6: "page_check ?s5 = Inr (?s5\<lparr>mm := m6, con := c6\<rparr>)"
    "vm_inv (\<lambda>f. unat (references m5 f)) F ?gs m6" "\<forall>va < USER_TOP. lookup F m6 va = lookup F m5 va"
    "number_of_frames m6 = number_of_frames m5" "kernel_kept (\<lambda>f. unat (references m5 f)) F m5 m6"
    by auto
  have set: "set ?gs = set fs" using p by auto
  have lk: "\<forall>va < USER_TOP. lookup F m6 va = None"
    using m6(3) fs(2) by (simp add: lookup_def pte_def PDX_user)
  have ck: "bind_res (on_mm_unit (initialize_paging (mm s)) s) page_check = Inr (s\<lparr>mm := m6, con := c6\<rparr>)"
    using m5 m6(1) by (simp add: on_mm_unit_def)
  show thesis
  proof (rule that [OF ck m6(2) lk])
    show "\<forall>f. 0 < f \<and> f < 160 \<longrightarrow> f \<in> set ?gs" unfolding set by (rule fs(3))
    show "\<forall>f \<in> set ?gs. 0 < f \<and> f < 160 \<or> F < f" unfolding set using fs(4) by blast
    show "number_of_frames m6 = number_of_frames (mm s)" using m6(4) fs(5) by simp
    show "kernel_tables (\<lambda>f. unat (references m5 f)) F m6" by (rule kernel_tables_kept [OF fs(1) m6(5) fs(6)])
    show "\<forall>g e stack. kernel_space F g e stack (mm s) \<longrightarrow> kernel_space F g e stack m6"
      using kernel_space_kept [OF fs(1) m6(5) fs(6)] kernel_space_cong [OF fs(7,5)] by simp
  qed
qed

lemma kernel_fits:
  fixes eok :: u32
  assumes "kb < 65536" "0xF0100000 \<le> eok"
    and "(unat eok - 0xF0000000 + 4095) div 4096 + ((256 + kb div 4) * 12 + 4095) div 4096 + 93 < 256 + kb div 4"
  shows "0xF0000000 < unat eok" "unat (of_nat (256 + kb div 4) :: u32) \<le> 0x10000"
    "(unat eok - 0xF0000000 + 4095) div 4096 + page_count (of_nat (256 + kb div 4) * 12) + 93 < unat (of_nat (256 + kb div 4) :: u32)"
proof -
  let ?nf = "256 + kb div 4"
  have small: "?nf * 12 < 2 ^ 32" using div_le_dividend [of kb 4] assms(1) by (simp del: div_le_dividend)
  have o: "unat (of_nat n :: u32) = n" if "n < 2 ^ 32" for n using that by (simp add: unat_of_nat)
  have nf: "unat (of_nat ?nf :: u32) = ?nf" by (rule o, rule le_less_trans [OF _ small]) simp
  have "(of_nat ?nf * 12 :: u32) = of_nat (?nf * 12)" by (simp only: of_nat_mult of_nat_numeral)
  then have nf12: "unat (of_nat ?nf * 12 :: u32) = ?nf * 12" by (simp only: o [OF small])
  show "0xF0000000 < unat eok" using assms(2) by (simp add: word_le_nat_alt)
  show "unat (of_nat ?nf :: u32) \<le> 0x10000" unfolding nf using assms(1) by simp
  show "(unat eok - 0xF0000000 + 4095) div 4096 + page_count (of_nat ?nf * 12) + 93 < unat (of_nat ?nf :: u32)"
    using assms(3) unfolding page_count_def nf nf12 .
qed

lemma FOS_initialize_reaches:
  fixes s :: kernel and bi :: boot_image
  defines "kb \<equiv> unat (script (con s) 0x71 (reads (con s) 0x71 + 2)) + 256 * unat (script (con s) 0x71 (reads (con s) 0x71 + 3))"
    and "im \<equiv> kernel_image bi"
  assumes "4 \<le> kb" "0xF0100000 \<le> end_of_kernel im"
    and "(unat (end_of_kernel im) - 0xF0000000 + 4095) div 4096 + ((256 + kb div 4) * 12 + 4095) div 4096 + 93 < 256 + kb div 4"
    and "start_of_uninitialized_data_section im < end_of_kernel im"
      "unat (end_of_kernel im - start_of_uninitialized_data_section im) < 2 ^ 31"
    and "KERNEL_BASE \<le> ptr_stack_bottom bi" "unat (ptr_stack_bottom bi) mod 4096 = 0"
  shows "\<exists>t F fs pin g e. FOS_initialize bi (s, tt) = prompt_forever im t \<and>
    start_kernel bi (s, tt) =
      Inr (t, idt_init (page_fault_entry bi) (syscall_entry bi) (taskstate_address bi) 104 tt) \<and>
    ptr_page_directory t = kva F \<and> cr3 t = push_bit 12 F \<and> cr0 t AND 0x80010001 = 0x80010001 \<and>
    segment_regs t = kernel_segments \<and> number_of_frames (mm t) = of_nat (256 + kb div 4) \<and> vm_inv pin F fs (mm t) \<and>
    kernel_tables pin F (mm t) \<and> frames_info t = kva g \<and> envs_base t = kva e \<and>
    kernel_space F g e (ptr_stack_bottom bi) (mm t) \<and>
    (\<forall>va < USER_TOP. lookup F (mm t) va = None) \<and>
    (\<forall>f. 0 < f \<and> f < 160 \<longrightarrow> f \<in> set fs) \<and>
    (\<forall>f \<in> set fs. 0 < f \<and> f < 160 \<or> unat (end_of_kernel im) - 0xF0000000 \<le> 4096 * unat f) \<and>
    env_inv (word_range 0 NENV) t \<and> curenv t = None \<and> has_nul (bytes t)"
proof -
  obtain u where u: "start_kernel bi (s, tt) =
      bind_res (initialize_kernel_VM (end_of_kernel im) (ptr_stack_bottom bi) u) (\<lambda>s.
      bind_res (bind_res (on_mm_unit (initialize_paging (mm s)) s) page_check) (\<lambda>s.
        Inr (env_init s, idt_init (page_fault_entry bi) (syscall_entry bi) (taskstate_address bi) 104 tt)))"
    "has_nul (bytes u)" "ptr_free_mem (mm u) = 0" "number_of_frames (mm u) = of_nat (256 + kb div 4)"
    "dlist (env_free_list u) []" "curenv u = None"
    using start_kernel_memory [of s bi, folded kb_def im_def, OF assms(3,6,7)] .
  have "kb < 65536" unfolding kb_def
    using unat_u8_less [of "script (con s) 0x71 (reads (con s) 0x71 + 2)"]
      unat_u8_less [of "script (con s) 0x71 (reads (con s) 0x71 + 3)"] by linarith
  note vm = kernel_fits [OF this assms(4,5), folded u(4)]
  obtain v F g e m b c where k: "initialize_kernel_VM (end_of_kernel im) (ptr_stack_bottom bi) u = Inr v"
    "ptr_page_directory v = kva F" "cr3 v = push_bit 12 F" "cr0 v AND 0x80010001 = 0x80010001"
    "\<forall>i < 955. pde (mm v) F i = 0" "boot_inv F (mm v)" "boot_tables F (mm v)" "unat F = (unat (end_of_kernel im) - 0xF0000000 + 4095) div 4096"
    "number_of_frames (mm v) = number_of_frames (mm u)"
    "v = u\<lparr>mm := m, con := b, ptr_page_directory := kva F, phys_page_directory := push_bit 12 F,
      frames_info := kva g, envs_base := kva e, cr0 := c, cr3 := push_bit 12 F, segment_regs := kernel_segments\<rparr>"
    and sp: "kernel_space F g e (ptr_stack_bottom bi) (mm v)"
    using initialize_kernel_VM_boots [OF u(3) vm(1,2,3) assms(8,9) u(2)] by blast
  have F: "256 \<le> unat F" using assms(4) unfolding k(8) by (simp add: word_le_nat_alt)
  have v: "has_nul (bytes v)" "dlist (env_free_list v) []" "curenv v = None" "segment_regs v = kernel_segments"
    using u(2,5,6) by (simp_all add: k(10))
  obtain m6 c6 pin fs where m6: "bind_res (on_mm_unit (initialize_paging (mm v)) v) page_check = Inr (v\<lparr>mm := m6, con := c6\<rparr>)"
    "vm_inv pin F fs m6" "\<forall>va < USER_TOP. lookup F m6 va = None" "\<forall>f. 0 < f \<and> f < 160 \<longrightarrow> f \<in> set fs"
    "\<forall>f \<in> set fs. 0 < f \<and> f < 160 \<or> F < f" "number_of_frames m6 = number_of_frames (mm v)"
    "kernel_tables pin F m6" "\<forall>g e stack. kernel_space F g e stack (mm v) \<longrightarrow> kernel_space F g e stack m6"
    by (rule start_frames_checked [OF k(6,5) F k(2) v(1) k(7)])
  define t where "t = env_init (v\<lparr>mm := m6, con := c6\<rparr>)"
  have run: "start_kernel bi (s, tt) =
      Inr (t, idt_init (page_fault_entry bi) (syscall_entry bi) (taskstate_address bi) 104 tt)"
    using u(1) k(1) m6(1) by (simp add: t_def)
  have "env_inv (word_range 0 NENV) t" unfolding t_def by (rule env_init_inv) (use v in simp_all)
  moreover have "\<forall>f \<in> set fs. 0 < f \<and> f < 160 \<or> unat (end_of_kernel im) - 0xF0000000 \<le> 4096 * unat f"
    using m6(5) k(8) by (auto simp: word_less_nat_alt)
  moreover have "FOS_initialize bi (s, tt) = prompt_forever im t" by (simp add: FOS_initialize_def run im_def)
  moreover have "ptr_page_directory t = kva F" "cr3 t = push_bit 12 F" "cr0 t AND 0x80010001 = 0x80010001"
    "curenv t = None" "segment_regs t = kernel_segments" "has_nul (bytes t)" and mm: "mm t = m6"
    using k(2-4) v(1,3,4) by (simp_all add: t_def env_init_keeps)
  moreover have "number_of_frames (mm t) = of_nat (256 + kb div 4)" using m6(6) k(9) u(4) mm by simp
  moreover have "frames_info t = kva g" "envs_base t = kva e" by (simp_all add: t_def env_init_keeps k(10))
  moreover have "kernel_space F g e (ptr_stack_bottom bi) (mm t)" unfolding mm using m6(8) sp by blast
  ultimately show ?thesis using run m6(2-4,7) [folded mm] by blast
qed

text \<open>
  C1: the kernel boots. Take a machine whose clock chip reports enough extended memory for the kernel image, the page tables,
  the frame table and the environments, with any devices, any garbage in memory and any display. Then \<^verbatim>\<open>FOS_initialize\<close> passes every
  assertion and panic on its way and enters the loop of the command prompt. There paging is on, with flat segments, in a directory whose user part is
  empty, the invariant of the address space holds, the kernel's own addresses (its stack, physical memory, the frame table and the environments) are mapped by tables in frames that count as used, every frame of base memory but frame 0 is free and no free frame lies in the
  I/O hole or below the end of the kernel, all 1024 environments are free, and the gates are set.
\<close>

theorem FOS_initialize_boots:
  fixes s :: kernel and bi :: boot_image
  defines "kb \<equiv> unat (script (con s) 0x71 (reads (con s) 0x71 + 2)) + 256 * unat (script (con s) 0x71 (reads (con s) 0x71 + 3))"
    and "im \<equiv> kernel_image bi"
  assumes "4 \<le> kb" "0xF0100000 \<le> end_of_kernel im"
    and "(unat (end_of_kernel im) - 0xF0000000 + 4095) div 4096 + ((256 + kb div 4) * 12 + 4095) div 4096 + 93 < 256 + kb div 4"
    and "start_of_uninitialized_data_section im < end_of_kernel im"
      "unat (end_of_kernel im - start_of_uninitialized_data_section im) < 2 ^ 31"
    and "KERNEL_BASE \<le> ptr_stack_bottom bi" "unat (ptr_stack_bottom bi) mod 4096 = 0"
  shows "\<exists>t F fs pin g e. FOS_initialize bi (s, tt) = prompt_forever im t \<and>
    start_kernel bi (s, tt) =
      Inr (t, idt_init (page_fault_entry bi) (syscall_entry bi) (taskstate_address bi) 104 tt) \<and>
    ptr_page_directory t = kva F \<and> cr3 t = push_bit 12 F \<and> cr0 t AND 0x80010001 = 0x80010001 \<and>
    segment_regs t = kernel_segments \<and> number_of_frames (mm t) = of_nat (256 + kb div 4) \<and> vm_inv pin F fs (mm t) \<and>
    kernel_tables pin F (mm t) \<and> frames_info t = kva g \<and> envs_base t = kva e \<and>
    kernel_space F g e (ptr_stack_bottom bi) (mm t) \<and>
    (\<forall>va < USER_TOP. lookup F (mm t) va = None) \<and>
    (\<forall>f. 0 < f \<and> f < 160 \<longrightarrow> f \<in> set fs) \<and>
    (\<forall>f \<in> set fs. 0 < f \<and> f < 160 \<or> unat (end_of_kernel im) - 0xF0000000 \<le> 4096 * unat f) \<and>
    env_inv (word_range 0 NENV) t \<and> curenv t = None \<and> has_nul (bytes t)"
  by (rule FOS_initialize_reaches [OF assms(3-9) [unfolded kb_def im_def], folded kb_def im_def])

text \<open>A machine whose clock chip reports 15420 kilobytes of extended memory, with a kernel that ends at 1.5 MB.\<close>

definition boot_image_example :: boot_image where
  "boot_image_example = \<lparr>kernel_image = example_image, ptr_stack_bottom = 0xF0110000, page_fault_entry = 0xF0100100,
     syscall_entry = 0xF0100120, taskstate_address = 0xF0170000\<rparr>"

definition reset_example :: kernel where
  "reset_example = kernel_example\<lparr>con := console_example\<lparr>script := (\<lambda>p n. if p = 0x71 then 0x3C else 0x80)\<rparr>\<rparr>"

theorem FOS_initialize_boots_witness:
  "\<forall>tt. \<exists>t F fs pin. FOS_initialize boot_image_example (reset_example, tt) = prompt_forever example_image t \<and>
    number_of_frames (mm t) = 4111 \<and> cr3 t = push_bit 12 F \<and> vm_inv pin F fs (mm t) \<and> 159 \<in> set fs"
proof
  fix tt
  have kb: "unat (script (con reset_example) 0x71 (reads (con reset_example) 0x71 + 2)) +
      256 * unat (script (con reset_example) 0x71 (reads (con reset_example) 0x71 + 3)) = 15420"
    by (simp add: reset_example_def)
  have im: "kernel_image boot_image_example = example_image" by (simp add: boot_image_example_def)
  have h: "end_of_kernel example_image = 0xF0180000" "start_of_uninitialized_data_section example_image = 0xF0120000"
    "ptr_stack_bottom boot_image_example = 0xF0110000"
    by (simp_all add: boot_image_example_def example_image_def)
  have room: "(4 :: nat) \<le> 15420" "(0xF0100000 :: u32) \<le> 0xF0180000"
    "(unat (0xF0180000 :: u32) - 0xF0000000 + 4095) div 4096 + ((256 + 15420 div 4) * 12 + 4095) div 4096 + 93 < 256 + 15420 div 4"
    "(0xF0120000 :: u32) < 0xF0180000" "unat (0xF0180000 - 0xF0120000 :: u32) < 2 ^ 31"
    "KERNEL_BASE \<le> 0xF0110000" "unat (0xF0110000 :: u32) mod 4096 = 0"
    by simp_all
  obtain t F fs pin where "FOS_initialize boot_image_example (reset_example, tt) = prompt_forever example_image t"
    "cr3 t = push_bit 12 F" "number_of_frames (mm t) = of_nat (256 + 15420 div 4)" "vm_inv pin F fs (mm t)"
    "\<forall>f. 0 < f \<and> f < 160 \<longrightarrow> f \<in> set fs"
    using FOS_initialize_boots [of reset_example boot_image_example tt, unfolded kb im h, OF room] by blast
  then show "\<exists>t F fs pin. FOS_initialize boot_image_example (reset_example, tt) = prompt_forever example_image t \<and>
    number_of_frames (mm t) = 4111 \<and> cr3 t = push_bit 12 F \<and> vm_inv pin F fs (mm t) \<and> 159 \<in> set fs"
    by (intro exI [of _ t] exI [of _ F] exI [of _ fs] exI [of _ pin]) simp
qed

end
