(* ===== verification/FOS_Session.thy ===== *)
theory FOS_Session
  imports FOS_Init
begin

text \<open>
  A session at the prompt as a transition system: one step is one turn of \<^verbatim>\<open>run_command_prompt\<close>, a line that is read
  and executed. The invariant of the running kernel holds after any number of steps.
\<close>

section \<open>What a command changes\<close>

lemma cprintf_changes: "cprintf fmt args s = Inr t \<Longrightarrow> \<exists>c. t = s\<lparr>con := c\<rparr>"
  by (auto simp: cprintf_def bind_res_def split: sum.splits prod.splits)

definition talks :: "kernel \<Rightarrow> kernel \<Rightarrow> bool" where
  "talks s t \<longleftrightarrow> (\<exists>b c. t = s\<lparr>bytes := b, con := c\<rparr>)"

lemma talksI [intro]: "talks s s" "talks s (s\<lparr>bytes := b\<rparr>)" "talks s (s\<lparr>con := c\<rparr>)"
proof -
  have "s = s\<lparr>bytes := bytes s, con := con s\<rparr>" "s\<lparr>bytes := b\<rparr> = s\<lparr>bytes := b, con := con s\<rparr>"
    "s\<lparr>con := c\<rparr> = s\<lparr>bytes := bytes s, con := c\<rparr>" by simp_all
  then show "talks s s" "talks s (s\<lparr>bytes := b\<rparr>)" "talks s (s\<lparr>con := c\<rparr>)" unfolding talks_def by metis+
qed

lemma talks_trans: "talks s t \<Longrightarrow> talks t u \<Longrightarrow> talks s u"
  unfolding talks_def by (elim exE) (simp, blast)

lemma cprintf_talks: "cprintf fmt args s = Inr t \<Longrightarrow> talks s t"
  using cprintf_changes by blast

lemma bind_res_Inr: "bind_res r f = Inr t \<longleftrightarrow> (\<exists>x. r = Inr x \<and> f x = Inr t)"
  by (cases r) auto

lemma return_0_Inr: "return_0 q = Returned r t \<Longrightarrow> q = Inr t"
  by (cases q) auto

lemma for_each_talks:
  assumes "\<And>x s t. f x s = Inr t \<Longrightarrow> talks s t"
  shows "for_each f xs s = Inr t \<Longrightarrow> talks s t"
proof (induction xs arbitrary: s)
  case (Cons x xs)
  then obtain u where "f x s = Inr u" "for_each f xs u = Inr t" by (auto simp: bind_res_Inr)
  then show ?case using assms Cons.IH talks_trans by blast
qed auto

lemma cprintf_each_talks: "for_each (\<lambda>(x, y). cprintf (g x y) (h x y)) xs s = Inr t \<Longrightarrow> talks s t"
  by (rule for_each_talks) (auto dest: cprintf_talks)

text \<open>All commands but \<^verbatim>\<open>ap\<close> and \<^verbatim>\<open>fp\<close> change at most strings and the console.\<close>

definition changes_little :: "command \<Rightarrow> bool" where
  "changes_little f \<longleftrightarrow> (\<forall>argc argv s r t. f argc argv s = Returned r t \<longrightarrow> talks s t)"

lemma get_user_program_info_talks: "get_user_program_info n s = Inr (i, t) \<Longrightarrow> talks s t"
  by (auto simp: get_user_program_info_def bind_res_Inr split: if_splits dest: cprintf_talks)

lemma bind_talks:
  "bind_res r f = Inr t \<Longrightarrow> (\<And>u. r = Inr u \<Longrightarrow> talks s u) \<Longrightarrow> (\<And>u. f u = Inr t \<Longrightarrow> talks u t) \<Longrightarrow> talks s t"
  using talks_trans by (auto simp: bind_res_Inr)

lemma little_printing:
  "changes_little (command_help im)" "changes_little (command_kernel_info im)" "changes_little command_readmem" "changes_little command_meminfo"
proof -
  show "changes_little (command_help im)"
    unfolding changes_little_def command_help_def
    by (intro allI impI, drule return_0_Inr, erule bind_talks, erule cprintf_each_talks, erule cprintf_talks)
  show "changes_little (command_kernel_info im)"
    unfolding changes_little_def command_kernel_info_def Let_def
    by (intro allI impI, drule return_0_Inr, (erule bind_talks, erule cprintf_talks)+, erule cprintf_talks)
  show "changes_little command_readmem" "changes_little command_meminfo"
    unfolding changes_little_def command_readmem_def command_meminfo_def
    by (auto dest!: return_0_Inr cprintf_talks simp: bind_res_Inr)
qed

lemma little_others:
  "changes_little command_writemem" "changes_little not_implemented" "changes_little command_ft" "changes_little command_run" "changes_little command_kill"
proof -
  show "changes_little command_writemem" "changes_little not_implemented" "changes_little command_ft"
    unfolding changes_little_def command_writemem_def not_implemented_def command_ft_def
    by (auto dest!: return_0_Inr simp: bind_res_Inr split: if_splits)
  show "changes_little command_run"
    unfolding changes_little_def command_run_def using env_create_no_program
    by (auto simp: env_create_def bind_res_Inr dest: get_user_program_info_talks split: if_splits sum.splits option.splits prod.splits)
  show "changes_little command_kill"
    unfolding changes_little_def command_kill_def
    by (auto dest!: return_0_Inr simp: bind_res_Inr env_free_def dest: get_user_program_info_talks split: if_splits option.splits)
qed

lemma handlers_change_little: "f \<in> set (handlers im) \<Longrightarrow> f = command_ap im \<or> f = command_fp \<or> changes_little f"
  unfolding handlers_def command_kernel_base_info_def command_del_kernel_base_def command_share_page_def
    command_show_mapping_def command_set_permission_def command_share_range_def command_nr_def command_asp_def
    command_cfp_def list.set insert_iff empty_iff
  by (elim disjE FalseE) (simp_all only: little_printing little_others simp_thms)

section \<open>The invariant of the running kernel\<close>

text \<open>
  The page tables and frames are consistent, paging is on in the kernel's directory with the kernel's segments, the kernel's addresses
  translate as after the boot, every environment is free and none is running.
\<close>

definition kernel_inv :: "u32 \<Rightarrow> (u32 \<Rightarrow> nat) \<Rightarrow> u32 \<Rightarrow> kernel \<Rightarrow> bool" where
  "kernel_inv stack pin F s \<longleftrightarrow> (\<exists>fs. vm_inv pin F fs (mm s)) \<and> kernel_tables pin F (mm s) \<and>
     (\<exists>g e. frames_info s = kva g \<and> envs_base s = kva e \<and> kernel_space F g e stack (mm s)) \<and>
     ptr_page_directory s = kva F \<and> cr3 s = push_bit 12 F \<and>
     cr0 s AND 0x80010001 = 0x80010001 \<and> segment_regs s = kernel_segments \<and>
     env_inv (word_range 0 NENV) s \<and> curenv s = None"

lemma kernel_inv_talks: "kernel_inv stack pin F s \<Longrightarrow> talks s t \<Longrightarrow> kernel_inv stack pin F t"
  by (auto simp: talks_def kernel_inv_def env_inv_def) blast

lemma kernel_inv_mm:
  assumes "kernel_inv stack pin F s" "vm_inv pin F fs (mm s)" "vm_inv pin F gs m" "kernel_kept pin F (mm s) m"
  shows "kernel_inv stack pin F (s\<lparr>mm := m\<rparr>)"
  using assms kernel_tables_kept [OF assms(2,4)] kernel_space_kept [OF assms(2,4)] by (fastforce simp: kernel_inv_def env_inv_def)

lemma address_argument_value:
  "address_argument argv i s = Inr va \<longleftrightarrow> argv i \<noteq> 0 \<and> (\<exists>e. strtol (bytes s) (argv i) 16 = Some (va, e))"
  by (auto simp: address_argument_def bind_res_Inr loop_res_def split: option.splits)

lemma command_ap_keeps:
  assumes "kernel_inv stack pin F s" "lh_first (free_frame_list (mm s)) \<noteq> None"
    and "\<And>va e. strtol (bytes s) (argv 1) 16 = Some (va, e) \<Longrightarrow> va < USER_TOP" "command_ap im argc argv s = Returned r t"
  shows "kernel_inv stack pin F t"
proof -
  obtain fs where v: "vm_inv pin F fs (mm s)" and d: "ptr_page_directory s = kva F"
    using assms(1) by (auto simp: kernel_inv_def)
  then obtain f gs where fs: "fs = f # gs" using assms(2) vm_inv_frames(4) [OF v] by (cases fs) (auto simp: ll.first_holds)
  obtain va e where arg: "argv 1 \<noteq> 0" "strtol (bytes s) (argv 1) 16 = Some (va, e)"
    using return_0_Inr [OF assms(4) [unfolded command_ap_def]] by (auto simp: bind_res_Inr address_argument_value)
  note A = commands_ap [where argv = argv and s = s, OF arg assms(3) [OF arg(2)] d v [unfolded fs], of im argc]
  then obtain m hs where m: "command_ap im argc argv s = Returned 0 (s\<lparr>mm := m\<rparr>)" "vm_inv pin F hs m"
    by (auto split: if_splits)
  obtain s1 where ap: "command_ap im argc argv s = return_0 (bind_res (map_frame (kva F) f va (PERM_USER OR PERM_WRITEABLE) s1)
      (\<lambda>(r, m). Inr (s\<lparr>mm := m\<rparr>)))"
    and s1: "vm_inv pin F gs s1" "references s1 f = 0" "f < number_of_frames s1" "f \<notin> set gs" "kmem s1 = kmem (mm s)"
      "number_of_frames s1 = number_of_frames (mm s)"
    by (rule command_ap_run [where argv = argv and s = s, OF arg d v [unfolded fs], of im argc])
  obtain q m' where q: "map_frame (kva F) f va (PERM_USER OR PERM_WRITEABLE) s1 = Inr (q, m')" "s\<lparr>mm := m\<rparr> = s\<lparr>mm := m'\<rparr>"
    using return_0_Inr [OF ap [symmetric, unfolded m(1)]] by (auto simp: bind_res_Inr)
  have "mm (s\<lparr>mm := m\<rparr>) = mm (s\<lparr>mm := m'\<rparr>)" using q(2) by simp
  moreover have "PDX va < 955" using assms(3) [OF arg(2)] by (simp only: PDX_user)
  ultimately have "kernel_kept pin F s1 m"
    using map_frame_kept [OF s1(1) _ s1(3,4) _ _ q(1)] s1(2) by simp
  then have "kernel_kept pin F (mm s) m" by (rule kernel_kept_trans [OF kernel_kept_kmem [OF s1(5,6)]])
  then show ?thesis using assms(4) m kernel_inv_mm [OF assms(1) v m(2)] by simp
qed

lemma command_fp_keeps:
  assumes "kernel_inv stack pin F s" "\<And>va e. strtol (bytes s) (argv 1) 16 = Some (va, e) \<Longrightarrow> va < USER_TOP"
    and "command_fp argc argv s = Returned r t"
  shows "kernel_inv stack pin F t"
proof -
  obtain fs where v: "vm_inv pin F fs (mm s)" and d: "ptr_page_directory s = kva F"
    using assms(1) by (auto simp: kernel_inv_def)
  obtain va e m where arg: "strtol (bytes s) (argv 1) 16 = Some (va, e)" and m: "unmap_frame (kva F) va (mm s) = Inr m" "t = s\<lparr>mm := m\<rparr>"
    using return_0_Inr [OF assms(3) [unfolded command_fp_def]] by (auto simp: bind_res_Inr address_argument_value d)
  from va.unmap_law [OF v assms(2) [OF arg]] obtain u hs where "unmap_frame (kva F) va (mm s) = Inr u" "vm_inv pin F hs u" by blast
  moreover have "PDX va < 955" using assms(2) [OF arg] by (simp only: PDX_user)
  ultimately show ?thesis using m kernel_inv_mm [OF assms(1) v _ unmap_frame_kept [OF v _ m(1)]] by simp
qed

section \<open>Sessions\<close>

text \<open>
  \<^verbatim>\<open>ap\<close> and \<^verbatim>\<open>fp\<close> do not check their argument: with a kernel address they change the mappings the kernel runs in, and \<^verbatim>\<open>ap\<close>
  without a free frame maps whatever is on the stack. A careful line does neither.
\<close>

definition careful_line :: "image \<Rightarrow> kernel \<Rightarrow> bool" where
  "careful_line im s =
    (case strsplit (bytes s) (command_line im) (lit im WHITESPACE) (stack_arguments im) of
       None \<Rightarrow> True
     | Some (r, n, argv, m) \<Rightarrow> n = 0 \<or>
         (case find_command im m (argv 0) (commands im) of
            Some (Some f) \<Rightarrow>
              (f = command_ap im \<longrightarrow> lh_first (free_frame_list (mm s)) \<noteq> None) \<and>
              (f = command_ap im \<or> f = command_fp \<longrightarrow>
                (case strtol m (argv 1) 16 of None \<Rightarrow> True | Some (va, e) \<Rightarrow> va < USER_TOP))
          | _ \<Rightarrow> True))"

inductive prompt_step :: "image \<Rightarrow> kernel \<Rightarrow> kernel \<Rightarrow> bool" for im where
  turn: "readline (lit im ''FOS> '') (command_line im) s = Inr u \<Longrightarrow> careful_line im u \<Longrightarrow>
    execute_command im (command_line im) u = Returned r t \<Longrightarrow> prompt_step im s t"

lemma readline_talks: "readline p d s = Inr t \<Longrightarrow> talks s t"
proof -
  assume "readline p d s = Inr t"
  then obtain u m c where "(if p \<noteq> 0 then cprintf ''%s'' [p] s else Inr s) = Inr u" "t = u\<lparr>bytes := m, con := c\<rparr>"
    by (auto simp: readline_def bind_res_Inr)
  moreover from this(1) have "talks s u" by (auto split: if_splits dest: cprintf_talks)
  moreover have "talks u (u\<lparr>bytes := m, con := c\<rparr>)" by (auto simp: talks_def)
  ultimately show ?thesis using talks_trans by blast
qed

lemma execute_command_keeps:
  assumes "kernel_inv stack pin F s" "careful_line im s" "execute_command im (command_line im) s = Returned r t"
  shows "kernel_inv stack pin F t"
proof (cases rule: execute_command_cases [of im "command_line im" s])
  case 1
  then show ?thesis using assms(3) by simp
next
  case (2 q n argv m)
  then show ?thesis using assms(3) kernel_inv_talks [OF assms(1) talksI(2)] by simp
next
  case (3 q n argv m)
  have "talks (s\<lparr>bytes := m\<rparr>) t" by (rule cprintf_talks, rule return_0_Inr, rule assms(3) [unfolded 3(4)])
  then show ?thesis by (rule kernel_inv_talks [OF kernel_inv_talks [OF assms(1) talksI(2)]])
next
  case (4 q n argv m f)
  have s: "kernel_inv stack pin F (s\<lparr>bytes := m\<rparr>)" by (rule kernel_inv_talks [OF assms(1) talksI(2)])
  have run: "f n argv (s\<lparr>bytes := m\<rparr>) = Returned r t" using 4(5) assms(3) by simp
  have va: "va < USER_TOP" if "f = command_ap im \<or> f = command_fp" "strtol m (argv 1) 16 = Some (va, e)" for va e
    using assms(2) 4(1-3) that by (simp add: careful_line_def)
  have free: "f = command_ap im \<Longrightarrow> lh_first (free_frame_list (mm s)) \<noteq> None"
    using assms(2) 4(1-3) by (simp add: careful_line_def)
  consider "f = command_ap im" | "f = command_fp" | "changes_little f" using handlers_change_little [OF 4(4)] by blast
  then show ?thesis
  proof cases
    case 1
    from run show ?thesis unfolding 1 by (rule command_ap_keeps [OF s, rotated -1]) (use va free 1 in simp_all)
  next
    case 2
    from run show ?thesis unfolding 2 by (rule command_fp_keeps [OF s, rotated -1]) (use va 2 in simp_all)
  next
    case 3
    then show ?thesis using run kernel_inv_talks [OF s] unfolding changes_little_def by blast
  qed
qed

inductive_cases prompt_stepE: "prompt_step im s t"

lemma prompt_step_keeps: "prompt_step im s t \<Longrightarrow> kernel_inv stack pin F s \<Longrightarrow> kernel_inv stack pin F t"
  by (elim prompt_stepE) (blast intro: execute_command_keeps kernel_inv_talks readline_talks)

lemma prompt_step_continues:
  assumes "prompt_step im s t"
  shows "run_command_prompt im s = run_command_prompt im t"
  using assms
proof (rule prompt_stepE)
  fix u r assume u: "readline (lit im ''FOS> '') (command_line im) s = Inr u"
    and r: "execute_command im (command_line im) u = Returned r t"
  from execute_command_return_0(1) [OF r] show ?thesis using u r by (subst run_command_prompt.simps) simp
qed

lemma session_keeps:
  "(prompt_step im)\<^sup>*\<^sup>* s t \<Longrightarrow> kernel_inv stack pin F s \<Longrightarrow>
    kernel_inv stack pin F t \<and> run_command_prompt im s = run_command_prompt im t"
  by (induction rule: rtranclp_induct) (auto simp: prompt_step_continues dest: prompt_step_keeps)

lemma sessions_reach:
  fixes s :: kernel and bi :: boot_image
  defines "kb \<equiv> unat (script (con s) 0x71 (reads (con s) 0x71 + 2)) + 256 * unat (script (con s) 0x71 (reads (con s) 0x71 + 3))"
    and "im \<equiv> kernel_image bi"
  assumes "4 \<le> kb" "0xF0100000 \<le> end_of_kernel im"
    and "(unat (end_of_kernel im) - 0xF0000000 + 4095) div 4096 + ((256 + kb div 4) * 12 + 4095) div 4096 + 93 < 256 + kb div 4"
    and "start_of_uninitialized_data_section im < end_of_kernel im"
      "unat (end_of_kernel im - start_of_uninitialized_data_section im) < 2 ^ 31"
    and "KERNEL_BASE \<le> ptr_stack_bottom bi" "unat (ptr_stack_bottom bi) mod 4096 = 0"
  shows "\<exists>u pin F. FOS_initialize bi (s, tt) = run_command_prompt im u \<and>
    (\<forall>t. (prompt_step im)\<^sup>*\<^sup>* u t \<longrightarrow> kernel_inv (ptr_stack_bottom bi) pin F t \<and> FOS_initialize bi (s, tt) = run_command_prompt im t)"
proof -
  obtain t F fs pin g e where t: "FOS_initialize bi (s, tt) = prompt_forever im t" "ptr_page_directory t = kva F"
    "cr3 t = push_bit 12 F" "cr0 t AND 0x80010001 = 0x80010001" "segment_regs t = kernel_segments" "vm_inv pin F fs (mm t)"
    "kernel_tables pin F (mm t)" "frames_info t = kva g" "envs_base t = kva e" "kernel_space F g e (ptr_stack_bottom bi) (mm t)"
    "env_inv (word_range 0 NENV) t" "curenv t = None" "has_nul (bytes t)"
    using FOS_initialize_reaches [where s = s and bi = bi and tt = tt, folded kb_def im_def, OF assms(3-9)] by blast
  then have inv: "kernel_inv (ptr_stack_bottom bi) pin F t" by (auto simp: kernel_inv_def)
  obtain c where u: "cprintf_texts [newline @ newline @ newline @ newline @ newline, ''FOSv2 started successfully.'' @ newline,
      ''Type '' @ [CHR 0x27] @ ''help'' @ [CHR 0x27] @ '' to see commands...'' @ newline, newline @ newline] t = Inr (t\<lparr>con := c\<rparr>)"
    using cprintf_texts_clock [OF t(13)] by blast
  have "FOS_initialize bi (s, tt) = run_command_prompt im (t\<lparr>con := c\<rparr>)"
    unfolding t(1) by (rule prompt_forever_unfold [OF u])
  moreover have "kernel_inv (ptr_stack_bottom bi) pin F (t\<lparr>con := c\<rparr>)" by (rule kernel_inv_talks [OF inv talksI(3)])
  ultimately show ?thesis using session_keeps by metis
qed


text \<open>A turn in which the operator presses return.\<close>

definition return_example :: console where
  "return_example = cons_put 0x0D (console_example\<lparr>script := (\<lambda>_ _. 0)\<rparr>)"

definition blank_image :: image where
  "blank_image = example_image\<lparr>lit := (\<lambda>_. 0)\<rparr>"

lemma return_example_ok: "type_ahead return_example" "pending return_example = [0x0D]"
proof -
  let ?s = "console_example\<lparr>script := (\<lambda>_ _. 0)\<rparr>"
  have "ring_ok ?s" "pending ?s = []"
    by (simp_all add: ring_ok_def pending_def ring_length_def console_example_def)
  with ring.put_all [of ?s "[0x0D]"]
  have p: "pending return_example = [0x0D]" and r: "ring_ok return_example"
    by (simp_all only: return_example_def) simp_all
  then show "pending return_example = [0x0D]" by (simp only:)
  have "crt_port return_example" "quiet return_example"
    by (simp_all add: return_example_def crt_port_def quiet_def console_example_def cons_put_def Let_def)
  then show "type_ahead return_example" using p r by (simp add: type_ahead_def)
qed

lemma blank_line_step:
  "\<exists>t. prompt_step blank_image (kernel_example\<lparr>con := return_example\<rparr>) t \<and> t \<noteq> kernel_example\<lparr>con := return_example\<rparr>"
proof -
  let ?s = "kernel_example\<lparr>con := return_example\<rparr>"
  have e: "edit_line [] (pending (con ?s)) = Some ([], [0x0D], [])" by (simp add: return_example_ok(2))
  have t: "type_ahead (con ?s)" by (simp add: return_example_ok(1))
  obtain m c where r: "readline 0 0x1000 ?s = Inr (?s\<lparr>bytes := m, con := c\<rparr>)" "m 0x1000 = 0" "pending c = []"
    using readline_edits [OF t e, of "0x1000"] by auto
  have b: "lit blank_image x = 0" "command_line blank_image = 0x1000" for x by (simp_all add: blank_image_def example_image_def)
  have sp: "strsplit m 0x1000 0 a = Some (1, 0, (a(0 := 0))(0 := 0), m)" for a
    by (simp add: strsplit_def split_loop.simps [of _ m] split_trim.simps [of _ m] r(2))
  have "prompt_step blank_image ?s (?s\<lparr>bytes := m, con := c\<rparr>)"
    by (rule turn [where r = 0 and u = "?s\<lparr>bytes := m, con := c\<rparr>"]) (simp_all add: b r(1) careful_line_def execute_command_def sp)
  moreover have "?s\<lparr>bytes := m, con := c\<rparr> \<noteq> ?s"
  proof
    assume "?s\<lparr>bytes := m, con := c\<rparr> = ?s"
    then have "con (?s\<lparr>bytes := m, con := c\<rparr>) = con ?s" by (rule arg_cong)
    then show False using r(3) return_example_ok(2) by simp
  qed
  ultimately show ?thesis by blast
qed


end
