(* ===== verification/FOS_User.thy ===== *)
theory FOS_User
  imports FOS_Trap FOS_Readline
begin

text \<open>
  User mode: the part of the user library that calls the kernel (\<^verbatim>\<open>lib/console.c\<close>, \<^verbatim>\<open>lib/printf.c\<close>, \<^verbatim>\<open>lib/readline.c\<close>,
  \<^verbatim>\<open>lib/exit.c\<close>, \<^verbatim>\<open>lib/libmain.c\<close>, \<^verbatim>\<open>lib/panic.c\<close>, \<^verbatim>\<open>lib/malloc.c\<close>) and the programs of \<^verbatim>\<open>user/\<close>. \<open>call\<close> is the system call
  of the program that runs: \<^verbatim>\<open>user_syscall\<close> with the program's registers, so every call goes through the trap. Addresses
  of literals and of variables on the user stack are parameters.
\<close>

section \<open>The console of a program\<close>

definition ignore :: "'a outcome \<Rightarrow> unit outcome" where
  "ignore r = and_then r (\<lambda>_. Returned ())"

lemma ignore_simps [simp]:
  "ignore (Returned x s) = Returned () s" "ignore (Stopped e) = Stopped e" "ignore (Entered_prompt s) = Entered_prompt s"
  "ignore (Entered_user tf s) = Entered_user tf s"
  by (simp_all add: ignore_def)

text \<open>\<open>slot\<close> is the local variable \<^verbatim>\<open>c\<close>.\<close>

definition user_cputchar :: "call \<Rightarrow> u32 \<Rightarrow> u32 \<Rightarrow> kernel \<Rightarrow> unit outcome" where
  "user_cputchar call slot ch s = ignore (lib_sys_cputs call slot 1 (s\<lparr>bytes := (bytes s)(slot := ucast ch)\<rparr>))"

definition user_getchar :: "call \<Rightarrow> kernel \<Rightarrow> u32 outcome" where
  "user_getchar call = lib_sys_cgetc call"

definition user_iscons :: "u32 \<Rightarrow> u32" where
  "user_iscons fdnum = 1"

text \<open>
  \<^verbatim>\<open>putch\<close> of \<^verbatim>\<open>lib/printf.c\<close> with its buffer in memory at \<open>b\<close>; \<open>u_out\<close> is the state after the calls so far.
\<close>

record ubuf =
  u_idx :: nat
  u_cnt :: u32
  u_out :: "unit outcome"

definition buffered_putch :: "call \<Rightarrow> u32 \<Rightarrow> ubuf putch" where
  "buffered_putch call b ch x =
    (let out = and_then (u_out x) (\<lambda>_ s. Returned () (s\<lparr>bytes := (bytes s)(b + of_nat (u_idx x) := ucast ch)\<rparr>));
         x = x\<lparr>u_idx := u_idx x + 1, u_out := out\<rparr>;
         x = (if u_idx x = 256 - 1
              then x\<lparr>u_out := and_then (u_out x) (\<lambda>_ s. ignore (lib_sys_cputs call b (of_nat (u_idx x)) s)), u_idx := 0\<rparr>
              else x)
     in x\<lparr>u_cnt := u_cnt x + 1\<rparr>)"

definition user_cprintf :: "call \<Rightarrow> u32 \<Rightarrow> string \<Rightarrow> u32 list \<Rightarrow> kernel \<Rightarrow> u32 outcome" where
  "user_cprintf call b fmt args s =
    (case vprintfmt (buffered_putch call b) (bytes s) (ascii fmt) (\<lambda>i. if i < length args then args ! i else 0)
        \<lparr>u_idx = 0, u_cnt = 0, u_out = Returned () s\<rparr> of
       None \<Rightarrow> Stopped Endless
     | Some x \<Rightarrow> and_then (u_out x) (\<lambda>_ s.
         and_then (lib_sys_cputs call b (of_nat (u_idx x)) s) (\<lambda>_. Returned (u_cnt x))))"

text \<open>
  \<^verbatim>\<open>readline\<close>, with the loop the kernel uses too. The state of the terminal is an outcome, since a call need
  not come back; then there is no next character.
\<close>

definition user_terminal :: "call \<Rightarrow> u32 \<Rightarrow> u32 \<Rightarrow> unit outcome terminal_ops" where
  "user_terminal call slot b =
    \<lparr>t_get = (\<lambda>r. case and_then r (\<lambda>_. user_getchar call) of Returned c s \<Rightarrow> Some (sint c, Returned () s) | _ \<Rightarrow> None),
     t_put = (\<lambda>c r. and_then r (\<lambda>_. user_cputchar call slot (word_of_int c))),
     t_err = (\<lambda>m c r. Some (and_then r (\<lambda>_ s.
       ignore (user_cprintf call b (''read error: %e'' @ [CHR 0x0A]) [word_of_int c] (s\<lparr>bytes := m\<rparr>)))))\<rparr>"

definition user_readline :: "call \<Rightarrow> u32 \<Rightarrow> u32 \<Rightarrow> u32 \<Rightarrow> u32 \<Rightarrow> kernel \<Rightarrow> unit outcome" where
  "user_readline call slot b prompt dst s =
    and_then (if prompt \<noteq> 0 then ignore (user_cprintf call b ''%s'' [prompt] s) else Returned () s) (\<lambda>_ s.
      case readline_loop (user_terminal call slot b) dst (user_iscons 0 \<noteq> 0) 0 (bytes s) (Returned () s) of
        None \<Rightarrow> Stopped Endless
      | Some (m, r) \<Rightarrow> and_then r (\<lambda>_ s.
          Returned () (s\<lparr>bytes := (\<lambda>a. if a - dst < 1024 then m a else bytes s a)\<rparr>)))"

section \<open>Start, end and panic\<close>

definition user_exit :: "call \<Rightarrow> kernel \<Rightarrow> unit outcome" where
  "user_exit call s = ignore (lib_sys_env_destroy call 0 s)"

definition user_sleep :: "call \<Rightarrow> kernel \<Rightarrow> unit outcome" where
  "user_sleep call s = ignore (lib_sys_env_sleep call s)"

text \<open>\<open>unknown\<close> is the literal \<^verbatim>\<open>binaryname\<close> points to before; \<open>main\<close> gets its value.\<close>

definition libmain :: "call \<Rightarrow> u32 \<Rightarrow> u32 \<Rightarrow> u32 \<Rightarrow> (u32 \<Rightarrow> kernel \<Rightarrow> unit outcome) \<Rightarrow> kernel \<Rightarrow> unit outcome" where
  "libmain call unknown argc argv main s =
    (let binaryname = (if sint argc > 0 then load32 (bytes s) argv else unknown)
     in and_then (main binaryname s) (\<lambda>_. user_sleep call))"

text \<open>\<open>int3\<close> raises the breakpoint exception; the loop ends only if the kernel does not come back from it.\<close>

partial_function (option) breakpoints :: "(kernel \<Rightarrow> unit outcome) \<Rightarrow> kernel \<Rightarrow> unit outcome option" where
  "breakpoints int3 s =
    (case int3 s of
       Returned u s \<Rightarrow> breakpoints int3 s
     | Entered_user tf s \<Rightarrow> breakpoints int3 s
     | Entered_prompt s \<Rightarrow> Some (Entered_prompt s)
     | Stopped e \<Rightarrow> Some (Stopped e))"

record user_image =
  u_call :: call
  u_int3 :: "kernel \<Rightarrow> unit outcome"
  u_slot :: u32
  u_buf :: u32
  u_binaryname :: u32
  u_argv0 :: u32

definition user_panic :: "user_image \<Rightarrow> u32 \<Rightarrow> u32 \<Rightarrow> string \<Rightarrow> u32 list \<Rightarrow> kernel \<Rightarrow> unit outcome" where
  "user_panic u file line fmt args s =
    (let print = (\<lambda>fmt args s. ignore (user_cprintf (u_call u) (u_buf u) fmt args s))
     in and_then (if u_argv0 u \<noteq> 0 then print ''%s: '' [u_argv0 u] s else Returned () s) (\<lambda>_ s.
        and_then (print ''user panic in %s at %s:%d: '' [u_binaryname u, file, line] s) (\<lambda>_ s.
        and_then (print fmt args s) (\<lambda>_ s.
        and_then (print [CHR 0x0A] [] s) (\<lambda>_ s.
        case breakpoints (u_int3 u) s of None \<Rightarrow> Stopped Endless | Some r \<Rightarrow> r)))))"

text \<open>\<^verbatim>\<open>malloc\<close> and \<^verbatim>\<open>freeHeap\<close> are not written yet; \<open>file\<close> is the literal of their panics.\<close>

definition malloc :: "user_image \<Rightarrow> u32 \<Rightarrow> u32 \<Rightarrow> kernel \<Rightarrow> u32 outcome" where
  "malloc u file n s = and_then (user_panic u file 43 ''malloc is not implemented yet'' [] s) (\<lambda>_. Returned 0)"

definition freeHeap :: "user_image \<Rightarrow> u32 \<Rightarrow> kernel \<Rightarrow> unit outcome" where
  "freeHeap u file s = user_panic u file 106 ''freeHeap is not implemented yet'' [] s"

section \<open>The programs\<close>

definition print :: "user_image \<Rightarrow> string \<Rightarrow> u32 list \<Rightarrow> kernel \<Rightarrow> unit outcome" where
  "print u fmt args s = ignore (user_cprintf (u_call u) (u_buf u) fmt args s)"

definition fos_helloWorld :: "user_image \<Rightarrow> kernel \<Rightarrow> unit outcome" where
  "fos_helloWorld u s = print u (''HELLO WORLD , FOS IS SAYING HI :D:D:D'' @ [CHR 0x0A]) [] s"

text \<open>\<open>one\<close> and \<open>two\<close> are the literals \<^verbatim>\<open>"1"\<close> and \<^verbatim>\<open>"2"\<close>; \<^verbatim>\<open>strtol\<close> of a literal or a line.\<close>

definition number :: "u32 \<Rightarrow> kernel \<Rightarrow> u32 outcome" where
  "number p s = (case strtol (bytes s) p 10 of None \<Rightarrow> Stopped Endless | Some (v, e) \<Rightarrow> Returned v s)"

definition fos_add :: "user_image \<Rightarrow> u32 \<Rightarrow> u32 \<Rightarrow> kernel \<Rightarrow> unit outcome" where
  "fos_add u one two s =
    and_then (number one s) (\<lambda>i1 s.
    and_then (number two s) (\<lambda>i2 s.
    print u (''number 1 + number 2 = %d'' @ [CHR 0x0A]) [i1 + i2] s))"

definition fos_input :: "user_image \<Rightarrow> u32 \<Rightarrow> u32 \<Rightarrow> u32 \<Rightarrow> u32 \<Rightarrow> kernel \<Rightarrow> unit outcome" where
  "fos_input u prompt1 prompt2 buff1 buff2 s =
    and_then (user_readline (u_call u) (u_slot u) (u_buf u) prompt1 buff1 s) (\<lambda>_ s.
    and_then (number buff1 s) (\<lambda>i1 s.
    and_then (user_readline (u_call u) (u_slot u) (u_buf u) prompt2 buff2 s) (\<lambda>_ s.
    and_then (number buff2 s) (\<lambda>i2 s.
    print u (''number 1 + number 2 = %d'' @ [CHR 0x0A]) [i1 + i2] s))))"

text \<open>A loop over a list of values, each run of the body on the state the one before left.\<close>

primrec each :: "('a \<Rightarrow> kernel \<Rightarrow> unit outcome) \<Rightarrow> 'a list \<Rightarrow> kernel \<Rightarrow> unit outcome" where
  "each f [] s = Returned () s"
| "each f (x # xs) s = and_then (f x s) (\<lambda>_. each f xs)"

definition game :: "user_image \<Rightarrow> kernel \<Rightarrow> unit outcome" where
  "game u = each (\<lambda>i s.
     and_then (each (\<lambda>c. print u ''%c'' [i]) [0 ..< 10] s) (\<lambda>_.
       each (\<lambda>c. print u [CHR 0x08] []) [0 ..< 10])) (word_range 28 128)"

definition store32 :: "u32 \<Rightarrow> u32 \<Rightarrow> kernel \<Rightarrow> kernel" where
  "store32 a v s = s\<lparr>bytes := (bytes s)(a := ucast v, a + 1 := ucast (drop_bit 8 v), a + 2 := ucast (drop_bit 16 v),
     a + 3 := ucast (drop_bit 24 v))\<rparr>"

definition fill_arrays :: "u32 \<Rightarrow> u32 \<Rightarrow> u32 \<Rightarrow> u32 \<Rightarrow> kernel \<Rightarrow> unit outcome" where
  "fill_arrays x y z i s =
    (let s = store32 (x + 4 * i) i s;
         s = store32 (y + 4 * i) 10 s
     in Returned () (store32 (z + 4 * i) (load32 (bytes s) (x + 4 * i) * load32 (bytes s) (y + 4 * i)) s))"

definition fos_alloc :: "user_image \<Rightarrow> u32 \<Rightarrow> kernel \<Rightarrow> unit outcome" where
  "fos_alloc u file s =
    (let at = (\<lambda>s p i. load32 (bytes s) (p + 4 * i)); is = word_range 0 10
     in and_then (malloc u file 40 s) (\<lambda>x s.
        and_then (malloc u file 40 s) (\<lambda>y s.
        and_then (malloc u file 40 s) (\<lambda>z s.
        and_then (each (fill_arrays x y z) is s) (\<lambda>_ s.
        and_then (each (\<lambda>i s. print u (''%d * %d = %d'' @ [CHR 0x0A]) [at s x i, at s y i, at s z i] s) is s) (\<lambda>_ s.
        and_then (freeHeap u file s) (\<lambda>_ s.
        and_then (print u (''the heap is freed successfully'' @ [CHR 0x0A]) [] s) (\<lambda>_ s.
        and_then (malloc u file 40 s) (\<lambda>z s.
          each (\<lambda>i s.
            and_then (print u (''x[i] = %d'' @ [CHR 0x09]) [at s x i] s) (\<lambda>_ s.
            and_then (print u (''y[i] = %d'' @ [CHR 0x09]) [at s y i] s) (\<lambda>_ s.
            print u (''z[i] = %d'' @ [CHR 0x0A]) [at s z i] s))) is s)))))))))"

section \<open>What the kernel prints for a program\<close>

text \<open>The first \<open>k\<close> bytes at \<open>p\<close>, up to a zero byte.\<close>

definition counted :: "bmem \<Rightarrow> u32 \<Rightarrow> nat \<Rightarrow> u8 list" where
  "counted m p k = takeWhile (\<lambda>c. c \<noteq> 0) (map (\<lambda>i. m (p + of_nat i)) [0 ..< k])"

lemma counted_0 [simp]: "counted m p 0 = []"
  by (simp add: counted_def)

lemma counted_Suc: "counted m p (Suc k) = (if m p = 0 then [] else m p # counted m (p + 1) k)"
proof -
  have "map (\<lambda>i. m (p + of_nat i)) [0 ..< Suc k] = m p # map (\<lambda>i. m (p + 1 + of_nat i)) [0 ..< k]"
    by (subst upt_conv_Cons) (simp_all add: map_Suc_upt [symmetric] o_def add.assoc del: map_Suc_upt upt_Suc)
  then show ?thesis by (simp add: counted_def del: upt_Suc)
qed

lemma counted_text:
  "(\<forall>i < length bs. m (p + of_nat i) = bs ! i) \<Longrightarrow> 0 \<notin> set bs \<Longrightarrow> counted m p (length bs) = bs"
proof (induction bs arbitrary: p)
  case (Cons c bs)
  have "\<forall>i < length bs. m (p + 1 + of_nat i) = bs ! i" using Cons.prems(1) by (auto simp: add.assoc dest: spec [of _ "Suc _"])
  moreover have "m p = c" using Cons.prems(1) by (auto dest: spec [of _ 0])
  ultimately show ?case using Cons by (simp add: counted_Suc)
qed simp

lemma put_string_counted:
  "put_string emit m p (int k) False w ds = Some (w - int (length (counted m p k)), ds @ map scast (counted m p k))"
proof (induction k arbitrary: p w ds)
  case 0
  then show ?case by (subst put_string.simps) simp
next
  case (Suc k)
  show ?case
    by (subst put_string.simps) (simp add: counted_Suc Suc emit_def algebra_simps)
qed

lemma rendered_counted:
  assumes "p \<noteq> 0" "0 \<le> sint n"
  shows "rendered m (ascii ''%.*s'') (\<lambda>i. if i < length [n, p] then [n, p] ! i else 0) =
    Some (map scast (counted m p (nat (sint n))))"
proof -
  obtain k where k: "sint n = int k" using assms(2) nonneg_int_cases by blast
  let ?F = "ascii ''%.*s''" and ?ap = "\<lambda>i. if i < length [n, p] then [n, p] ! i else 0"
  have f: "fmt_at ?F 0 = 0x25" "fmt_at ?F 1 = 0x2E" "fmt_at ?F 2 = 0x2A" "fmt_at ?F 3 = 0x73" "fmt_at ?F 4 = 0"
    by (simp_all add: fmt_at_def ascii_def)
  let ?f = "\<lambda>w q. \<lparr>f_padc = 0x20, f_width = w, f_precision = q, f_lflag = 0, f_altflag = False\<rparr>"
  have "read_flags ?F ?ap 3 (?f 0 (sint n)) 1 = (0x73, 4, ?f 0 (sint n), 1)"
    by (subst read_flags.simps) (simp only: f is_digit_def Let_def, simp)
  then have "read_flags ?F ?ap 2 (?f 0 (-1)) 0 = (0x73, 4, ?f 0 (sint n), 1)"
    by (subst read_flags.simps) (simp only: f is_digit_def Let_def va_arg32_def process_precision_def, simp del: One_nat_def)
  then have r: "read_flags ?F ?ap 1 (?f (-1) (-1)) 0 = (0x73, 4, ?f 0 (sint n), 1)"
    by (subst read_flags.simps) (simp only: f is_digit_def Let_def, simp del: One_nat_def)
  have e: "escape nested emit m ?F ?ap 1 0 [] = Some (4, 2, map scast (counted m p (nat (sint n))))" for nested
    using assms by (simp only: escape_def r prod.case) (simp add: conversion_def va_arg32_def conv_string_def put_string_counted k pad.simps)
  have "vprintfmt_loop nested emit m ?F ?ap 4 2 cs = Some cs" for nested cs
    by (subst vprintfmt_loop.simps) (simp only: f, simp)
  then have "vprintfmt_loop nested emit m ?F ?ap 0 0 [] = Some (map scast (counted m p (nat (sint n))))" for nested
    using e [of nested] by (subst vprintfmt_loop.simps) (simp only: f, simp)
  then show ?thesis by (simp only: rendered_def vprintfmt_def)
qed

lemma sys_cputs_prints:
  assumes "p \<noteq> 0" "unat n < 2 ^ 31"
  shows "sys_cputs p n s = Inr (s\<lparr>con := fold cputchar (map scast (counted (bytes s) p (unat n))) (con s)\<rparr>)"
proof -
  have "0 \<le> sint n" using assms(2) by (simp add: sint_nonneg_iff)
  moreover have "sint n = int (unat n)"
  proof -
    have "uint n < 2147483648" using assms(2) by (subst (asm) of_nat_less_iff [symmetric, where 'a = int]) simp
    then have "sint n = uint n" unfolding sint_uint by (intro signed_take_bit_int_eq_self) (simp_all add: order_trans [of _ 0])
    then show ?thesis by simp
  qed
  ultimately show ?thesis
    using rendered_counted [OF assms(1), of n "bytes s"]
    by (simp add: sys_cputs_def cprintf_def kern_vcprintf_def vprintfmt_sink kern_putch_fold option.map_comp comp_def del: length_Cons)
qed

text \<open>\<^verbatim>\<open>getchar\<close> of the kernel and \<^verbatim>\<open>sys_cgetc\<close> are the same loop.\<close>

lemma getchar_cgetc: "getchar s = sys_cgetc_loop s"
proof -
  have "getchar s = Some y \<Longrightarrow> sys_cgetc_loop s = Some y" for y
  proof (induction rule: getchar.raw_induct [rotated, consumes 1])
    case (1 rec s y)
    then show ?case by (cases y, subst sys_cgetc_loop.simps) (auto simp: bind_eq_Some_conv split: if_splits)
  qed
  moreover have "sys_cgetc_loop s = Some y \<Longrightarrow> getchar s = Some y" for y
  proof (induction rule: sys_cgetc_loop.raw_induct [rotated, consumes 1])
    case (1 rec s y)
    then show ?case by (cases y, subst getchar.simps) (auto simp: bind_eq_Some_conv split: if_splits)
  qed
  ultimately show ?thesis by (metis option.exhaust)
qed

lemma get_is_cgetc: "kernel_get s = Some (uint c, t) \<Longrightarrow> sys_cgetc_loop s = Some (c, t)"
  by (auto simp: kernel_get_def getchar_cgetc word_uint_eq_iff)

lemma sint_byte: "sint (ucast c :: u32) = uint c" for c :: u8
proof -
  have "0 \<le> uint c" "uint c < 256" using uint_lt2p [of c] by simp_all
  then show ?thesis
    by (simp add: sint_uint unsigned_ucast_eq take_bit_int_eq_self) (rule signed_take_bit_int_eq_self, simp_all add: order_trans [of _ 0])
qed

text \<open>What a terminal over outcomes has typed and shown.\<close>

definition waiting :: "unit outcome \<Rightarrow> u8 list" where
  "waiting r = (case r of Returned _ s \<Rightarrow> pending (con s) | _ \<Rightarrow> [])"

definition shown_text :: "unit outcome \<Rightarrow> u8 list" where
  "shown_text r = (case r of Returned _ s \<Rightarrow> printed (con s) | _ \<Rightarrow> [])"

section \<open>The kernel as a program sees it\<close>

text \<open>What no call of a program that prints and reads changes.\<close>

definition kept :: "kernel \<Rightarrow> u32 option \<times> UserProgramInfo list \<times> u32 \<times> mm_state \<times> u32 Linked_List" where
  "kept s = (curenv s, userPrograms s, ptr_page_directory s, mm s, env_free_list s)"

locale program_calls =
  fixes call :: call and running :: "kernel \<Rightarrow> bool"
  assumes cputs_law: "running s \<Longrightarrow> p \<noteq> 0 \<Longrightarrow> unat n < 2 ^ 31 \<Longrightarrow>
      \<exists>t. lib_sys_cputs call p n s = Returned 0 t \<and> running t \<and> kept t = kept s \<and> bytes t = bytes s \<and>
        con t = fold cputchar (map scast (counted (bytes s) p (unat n))) (con s)"
    and cgetc_law: "running s \<Longrightarrow> sys_cgetc_loop (con s) = Some (c, d) \<Longrightarrow>
      \<exists>t. lib_sys_cgetc call s = Returned (ucast c) t \<and> running t \<and> kept t = kept s \<and> bytes t = bytes s \<and> con t = d"
    and store_law: "running s \<Longrightarrow> running (s\<lparr>bytes := m\<rparr>)"
begin

text \<open>The sink of \<^verbatim>\<open>vcprintf\<close> after some characters: \<open>bs\<close> wait in the buffer at \<open>b\<close>.\<close>

definition holding :: "u32 \<Rightarrow> ubuf \<Rightarrow> kernel \<Rightarrow> u8 list \<Rightarrow> bool" where
  "holding b x s bs \<longleftrightarrow> u_out x = Returned () s \<and> running s \<and> u_idx x = length bs \<and> length bs < 255 \<and> 0 \<notin> set bs \<and>
    (\<forall>i < length bs. bytes s (b + of_nat i) = bs ! i)"

lemma putch_step:
  assumes "holding b x s bs" "b \<noteq> 0" "ucast c \<noteq> (0 :: u8)"
  shows "\<exists>t out bs'. holding b (buffered_putch call b c x) t bs' \<and> out @ bs' = bs @ [ucast c] \<and>
    con t = fold cputchar (map scast out) (con s) \<and> kept t = kept s \<and>
    (\<forall>a. a \<notin> block b 256 \<longrightarrow> bytes t a = bytes s a) \<and> u_cnt (buffered_putch call b c x) = u_cnt x + 1"
proof -
  let ?bs = "bs @ [ucast c :: u8]" and ?s = "s\<lparr>bytes := (bytes s)(b + of_nat (length bs) := ucast c)\<rparr>"
  have x: "u_out x = Returned () s" "running s" "u_idx x = length bs" "length bs < 255"
    using assms(1) by (simp_all add: holding_def)
  have other: "b + of_nat i \<noteq> b + (of_nat (length bs) :: u32)" if "i < length bs" for i
  proof -
    have "unat (of_nat i :: u32) \<noteq> unat (of_nat (length bs) :: u32)" using that x(4) by (simp add: unat_of_nat)
    then show ?thesis by auto
  qed
  have stored: "\<forall>i < length ?bs. bytes ?s (b + of_nat i) = ?bs ! i"
    using assms(1) other by (auto simp: holding_def nth_append less_Suc_eq)
  have nz: "0 \<notin> set ?bs" using assms(1,3) by (simp add: holding_def)
  have r: "running ?s" "kept ?s = kept s" using store_law [OF x(2)] by (simp_all add: kept_def)
  have "b + of_nat (length bs) \<in> block b 256" using x(4) by (simp add: not_in_block unat_of_nat)
  then have outside: "\<forall>a. a \<notin> block b 256 \<longrightarrow> bytes ?s a = bytes s a" by auto
  show ?thesis
  proof (cases "length ?bs = 255")
    case False
    then have "buffered_putch call b c x = x\<lparr>u_idx := length ?bs, u_cnt := u_cnt x + 1, u_out := Returned () ?s\<rparr>"
      using x by (simp add: buffered_putch_def Let_def)
    then have "holding b (buffered_putch call b c x) ?s ?bs" "u_cnt (buffered_putch call b c x) = u_cnt x + 1"
      using r(1) stored nz False x(4) by (simp_all add: holding_def)
    then show ?thesis using r(2) outside by (intro exI [of _ ?s] exI [of _ "[]"] exI [of _ ?bs]) simp
  next
    case True
    have u: "unat (of_nat 255 :: u32) = 255" by simp
    obtain t where t: "lib_sys_cputs call b (of_nat 255) ?s = Returned 0 t" "running t" "kept t = kept ?s" "bytes t = bytes ?s"
      "con t = fold cputchar (map scast (counted (bytes ?s) b 255)) (con ?s)"
      using cputs_law [OF r(1) assms(2), of "of_nat 255"] unfolding u by auto
    have "counted (bytes ?s) b 255 = ?bs" using counted_text [OF stored nz] unfolding True .
    then have "con t = fold cputchar (map scast ?bs) (con s)" unfolding t(5) by simp
    moreover have "buffered_putch call b c x = x\<lparr>u_idx := 0, u_cnt := u_cnt x + 1, u_out := Returned () t\<rparr>"
      using x t(1) True by (simp add: buffered_putch_def Let_def)
    ultimately show ?thesis
      using t(2-4) r(2) outside by (intro exI [of _ t] exI [of _ ?bs] exI [of _ "[]"]) (simp add: holding_def)
  qed
qed

lemma putch_fold:
  assumes "holding b x s bs" "b \<noteq> 0" "\<forall>c \<in> set cs. ucast c \<noteq> (0 :: u8)"
  shows "\<exists>t out bs'. holding b (fold (buffered_putch call b) cs x) t bs' \<and> out @ bs' = bs @ map ucast cs \<and>
    con t = fold cputchar (map scast out) (con s) \<and> kept t = kept s \<and>
    (\<forall>a. a \<notin> block b 256 \<longrightarrow> bytes t a = bytes s a) \<and>
    u_cnt (fold (buffered_putch call b) cs x) = u_cnt x + of_nat (length cs)"
  using assms(1,3)
proof (induction cs arbitrary: x s bs)
  case Nil
  then show ?case by (intro exI [of _ s] exI [of _ "[]"] exI [of _ bs]) simp
next
  case (Cons c cs)
  let ?x = "buffered_putch call b c x"
  obtain t out bs' where t: "holding b ?x t bs'" "out @ bs' = bs @ [ucast c]" "con t = fold cputchar (map scast out) (con s)"
    "kept t = kept s" "\<forall>a. a \<notin> block b 256 \<longrightarrow> bytes t a = bytes s a" "u_cnt ?x = u_cnt x + 1"
    using putch_step [OF Cons.prems(1) assms(2), of c] Cons.prems(2) by auto
  obtain u out' bs'' where u: "holding b (fold (buffered_putch call b) cs ?x) u bs''" "out' @ bs'' = bs' @ map ucast cs"
    "con u = fold cputchar (map scast out') (con t)" "kept u = kept t" "\<forall>a. a \<notin> block b 256 \<longrightarrow> bytes u a = bytes t a"
    "u_cnt (fold (buffered_putch call b) cs ?x) = u_cnt ?x + of_nat (length cs)"
    using Cons.IH [OF t(1)] Cons.prems(2) by auto
  have "(out @ out') @ bs'' = bs @ map ucast (c # cs)" using t(2) u(2) by (metis append.assoc append_Cons append_Nil list.simps(9))
  then show ?case
    using t(3-6) u(1,3-6) by (intro exI [of _ u] exI [of _ "out @ out'"] exI [of _ bs'']) simp
qed

lemma cprintf_prints:
  assumes "running s" "b \<noteq> 0" and "rendered (bytes s) (ascii fmt) (\<lambda>i. if i < length args then args ! i else 0) = Some cs"
    and "\<forall>c \<in> set cs. ucast c \<noteq> (0 :: u8)"
  shows "\<exists>t. user_cprintf call b fmt args s = Returned (of_nat (length cs)) t \<and> running t \<and> kept t = kept s \<and>
    (\<forall>a. a \<notin> block b 256 \<longrightarrow> bytes t a = bytes s a) \<and>
    con t = fold cputchar (map (\<lambda>c. scast (ucast c :: u8)) cs) (con s)"
proof -
  let ?x = "\<lparr>u_idx = 0, u_cnt = 0, u_out = Returned () s\<rparr>"
  have "holding b ?x s []" using assms(1) by (simp add: holding_def)
  from putch_fold [OF this assms(2,4)] obtain t out bs where
    t: "holding b (fold (buffered_putch call b) cs ?x) t bs" "out @ bs = map ucast cs"
      "con t = fold cputchar (map scast out) (con s)" "kept t = kept s" "\<forall>a. a \<notin> block b 256 \<longrightarrow> bytes t a = bytes s a"
      "u_cnt (fold (buffered_putch call b) cs ?x) = of_nat (length cs)" by auto
  have h: "running t" "length bs < 255" "u_out (fold (buffered_putch call b) cs ?x) = Returned () t"
    "u_idx (fold (buffered_putch call b) cs ?x) = length bs" "\<forall>i < length bs. bytes t (b + of_nat i) = bs ! i" "0 \<notin> set bs"
    using t(1) by (simp_all add: holding_def)
  have n: "unat (of_nat (length bs) :: u32) = length bs" using h(2) by (simp add: unat_of_nat)
  obtain u where u: "lib_sys_cputs call b (of_nat (length bs)) t = Returned 0 u" "running u" "kept u = kept t" "bytes u = bytes t"
    "con u = fold cputchar (map scast (counted (bytes t) b (length bs))) (con t)"
    using cputs_law [OF h(1) assms(2), of "of_nat (length bs)"] h(2) unfolding n by auto
  have "con u = fold cputchar (map scast (out @ bs)) (con s)"
    unfolding u(5) counted_text [OF h(5,6)] t(3) by simp
  then have "con u = fold cputchar (map (\<lambda>c. scast (ucast c :: u8)) cs) (con s)" unfolding t(2) by (simp add: comp_def)
  then show ?thesis
    using u(1-4) t(4-6) h(3,4) assms(3) by (intro exI [of _ u]) (simp add: user_cprintf_def vprintfmt_sink)
qed

text \<open>Whatever is printed, the calls come back.\<close>

definition flowing :: "u32 \<Rightarrow> kernel \<Rightarrow> ubuf \<Rightarrow> bool" where
  "flowing b s0 x \<longleftrightarrow> u_idx x < 255 \<and>
    (\<exists>s. u_out x = Returned () s \<and> running s \<and> kept s = kept s0 \<and> (\<forall>a. a \<notin> block b 256 \<longrightarrow> bytes s a = bytes s0 a))"

lemma flowing_step:
  assumes "flowing b s0 x" "b \<noteq> 0"
  shows "flowing b s0 (buffered_putch call b c x)"
proof -
  obtain s where s: "u_out x = Returned () s" "running s" "kept s = kept s0" "u_idx x < 255"
    "\<forall>a. a \<notin> block b 256 \<longrightarrow> bytes s a = bytes s0 a"
    using assms(1) by (auto simp: flowing_def)
  let ?s = "s\<lparr>bytes := (bytes s)(b + of_nat (u_idx x) := ucast c)\<rparr>"
  have "b + of_nat (u_idx x) \<in> block b 256" using s(4) by (simp add: not_in_block unat_of_nat)
  then have r: "running ?s" "kept ?s = kept s0" "\<forall>a. a \<notin> block b 256 \<longrightarrow> bytes ?s a = bytes s0 a"
    using store_law [OF s(2)] s(3,5) by (auto simp: kept_def)
  show ?thesis
  proof (cases "u_idx x + 1 = 255")
    case False
    then have "u_out (buffered_putch call b c x) = Returned () ?s" "u_idx (buffered_putch call b c x) = u_idx x + 1"
      using s(1) by (simp_all add: buffered_putch_def Let_def)
    then show ?thesis using r s(4) False by (auto simp: flowing_def)
  next
    case True
    have u: "unat (of_nat 255 :: u32) = 255" by simp
    obtain t where t: "lib_sys_cputs call b (of_nat 255) ?s = Returned 0 t" "running t" "kept t = kept ?s" "bytes t = bytes ?s"
      using cputs_law [OF r(1) assms(2), of "of_nat 255"] unfolding u by auto
    then have "u_out (buffered_putch call b c x) = Returned () t" "u_idx (buffered_putch call b c x) = 0"
      using s(1) True by (simp_all add: buffered_putch_def Let_def)
    then show ?thesis using t r by (simp add: flowing_def)
  qed
qed

lemma cprintf_comes_back:
  assumes "running s" "b \<noteq> 0" "has_nul (bytes s)"
  shows "\<exists>n t. user_cprintf call b fmt args s = Returned n t \<and> running t \<and> kept t = kept s \<and>
    (\<forall>a. a \<notin> block b 256 \<longrightarrow> bytes t a = bytes s a)"
proof -
  let ?x = "\<lparr>u_idx = 0, u_cnt = 0, u_out = Returned () s\<rparr>" and ?ap = "\<lambda>i. if i < length args then args ! i else 0"
  obtain cs where cs: "rendered (bytes s) (ascii fmt) ?ap = Some cs"
    using vprintfmt_returns [OF assms(3), of emit "ascii fmt" ?ap 0 0 "[]"] by (auto simp: rendered_def vprintfmt_def)
  have "flowing b s x \<Longrightarrow> flowing b s (fold (buffered_putch call b) cs x)" for x
    by (induction cs arbitrary: x) (simp_all add: flowing_step assms(2))
  then have f: "flowing b s (fold (buffered_putch call b) cs ?x)" using assms(1) by (simp add: flowing_def)
  let ?y = "fold (buffered_putch call b) cs ?x"
  obtain t where t: "u_out ?y = Returned () t" "running t" "kept t = kept s" "u_idx ?y < 255"
    "\<forall>a. a \<notin> block b 256 \<longrightarrow> bytes t a = bytes s a" using f by (auto simp: flowing_def)
  have "unat (of_nat (u_idx ?y) :: u32) < 2 ^ 31" using t(4) by (simp add: unat_of_nat)
  from cputs_law [OF t(2) assms(2) this] obtain u where
    "lib_sys_cputs call b (of_nat (u_idx ?y)) t = Returned 0 u" "running u" "kept u = kept t" "bytes u = bytes t" by auto
  then show ?thesis using t cs by (intro exI [of _ "u_cnt ?y"] exI [of _ u]) (simp add: user_cprintf_def vprintfmt_sink)
qed

lemma cputchar_puts:
  assumes "running s" "slot \<noteq> 0" "ucast c \<noteq> (0 :: u8)"
  shows "\<exists>t. user_cputchar call slot c s = Returned () t \<and> running t \<and> kept t = kept s \<and>
    bytes t = (bytes s)(slot := ucast c) \<and> con t = cputchar (scast (ucast c :: u8)) (con s)"
proof -
  let ?s = "s\<lparr>bytes := (bytes s)(slot := ucast c)\<rparr>"
  have "counted (bytes ?s) slot 1 = [ucast c]" using assms(3) by (simp add: counted_def)
  then show ?thesis
    using cputs_law [OF store_law [OF assms(1)] assms(2), of 1 "(bytes s)(slot := ucast c)"]
    by (auto simp: user_cputchar_def kept_def)
qed

lemma getchar_gets:
  assumes "running s" "type_ahead (con s)" "pending (con s) = c # cs"
  shows "\<exists>t. user_getchar call s = Returned (ucast c) t \<and> running t \<and> kept t = kept s \<and> bytes t = bytes s \<and>
    type_ahead (con t) \<and> pending (con t) = cs \<and> printed (con t) = printed (con s)"
proof -
  obtain d where d: "kernel_get (con s) = Some (uint c, d)" "type_ahead d" "pending d = cs" "printed d = printed (con s)"
    using getchar_type_ahead [OF assms(2,3)] by blast
  obtain t where "lib_sys_cgetc call s = Returned (ucast c) t" "running t" "kept t = kept s" "bytes t = bytes s" "con t = d"
    using cgetc_law [OF assms(1) get_is_cgetc [OF d(1)]] by blast
  then show ?thesis using d by (auto simp: user_getchar_def)
qed

text \<open>The terminal of a program: what is typed and shown is that of the kernel's console.\<close>

definition program_ok :: "u32 \<Rightarrow> (u32 option \<times> UserProgramInfo list \<times> u32 \<times> mm_state \<times> u32 Linked_List) \<Rightarrow> bmem \<Rightarrow>
    unit outcome \<Rightarrow> bool" where
  "program_ok slot k m r \<longleftrightarrow> slot \<noteq> 0 \<and>
    (\<exists>s. r = Returned () s \<and> running s \<and> type_ahead (con s) \<and> kept s = k \<and> (\<forall>a. a \<noteq> slot \<longrightarrow> bytes s a = m a))"

end

sublocale program_calls \<subseteq> ut: terminal "user_terminal call slot b" waiting shown_text "program_ok slot kept0 mem0" for slot b kept0 mem0
proof unfold_locales
  fix r c cs assume r: "program_ok slot kept0 mem0 r" "waiting r = c # cs"
  then obtain s where s: "r = Returned () s" "running s" "type_ahead (con s)" "kept s = kept0" "\<forall>a. a \<noteq> slot \<longrightarrow> bytes s a = mem0 a" "slot \<noteq> 0"
    by (auto simp: program_ok_def)
  then obtain t where t: "user_getchar call s = Returned (ucast c) t" "running t" "kept t = kept s" "bytes t = bytes s"
    "type_ahead (con t)" "pending (con t) = cs" "printed (con t) = printed (con s)"
    using getchar_gets [OF s(2,3)] r(2) by (auto simp: waiting_def)
  have "t_get (user_terminal call slot b) r = Some (uint c, Returned () t)" using s(1) t(1) by (simp add: user_terminal_def sint_byte)
  then show "\<exists>t. t_get (user_terminal call slot b) r = Some (uint c, t) \<and> program_ok slot kept0 mem0 t \<and> waiting t = cs \<and>
      shown_text t = shown_text r"
    using s t by (intro exI [of _ "Returned () t"]) (simp add: program_ok_def waiting_def shown_text_def)
next
  fix r and c :: u8
  assume r: "program_ok slot kept0 mem0 r" and c: "0x20 \<le> c \<or> c = 0x08 \<or> c = 0x0A \<or> c = 0x0D"
  then obtain s where s: "r = Returned () s" "running s" "type_ahead (con s)" "kept s = kept0" "\<forall>a. a \<noteq> slot \<longrightarrow> bytes s a = mem0 a" "slot \<noteq> 0"
    by (auto simp: program_ok_def)
  have u: "word_of_int (uint c) = (ucast c :: u32)" by simp
  have nz: "c \<noteq> 0" "c \<noteq> 9" using c by auto
  obtain t where t: "user_cputchar call slot (ucast c) s = Returned () t" "running t" "kept t = kept s"
    "bytes t = (bytes s)(slot := c)" "con t = cputchar (scast c) (con s)"
    using cputchar_puts [OF s(2,6), of "ucast c"] nz(1) by (auto simp: byte_back)
  have "ucast (scast c :: u32) = c" by (rule bit_word_eqI) (simp add: bit_simps)
  with cputchar_word_prints [OF _ low_byte [OF nz(2), of "scast c"], of "con s"] s(3)
  have p: "prints [c] (con s) (con t)" by (simp add: t(5) type_ahead_def)
  have "type_ahead (con t)" "pending (con t) = pending (con s)" "printed (con t) = printed (con s) @ [c]"
    using p s(3) pending_cong [of "con t" "con s"] by (auto simp: prints_def type_ahead_def crt_port_def quiet_def)
  then show "program_ok slot kept0 mem0 (t_put (user_terminal call slot b) (uint c) r) \<and>
      waiting (t_put (user_terminal call slot b) (uint c) r) = waiting r \<and>
      shown_text (t_put (user_terminal call slot b) (uint c) r) = shown_text r @ [c]"
    using s t by (simp add: user_terminal_def u program_ok_def waiting_def shown_text_def)
qed

context program_calls
begin

lemma readline_reads:
  assumes "running s" "slot \<noteq> 0" "type_ahead (con s)" "edit_line [] (pending (con s)) = Some (l, es, rest)"
    "slot \<notin> block dst 1024"
  shows "\<exists>t. user_readline call slot b 0 dst s = Returned () t \<and> running t \<and> kept t = kept s \<and> length l \<le> 1023 \<and>
    (\<forall>k < length l. bytes t (dst + of_nat k) = l ! k) \<and> bytes t (dst + of_nat (length l)) = 0 \<and>
    (\<forall>a. a \<notin> block dst 1024 \<and> a \<noteq> slot \<longrightarrow> bytes t a = bytes s a) \<and>
    type_ahead (con t) \<and> pending (con t) = rest \<and> printed (con t) = printed (con s) @ es"
proof -
  have ok: "program_ok slot (kept s) (bytes s) (Returned () s)" using assms(1-3) by (auto simp: program_ok_def)
  have w: "waiting (Returned () s) = pending (con s)" "shown_text (Returned () s) = printed (con s)"
    by (simp_all add: waiting_def shown_text_def)
  obtain m' r where r: "readline_loop (user_terminal call slot b) dst True 0 (bytes s) (Returned () s) = Some (m', r)"
    "program_ok slot (kept s) (bytes s) r" "waiting r = rest" "shown_text r = printed (con s) @ es"
    "\<forall>k < length l. m' (dst + of_nat k) = l ! k" "m' (dst + of_nat (length l)) = 0"
    using ut.loop_edits [where i = 0 and m = "bytes s" and dst = dst and b = b, OF assms(4) ok w(1)] unfolding w(2) by auto
  then obtain t where t: "r = Returned () t" "running t" "type_ahead (con t)" "kept t = kept s" "\<forall>a. a \<noteq> slot \<longrightarrow> bytes t a = bytes s a"
    by (auto simp: program_ok_def)
  have l: "length l \<le> 1023" using edit_line_length [OF assms(4)] by simp
  let ?t = "t\<lparr>bytes := (\<lambda>a. if a - dst < 1024 then m' a else bytes t a)\<rparr>"
  have inside: "(dst + of_nat k) - dst < 1024" if "k \<le> 1023" for k :: nat
    using that by (simp add: word_less_nat_alt unat_of_nat)
  have "user_readline call slot b 0 dst s = Returned () ?t"
    using r(1) t(1) by (simp add: user_readline_def user_iscons_def)
  moreover have "\<forall>k < length l. bytes ?t (dst + of_nat k) = l ! k" using r(5) l inside by auto
  moreover have "bytes ?t (dst + of_nat (length l)) = 0" using r(6) l inside by auto
  moreover have "\<forall>a. a \<notin> block dst 1024 \<and> a \<noteq> slot \<longrightarrow> bytes ?t a = bytes s a"
    using t(5) by (simp add: not_in_block word_less_nat_alt)
  ultimately show ?thesis
    using r(3,4) t l store_law [OF t(2)]
    by (intro exI [of _ ?t]) (simp add: waiting_def shown_text_def kept_def)
qed

end

text \<open>The system calls of the model are such calls for every program whose environment is runnable.\<close>

definition runs :: "Trapframe \<Rightarrow> kernel \<Rightarrow> bool" where
  "runs tf s \<longleftrightarrow> tf_cs tf AND 3 = 3 \<and> (\<exists>e. curenv s = Some e \<and> env_status (envs s e) = ENV_RUNNABLE)"

lemma kept_save_frame [simp]: "kept (save_frame e tf s) = kept s"
  by (simp add: kept_def save_frame_def update_env_def)

lemma runs_save_frame [simp]: "runs tf' (save_frame e tf s) = runs tf' s" "runs tf' (s\<lparr>con := c\<rparr>) = runs tf' s"
  "kept (s\<lparr>con := c\<rparr>) = kept s"
  by (simp_all add: runs_def kept_def)

lemma program_syscall:
  assumes "curenv s = Some e" "env_status (envs s e) = ENV_RUNNABLE" "tf_cs tf AND 3 = 3"
    and "\<And>s. syscall num a1 a2 a3 a4 a5 s = (case f s of None \<Rightarrow> Stopped Endless | Some (r, c) \<Rightarrow> Returned r (s\<lparr>con := c\<rparr>))"
    and "\<And>e tf. f (save_frame e tf s) = Some (r, c)"
  shows "\<exists>t. user_syscall lit a tf num a1 a2 a3 a4 a5 s = Returned r t \<and> runs tf t \<and> kept t = kept s \<and> bytes t = bytes s \<and> con t = c"
proof -
  have "runs tf s" using assms(1-3) by (auto simp: runs_def)
  then show ?thesis
    by (simp add: user_syscall_eq [OF assms(1-3)] assms(4,5) Let_def)
qed

interpretation pc: program_calls "user_syscall lit a tf" "runs tf" for lit a tf
proof unfold_locales
  fix s and p n :: u32
  assume s: "runs tf s" and p: "p \<noteq> 0" "unat n < 2 ^ 31"
  then obtain e where e: "curenv s = Some e" "env_status (envs s e) = ENV_RUNNABLE" "tf_cs tf AND 3 = 3" by (auto simp: runs_def)
  let ?f = "\<lambda>s. Some (0, fold cputchar (map scast (counted (bytes s) p (unat n))) (con s))"
  have "syscall SYS_cputs p n 0 0 0 s = (case ?f s of None \<Rightarrow> Stopped Endless | Some (r, c) \<Rightarrow> Returned r (s\<lparr>con := c\<rparr>))" for s
    using sys_cputs_prints [OF p, of s] by (simp add: syscall_def zero_after_def)
  from program_syscall [OF e this]
  show "\<exists>t. lib_sys_cputs (user_syscall lit a tf) p n s = Returned 0 t \<and> runs tf t \<and> kept t = kept s \<and> bytes t = bytes s \<and>
      con t = fold cputchar (map scast (counted (bytes s) p (unat n))) (con s)"
    unfolding lib_sys_cputs_def by simp
next
  fix s c d
  assume s: "runs tf s" and c: "sys_cgetc_loop (con s) = Some (c, d)"
  then obtain e where e: "curenv s = Some e" "env_status (envs s e) = ENV_RUNNABLE" "tf_cs tf AND 3 = 3" by (auto simp: runs_def)
  let ?f = "\<lambda>s. map_option (\<lambda>(c, d). (ucast c, d)) (sys_cgetc_loop (con s))"
  have "syscall SYS_cgetc 0 0 0 0 0 s = (case ?f s of None \<Rightarrow> Stopped Endless | Some (r, c) \<Rightarrow> Returned r (s\<lparr>con := c\<rparr>))" for s
    by (simp add: syscall_def sys_cgetc_def loop_res_def split: option.split)
  from program_syscall [OF e this, of "ucast c" d]
  show "\<exists>t. lib_sys_cgetc (user_syscall lit a tf) s = Returned (ucast c) t \<and> runs tf t \<and> kept t = kept s \<and> bytes t = bytes s \<and> con t = d"
    unfolding lib_sys_cgetc_def using c by simp
next
  fix s m
  assume "runs tf s"
  then show "runs tf (s\<lparr>bytes := m\<rparr>)" by (simp add: runs_def)
qed

section \<open>Programs that print\<close>

text \<open>A format without \<^verbatim>\<open>%\<close> is printed as it is.\<close>

lemma plain_loop:
  assumes "\<forall>c \<in> set (drop i fmt). c \<noteq> 0x25 \<and> c \<noteq> 0" "i \<le> length fmt"
  shows "vprintfmt_loop nested emit m fmt ap i k cs = Some (cs @ map ucast (drop i fmt))"
  using assms
proof (induction "length fmt - i" arbitrary: i cs)
  case 0
  then show ?case by (subst vprintfmt_loop.simps) (simp add: fmt_at_def)
next
  case (Suc n)
  then have i: "i < length fmt" by simp
  have d: "drop i fmt = fmt ! i # drop (i + 1) fmt" using i by (simp add: Cons_nth_drop_Suc)
  then have "fmt_at fmt i \<noteq> 0x25" "fmt_at fmt i \<noteq> 0" "fmt_at fmt i = fmt ! i" using Suc(3) i by (auto simp: fmt_at_def)
  then show ?case
    using Suc(1) [of "i + 1" "cs @ [ucast (fmt ! i)]"] Suc(2,3) i d by (subst vprintfmt_loop.simps) (simp add: emit_def)
qed

lemma plain_prefix:
  assumes "\<forall>c \<in> set pre. c \<noteq> 0x25 \<and> c \<noteq> 0" "i \<le> length pre"
  shows "vprintfmt_loop nested emit m (pre @ rest) ap i k cs =
    vprintfmt_loop nested emit m (pre @ rest) ap (length pre) k (cs @ map ucast (drop i pre))"
  using assms(2)
proof (induction "length pre - i" arbitrary: i cs)
  case (Suc n)
  then have i: "i < length pre" by simp
  have d: "drop i pre = pre ! i # drop (i + 1) pre" using i by (simp add: Cons_nth_drop_Suc)
  have "pre ! i \<in> set pre" using i by simp
  then have "fmt_at (pre @ rest) i \<noteq> 0x25" "fmt_at (pre @ rest) i \<noteq> 0" "fmt_at (pre @ rest) i = pre ! i"
    using assms(1) i by (auto simp: fmt_at_def nth_append)
  then have "vprintfmt_loop nested emit m (pre @ rest) ap i k cs =
      vprintfmt_loop nested emit m (pre @ rest) ap (i + 1) k (cs @ [ucast (pre ! i)])"
    by (subst vprintfmt_loop.simps) (simp add: emit_def)
  also have "\<dots> = vprintfmt_loop nested emit m (pre @ rest) ap (length pre) k (cs @ [ucast (pre ! i)] @ map ucast (drop (i + 1) pre))"
    using Suc(1) [of "i + 1" "cs @ [ucast (pre ! i)]"] Suc(2) i by simp
  finally show ?case by (simp only: d list.map append_Cons append_Nil)
qed simp

lemma rendered_plain:
  "\<forall>c \<in> set fmt. c \<noteq> 0x25 \<and> c \<noteq> 0 \<Longrightarrow> rendered m fmt ap = Some (map ucast fmt)"
  using plain_loop [of 0 fmt] by (simp add: rendered_def vprintfmt_def)

text \<open>The console after a text was printed on it.\<close>

definition put_text :: "string \<Rightarrow> console \<Rightarrow> console" where
  "put_text t = fold cputchar (map scast (ascii t))"

lemma put_text_bytes:
  assumes "\<forall>c \<in> set (ascii t). c \<noteq> 0"
  shows "\<forall>c \<in> set (map ucast (ascii t) :: u32 list). ucast c \<noteq> (0 :: u8)"
    and "fold cputchar (map (\<lambda>c. scast (ucast c :: u8)) (map ucast (ascii t) :: u32 list)) = put_text t"
  using assms by (auto simp: put_text_def byte_back comp_def)

text \<open>
  A program whose \<open>main\<close> returns goes to sleep: it is set up to start again, and the prompt goes on.
\<close>

definition program_of :: "u32 \<Rightarrow> u32 \<Rightarrow> kernel \<Rightarrow> bool" where
  "program_of e p s \<longleftrightarrow> curenv s = Some e \<and> KERNEL_BASE \<le> ptr_page_directory s \<and> e_magic (bytes s) p = ELF_MAGIC \<and>
    (\<exists>i < length (userPrograms s). environment (userPrograms s ! i) = Some e \<and> ptr_start (userPrograms s ! i) = p \<and>
      (\<forall>j < i. environment (userPrograms s ! j) \<noteq> Some e))"

lemma program_of_kept:
  assumes "program_of e p s" "kept t = kept s" "\<And>a. a \<in> block p 52 \<Longrightarrow> bytes t a = bytes s a"
  shows "program_of e p t" "e_entry (bytes t) p = e_entry (bytes s) p"
proof -
  have b: "bytes t (p + k) = bytes s (p + k)" if "k < 52" for k
    using assms(3) [of "p + k"] that by (simp add: not_in_block word_less_nat_alt)
  have "bytes t p = bytes s p" using b [of 0] by simp
  then have "load32 (bytes t) p = load32 (bytes s) p" "load32 (bytes t) (p + 24) = load32 (bytes s) (p + 24)"
    using b [of 1] b [of 2] b [of 3] b [of 24] b [of 25] b [of 26] b [of 27] by (simp_all add: load32_def load16_def add.assoc)
  then show "program_of e p t" "e_entry (bytes t) p = e_entry (bytes s) p"
    using assms(1,2) by (simp_all add: program_of_def kept_def e_magic_def e_entry_def)
qed

lemma user_sleep_restarts:
  assumes "runs tf s" "program_of e p s"
  shows "\<exists>t. user_sleep (user_syscall lit a tf) s = Entered_prompt t \<and> curenv t = None \<and> mm t = mm s \<and> con t = con s \<and>
    fst (env_run e t) = initial_trapframe\<lparr>tf_eip := e_entry (bytes s) p\<rparr>"
proof -
  have e: "curenv s = Some e" "env_status (envs s e) = ENV_RUNNABLE" "tf_cs tf AND 3 = 3"
    using assms by (auto simp: runs_def program_of_def)
  let ?s = "save_frame e (call_frame SYS_env_sleep 0 0 0 0 0 tf) s"
  have "userPrograms ?s = userPrograms s" "ptr_page_directory ?s = ptr_page_directory s"
    by (simp_all add: save_frame_def update_env_def)
  moreover obtain i where i: "i < length (userPrograms s)" "environment (userPrograms s ! i) = Some e"
    "ptr_start (userPrograms s ! i) = p" "\<forall>j < i. environment (userPrograms s ! j) \<noteq> Some e"
    using assms(2) by (auto simp: program_of_def)
  ultimately obtain t where "env_run_cmd_prmpt ?s = Inr t" "curenv t = None" "mm t = mm s" "con t = con s"
    "fst (env_run e t) = initial_trapframe\<lparr>tf_eip := e_entry (bytes s) p\<rparr>"
    using assms(2) env_run_cmd_prmpt_restarts [of ?s e i] by (auto simp: program_of_def)
  then show ?thesis
    by (simp add: user_sleep_def lib_sys_env_sleep_def user_syscall_eq [OF e] syscall_def sys_env_sleep_def Let_def)
qed

lemma print_plain:
  assumes "runs tf s" "u_call u = user_syscall lit a tf" "u_buf u \<noteq> 0" "\<forall>c \<in> set (ascii t). c \<noteq> 0x25 \<and> c \<noteq> 0"
  shows "\<exists>s'. print u t args s = Returned () s' \<and> runs tf s' \<and> kept s' = kept s \<and>
    (\<forall>x. x \<notin> block (u_buf u) 256 \<longrightarrow> bytes s' x = bytes s x) \<and> con s' = put_text t (con s)"
proof -
  have nz: "\<forall>c \<in> set (ascii t). c \<noteq> 0" using assms(4) by blast
  obtain s' where "user_cprintf (user_syscall lit a tf) (u_buf u) t args s = Returned (of_nat (length (map ucast (ascii t) :: u32 list))) s'"
    "runs tf s'" "kept s' = kept s" "\<forall>x. x \<notin> block (u_buf u) 256 \<longrightarrow> bytes s' x = bytes s x"
    "con s' = put_text t (con s)"
    using pc.cprintf_prints [OF assms(1,3) rendered_plain [OF assms(4)] put_text_bytes(1) [OF nz], of lit a args]
    unfolding put_text_bytes(2) [OF nz] by blast
  then show ?thesis by (auto simp: print_def assms(2))
qed

text \<open>The text of \<^verbatim>\<open>%d\<close>.\<close>

definition decimal :: "u32 \<Rightarrow> u32 list" where
  "decimal v = (let n = scast v :: u64
    in if sint n < 0 then 0x2D # number_text (- n) 10 (-1) 0x20 else number_text n 10 (-1) 0x20)"

lemma rendered_decimal:
  assumes "\<forall>c \<in> set pre. c \<noteq> 0x25 \<and> c \<noteq> 0" "\<forall>c \<in> set post. c \<noteq> 0x25 \<and> c \<noteq> 0"
  shows "rendered m (pre @ 0x25 # 0x64 # post) ap = Some (map ucast pre @ decimal (ap 0) @ map ucast post)"
proof -
  let ?F = "pre @ 0x25 # 0x64 # post" and ?n = "length pre"
  have f: "fmt_at ?F ?n = 0x25" "fmt_at ?F (?n + 1) = 0x64" by (simp_all add: fmt_at_def nth_append)
  let ?f = "\<lparr>f_padc = 0x20, f_width = -1, f_precision = -1, f_lflag = 0, f_altflag = False\<rparr>"
  have r: "read_flags ?F ap (?n + 1) ?f 0 = (0x64, ?n + 2, ?f, 0)"
    by (subst read_flags.simps) (simp only: f is_digit_def Let_def, simp)
  have e: "escape nested emit m ?F ap (?n + 1) 0 cs = Some (?n + 2, 1, cs @ decimal (ap 0))" for nested cs
    by (simp only: escape_def r prod.case)
      (simp add: conversion_def getint_def va_arg32_def put_number_def printnum_text decimal_def Let_def emit_def)
  have "vprintfmt_loop nested emit m ?F ap (?n + 2) 1 cs = Some (cs @ map ucast post)" for nested cs
    using plain_loop [of "?n + 2" ?F nested m ap 1 cs] assms(2) by simp
  then have "vprintfmt_loop nested emit m ?F ap ?n 0 cs = Some (cs @ decimal (ap 0) @ map ucast post)" for nested cs
    using e [of nested cs] by (subst vprintfmt_loop.simps) (simp only: f, simp)
  then show ?thesis
    using plain_prefix [OF assms(1), of 0 _ m "0x25 # 0x64 # post" ap 0 "[]"] by (simp add: rendered_def vprintfmt_def)
qed

lemma decimal_3: "decimal 3 = [0x33]"
  by (simp add: decimal_def number_text_def digits_of_less hex_digit_def)

lemma libmain_runs:
  assumes "main b s = Returned () t" "runs tf t" "kept t = kept s" "\<forall>x. x \<notin> block q 256 \<longrightarrow> bytes t x = bytes s x"
    and "program_of e p s" "block p 52 \<inter> block q 256 = {}" "\<And>b'. main b' s = main b s"
  shows "\<exists>u. libmain (user_syscall lit a tf) unknown argc argv main s = Entered_prompt u \<and> con u = con t \<and> curenv u = None \<and>
    mm u = mm s \<and> fst (env_run e u) = initial_trapframe\<lparr>tf_eip := e_entry (bytes s) p\<rparr>"
proof -
  have "bytes t x = bytes s x" if "x \<in> block p 52" for x using assms(4,6) that by blast
  note k = program_of_kept [OF assms(5,3) this]
  have "mm t = mm s" using assms(3) by (simp add: kept_def)
  moreover obtain u where "user_sleep (user_syscall lit a tf) t = Entered_prompt u" "curenv u = None" "mm u = mm t" "con u = con t"
    "fst (env_run e u) = initial_trapframe\<lparr>tf_eip := e_entry (bytes t) p\<rparr>"
    using user_sleep_restarts [OF assms(2) k(1)] by blast
  ultimately show ?thesis
    using k(2) assms(1) assms(7) [of "if sint argc > 0 then load32 (bytes s) argv else unknown"]
    by (intro exI [of _ u]) (simp add: libmain_def Let_def)
qed

lemma number_digit:
  "str_at (bytes s) p [0x31] \<Longrightarrow> number p s = Returned 1 s" "str_at (bytes s) p [0x32] \<Longrightarrow> number p s = Returned 2 s"
proof -
  have "strtol m p 10 = Some (of_nat d, p + 1)" if "m p = 0x30 + of_nat d" "m (p + 1) = 0" "d = 1 \<or> d = 2" for m d
  proof -
    have "strtol m p 10 = Some (word_of_int (if False then - digit_value 10 [int d] else digit_value 10 [int d]), p + of_nat (length [int d]))"
      by (rule strtol_parses [where n = 0 and ?s1.0 = p])
        (use that in \<open>auto simp: strtol_sign_def strtol_digit_def\<close>)
    then show ?thesis by (simp add: digit_value_def)
  qed
  note n = this [of "bytes s" 1] this [of "bytes s" 2]
  show "str_at (bytes s) p [0x31] \<Longrightarrow> number p s = Returned 1 s" "str_at (bytes s) p [0x32] \<Longrightarrow> number p s = Returned 2 s"
    using n by (simp_all add: number_def)
qed

text \<open>
  C20: two programs run from start to end. A program that runs in an environment of the table, started by \<^verbatim>\<open>libmain\<close>, prints on
  the console of the kernel exactly its text: its formatter fills the buffer, the system calls go through the trap, and the kernel's
  formatter prints the buffer. \<^verbatim>\<open>fos_helloWorld\<close> prints its greeting and \<^verbatim>\<open>fos_add\<close> the sum of 1 and 2. Then the program
  sleeps: the command prompt goes on, and running the environment again starts the program at its entry point.
\<close>

theorem programs_print:
  assumes "runs tf s" "program_of e p s" "u_call u = user_syscall lit a tf" "u_buf u \<noteq> 0"
    and "block p 52 \<inter> block (u_buf u) 256 = {}" "str_at (bytes s) one [0x31]" "str_at (bytes s) two [0x32]"
    and "(main, out) = (\<lambda>_. fos_helloWorld u, ''HELLO WORLD , FOS IS SAYING HI :D:D:D'' @ [CHR 0x0A]) \<or>
      (main, out) = (\<lambda>_. fos_add u one two, ''number 1 + number 2 = 3'' @ [CHR 0x0A])"
  shows "\<exists>t. libmain (u_call u) unknown argc argv main s = Entered_prompt t \<and> con t = put_text out (con s) \<and>
    curenv t = None \<and> mm t = mm s \<and> fst (env_run e t) = initial_trapframe\<lparr>tf_eip := e_entry (bytes s) p\<rparr>"
proof -
  have "\<exists>t. main b s = Returned () t \<and> runs tf t \<and> kept t = kept s \<and> (\<forall>x. x \<notin> block (u_buf u) 256 \<longrightarrow> bytes t x = bytes s x) \<and>
      con t = put_text out (con s)" for b
    using assms(8)
  proof
    assume "(main, out) = (\<lambda>_. fos_helloWorld u, ''HELLO WORLD , FOS IS SAYING HI :D:D:D'' @ [CHR 0x0A])"
    then show ?thesis
      using print_plain [OF assms(1,3,4), of "''HELLO WORLD , FOS IS SAYING HI :D:D:D'' @ [CHR 0x0A]" "[]"]
      by (simp add: fos_helloWorld_def ascii_def)
  next
    let ?post = "ascii [CHR 0x0A]" and ?pre = "ascii ''number 1 + number 2 = ''"
    let ?out = "''number 1 + number 2 = 3'' @ [CHR 0x0A]"
    assume m: "(main, out) = (\<lambda>_. fos_add u one two, ?out)"
    have fmt: "ascii (''number 1 + number 2 = %d'' @ [CHR 0x0A]) = ?pre @ 0x25 # 0x64 # ?post" by (simp add: ascii_def)
    have shown: "map ucast ?pre @ decimal 3 @ map ucast ?post = map ucast (ascii ?out)"
      unfolding decimal_3 by (simp add: ascii_def)
    have nz: "\<forall>c \<in> set (ascii ?out). c \<noteq> 0" by (simp add: ascii_def)
    have "rendered (bytes s) (ascii (''number 1 + number 2 = %d'' @ [CHR 0x0A]))
        (\<lambda>i. if i < length [3] then [3] ! i else 0) = Some (map ucast (ascii ?out))"
      unfolding fmt shown [symmetric] by (subst rendered_decimal) (simp_all add: ascii_def)
    from pc.cprintf_prints [OF assms(1,4) this put_text_bytes(1) [OF nz], of lit a]
    have "\<exists>t. print u (''number 1 + number 2 = %d'' @ [CHR 0x0A]) [3] s = Returned () t \<and> runs tf t \<and> kept t = kept s \<and>
        (\<forall>x. x \<notin> block (u_buf u) 256 \<longrightarrow> bytes t x = bytes s x) \<and> con t = put_text ?out (con s)"
      unfolding put_text_bytes(2) [OF nz] print_def assms(3) by (elim exE conjE) (simp del: append.simps)
    then show ?thesis using m number_digit(1) [OF assms(6)] number_digit(2) [OF assms(7)] by (simp add: fos_add_def)
  qed
  then obtain t where t: "main 0 s = Returned () t" "runs tf t" "kept t = kept s"
    "\<forall>x. x \<notin> block (u_buf u) 256 \<longrightarrow> bytes t x = bytes s x" "con t = put_text out (con s)" by blast
  have "main b' s = main 0 s" for b' using assms(8) by auto
  from libmain_runs [where main = main and b = 0 and s = s and lit = lit and a = a and unknown = unknown and argc = argc and argv = argv,
      OF t(1-4) assms(2,5) this] t(5)
  show ?thesis unfolding assms(3) by auto
qed

text \<open>A kernel whose environment 3 runs, with the literals of the programs at 0x2000 and the print buffer at 0x3000.\<close>

definition user_example :: kernel where
  "user_example = program_example\<lparr>curenv := Some 3, envs := (envs program_example)(3 := (envs program_example 3)\<lparr>env_status := ENV_RUNNABLE\<rparr>),
     bytes := (bytes program_example)(0x2000 := 0x31, 0x2001 := 0, 0x2002 := 0x32, 0x2003 := 0)\<rparr>"

definition user_image_example :: user_image where
  "user_image_example = \<lparr>u_call = user_syscall (\<lambda>_. 0) 0 call_example, u_int3 = (\<lambda>_. Stopped Shutdown),
     u_slot = 0x3200, u_buf = 0x3000, u_binaryname = 0, u_argv0 = 0\<rparr>"

lemma user_example_ok: "runs call_example user_example" "program_of 3 256 user_example"
  "str_at (bytes user_example) 0x2000 [0x31]" "str_at (bytes user_example) 0x2002 [0x32]"
  "block 256 52 \<inter> block 0x3000 256 = {}"
proof -
  show "runs call_example user_example" by (simp add: runs_def user_example_def)
  show "program_of 3 256 user_example"
    by (simp add: program_of_def user_example_def program_example_def kernel_example_def e_magic_def load32_def load16_def)
  show "str_at (bytes user_example) 0x2000 [0x31]" "str_at (bytes user_example) 0x2002 [0x32]" by (simp_all add: user_example_def)
  show "block 256 52 \<inter> block 0x3000 256 = {}" by (rule block_apart) simp_all
qed

theorem programs_print_witness:
  "\<exists>t. libmain (u_call user_image_example) 0 0 0 (\<lambda>_. fos_add user_image_example 0x2000 0x2002) user_example = Entered_prompt t \<and>
    con t = put_text (''number 1 + number 2 = 3'' @ [CHR 0x0A]) (con user_example) \<and>
    tf_eip (fst (env_run 3 t)) = 0x800020"
proof -
  have u: "u_call user_image_example = user_syscall (\<lambda>_. 0) 0 call_example" "u_buf user_image_example = 0x3000"
    by (simp_all add: user_image_example_def)
  have "e_entry (bytes user_example) 256 = 0x800020"
    by (simp add: user_example_def program_example_def e_entry_def load32_def load16_def)
  then show ?thesis
    using programs_print [OF user_example_ok(1,2) u(1) _ _ user_example_ok(3,4) disjI2 [OF refl], of 0 0 0] user_example_ok(5) u(2)
    by auto
qed

section \<open>Programs that read\<close>

text \<open>
  The \<^verbatim>\<open>readline\<close> of a program. It is the same loop as the kernel's, but each key and each echoed character is a system call. When
  the keys that wait in the kernel's input buffer contain the end of a line, it returns with the edited line as a
  string in the program's buffer, at most 1023 characters long, having echoed the keys that had an effect. Besides the 1024 bytes
  of the buffer only the variable of \<^verbatim>\<open>cputchar\<close> is written.
\<close>

theorem user_readline_correct:
  assumes "runs tf s" "slot \<noteq> 0" "type_ahead (con s)" "edit_line [] (pending (con s)) = Some (l, es, rest)"
    "slot \<notin> block dst 1024"
  shows "\<exists>t. user_readline (user_syscall lit a tf) slot b 0 dst s = Returned () t \<and> runs tf t \<and> kept t = kept s \<and>
    length l \<le> 1023 \<and> (\<forall>k < length l. bytes t (dst + of_nat k) = l ! k) \<and> bytes t (dst + of_nat (length l)) = 0 \<and>
    (\<forall>x. x \<notin> block dst 1024 \<and> x \<noteq> slot \<longrightarrow> bytes t x = bytes s x) \<and>
    type_ahead (con t) \<and> pending (con t) = rest \<and> printed (con t) = printed (con s) @ es"
  by (rule pc.readline_reads [OF assms])

theorem user_readline_correct_witness:
  "\<exists>t. user_readline (user_syscall (\<lambda>_. 0) 0 call_example) 0x3200 0x3000 0 0x4000 (user_example\<lparr>con := typing_example\<rparr>) = Returned () t \<and>
    bytes t 0x4000 = 0x61 \<and> bytes t 0x4001 = 0x63 \<and> bytes t 0x4002 = 0 \<and> pending (con t) = [0x7A]"
proof -
  let ?s = "user_example\<lparr>con := typing_example\<rparr>"
  have e: "edit_line [] (pending (con ?s)) = Some ([0x61, 0x63], [0x61, 0x62, 0x08, 0x63, 0x0D], [0x7A])"
    by (simp add: typing_example_ok(2))
  have "runs call_example ?s" "type_ahead (con ?s)" "0x3200 \<notin> block 0x4000 1024"
    using user_example_ok(1) by (simp_all add: typing_example_ok(1) not_in_block)
  moreover have "k < length [0x61 :: u8, 0x63] \<longleftrightarrow> k = 0 \<or> k = 1" for k by auto
  ultimately show ?thesis
    using user_readline_correct [of call_example ?s "0x3200", OF _ _ _ e, of "0x4000" "\<lambda>_. 0" 0 "0x3000"] by force
qed

section \<open>Programs that stop\<close>

lemma panic_stops:
  assumes "runs tf s" "u_call u = user_syscall lit a tf" "\<forall>s'. runs tf s' \<and> has_nul (bytes s') \<longrightarrow> u_int3 u s' = Stopped e" "u_buf u \<noteq> 0"
    and "x \<notin> block (u_buf u) 256" "bytes s x = 0"
  shows "user_panic u file line fmt args s = Stopped e"
proof -
  have p: "\<exists>t. ignore (user_cprintf (u_call u) (u_buf u) fmt args s') = Returned () t \<and> runs tf t \<and> kept t = kept s' \<and> bytes t x = 0"
    if "runs tf s'" "bytes s' x = 0" for fmt args s'
  proof -
    have "has_nul (bytes s')" using that(2) by (auto simp: has_nul_def)
    from pc.cprintf_comes_back [OF that(1) assms(4) this, of lit a fmt args] show ?thesis
      using that(2) assms(5) by (auto simp: assms(2))
  qed
  obtain s1 where s1: "(if u_argv0 u \<noteq> 0 then ignore (user_cprintf (u_call u) (u_buf u) ''%s: '' [u_argv0 u] s) else Returned () s) = Returned () s1"
    "runs tf s1" "kept s1 = kept s" "bytes s1 x = 0" using p [OF assms(1,6)] assms(1,6) by (cases "u_argv0 u = 0") auto
  obtain s2 where s2: "ignore (user_cprintf (u_call u) (u_buf u) ''user panic in %s at %s:%d: '' [u_binaryname u, file, line] s1) = Returned () s2"
    "runs tf s2" "kept s2 = kept s1" "bytes s2 x = 0" using p [OF s1(2,4)] by blast
  obtain s3 where s3: "ignore (user_cprintf (u_call u) (u_buf u) fmt args s2) = Returned () s3"
    "runs tf s3" "kept s3 = kept s2" "bytes s3 x = 0" using p [OF s2(2,4)] by blast
  obtain s4 where s4: "ignore (user_cprintf (u_call u) (u_buf u) [CHR 0x0A] [] s3) = Returned () s4"
    "runs tf s4" "bytes s4 x = 0" using p [OF s3(2,4)] by blast
  have n: "has_nul (bytes s4)" using s4(3) by (auto simp: has_nul_def)
  then have "u_int3 u s4 = Stopped e" using s4(2) assms(3) by blast
  then have "breakpoints (u_int3 u) s4 = Some (Stopped e)"
    by (subst breakpoints.simps) simp
  then show ?thesis unfolding user_panic_def Let_def s1(1) by (simp add: s2(1) s3(1) s4(1))
qed

text \<open>
  The allocation functions never come back. \<^verbatim>\<open>malloc\<close> and \<^verbatim>\<open>freeHeap\<close> print their panic and raise the breakpoint exception; when
  that does not come back, neither do they, and \<^verbatim>\<open>fos_alloc\<close> ends in its first \<^verbatim>\<open>malloc\<close>.
\<close>

lemma allocation_stops:
  assumes "runs tf s" "u_call u = user_syscall lit a tf" "\<forall>s'. runs tf s' \<and> has_nul (bytes s') \<longrightarrow> u_int3 u s' = Stopped e" "u_buf u \<noteq> 0"
    and "x \<notin> block (u_buf u) 256" "bytes s x = 0"
  shows "malloc u file n s = Stopped e" "freeHeap u file s = Stopped e" "fos_alloc u file s = Stopped e"
  by (simp_all add: malloc_def freeHeap_def fos_alloc_def panic_stops [OF assms] Let_def)

end
