(* ===== verification/FOS_Exceptions.thy ===== *)
theory FOS_Exceptions
  imports FOS_Protection FOS_User
begin

text \<open>
  How the processor delivers exceptions with the gates \<^verbatim>\<open>idt_init\<close> makes. Only the page fault and the system call have one, so
  every other exception of a program shuts the machine down instead of reaching \<^verbatim>\<open>trap\<close>: also the breakpoint with which the \<^verbatim>\<open>_panic\<close>
  of a program wants to enter the monitor.
\<close>

section \<open>Delivery\<close>

text \<open>
  What is wrong with the gate of vector \<open>n\<close>, if anything: the exception that the attempt to use it raises. The level of the gate
  counts for the instruction \<open>int\<close> only, and the stack only when the level changes.
\<close>

definition gate_fault :: "bool \<Rightarrow> u32 \<Rightarrow> trap_tables \<Rightarrow> segments \<Rightarrow> u32 option" where
  "gate_fault software n t s =
    (let g = idt t n in
     if gd_type g \<noteq> STS_IG32 \<and> gd_type g \<noteq> STS_TG32 \<or> software \<and> ucast (gd_dpl g) < cpl s then Some T_GPFLT
     else if gd_p g = 0 then Some T_SEGNP
     else if \<not> code_loadable 0 (gd_ss g) s then Some T_GPFLT
     else if cpl s \<noteq> 0 \<and> \<not> stack_loadable 0 (ts_ss0 (task_state t)) s then Some T_TSS
     else None)"

definition contributory :: "u32 \<Rightarrow> bool" where
  "contributory n \<longleftrightarrow> n \<in> {T_DIVIDE, T_TSS, T_SEGNP, T_STACK, T_GPFLT}"

text \<open>The vector whose handler runs in the end, if any: a fault on the way becomes a double fault, and a fault on the way to that shuts down.\<close>

definition double_fault :: "trap_tables \<Rightarrow> segments \<Rightarrow> u32 option" where
  "double_fault t s = (if gate_fault False T_DBLFLT t s = None then Some T_DBLFLT else None)"

definition deliver :: "bool \<Rightarrow> u32 \<Rightarrow> trap_tables \<Rightarrow> segments \<Rightarrow> u32 option" where
  "deliver software n t s =
    (case gate_fault software n t s of
       None \<Rightarrow> Some n
     | Some f \<Rightarrow>
         if \<not> software \<and> n = T_DBLFLT then None
         else if \<not> software \<and> (contributory n \<or> n = T_PGFLT) then double_fault t s
         else if gate_fault False f t s = None then Some f
         else double_fault t s)"

text \<open>The instruction \<^verbatim>\<open>int3\<close> of a program with the saved registers \<open>tf\<close>.\<close>

definition int3 :: "trap_tables \<Rightarrow> (string \<Rightarrow> u32) \<Rightarrow> u32 \<Rightarrow> Trapframe \<Rightarrow> segments \<Rightarrow> kernel \<Rightarrow> unit outcome" where
  "int3 t lit a tf r s =
    (case deliver True T_BRKPT t r of
       None \<Rightarrow> Stopped Shutdown
     | Some n \<Rightarrow> trap lit a (tf\<lparr>tf_trapno := n\<rparr>) s)"

lemma gate_present:
  "gate_fault software n t s = None \<Longrightarrow> gd_p (idt t n) \<noteq> 0"
  by (auto simp: gate_fault_def Let_def split: if_splits)

lemma gate_fault_cases: "gate_fault software n t s = Some f \<Longrightarrow> f \<in> {T_GPFLT, T_SEGNP, T_TSS}"
  by (auto simp: gate_fault_def Let_def split: if_splits)

lemma deliver_none:
  assumes "gate_fault software n t s \<noteq> None" "gd_p (idt t T_DBLFLT) = 0" "gd_p (idt t T_GPFLT) = 0" "gd_p (idt t T_SEGNP) = 0"
    "gd_p (idt t T_TSS) = 0"
  shows "deliver software n t s = None"
proof -
  obtain f where f: "gate_fault software n t s = Some f" using assms(1) by blast
  have "gate_fault False f t s \<noteq> None" using gate_fault_cases [OF f] gate_present assms(3-5) by blast
  moreover have "double_fault t s = None" using gate_present [of False T_DBLFLT t s] assms(2) by (auto simp: double_fault_def)
  ultimately show ?thesis by (auto simp: deliver_def f)
qed

lemma kernel_gate_works:
  "gate_fault software T_SYSCALL (idt_init PF SC ts n tt) user_segments = None"
  "gate_fault False T_PGFLT (idt_init PF SC ts n tt) user_segments = None"
  "gate_fault False T_PGFLT (idt_init PF SC ts n tt) kernel_segments = None"
  "gate_fault True T_PGFLT (idt_init PF SC ts n tt) user_segments \<noteq> None"
proof -
  have k: "code_loadable 0 GD_KT user_segments" "stack_loadable 0 GD_KD user_segments" "cpl user_segments = 3"
      "code_loadable 0 GD_KT kernel_segments" "cpl kernel_segments = 0"
    by (simp_all add: user_segments_def kernel_segments_def descriptor_def loadable_simps gdt_entries_def SEG_def)
  show "gate_fault software T_SYSCALL (idt_init PF SC ts n tt) user_segments = None"
    "gate_fault False T_PGFLT (idt_init PF SC ts n tt) user_segments = None"
    "gate_fault False T_PGFLT (idt_init PF SC ts n tt) kernel_segments = None"
    "gate_fault True T_PGFLT (idt_init PF SC ts n tt) user_segments \<noteq> None"
    using k by (simp_all add: gate_fault_def Let_def idt_init_gates SETGATE_def del: GD_KT_def GD_KD_def)
qed

text \<open>
  C16: exceptions. With the gates of \<^verbatim>\<open>idt_init\<close> a page fault reaches its handler, from the user and from the kernel, and so does the
  system call. Every other exception, of a program or of the kernel, ends in a shutdown of the machine: there is no gate for it, none for the
  fault that this raises, and none for the double fault. A program gets there with any \<open>int n\<close> but the
  system call, too, with \<open>int 14\<close> as well; in particular \<^verbatim>\<open>int3\<close>, the end of its \<^verbatim>\<open>_panic\<close>, never enters the monitor.
\<close>

theorem exceptions_shut_down:
  assumes "\<forall>i. gd_p (idt tt i) = 0"
  shows "let t = idt_init PF SC ts sz tt in
    deliver False T_PGFLT t user_segments = Some T_PGFLT \<and> deliver False T_PGFLT t kernel_segments = Some T_PGFLT \<and>
    deliver True T_SYSCALL t user_segments = Some T_SYSCALL \<and>
    (\<forall>n r. n \<noteq> T_PGFLT \<and> n \<noteq> T_SYSCALL \<longrightarrow> deliver False n t r = None) \<and>
    (\<forall>n. n \<noteq> T_SYSCALL \<longrightarrow> deliver True n t user_segments = None) \<and>
    int3 t lit a tf user_segments s = Stopped Shutdown"
proof -
  let ?t = "idt_init PF SC ts sz tt"
  have p: "gd_p (idt ?t n) = 0" if "n \<noteq> T_PGFLT" "n \<noteq> T_SYSCALL" for n
    using assms that by (simp only: idt_init_gates if_False)
  have none: "deliver software n ?t r = None" if "gate_fault software n ?t r \<noteq> None" for software n r
    by (rule deliver_none [OF that]) (rule p; simp)+
  have n: "deliver software n ?t r = None" if "n \<noteq> T_PGFLT" "n \<noteq> T_SYSCALL" for software n r
    using none gate_present p [OF that] by blast
  have 14: "deliver True T_PGFLT ?t user_segments = None" by (rule none [OF kernel_gate_works(4)])
  have "deliver False T_PGFLT ?t user_segments = Some T_PGFLT" "deliver False T_PGFLT ?t kernel_segments = Some T_PGFLT"
    "deliver True T_SYSCALL ?t user_segments = Some T_SYSCALL"
    unfolding deliver_def kernel_gate_works(1-3) by simp_all
  moreover have "deliver True n ?t user_segments = None" if "n \<noteq> T_SYSCALL" for n
    using n 14 that by (cases "n = T_PGFLT") blast+
  moreover have "int3 ?t lit a tf user_segments s = Stopped Shutdown"
    using n [of T_BRKPT True user_segments] by (simp add: int3_def)
  ultimately show ?thesis using n unfolding Let_def by blast
qed

theorem exceptions_shut_down_witness:
  "let t = idt_init 0xF0100100 0xF0100120 0xF0170000 104 boot_tables in
    deliver False T_DIVIDE t user_segments = None \<and> deliver True 14 t user_segments = None \<and>
    deliver False T_PGFLT t user_segments = Some 14"
proof -
  have "\<forall>i. gd_p (idt boot_tables i) = 0" by (simp add: boot_tables_def)
  from exceptions_shut_down [OF this, of "0xF0100100" "0xF0100120" "0xF0170000" 104] show ?thesis
    by (simp add: Let_def)
qed

text \<open>So the \<^verbatim>\<open>_panic\<close> of a program shuts the machine down, and with it \<^verbatim>\<open>malloc\<close>, \<^verbatim>\<open>freeHeap\<close> and the program \<^verbatim>\<open>fos_alloc\<close>.\<close>

theorem program_panic_shuts_down:
  assumes "\<forall>i. gd_p (idt tt i) = 0" "runs tf s" "u_call u = user_syscall lit a tf" "u_buf u \<noteq> 0" "x \<notin> block (u_buf u) 256" "bytes s x = 0"
    and "u_int3 u = int3 (idt_init PF SC ts sz tt) lit a tf user_segments"
  shows "user_panic u file line fmt args s = Stopped Shutdown" "malloc u file n s = Stopped Shutdown"
    "freeHeap u file s = Stopped Shutdown" "fos_alloc u file s = Stopped Shutdown"
proof -
  let ?t = "idt_init PF SC ts sz tt"
  have p: "gd_p (idt ?t n) = 0" if "n \<noteq> T_PGFLT" "n \<noteq> T_SYSCALL" for n
    using assms(1) that by (simp only: idt_init_gates if_False)
  have "gate_fault True T_BRKPT ?t user_segments \<noteq> None" using gate_present p [of T_BRKPT] by fastforce
  then have "deliver True T_BRKPT ?t user_segments = None" by (rule deliver_none) (rule p; simp)+
  then have "\<forall>s'. runs tf s' \<and> has_nul (bytes s') \<longrightarrow> u_int3 u s' = Stopped Shutdown" by (simp add: assms(7) int3_def)
  note P = assms(2,3) this assms(4-6)
  show "user_panic u file line fmt args s = Stopped Shutdown" "malloc u file n s = Stopped Shutdown"
    "freeHeap u file s = Stopped Shutdown" "fos_alloc u file s = Stopped Shutdown"
    using panic_stops [OF P] allocation_stops [OF P] by blast+
qed

end
