(* ===== verification/FOS_Tlb.thy ===== *)
theory FOS_Tlb
  imports FOS_Program
begin

text \<open>
  The translation lookaside buffer. The processor may keep any translation it has seen until it is told to forget it; the kernel
  tells it with \<^verbatim>\<open>invlpg\<close> (\<^verbatim>\<open>tlb_invalidate\<close>, called by \<^verbatim>\<open>unmap_frame\<close>) or by loading \<^verbatim>\<open>cr3\<close>. The functions that change page tables
  do so often enough: no translation in the buffer is ever stale.
\<close>

section \<open>The buffer\<close>

text \<open>The entry at which the walk for an address ends. The buffer maps page numbers to such entries.\<close>

definition leaf :: "u32 \<Rightarrow> mm_state \<Rightarrow> u32 \<Rightarrow> u32 option" where
  "leaf F m la =
    (let e = pde m F (PDX la) in
     if e AND PERM_PRESENT = 0 then None
     else let p = word_at m (PPN e) (PTX la) in if p AND PERM_PRESENT = 0 then None else Some p)"

lemma walk_leaf: "walk F m la = map_option (\<lambda>p. push_bit 12 (PPN p) OR PGOFF la) (leaf F m la)"
  by (simp add: walk_def leaf_def Let_def)

lemma leaf_page: "PPN la = PPN lb \<Longrightarrow> leaf F m la = leaf F m lb"
  using same_page_iff [of la lb] unfolding leaf_def by metis

type_synonym tlb = "u32 \<Rightarrow> u32 option"

definition coherent :: "u32 \<Rightarrow> mm_state \<Rightarrow> tlb \<Rightarrow> bool" where
  "coherent F m b \<longleftrightarrow> (\<forall>la e. b (PPN la) = Some e \<longrightarrow> leaf F m la = Some e)"

text \<open>The addresses given to \<^verbatim>\<open>invlpg\<close> between two states, and what the processor forgets for them.\<close>

definition flushed :: "mm_state \<Rightarrow> mm_state \<Rightarrow> u32 list" where
  "flushed m m' = take (length (invlpgs m') - length (invlpgs m)) (invlpgs m')"

definition flush :: "u32 list \<Rightarrow> tlb \<Rightarrow> tlb" where
  "flush vas b = (\<lambda>p. if p \<in> PPN ` set vas then None else b p)"

lemma flush_simps [simp]: "flush [] b = b" "flush (va # vas) b = (flush vas b)(PPN va := None)"
  by (auto simp: flush_def)

lemma flushed_simps: "invlpgs m' = invlpgs m \<Longrightarrow> flushed m m' = []" "invlpgs m' = va # invlpgs m \<Longrightarrow> flushed m m' = [va]"
  by (simp_all add: flushed_def)

text \<open>
  Steps of the memory manager on the address space of frame \<open>F\<close>, and of the processor between them. A frame is cleared before it
  is used, while its count is 0; a frame that is mapped is not on the free list. \<open>lose\<close> is what \<^verbatim>\<open>sys_allocate_page\<close> does with its
  frame when there is no memory for a page table.
\<close>

inductive tlb_step :: "u32 \<Rightarrow> mm_state \<times> tlb \<Rightarrow> mm_state \<times> tlb \<Rightarrow> bool" for F where
  fill: "leaf F m la = Some e \<Longrightarrow> tlb_step F (m, b) (m, b(PPN la \<mapsto> e))"
| evict: "tlb_step F (m, b) (m, b(p := None))"
| load_cr3: "tlb_step F (m, b) (m, \<lambda>_. None)"
| take: "allocate_frame m = Inr (r, m') \<Longrightarrow> tlb_step F (m, b) (m', b)"
| clear: "f < number_of_frames m \<Longrightarrow> references m f = 0 \<Longrightarrow> tlb_step F (m, b) (memset_page (kva f) m, b)"
| map_page: "va < USER_TOP \<Longrightarrow> perm < 0x1000 \<Longrightarrow> f < number_of_frames m \<Longrightarrow> references m f \<noteq> 0xFFFF \<Longrightarrow>
    \<forall>fs. dlist (free_frame_list m) fs \<longrightarrow> f \<notin> set fs \<Longrightarrow> map_frame (kva F) f va perm m = Inr (r, m') \<Longrightarrow>
    tlb_step F (m, b) (m', flush (flushed m m') b)"
| lose: "f < number_of_frames m \<Longrightarrow> references m f = 0 \<Longrightarrow> \<forall>fs. dlist (free_frame_list m) fs \<longrightarrow> f \<notin> set fs \<Longrightarrow>
    tlb_step F (m, b) (decrement_references f m, b)"
| unmap_page: "va < USER_TOP \<Longrightarrow> unmap_frame (kva F) va m = Inr m' \<Longrightarrow> tlb_step F (m, b) (m', flush (flushed m m') b)"

section \<open>What a change of the page tables must keep\<close>

definition keeps :: "u32 \<Rightarrow> mm_state \<Rightarrow> mm_state \<Rightarrow> bool" where
  "keeps F m m' \<longleftrightarrow> (\<forall>la e. leaf F m la = Some e \<longrightarrow> leaf F m' la = Some e \<or> PPN la \<in> PPN ` set (flushed m m'))"

lemma coherent_keeps: "keeps F m m' \<Longrightarrow> coherent F m b \<Longrightarrow> coherent F m' (flush (flushed m m') b)"
  by (auto simp: keeps_def coherent_def flush_def split: if_splits)

lemma leaf_user:
  assumes "vm_inv pin F fs m" "PDX la < 955"
  shows "leaf F m la = (let p = pte m F (PDX la) (PTX la) in if p = 0 then None else Some p)"
proof (cases "pde m F (PDX la) = 0")
  case True
  then show ?thesis by (simp add: leaf_def pte_def)
next
  case False
  then show ?thesis
    using vm_inv_table(1) [OF assms False] vm_inv_entry(1) [OF assms PTX_less, of la]
    by (auto simp: leaf_def pte_def Let_def)
qed

lemma leaf_lookup:
  assumes "vm_inv pin F fs m" "va < USER_TOP" "leaf F m va = Some e"
  shows "lookup F m va = Some (PPN e)" "PPN e \<notin> set fs"
proof -
  have i: "PDX va < 955" using assms(2) by (simp only: PDX_user)
  then have e: "pte m F (PDX va) (PTX va) = e" "e \<noteq> 0"
    using assms(3) leaf_user [OF assms(1) i] by (auto simp: Let_def split: if_splits)
  then show "lookup F m va = Some (PPN e)" "PPN e \<notin> set fs"
    using vm_inv_entry(3) [OF assms(1) i PTX_less, of va] by (simp_all add: lookup_def)
qed

lemma keepsI:
  assumes inv: "vm_inv pin F fs m" "vm_inv pin F gs m'" and kt: "kernel_tables pin F m"
    and user: "\<And>i j. i < 955 \<Longrightarrow> j < 1024 \<Longrightarrow> pte m F i j \<noteq> 0 \<Longrightarrow>
      pte m' F i j = pte m F i j \<or> (\<exists>va \<in> set (flushed m m'). PDX va = i \<and> PTX va = j)"
    and dir: "\<And>i. i < 955 \<Longrightarrow> pde m F i \<noteq> 0 \<Longrightarrow> pde m' F i = pde m F i"
    and k: "kernel_kept pin F m m'"
  shows "keeps F m m'" "kernel_tables pin F m'"
proof -
  note top = kernel_entries_kept [OF inv(1) k]
  show "kernel_tables pin F m'" by (rule kernel_tables_kept [OF inv(1) k kt])
  show "keeps F m m'"
    unfolding keeps_def
  proof (intro allI impI)
    fix la e assume l: "leaf F m la = Some e"
    let ?i = "PDX la" and ?j = "PTX la"
    show "leaf F m' la = Some e \<or> PPN la \<in> PPN ` set (flushed m m')"
    proof (cases "?i < 955")
      case True
      then have e: "pte m F ?i ?j = e" "e \<noteq> 0" using l leaf_user [OF inv(1) True] by (auto simp: Let_def split: if_splits)
      then consider "pte m' F ?i ?j = e" | va where "va \<in> set (flushed m m')" "PDX va = ?i" "PTX va = ?j"
        using user [OF True PTX_less, of la] by auto
      then show ?thesis
      proof cases
        case 1
        then show ?thesis using e(2) leaf_user [OF inv(2) True] by simp
      next
        case 2
        then have "PPN la = PPN va" using same_page_iff [of la va] by simp
        then show ?thesis using 2(1) by blast
      qed
    next
      case False
      then have i: "955 \<le> ?i" "?i < 1024" using PDX_less by simp_all
      let ?g = "PPN (pde m F ?i)"
      have p: "pde m F ?i AND PERM_PRESENT \<noteq> 0" "word_at m ?g ?j AND PERM_PRESENT \<noteq> 0" "word_at m ?g ?j = e"
        using l by (auto simp: leaf_def Let_def split: if_splits)
      have "word_at m' ?g ?j = word_at m ?g ?j"
      proof (cases "?g = F")
        case True
        show ?thesis
        proof (cases "?j < 955")
          case j: True
          have "pde m F ?j \<noteq> 0" using p(2) True by (auto simp: pde_def)
          from dir [OF j this] show ?thesis by (simp add: pde_def True [unfolded pde_def])
        next
          case j: False
          then have "pde m' F ?j = pde m F ?j" using PTX_less by (intro top) simp_all
          then show ?thesis by (simp add: pde_def True [unfolded pde_def])
        qed
      next
        case False
        then have "?g < 0x10000" "0 < pin ?g" using kt i p(1) by (auto simp: kernel_tables_def)
        then show ?thesis using k PTX_less False by (simp add: kernel_kept_def)
      qed
      then have "leaf F m' la = Some e" using p top [OF i] by (simp add: leaf_def Let_def)
      then show ?thesis ..
    qed
  qed
qed

section \<open>The operations\<close>

text \<open>A mapping that replaces another flushes it.\<close>

lemma map_frame_flushes:
  assumes inv: "vm_inv pin F fs m" and i: "PDX va < 955" and p: "pte m F (PDX va) (PTX va) \<noteq> 0" "PPN (pte m F (PDX va) (PTX va)) \<noteq> f"
    and f: "f < 0x10000" and run: "map_frame (kva F) f va perm m = Inr (r, m')"
  shows "invlpgs m' = va # invlpgs m"
proof -
  note E = vm_inv_entry [OF inv i PTX_less p(1)]
  obtain u where u: "unmap_frame (kva F) va m = Inr u" "invlpgs u = va # invlpgs m"
    by (rule unmap_frame_some [OF inv i p(1) refl]) blast
  have "PPN (push_bit 12 f) = f" using f by (intro PPN_push_bit) (auto simp: word_less_nat_alt)
  moreover have "PPN (push_bit 12 (PPN (pte m F (PDX va) (PTX va)))) = PPN (pte m F (PDX va) (PTX va))"
    using E(4) by (intro PPN_push_bit) (auto simp: word_less_nat_alt)
  ultimately have n: "EXTRACT_ADDRESS (pte m F (PDX va) (PTX va)) \<noteq> push_bit 12 f"
    using p(2) unfolding EXTRACT_ADDRESS_PPN by metis
  show ?thesis
    using run E(1) n u by (auto simp: map_frame_def get_page_table_hit [OF inv i E(5)] pte_read [OF E(5)] Let_def
        to_physical_address_def to_frame_number_def store_word_def)
qed

lemma map_frame_keeps:
  assumes inv: "vm_inv pin F fs m" and kt: "kernel_tables pin F m" and va: "va < USER_TOP" and perm: "perm < 0x1000"
    and f: "f < number_of_frames m" "references m f \<noteq> 0xFFFF" "f \<notin> set fs" and run: "map_frame (kva F) f va perm m = Inr (r, m')"
  shows "keeps F m m' \<and> kernel_tables pin F m' \<and> (\<exists>gs. vm_inv pin F gs m')"
proof (cases "pde m F (PDX va) = 0 \<and> fs = []")
  case True
  then have "m' = m" using run map_frame_no_mem inv by simp
  then show ?thesis using inv kt by (auto simp: keeps_def)
next
  case False
  then have mem: "pde m F (PDX va) \<noteq> 0 \<or> fs \<noteq> []" by blast
  have i: "PDX va < 955" using va by (simp only: PDX_user)
  have f16: "f < 0x10000" using vm_inv_frames(8) [OF inv f(1)] .
  obtain u gs where u: "map_frame (kva F) f va perm m = Inr (0, u)" "vm_inv pin F gs u"
    and d: "\<And>k. k < 955 \<Longrightarrow> pde u F k = (if k = PDX va \<and> pde m F k = 0 then table_entry (hd fs) else pde m F k)"
    and p: "\<And>k l. k < 955 \<Longrightarrow> l < 1024 \<Longrightarrow> pte u F k l =
      (if k = PDX va \<and> l = PTX va then
         (if pte m F k l \<noteq> 0 \<and> PPN (pte m F k l) = f then pte m F k l else mapped_entry f perm)
       else pte m F k l)"
    by (rule map_frame_step [OF inv i f(1,3,2) perm mem]) blast
  have m': "m' = u" "r = 0" using run u(1) by simp_all
  have user: "pte u F k l = pte m F k l \<or> (\<exists>v \<in> set (flushed m u). PDX v = k \<and> PTX v = l)"
    if "k < 955" "l < 1024" "pte m F k l \<noteq> 0" for k l
  proof (cases "k = PDX va \<and> l = PTX va \<and> PPN (pte m F k l) \<noteq> f")
    case True
    then have n: "pte m F (PDX va) (PTX va) \<noteq> 0" "PPN (pte m F (PDX va) (PTX va)) \<noteq> f" using that(3) by auto
    have "flushed m u = [va]" by (rule flushed_simps(2) [OF map_frame_flushes [OF inv i n f16 u(1)]])
    then show ?thesis using True by simp
  next
    case False
    then show ?thesis using p [OF that(1,2)] that(3) by auto
  qed
  have "keeps F m u" "kernel_tables pin F u"
    using keepsI [OF inv u(2) kt user _ map_frame_kept [OF inv i f(1,3,2) perm u(1)]] d by auto
  then show ?thesis using u(2) m'(1) by blast
qed

lemma unmap_frame_keeps:
  assumes inv: "vm_inv pin F fs m" and kt: "kernel_tables pin F m" and va: "va < USER_TOP" and run: "unmap_frame (kva F) va m = Inr m'"
  shows "keeps F m m' \<and> kernel_tables pin F m' \<and> (\<exists>gs. vm_inv pin F gs m')"
proof -
  have i: "PDX va < 955" using va by (simp only: PDX_user)
  show ?thesis
  proof (cases "pte m F (PDX va) (PTX va) = 0")
    case True
    then have "m' = m" using run unmap_frame_none [OF inv i True] by simp
    then show ?thesis using inv kt by (auto simp: keeps_def)
  next
    case False
    obtain u gs where u: "unmap_frame (kva F) va m = Inr u" "vm_inv pin F gs u" "invlpgs u = va # invlpgs m"
      and d: "\<And>k. k < 955 \<Longrightarrow> pde u F k = pde m F k"
      and p: "\<And>k l. k < 955 \<Longrightarrow> l < 1024 \<Longrightarrow> pte u F k l = (if k = PDX va \<and> l = PTX va then 0 else pte m F k l)"
      by (rule unmap_frame_some [OF inv i False refl]) blast
    have m': "m' = u" using run u(1) by simp
    have "keeps F m u" "kernel_tables pin F u"
      using keepsI [OF inv u(2) kt _ _ unmap_frame_kept [OF inv i u(1)]] d p by (auto simp: flushed_simps(2) [OF u(3)])
    then show ?thesis using u(2) m' by blast
  qed
qed

text \<open>Neither taking a frame nor clearing one that nothing refers to changes a translation.\<close>

lemma same_words_keep:
  assumes inv: "vm_inv pin F fs m" "vm_inv pin F gs m'" and kt: "kernel_tables pin F m"
    and w: "\<And>g j. g < 0x10000 \<Longrightarrow> j < 1024 \<Longrightarrow> g \<noteq> f \<Longrightarrow> word_at m' g j = word_at m g j"
    and f: "f \<noteq> F" "tabs (pde m F) f = {}" "pin f = 0" and n: "number_of_frames m' = number_of_frames m"
  shows "keeps F m m' \<and> kernel_tables pin F m'"
proof -
  have d: "pde m' F i = pde m F i" if "i < 955" for i
    using w [OF vm_inv_frames(3) [OF inv(1)] index_lt [OF that]] f(1) by (auto simp: pde_def)
  have t: "pte m' F i j = pte m F i j" if "i < 955" "j < 1024" for i j
  proof (cases "pde m F i = 0")
    case False
    then have "PPN (pde m F i) \<noteq> f" using f(2) that by (auto simp: tabs_def)
    then show ?thesis using w vm_inv_table(5) [OF inv(1) that(1) False] that d [OF that(1)] by (simp add: pte_def)
  qed (simp add: pte_def d that)
  have "kernel_kept pin F m m'" unfolding kernel_kept_def using w f(3) n by (metis less_irrefl)
  with keepsI [OF inv kt] d t show ?thesis by simp
qed

lemma take_keeps:
  assumes inv: "vm_inv pin F fs m" and kt: "kernel_tables pin F m" and run: "allocate_frame m = Inr (r, m')"
  shows "keeps F m m' \<and> kernel_tables pin F m' \<and> (\<exists>gs. vm_inv pin F gs m') \<and> flushed m m' = []"
proof (cases fs)
  case Nil
  then have "m' = m" using run allocate_frame_empty vm_inv_frames(4) [OF inv] by simp
  then show ?thesis using inv kt by (auto simp: keeps_def flushed_simps)
next
  case (Cons f gs)
  obtain u where u: "allocate_frame m = Inr ((0, Some f), u)" "vm_inv pin F gs u" "kmem u = kmem m"
    "number_of_frames u = number_of_frames m" by (rule allocate_page_frame [OF inv [unfolded Cons]])
  have m': "m' = u" using run u(1) by simp
  have "invlpgs u = invlpgs m" using u(1) by (auto simp: allocate_frame_def initialize_frame_info_def Let_def split: option.splits)
  moreover have "f \<noteq> F" "tabs (pde m F) f = {}" "pin f = 0"
    using vm_inv_frames(5) [OF inv] vm_inv_free [OF inv, of f] Cons by auto
  then have "keeps F m u \<and> kernel_tables pin F u"
    by (intro same_words_keep [OF inv u(2) kt]) (simp_all add: word_at_def u(3,4))
  ultimately show ?thesis using u(2) by (auto simp: m' flushed_simps)
qed

lemma clear_keeps:
  assumes inv: "vm_inv pin F fs m" and kt: "kernel_tables pin F m" and f: "f < number_of_frames m" "references m f = 0"
  shows "keeps F m (memset_page (kva f) m) \<and> kernel_tables pin F (memset_page (kva f) m) \<and>
    vm_inv pin F fs (memset_page (kva f) m) \<and> flushed m (memset_page (kva f) m) = []"
proof -
  let ?m = "memset_page (kva f) m"
  have z: "pin f = 0" "tabs (pde m F) f = {}" "f \<noteq> F" using vm_inv_refs [OF inv f(1)] f(2) inv by (auto simp: vm_inv_def)
  have f16: "f < 0x10000" using vm_inv_frames(8) [OF inv f(1)] .
  have w: "word_at ?m g j = word_at m g j" if "g < 0x10000" "j < 1024" "g \<noteq> f" for g j
    using that f16 by (simp add: view_simps)
  have d: "pde ?m F i = pde m F i" if "i < 955" for i
    using w [OF vm_inv_frames(3) [OF inv] index_lt [OF that]] z(3) by (simp add: pde_def)
  have t: "pte ?m F i j = pte m F i j" if "i < 955" "j < 1024" for i j
    using w [OF _ that(2)] z(2) vm_inv_table(5) [OF inv that(1)] that d [OF that(1)] by (fastforce simp: pte_def tabs_def)
  have v: "vm_inv pin F fs ?m" by (rule vm_inv_cong [OF inv]) (use d t vm_inv_frames(4) [OF inv] in \<open>simp_all add: view_simps\<close>)
  have "invlpgs ?m = invlpgs m" by (simp add: memset_page_def)
  then show ?thesis using same_words_keep [OF inv v kt w z(3,2,1)] v by (simp add: flushed_simps view_simps)
qed

lemma lose_keeps:
  assumes inv: "vm_inv pin F fs m" and kt: "kernel_tables pin F m" and f: "f < number_of_frames m" "references m f = 0" "f \<notin> set fs"
  shows "keeps F m (decrement_references f m) \<and> kernel_tables (pin(f := 0xFFFF)) F (decrement_references f m) \<and>
    vm_inv (pin(f := 0xFFFF)) F fs (decrement_references f m)"
proof -
  let ?m = "decrement_references f m"
  have v: "pde ?m = pde m" "word_at ?m = word_at m" by (simp_all add: fun_eq_iff pde_def view_simps)
  then have "leaf F ?m la = leaf F m la" for la by (simp add: leaf_def Let_def)
  then have "keeps F m ?m" by (simp add: keeps_def)
  moreover have "kernel_tables (pin(f := 0xFFFF)) F ?m" using kt by (auto simp: kernel_tables_def v)
  ultimately show ?thesis using wrapped_count [OF inv f(2,3,1)] by blast
qed

section \<open>No stale translations\<close>

definition tlb_inv :: "u32 \<Rightarrow> mm_state \<times> tlb \<Rightarrow> bool" where
  "tlb_inv F s \<longleftrightarrow> (\<exists>pin fs. vm_inv pin F fs (fst s) \<and> kernel_tables pin F (fst s)) \<and> coherent F (fst s) (snd s)"

lemma tlb_inv_keeps:
  "tlb_inv F (m, b) \<Longrightarrow> keeps F m m' \<Longrightarrow> vm_inv pin F gs m' \<Longrightarrow> kernel_tables pin F m' \<Longrightarrow> tlb_inv F (m', flush (flushed m m') b)"
  using coherent_keeps by (auto simp: tlb_inv_def)

lemma tlb_step_keeps:
  assumes "tlb_step F s t" "tlb_inv F s"
  shows "tlb_inv F t"
  using assms
proof (induction rule: tlb_step.induct)
  case (fill m la e b)
  have "leaf F m lb = Some d" if "(b(PPN la \<mapsto> e)) (PPN lb) = Some d" for lb d
  proof (cases "PPN lb = PPN la")
    case True
    then show ?thesis using that fill.hyps by (simp add: leaf_page [OF True])
  next
    case False
    then show ?thesis using that fill.prems by (simp add: tlb_inv_def coherent_def)
  qed
  then have "coherent F m (b(PPN la \<mapsto> e))" by (simp add: coherent_def)
  then show ?case using fill.prems by (simp add: tlb_inv_def)
next
  case (evict m b p)
  then show ?case by (simp add: tlb_inv_def coherent_def)
next
  case (load_cr3 m b)
  then show ?case by (simp add: tlb_inv_def coherent_def)
next
  case (take m r m' b)
  then obtain pin fs where "vm_inv pin F fs m" "kernel_tables pin F m" by (auto simp: tlb_inv_def)
  from take_keeps [OF this take.hyps] obtain gs where
    k: "keeps F m m'" "kernel_tables pin F m'" "vm_inv pin F gs m'" "flushed m m' = []" by blast
  show ?case using tlb_inv_keeps [OF take.prems k(1,3,2)] by (simp add: k(4))
next
  case (clear f m b)
  then obtain pin fs where "vm_inv pin F fs m" "kernel_tables pin F m" by (auto simp: tlb_inv_def)
  note k = clear_keeps [OF this clear.hyps]
  show ?case using tlb_inv_keeps [OF clear.prems] k by (metis flush_simps(1))
next
  case (map_page va perm f m r m' b)
  then obtain pin fs where v: "vm_inv pin F fs m" "kernel_tables pin F m" by (auto simp: tlb_inv_def)
  then have "f \<notin> set fs" using map_page.hyps(5) vm_inv_frames(4) by blast
  from map_frame_keeps [OF v map_page.hyps(1-4) this map_page.hyps(6)] show ?case using tlb_inv_keeps [OF map_page.prems] by blast
next
  case (lose f m b)
  then obtain pin fs where v: "vm_inv pin F fs m" "kernel_tables pin F m" by (auto simp: tlb_inv_def)
  then have "f \<notin> set fs" using lose.hyps(3) vm_inv_frames(4) by blast
  moreover have "flushed m (decrement_references f m) = []"
    by (rule flushed_simps) (simp add: decrement_references_def free_frame_def Let_def)
  ultimately show ?case using lose_keeps [OF v lose.hyps(1,2)] tlb_inv_keeps [OF lose.prems] by (metis flush_simps(1))
next
  case (unmap_page va m m' b)
  then obtain pin fs where "vm_inv pin F fs m" "kernel_tables pin F m" by (auto simp: tlb_inv_def)
  from unmap_frame_keeps [OF this unmap_page.hyps] show ?case using tlb_inv_keeps [OF unmap_page.prems] by blast
qed

text \<open>\<^verbatim>\<open>sys_allocate_page\<close> is made of these steps, whatever it returns.\<close>

lemma frame_taken_tlb:
  assumes "frame_taken pin F f gs s0 s1 m"
  shows "tlb_step F (s0, b) (s1, b)" "(tlb_step F)\<^sup>*\<^sup>* (s0, b) (m, b)" "invlpgs s1 = invlpgs s0" "invlpgs m = invlpgs s0"
    "\<forall>hs. dlist (free_frame_list m) hs \<longrightarrow> f \<notin> set hs"
proof -
  note a = frame_taken [OF assms]
  show 1: "tlb_step F (s0, b) (s1, b)" by (rule take [OF a(6)])
  have "tlb_step F (s1, b) (m, b)" unfolding a(5) by (rule clear) (use a(2,4) in \<open>simp_all add: a(5) view_simps\<close>)
  with 1 show "(tlb_step F)\<^sup>*\<^sup>* (s0, b) (m, b)" by (meson converse_rtranclp_into_rtranclp r_into_rtranclp)
  show "invlpgs s1 = invlpgs s0" using a(6) by (auto simp: allocate_frame_def initialize_frame_info_def Let_def split: option.splits)
  then show "invlpgs m = invlpgs s0" by (simp add: a(5) memset_page_def)
  show "\<forall>hs. dlist (free_frame_list m) hs \<longrightarrow> f \<notin> set hs"
    using dlist_unique [OF vm_inv_frames(4) [OF a(1)]] a(3) by blast
qed

lemma sys_allocate_page_tlb:
  assumes cur: "curenv s = Some e" "env_pgdir (envs s e) = kva F" and inv: "vm_inv pin F fs (mm s)"
    and run: "sys_allocate_page va perm s = Inr (r, t)"
  shows "(tlb_step F)\<^sup>*\<^sup>* (mm s, b) (mm t, flush (flushed (mm s) (mm t)) b)"
proof (cases rule: sys_allocate_page_outcomes [OF cur inv run])
  case 1
  then show ?thesis by (simp add: flushed_simps)
next
  case (2 f gs s1 m)
  then show ?thesis using frame_taken_tlb(1,3) [OF 2(2)] by (simp add: flushed_simps r_into_rtranclp)
next
  case (3 f s1 m)
  note T = frame_taken_tlb [OF 3(2)]
  note m = frame_taken(4,2) [OF 3(2)]
  have "tlb_step F (m, b) (decrement_references f m, b)" by (rule lose [OF m T(5)])
  note steps = rtranclp.rtrancl_into_rtrancl [where r = "tlb_step F", OF T(2) this]
  have "flushed (mm s) (mm t) = []"
    by (rule flushed_simps) (simp add: 3(3) T(4) decrement_references_def m(2) Let_def)
  with steps show ?thesis by (simp add: 3(3))
next
  case (4 f gs s1 m u)
  note T = frame_taken_tlb [OF 4(2)]
  have "f < number_of_frames m" "references m f \<noteq> 0xFFFF" using frame_taken(2,4) [OF 4(2)] by simp_all
  then have "tlb_step F (m, b) (u, flush (flushed m u) b)" by (rule map_page [OF 4(3,4) _ _ T(5) 4(6)])
  note steps = rtranclp.rtrancl_into_rtrancl [where r = "tlb_step F", OF T(2) this]
  have "flushed (mm s) (mm t) = flushed m u" by (simp add: 4(7) flushed_def T(4))
  with steps show ?thesis by (simp add: 4(7))
qed

text \<open>
  C6: no stale translations. Let the processor fill and drop entries of its buffer at any time, and let the kernel take and clear frames,
  map and unmap pages of the user space (with the memory management functions and the flushes they do) and reload \<^verbatim>\<open>cr3\<close>, in
  any order. Then each translation in the buffer is the one in the tables: what it leads to is the frame mapped at the page
  now, never a frame that was unmapped, replaced or given back.
\<close>

theorem translations_never_stale:
  assumes "(tlb_step F)\<^sup>*\<^sup>* (m, b) (m', b')" "vm_inv pin F fs m" "kernel_tables pin F m" "coherent F m b"
  shows "(\<forall>la e. b' (PPN la) = Some e \<longrightarrow> walk F m' la = Some (push_bit 12 (PPN e) OR PGOFF la)) \<and>
    (\<exists>pin' gs. vm_inv pin' F gs m' \<and>
      (\<forall>va < USER_TOP. \<forall>e. b' (PPN va) = Some e \<longrightarrow> lookup F m' va = Some (PPN e) \<and> PPN e \<notin> set gs))"
proof -
  have "tlb_inv F (m, b)" using assms(2-4) by (auto simp: tlb_inv_def)
  with assms(1) have "tlb_inv F (m', b')" by (induction rule: rtranclp_induct) (auto intro: tlb_step_keeps)
  then obtain pin' gs where v: "vm_inv pin' F gs m'" and c: "coherent F m' b'" by (auto simp: tlb_inv_def)
  have "walk F m' la = Some (push_bit 12 (PPN e) OR PGOFF la)" if "b' (PPN la) = Some e" for la e
    using c that by (simp add: coherent_def walk_leaf)
  moreover have "lookup F m' va = Some (PPN e) \<and> PPN e \<notin> set gs" if "va < USER_TOP" "b' (PPN va) = Some e" for va e
    using c that leaf_lookup [OF v that(1)] by (simp add: coherent_def)
  ultimately show ?thesis using v by blast
qed

text \<open>A page is used, its frame is replaced, and it is used again.\<close>

theorem translations_never_stale_witness:
  "\<exists>m' b'. (tlb_step 1)\<^sup>*\<^sup>* (vm_example, \<lambda>_. None) (m', b') \<and> b' 0 \<noteq> None \<and> lookup 1 m' 0 = Some 6 \<and>
    (\<forall>e. b' 0 = Some e \<longrightarrow> PPN e = 6)"
proof -
  have z: "PDX 0 = 0" "PTX 0 = 0" "PPN 0 = 0" "(0 :: u32) < USER_TOP" by (simp_all add: PDX_def PTX_def PPN_def)
  have l: "leaf 1 vm_example 0 = Some (mapped_entry 4 6)"
    using leaf_user [OF vm_example_inv, of 0] mapped_entry(3) [of 4 6] by (simp add: z vm_example_entries Let_def)
  have r: "map_ready 1 7 vm_example [2, 3] 6 0" by (simp add: map_ready_def vm_example_fields)
  obtain m gs where m: "map_frame (kva 1) 6 0 7 vm_example = Inr (0, m)" "vm_inv vm_example_pin 1 gs m"
    "\<forall>va' < USER_TOP. lookup 1 m va' = (if PPN va' = PPN 0 then Some 6 else lookup 1 vm_example va')"
    using va.map_law [OF vm_example_inv z(4) r] by blast
  have lk: "lookup 1 m 0 = Some 6" using m(3) z(4) by simp
  let ?b = "flush (flushed vm_example m) [PPN 0 \<mapsto> mapped_entry 4 6]"
  obtain e where e: "leaf 1 m 0 = Some e"
    using lk leaf_user [OF m(2), of 0] by (auto simp: lookup_def z split: if_splits)
  have fr: "\<forall>fs. dlist (free_frame_list vm_example) fs \<longrightarrow> 6 \<notin> set fs"
    using dlist_unique [OF vm_inv_frames(4) [OF vm_example_inv]] by fastforce
  have 1: "tlb_step 1 (vm_example, \<lambda>_. None) (vm_example, [PPN 0 \<mapsto> mapped_entry 4 6])" by (rule fill [OF l])
  have 2: "tlb_step 1 (vm_example, [PPN 0 \<mapsto> mapped_entry 4 6]) (m, ?b)"
    by (rule map_page [OF z(4) _ _ _ fr m(1)]) (simp_all add: vm_example_fields)
  have 3: "tlb_step 1 (m, ?b) (m, ?b(PPN 0 \<mapsto> e))" by (rule fill [OF e])
  have steps: "(tlb_step 1)\<^sup>*\<^sup>* (vm_example, \<lambda>_. None) (m, ?b(PPN 0 \<mapsto> e))"
    by (rule converse_rtranclp_into_rtranclp [where r = "tlb_step 1", OF 1], rule converse_rtranclp_into_rtranclp [where r = "tlb_step 1", OF 2],
        rule r_into_rtranclp [where r = "tlb_step 1", OF 3])
  have "pde vm_example 1 i = 0" if "955 \<le> i" "i < 1024" for i
    using that vm_example_word_at [of 1 i] by (auto simp: pde_def)
  then have "kernel_tables vm_example_pin 1 vm_example" by (auto simp: kernel_tables_def)
  moreover have "coherent 1 vm_example (\<lambda>_. None)" by (simp add: coherent_def)
  ultimately have "lookup 1 m 0 = Some (PPN e)"
    using translations_never_stale [OF steps vm_example_inv] z(4) by fastforce
  then show ?thesis using steps lk by (intro exI [of _ m] exI [of _ "?b(PPN 0 \<mapsto> e)"]) (simp add: z(3))
qed

section \<open>What a program reaches through the buffer\<close>

text \<open>A program that runs, with the processor filling and dropping entries in between.\<close>

inductive cached_step :: "(string \<Rightarrow> u32) \<Rightarrow> u32 \<Rightarrow> u32 \<Rightarrow> kernel \<times> tlb \<Rightarrow> kernel \<times> tlb \<Rightarrow> bool" for lit a F where
  program: "program_step lit a F s t \<Longrightarrow> cached_step lit a F (s, b) (t, flush (flushed (mm s) (mm t)) b)"
| refill: "leaf F (mm s) la = Some e \<Longrightarrow> cached_step lit a F (s, b) (s, b(PPN la \<mapsto> e))"
| forget: "cached_step lit a F (s, b) (s, b(p := None))"

lemma program_step_tlb:
  assumes step: "program_step lit a F s t" and inv: "program_inv pin F fs e s"
  shows "(tlb_step F)\<^sup>*\<^sup>* (mm s, b) (mm t, flush (flushed (mm s) (mm t)) b)"
  using step
proof (cases rule: program_step.cases)
  case (writes c)
  then show ?thesis by (simp add: flushed_simps)
next
  case (traps tf tf')
  from trap_effect [OF inv traps] consider "mm t = mm s"
    | va perm q u where "sys_allocate_page va perm (save_frame e tf s) = Inr (q, u)" "mm t = mm u" by blast
  then show ?thesis
  proof cases
    case 1
    then show ?thesis by (simp add: flushed_simps)
  next
    case 2
    then show ?thesis
      using sys_allocate_page_tlb [of "save_frame e tf s" e F pin fs, OF _ _ _ 2(1)] inv by (simp add: program_inv_def)
  qed
qed

lemma tlb_steps_keep: "(tlb_step F)\<^sup>*\<^sup>* s t \<Longrightarrow> tlb_inv F s \<Longrightarrow> tlb_inv F t"
  by (induction rule: rtranclp_induct) (auto intro: tlb_step_keeps)

lemma cached_steps_keep:
  assumes "(cached_step lit a F)\<^sup>*\<^sup>* x y" "program_inv pin F fs e (fst x)" "tlb_inv F (mm (fst x), snd x)"
  shows "(program_step lit a F)\<^sup>*\<^sup>* (fst x) (fst y) \<and> tlb_inv F (mm (fst y), snd y)"
  using assms(1)
proof (induction rule: rtranclp_induct)
  case base
  show ?case using assms(3) by simp
next
  case (step y z)
  obtain pin' gs where inv: "program_inv pin' F gs e (fst y)" using program_steps_keep [OF _ assms(2)] step.IH by blast
  from step.hyps(2) show ?case
  proof (cases rule: cached_step.cases)
    case (program s t b)
    have "tlb_inv F (mm t, flush (flushed (mm s) (mm t)) b)"
      by (rule tlb_steps_keep [OF program_step_tlb]) (use program inv step.IH in auto)
    then show ?thesis using program step.IH by auto
  next
    case (refill s la e' b)
    have "tlb_inv F (mm s, b(PPN la \<mapsto> e'))" by (rule tlb_step_keeps [OF fill [OF refill(3)]]) (use refill step.IH in simp)
    then show ?thesis using step.IH unfolding refill(1,2) fst_conv snd_conv by blast
  next
    case (forget s b p)
    have "tlb_inv F (mm s, b(p := None))" by (rule tlb_step_keeps [OF evict]) (use forget step.IH in simp)
    then show ?thesis using step.IH unfolding forget fst_conv snd_conv by blast
  qed
qed

text \<open>
  The confinement of programs holds with the buffer, too: a page of the user space that the buffer translates leads to a frame of the pool that
  the program had when it started, and neither to its directory nor to a page table.
\<close>

theorem program_reaches_pool:
  assumes "(cached_step lit a F)\<^sup>*\<^sup>* (s, b) (t, b')" "vm_inv pin F fs (mm s)" "isolated F (mm s)" "kernel_tables pin F (mm s)"
    and "curenv s = Some e" "env_status (envs s e) = ENV_RUNNABLE" "env_pgdir (envs s e) = kva F" "coherent F (mm s) b"
    and "va < USER_TOP" "b' (PPN va) = Some p"
  shows "PPN p \<in> pool F fs (mm s) \<and> PPN p \<noteq> F \<and> tabs (pde (mm t) F) (PPN p) = {}"
proof -
  have inv: "program_inv pin F fs e s" using assms(2,3,5-7) by (simp add: program_inv_def)
  have "tlb_inv F (mm s, b)" using assms(2,4,8) by (auto simp: tlb_inv_def)
  with cached_steps_keep [OF assms(1)] inv have steps: "(program_step lit a F)\<^sup>*\<^sup>* s t" and c: "coherent F (mm t) b'"
    by (auto simp: tlb_inv_def)
  obtain pin' gs where t: "program_inv pin' F gs e t" "within_pool F fs (mm s) gs (mm t)"
    using program_steps_keep [OF steps inv] by blast
  then have v: "vm_inv pin' F gs (mm t)" "isolated F (mm t)" by (simp_all add: program_inv_def)
  have "lookup F (mm t) va = Some (PPN p)"
    using leaf_lookup(1) [OF v(1) assms(9)] c assms(10) by (simp add: coherent_def)
  then have "maps (pte (mm t) F) (PPN p) \<noteq> {}" by (rule lookup_maps [OF assms(9)])
  then show ?thesis using v(2) t(2) by (auto simp: isolated_def within_pool_def pool_def)
qed

end
