(* ===== verification/FOS_X86.thy ===== *)
theory FOS_X86
  imports FOS_Exceptions FOS_Tlb
begin

text \<open>
  The wrappers of \<^verbatim>\<open>inc/x86.h\<close> around single instructions that no other part of the kernel calls: string input and output,
  wide ports, flags, the remaining registers, and the buffer of translations. Those that are called stand with their components
  (\<^verbatim>\<open>inb\<close>, \<^verbatim>\<open>outb\<close>, \<^verbatim>\<open>insl\<close>, \<^verbatim>\<open>outw\<close>, \<^verbatim>\<open>invlpg\<close>, \<^verbatim>\<open>ltr\<close> and the control registers 0, 2 and 3).
\<close>

section \<open>The processor\<close>

text \<open>
  What the kernel's state lacks: the flags, stack registers, \<open>cr4\<close>, the register of the interrupt table and the buffer; devices that
  answer 16- and 32-bit reads from a script; the time-stamp counter at each reading, and the answers of \<^verbatim>\<open>cpuid\<close>.
\<close>

record processor = kernel +
  eflags :: u32
  ebp :: u32
  esp :: u32
  cr4 :: u32
  idtr :: Pseudodesc
  buffer :: tlb
  script16 :: "u16 \<Rightarrow> nat \<Rightarrow> u16"
  reads16 :: "u16 \<Rightarrow> nat"
  writes16 :: "(u16 \<times> u16) list"
  script32 :: "u16 \<Rightarrow> nat \<Rightarrow> u32"
  reads32 :: "u16 \<Rightarrow> nat"
  writes32 :: "(u16 \<times> u32) list"
  time_stamp :: "nat \<Rightarrow> 64 word"
  stamps_read :: nat
  leaves :: "u32 \<Rightarrow> u32 \<times> u32 \<times> u32 \<times> u32"

definition put16 :: "u32 \<Rightarrow> u16 \<Rightarrow> bmem \<Rightarrow> bmem" where
  "put16 a v m = m(a := ucast v, a + 1 := ucast (drop_bit 8 v))"

definition put32 :: "u32 \<Rightarrow> u32 \<Rightarrow> bmem \<Rightarrow> bmem" where
  "put32 a v m = m(a := ucast v, a + 1 := ucast (drop_bit 8 v), a + 2 := ucast (drop_bit 16 v), a + 3 := ucast (drop_bit 24 v))"

section \<open>Flags\<close>

definition FL_CF :: u32 where [simp]: "FL_CF = 0x00000001"
definition FL_PF :: u32 where [simp]: "FL_PF = 0x00000004"
definition FL_AF :: u32 where [simp]: "FL_AF = 0x00000010"
definition FL_ZF :: u32 where [simp]: "FL_ZF = 0x00000040"
definition FL_SF :: u32 where [simp]: "FL_SF = 0x00000080"
definition FL_TF :: u32 where [simp]: "FL_TF = 0x00000100"
definition FL_DF :: u32 where [simp]: "FL_DF = 0x00000400"
definition FL_OF :: u32 where [simp]: "FL_OF = 0x00000800"
definition FL_NT :: u32 where [simp]: "FL_NT = 0x00004000"
definition FL_RF :: u32 where [simp]: "FL_RF = 0x00010000"
definition FL_VM :: u32 where [simp]: "FL_VM = 0x00020000"
definition FL_AC :: u32 where [simp]: "FL_AC = 0x00040000"
definition FL_VIF :: u32 where [simp]: "FL_VIF = 0x00080000"
definition FL_VIP :: u32 where [simp]: "FL_VIP = 0x00100000"
definition FL_ID :: u32 where [simp]: "FL_ID = 0x00200000"

text \<open>The flags that \<open>popf\<close> loads at a level: the I/O level only at level 0, the interrupt flag only at a level up to the I/O level.\<close>

definition popf_mask :: "u16 \<Rightarrow> u16 \<Rightarrow> u32" where
  "popf_mask level io =
    FL_CF OR FL_PF OR FL_AF OR FL_ZF OR FL_SF OR FL_TF OR FL_DF OR FL_OF OR FL_NT OR FL_AC OR FL_ID OR
    (if level = 0 then FL_IOPL_MASK else 0) OR (if level \<le> io then FL_IF else 0)"

text \<open>\<open>pushf\<close> does not push the flags \<open>VM\<close> and \<open>RF\<close>; \<open>popf\<close> clears \<open>RF\<close>, and bit 1 is always set.\<close>

definition read_eflags :: "processor \<Rightarrow> u32" where
  "read_eflags s = eflags s AND NOT (FL_VM OR FL_RF)"

definition write_eflags :: "u32 \<Rightarrow> processor \<Rightarrow> processor" where
  "write_eflags val s =
    (let p = popf_mask (cpl (segment_regs s)) (iopl (eflags s)) in
     s\<lparr>eflags := (val AND p) OR (eflags s AND NOT (p OR FL_RF)) OR 2\<rparr>)"

definition cld :: "processor \<Rightarrow> processor" where
  "cld s = s\<lparr>eflags := eflags s AND NOT FL_DF\<rparr>"

lemma cld_fields [simp]: "con (cld s) = con s" "bytes (cld s) = bytes s"
  by (cases s; simp add: cld_def)+

section \<open>Ports\<close>

text \<open>The string instructions repeat \<open>ecx\<close> times, upwards because the direction flag is cleared first.\<close>

fun ins_bytes :: "u16 \<Rightarrow> u32 \<Rightarrow> nat \<Rightarrow> processor \<Rightarrow> processor" where
  "ins_bytes port addr 0 s = s"
| "ins_bytes port addr (Suc n) s =
    (case inb port (con s) of (v, c) \<Rightarrow> ins_bytes port (addr + 1) n (s\<lparr>con := c, bytes := (bytes s)(addr := v)\<rparr>))"

definition insb :: "u16 \<Rightarrow> u32 \<Rightarrow> u32 \<Rightarrow> processor \<Rightarrow> processor" where
  "insb port addr count s = ins_bytes port addr (unat count) (cld s)"

definition inw :: "u16 \<Rightarrow> processor \<Rightarrow> u16 \<times> processor" where
  "inw port s = (script16 s port (reads16 s port), s\<lparr>reads16 := (reads16 s)(port := reads16 s port + 1)\<rparr>)"

fun ins_words :: "u16 \<Rightarrow> u32 \<Rightarrow> nat \<Rightarrow> processor \<Rightarrow> processor" where
  "ins_words port addr 0 s = s"
| "ins_words port addr (Suc n) s =
    (case inw port s of (v, s) \<Rightarrow> ins_words port (addr + 2) n (s\<lparr>bytes := put16 addr v (bytes s)\<rparr>))"

definition insw :: "u16 \<Rightarrow> u32 \<Rightarrow> u32 \<Rightarrow> processor \<Rightarrow> processor" where
  "insw port addr count s = ins_words port addr (unat count) (cld s)"

definition inl :: "u16 \<Rightarrow> processor \<Rightarrow> u32 \<times> processor" where
  "inl port s = (script32 s port (reads32 s port), s\<lparr>reads32 := (reads32 s)(port := reads32 s port + 1)\<rparr>)"

fun outs_bytes :: "u16 \<Rightarrow> u32 \<Rightarrow> nat \<Rightarrow> processor \<Rightarrow> processor" where
  "outs_bytes port addr 0 s = s"
| "outs_bytes port addr (Suc n) s = outs_bytes port (addr + 1) n (s\<lparr>con := outb port (bytes s addr) (con s)\<rparr>)"

definition outsb :: "u16 \<Rightarrow> u32 \<Rightarrow> u32 \<Rightarrow> processor \<Rightarrow> processor" where
  "outsb port addr count s = outs_bytes port addr (unat count) (cld s)"

definition out16 :: "u16 \<Rightarrow> u16 \<Rightarrow> processor \<Rightarrow> processor" where
  "out16 port data s = s\<lparr>writes16 := (port, data) # writes16 s\<rparr>"

fun outs_words :: "u16 \<Rightarrow> u32 \<Rightarrow> nat \<Rightarrow> processor \<Rightarrow> processor" where
  "outs_words port addr 0 s = s"
| "outs_words port addr (Suc n) s = outs_words port (addr + 2) n (out16 port (load16 (bytes s) addr) s)"

definition outsw :: "u16 \<Rightarrow> u32 \<Rightarrow> u32 \<Rightarrow> processor \<Rightarrow> processor" where
  "outsw port addr count s = outs_words port addr (unat count) (cld s)"

definition outl :: "u16 \<Rightarrow> u32 \<Rightarrow> processor \<Rightarrow> processor" where
  "outl port data s = s\<lparr>writes32 := (port, data) # writes32 s\<rparr>"

fun outs_longs :: "u16 \<Rightarrow> u32 \<Rightarrow> nat \<Rightarrow> processor \<Rightarrow> processor" where
  "outs_longs port addr 0 s = s"
| "outs_longs port addr (Suc n) s = outs_longs port (addr + 4) n (outl port (load32 (bytes s) addr) s)"

definition outsl :: "u16 \<Rightarrow> u32 \<Rightarrow> u32 \<Rightarrow> processor \<Rightarrow> processor" where
  "outsl port addr count s = outs_longs port addr (unat count) (cld s)"

section \<open>Registers\<close>

definition lidt :: "u32 \<Rightarrow> processor \<Rightarrow> processor" where
  "lidt p s = s\<lparr>idtr := \<lparr>pd_lim = load16 (bytes s) p, pd_base = load32 (bytes s) (p + 2)\<rparr>\<rparr>"

definition lldt :: "u16 \<Rightarrow> processor \<Rightarrow> processor" where
  "lldt sel s = s\<lparr>segment_regs := seg_exec (Lldt sel) (segment_regs s)\<rparr>"

definition lcr4 :: "u32 \<Rightarrow> processor \<Rightarrow> processor" where [simp]: "lcr4 val s = s\<lparr>cr4 := val\<rparr>"
definition rcr4 :: "processor \<Rightarrow> u32" where [simp]: "rcr4 s = cr4 s"
definition read_ebp :: "processor \<Rightarrow> u32" where "read_ebp s = ebp s"
definition read_esp :: "processor \<Rightarrow> u32" where "read_esp s = esp s"

text \<open>A load of \<open>cr3\<close> empties the buffer.\<close>

definition tlbflush :: "processor \<Rightarrow> processor" where
  "tlbflush s = (let v = rcr3 s in (lcr3 v s)\<lparr>buffer := (\<lambda>_. None)\<rparr>)"

definition cpuid :: "u32 \<Rightarrow> u32 \<Rightarrow> u32 \<Rightarrow> u32 \<Rightarrow> u32 \<Rightarrow> processor \<Rightarrow> processor" where
  "cpuid info eaxp ebxp ecxp edxp s =
    (case leaves s info of (eax, ebx, ecx, edx) \<Rightarrow>
      let s = (if eaxp \<noteq> 0 then s\<lparr>bytes := put32 eaxp eax (bytes s)\<rparr> else s);
          s = (if ebxp \<noteq> 0 then s\<lparr>bytes := put32 ebxp ebx (bytes s)\<rparr> else s);
          s = (if ecxp \<noteq> 0 then s\<lparr>bytes := put32 ecxp ecx (bytes s)\<rparr> else s)
      in if edxp \<noteq> 0 then s\<lparr>bytes := put32 edxp edx (bytes s)\<rparr> else s)"

definition read_tsc :: "processor \<Rightarrow> 64 word \<times> processor" where
  "read_tsc s = (time_stamp s (stamps_read s), s\<lparr>stamps_read := stamps_read s + 1\<rparr>)"

definition breakpoint :: "trap_tables \<Rightarrow> (string \<Rightarrow> u32) \<Rightarrow> u32 \<Rightarrow> Trapframe \<Rightarrow> kernel \<Rightarrow> unit outcome" where
  "breakpoint t lit a tf s = int3 t lit a tf (segment_regs s) s"

section \<open>What they do\<close>

lemma step_address:
  fixes a addr :: u32
  assumes "n < 2 ^ 32"
  shows "unat (a - addr) < Suc n \<longleftrightarrow> a = addr \<or> unat (a - (addr + 1)) < n"
    and "a \<noteq> addr \<Longrightarrow> unat (a - addr) = Suc (unat (a - (addr + 1)))"
proof -
  define d where "d = a - addr"
  have e: "a - (addr + 1) = d - 1" "a = addr \<longleftrightarrow> d = 0" by (simp_all add: d_def)
  show 2: "unat (a - addr) = Suc (unat (a - (addr + 1)))" if "a \<noteq> addr"
    using that unat_minus_one [of d] unat_gt_0 [of d] by (simp add: e d_def [symmetric])
  show "unat (a - addr) < Suc n \<longleftrightarrow> a = addr \<or> unat (a - (addr + 1)) < n"
    using 2 by (cases "a = addr") simp_all
qed

lemma ins_bytes_eq:
  "n \<le> 2 ^ 32 \<Longrightarrow> ins_bytes port addr n s =
    s\<lparr>con := (con s)\<lparr>reads := (reads (con s))(port := reads (con s) port + n)\<rparr>,
      bytes := (\<lambda>a. if unat (a - addr) < n then script (con s) port (reads (con s) port + unat (a - addr)) else bytes s a)\<rparr>"
proof (induction n arbitrary: addr s)
  case 0
  then show ?case by simp
next
  case (Suc n)
  then have n: "n < 2 ^ 32" by simp
  note S = step_address [OF n]
  have IH: "ins_bytes port (addr + 1) n t =
    t\<lparr>con := (con t)\<lparr>reads := (reads (con t))(port := reads (con t) port + n)\<rparr>,
      bytes := (\<lambda>a. if unat (a - (addr + 1)) < n then script (con t) port (reads (con t) port + unat (a - (addr + 1))) else bytes t a)\<rparr>" for t
    by (rule Suc.IH) (use n in simp)
  have b: "(if unat (a - (addr + 1)) < n then script c port (Suc (r + unat (a - (addr + 1))))
       else if a = addr then script c port r else m a) =
      (if unat (a - addr) < Suc n then script c port (r + unat (a - addr)) else m a)" for c :: console and r a m
  proof (cases "a = addr")
    case True
    have "unat (- 1 :: u32) = 2 ^ 32 - 1" by (simp add: unat_minus_1)
    then have "\<not> unat (a - (addr + 1)) < n" using n True by simp
    then show ?thesis using True by simp
  next
    case False
    then show ?thesis using S [of a addr] by simp
  qed
  show ?case unfolding ins_bytes.simps inb_def prod.case by (subst IH) (simp add: b cong: if_cong)
qed

lemma outs_bytes_eq:
  "outs_bytes port addr n s =
    s\<lparr>con := (con s)\<lparr>writes := rev (map (\<lambda>i. (port, bytes s (addr + of_nat i))) [0..<n]) @ writes (con s)\<rparr>\<rparr>"
proof (induction n arbitrary: addr s)
  case 0
  then show ?case by simp
next
  case (Suc n)
  have m: "map (\<lambda>i. (port, m (addr + of_nat i))) [0..<Suc n] = (port, m addr) # map (\<lambda>i. (port, m (addr + 1 + of_nat i))) [0..<n]"
    for m :: bmem by (simp add: upt_conv_Cons map_Suc_upt [symmetric] add.assoc del: upt_Suc)
  show ?case by (simp add: outb_def Suc m del: upt_Suc)
qed

text \<open>
  A program cannot give itself interrupts or ports: at level 3, with the I/O level 0 of a new environment, \<^verbatim>\<open>write_eflags\<close> leaves the interrupt
  flag and the I/O level alone. The kernel, at level 0, sets every flag it reads back, but bit 1 and the flags of virtual 8086 mode.
\<close>

theorem flags_protected:
  "cpl (segment_regs s) = 3 \<Longrightarrow> iopl (eflags s) = 0 \<Longrightarrow>
    eflags (write_eflags val s) AND (FL_IF OR FL_IOPL_MASK) = eflags s AND (FL_IF OR FL_IOPL_MASK)"
  "cpl (segment_regs s) = 0 \<Longrightarrow> read_eflags (write_eflags val s) AND popf_mask 0 0 = val AND popf_mask 0 0"
proof -
  show "eflags (write_eflags val s) AND (FL_IF OR FL_IOPL_MASK) = eflags s AND (FL_IF OR FL_IOPL_MASK)"
    if "cpl (segment_regs s) = 3" "iopl (eflags s) = 0"
    using that by (simp add: write_eflags_def popf_mask_def Let_def bit.conj_disj_distrib2 and.assoc)
  show "read_eflags (write_eflags val s) AND popf_mask 0 0 = val AND popf_mask 0 0" if "cpl (segment_regs s) = 0"
    using that by (simp add: read_eflags_def write_eflags_def popf_mask_def Let_def bit.conj_disj_distrib2 and.assoc)
qed

text \<open>
  String input stores the next bytes that the device gives, one per address and nothing else; string output sends the bytes of the memory in
  order. \<^verbatim>\<open>tlbflush\<close> only empties the buffer, after which it is coherent with any tables.
\<close>

theorem string_ports_correct:
  "bytes (insb port addr count s) =
    (\<lambda>a. if a - addr < count then script (con s) port (reads (con s) port + unat (a - addr)) else bytes s a)"
  "writes (con (outsb port addr count s)) = rev (map (\<lambda>i. (port, bytes s (addr + of_nat i))) [0..<unat count]) @ writes (con s)"
  "bytes (outsb port addr count s) = bytes s"
proof -
  have "unat count \<le> 2 ^ 32" using unat_u32_less [of count] by simp
  then show "bytes (insb port addr count s) =
    (\<lambda>a. if a - addr < count then script (con s) port (reads (con s) port + unat (a - addr)) else bytes s a)"
    by (simp add: insb_def ins_bytes_eq word_less_nat_alt cong: if_cong)
qed (simp_all add: outsb_def outs_bytes_eq)

lemma tlbflush_coherent: "tlbflush s = s\<lparr>buffer := (\<lambda>_. None)\<rparr>" "coherent F m (buffer (tlbflush s))"
  by (simp_all add: tlbflush_def coherent_def)

end
