(* ===== verification/Spec2Isabelle.thy ===== *)
theory Spec2Isabelle
  imports FOS_Create FOS_KDebug FOS_Loader FOS_Session FOS_X86
begin

text \<open>
  FOS is a teaching kernel for the 32-bit x86. This development models its C code function by function
  and proves what makes each part correct.

  \<^bold>\<open>The program.\<close> The boot loader (\<^verbatim>\<open>boot/main.c\<close>) reads the kernel image from the disk and jumps to it. The boot code (\<^verbatim>\<open>kern/init.c\<close>)
  sets up the console (\<^verbatim>\<open>kern/console.c\<close>), asks the clock chip how much memory there is (\<^verbatim>\<open>kern/kclock.c\<close>, \<^verbatim>\<open>kern/helpers.c\<close>), builds the
  kernel's page tables and turns paging on (\<^verbatim>\<open>kern/memory_manager.c\<close>, \<^verbatim>\<open>kern/helpers.c\<close>), puts the free frames on a list, tests itself
  (\<^verbatim>\<open>page_check\<close>), sets up environments and gates, and runs the command prompt (\<^verbatim>\<open>kern/command_prompt.c\<close>). That reads lines
  (\<^verbatim>\<open>lib/readline.c\<close>), splits them (\<^verbatim>\<open>lib/string.c\<close>) and calls a handler. A handler may run a user program (\<^verbatim>\<open>kern/user_environment.c\<close>); the
  program, linked with the user library (\<^verbatim>\<open>lib/\<close>), comes back through traps and system calls (\<^verbatim>\<open>kern/trap.c\<close>, \<^verbatim>\<open>kern/syscall.c\<close>). All output
  goes through the formatter \<^verbatim>\<open>lib/printfmt.c\<close>.

  \<^bold>\<open>Theories.\<close>
  \<^item> \<^verbatim>\<open>FOS_Prelude\<close>: words, loops with an option result, the sum type \<^verbatim>\<open>res\<close> for errors, byte memory and strings.
  \<^item> \<^verbatim>\<open>FOS_Mmu\<close>: \<^verbatim>\<open>inc/mmu.h\<close>, \<^verbatim>\<open>inc/memlayout.h\<close>, \<^verbatim>\<open>inc/types.h\<close>: address fields, entries, rounding, descriptors.
  \<^item> \<^verbatim>\<open>FOS_Cpu\<close>: the descriptor tables \<^verbatim>\<open>gdt\<close> and \<^verbatim>\<open>mygdt\<close>, segment registers, the instructions that load them and when they are allowed; the task
    state of \<^verbatim>\<open>inc/mmu.h\<close> and when the processor permits a port.
  \<^item> \<^verbatim>\<open>FOS_Queue\<close>: the list macros of \<^verbatim>\<open>inc/queue.h\<close>; the locale \<^verbatim>\<open>free_list\<close> states their contract on sequences.
  \<^item> \<^verbatim>\<open>FOS_Frames\<close>: \<^verbatim>\<open>struct Frame_Info\<close>, \<^verbatim>\<open>allocate_frame\<close>, \<^verbatim>\<open>free_frame\<close>, \<^verbatim>\<open>decrement_references\<close>, \<^verbatim>\<open>initialize_paging\<close>.
  \<^item> \<^verbatim>\<open>FOS_Paging\<close>: \<^verbatim>\<open>get_page_table\<close>, \<^verbatim>\<open>map_frame\<close>, \<^verbatim>\<open>unmap_frame\<close>, \<^verbatim>\<open>check_va2pa\<close>; the invariant \<^verbatim>\<open>vm_inv\<close> (reference counts
    equal the number of mappings); the locale \<^verbatim>\<open>address_space\<close>, a partial map from pages to frames.
  \<^item> \<^verbatim>\<open>FOS_Boot\<close>: \<^verbatim>\<open>initialize_kernel_VM\<close> with the boot allocator, the boot page tables, their check and \<^verbatim>\<open>turn_on_paging\<close>.
  \<^item> \<^verbatim>\<open>FOS_String\<close>, \<^verbatim>\<open>FOS_Printfmt\<close>: \<^verbatim>\<open>lib/string.c\<close>, \<^verbatim>\<open>lib/printfmt.c\<close>, \<^verbatim>\<open>lib/printf.c\<close>, \<^verbatim>\<open>kern/printf.c\<close>; the locale \<^verbatim>\<open>char_sink\<close> is what
    the formatter needs of a sink.
  \<^item> \<^verbatim>\<open>FOS_IO\<close>, \<^verbatim>\<open>FOS_Console\<close>: port instructions of \<^verbatim>\<open>inc/x86.h\<close>, \<^verbatim>\<open>kern/kclock.c\<close>, \<^verbatim>\<open>detect_memory\<close>, \<^verbatim>\<open>kern/console.c\<close>; the ring buffer of
    the console implements the locale \<^verbatim>\<open>fifo\<close>.
  \<^item> \<^verbatim>\<open>FOS_Kernel\<close>: the state of the whole kernel, the control registers, \<^verbatim>\<open>cprintf\<close>, and the ways a routine can give up control.
  \<^item> \<^verbatim>\<open>FOS_Env\<close>: \<^verbatim>\<open>kern/user_environment.c\<close> and \<^verbatim>\<open>envid2env\<close> of \<^verbatim>\<open>kern/helpers.c\<close>, ELF headers of \<^verbatim>\<open>inc/elf.h\<close>; the locale \<^verbatim>\<open>handle_table\<close>
    is the contract of the identifiers of environments.
  \<^item> \<^verbatim>\<open>FOS_Syscall\<close>, \<^verbatim>\<open>FOS_Trap\<close>: \<^verbatim>\<open>kern/syscall.c\<close>, \<^verbatim>\<open>kern/trap.c\<close>, \<^verbatim>\<open>lib/syscall.c\<close>.
  \<^item> \<^verbatim>\<open>FOS_Readline\<close>, \<^verbatim>\<open>FOS_Prompt\<close>: \<^verbatim>\<open>lib/readline.c\<close>, \<^verbatim>\<open>kern/command_prompt.c\<close>; the locale \<^verbatim>\<open>terminal\<close> is what the line editor needs.
  \<^item> \<^verbatim>\<open>FOS_PageCheck\<close>, \<^verbatim>\<open>FOS_Init\<close>: \<^verbatim>\<open>page_check\<close> of \<^verbatim>\<open>kern/helpers.c\<close>; \<^verbatim>\<open>kern/init.c\<close>, from the reset of the machine to the prompt.
  \<^item> \<^verbatim>\<open>FOS_Session\<close>: lines at the prompt as a step relation on the state of the kernel, and its invariant over sessions.
  \<^item> \<^verbatim>\<open>FOS_Protection\<close>: how addresses are translated while \<^verbatim>\<open>turn_on_paging\<close> runs, \<^verbatim>\<open>env_pop_tf\<close>, and what a program may do with the
    segments, gates and ports it gets.
  \<^item> \<^verbatim>\<open>FOS_Program\<close>: a running program as a step relation (writes and traps), and what all its steps leave unchanged.
  \<^item> \<^verbatim>\<open>FOS_Tlb\<close>: the translation lookaside buffer, and that the flushes of \<^verbatim>\<open>kern/memory_manager.c\<close> keep it coherent with the tables.
  \<^item> \<^verbatim>\<open>FOS_Create\<close>: the code of \<^verbatim>\<open>env_create\<close> behind its panic: it loads the segments of an image and makes the stack.
  \<^item> \<^verbatim>\<open>FOS_KDebug\<close>: \<^verbatim>\<open>kern/kdebug.c\<close> on the symbol table of \<^verbatim>\<open>inc/stab.h\<close>.
  \<^item> \<^verbatim>\<open>FOS_Loader\<close>: \<^verbatim>\<open>boot/main.c\<close>.
  \<^item> \<^verbatim>\<open>FOS_User\<close>: the user library (\<^verbatim>\<open>lib/console.c\<close>, \<^verbatim>\<open>lib/exit.c\<close>, \<^verbatim>\<open>lib/libmain.c\<close>, \<^verbatim>\<open>lib/panic.c\<close>, \<^verbatim>\<open>lib/malloc.c\<close>, the user side of
    \<^verbatim>\<open>lib/printf.c\<close> and \<^verbatim>\<open>lib/readline.c\<close>) and the programs of \<^verbatim>\<open>user/\<close>; the locale \<^verbatim>\<open>program_calls\<close> is the system calls a program relies
    on, and a \<^verbatim>\<open>terminal\<close> for the same line editor.
  \<^item> \<^verbatim>\<open>FOS_Exceptions\<close>: which exceptions the gates of \<^verbatim>\<open>idt_init\<close> deliver, and what becomes of the others.
  \<^item> \<^verbatim>\<open>FOS_X86\<close>: the wrappers of \<^verbatim>\<open>inc/x86.h\<close> that nothing calls, on a processor with flags, wide ports and the buffer.

  \<^bold>\<open>State.\<close> A pointer to a structure in an array is its index, null is \<^verbatim>\<open>None\<close>. The memory of the machine is split in two
  views: \<^verbatim>\<open>kmem\<close>, the words of page directories and page tables, and \<^verbatim>\<open>bytes\<close>, the memory with strings, lines and
  program images; no function of the kernel means to write the same storage through both. The command \<^verbatim>\<open>wum\<close> writes any address: in
  the model it writes \<^verbatim>\<open>bytes\<close>, so a \<^verbatim>\<open>wum\<close> into a page table is outside the model. The devices answer reads from an arbitrary
  script (\<^verbatim>\<open>io\<close>), so a property of the console holds for all devices. Machine integers are words of their width and
  wrap around; \<^verbatim>\<open>int\<close> is used where a C \<^verbatim>\<open>int\<close> is only compared or returned as an error code. Error codes are the negative
  numbers of \<^verbatim>\<open>inc/error.h\<close>, so the code's \<^verbatim>\<open>-E_INVAL\<close> is +3, as in the program. A local array or variable whose address is taken
  lives at an address that is a parameter.

  \<^bold>\<open>Control.\<close> A function that can panic, fail an assertion or follow null returns \<^verbatim>\<open>Inl\<close> of a \<^verbatim>\<open>stop\<close>; a routine that can
  enter user mode or the prompt returns an \<^verbatim>\<open>outcome\<close>. A loop that need not end is a \<^verbatim>\<open>partial_function\<close> whose value is
  \<^verbatim>\<open>None\<close> (the stop \<^verbatim>\<open>Endless\<close>) when it does not; no fuel is used. What such a loop returns is proved as \<^verbatim>\<open>Some\<close>: for the
  formatter under the hypothesis that memory holds a NUL somewhere (\<^verbatim>\<open>has_nul\<close>), for \<^verbatim>\<open>readline\<close> when a whole line is
  pending. All other recursions are total functions. \<^verbatim>\<open>turn_on_paging\<close> is the list of its steps, because a property is about the states between
  them.

  \<^bold>\<open>Lemmas.\<close> Each theory proves its data invariants first (\<^verbatim>\<open>dlist\<close>, \<^verbatim>\<open>vm_inv\<close>, \<^verbatim>\<open>boot_inv\<close>, \<^verbatim>\<open>boot_dirs\<close>, \<^verbatim>\<open>env_inv\<close>,
  \<^verbatim>\<open>type_ahead\<close>), then that every operation keeps them, then the properties, each with an instance on a concrete state.
  The properties of boot go from \<^verbatim>\<open>boot_map_range\<close> over \<^verbatim>\<open>initialize_kernel_VM\<close> and \<^verbatim>\<open>page_check\<close> to \<^verbatim>\<open>FOS_initialize\<close> and from there to
  sessions at the prompt; those of the traps use those
  of the system calls, which use those of the page tables and the frame pool; the commands use all of them; the programs run on the
  system calls, the trap and the console of the kernel. A program that is loaded (\<^verbatim>\<open>program_loaded\<close>) starts in the state from which
  its steps are confined (\<^verbatim>\<open>programs_confined\<close>), also when its addresses are translated by the buffer
  (\<^verbatim>\<open>program_reaches_pool\<close>). What no change of the user pages touches is \<^verbatim>\<open>kernel_kept\<close>; so the kernel's own mappings
  (\<^verbatim>\<open>kernel_space\<close>) last from \<^verbatim>\<open>initialize_kernel_VM\<close> through the self-test and all sessions, and the state they leave is one from which no
  translation becomes stale (\<^verbatim>\<open>sessions_never_stale\<close>).

  \<^bold>\<open>Parameters.\<close> Addresses the linker or the compiler chooses (string literals, linker symbols, stack buffers) are
  parameters; the records \<^verbatim>\<open>image\<close>, \<^verbatim>\<open>boot_image\<close> and \<^verbatim>\<open>user_image\<close> collect them for the prompt, the start of the kernel and the
  programs. The contents of program images are arbitrary. The repository leaves two exercises of \<^verbatim>\<open>env_create\<close> open, the
  page directory of a new environment and \<^verbatim>\<open>program_segment_alloc_map\<close>; \<^verbatim>\<open>env_create\<close> is modelled as it is, with its panic, and
  \<^verbatim>\<open>env_create_with\<close> has the two as parameters. That the second keeps the promise of its comment is the hypothesis \<^verbatim>\<open>allocates\<close>,
  which \<^verbatim>\<open>grant\<close> satisfies. The disk controller of the boot loader is a parameter; that it delivers the
  sectors of a disk is the hypothesis \<^verbatim>\<open>serves\<close>. A program's registers other than the arguments of a system call are the
  same at all its calls.

  \<^bold>\<open>Not modelled.\<close> \<^verbatim>\<open>boot/boot.S\<close>, \<^verbatim>\<open>kern/trapentry.S\<close>, \<^verbatim>\<open>lib/entry.S\<close> and, but for its descriptor table, \<^verbatim>\<open>kern/entry.S\<close> are assembly; the
  effect of a trap is the frame that \<^verbatim>\<open>trap\<close> receives. Constants and prototypes without a use and the empty delay loop of \<^verbatim>\<open>user/game.c\<close> are left out. The buffer
  of translations is a state in \<^verbatim>\<open>FOS_Tlb\<close> only: elsewhere the invalidations are recorded (\<^verbatim>\<open>invlpgs\<close>), and translation reads the
  tables. The bits of a page-table entry that the processor sets when a page is used are not modelled.
\<close>

section \<open>From the reset of the machine to translations\<close>

text \<open>
  The state that the boot and any session leave is one from which no translation becomes stale: whatever the buffer holds then, as long as it
  agrees with the tables, and whatever the kernel does to the user pages next.
\<close>

theorem sessions_never_stale:
  fixes s :: kernel and bi :: boot_image
  defines "kb \<equiv> unat (script (con s) 0x71 (reads (con s) 0x71 + 2)) + 256 * unat (script (con s) 0x71 (reads (con s) 0x71 + 3))"
    and "im \<equiv> kernel_image bi"
  assumes "4 \<le> kb" "0xF0100000 \<le> end_of_kernel im"
    and "(unat (end_of_kernel im) - 0xF0000000 + 4095) div 4096 + ((256 + kb div 4) * 12 + 4095) div 4096 + 93 < 256 + kb div 4"
    and "start_of_uninitialized_data_section im < end_of_kernel im"
      "unat (end_of_kernel im - start_of_uninitialized_data_section im) < 2 ^ 31"
    and "KERNEL_BASE \<le> ptr_stack_bottom bi" "unat (ptr_stack_bottom bi) mod 4096 = 0"
  shows "\<exists>u F. FOS_initialize bi (s, tt) = run_command_prompt im u \<and>
    (\<forall>t b m b' la e. (prompt_step im)\<^sup>*\<^sup>* u t \<longrightarrow> coherent F (mm t) b \<longrightarrow> (tlb_step F)\<^sup>*\<^sup>* (mm t, b) (m, b') \<longrightarrow>
      b' (PPN la) = Some e \<longrightarrow> cr3 t = push_bit 12 F \<and> walk F m la = Some (push_bit 12 (PPN e) OR PGOFF la))"
proof -
  obtain u pin F where u: "FOS_initialize bi (s, tt) = run_command_prompt im u"
    "\<And>t. (prompt_step im)\<^sup>*\<^sup>* u t \<Longrightarrow> kernel_inv (ptr_stack_bottom bi) pin F t"
    using sessions_reach [where s = s and bi = bi and tt = tt, folded kb_def im_def, OF assms(3-9)] by blast
  have "cr3 t = push_bit 12 F \<and> walk F m la = Some (push_bit 12 (PPN e) OR PGOFF la)"
    if t: "(prompt_step im)\<^sup>*\<^sup>* u t" "coherent F (mm t) b" "(tlb_step F)\<^sup>*\<^sup>* (mm t, b) (m, b')" "b' (PPN la) = Some e" for t b m b' la e
  proof -
    have k: "cr3 t = push_bit 12 F" "tlb_inv F (mm t, b)" using u(2) [OF t(1)] t(2) by (auto simp: kernel_inv_def tlb_inv_def)
    have "coherent F m b'" using tlb_steps_keep [OF t(3) k(2)] by (simp add: tlb_inv_def)
    then show ?thesis using k(1) t(4) by (simp add: coherent_def walk_leaf)
  qed
  with u(1) show ?thesis by blast
qed

end
